(* ===== verification/Prelude.thy ===== *)
theory Prelude
  imports Complex_Main "HOL-Library.Word"
begin

unbundle bit_operations_syntax

text \<open>
  Shared vocabulary of the development: the machine words of the Go sources, the collections of
  rewrite rules the component theories add to, and the generic facts about lists, options, maps
  and words that more than one component uses.
\<close>

type_synonym u8 = "8 word"
type_synonym u16 = "16 word"
type_synonym u32 = "32 word"

text \<open>
  \<open>codec\<close> collects the rewrite rules of the wire formats, \<open>queue_rules\<close> those of the queues,
  \<open>ui_rules\<close> those of the browser-side state machines and \<open>parse_rules\<close> those of the parsers.
\<close>

named_theorems codec
named_theorems queue_rules
named_theorems ui_rules
named_theorems parse_rules

text \<open>Folding a step function over a list of inputs; the run of every state machine below.\<close>

fun run_steps :: "('s \<Rightarrow> 'e \<Rightarrow> 's) \<Rightarrow> 's \<Rightarrow> 'e list \<Rightarrow> 's" where
  "run_steps f s [] = s"
| "run_steps f s (e # es) = run_steps f (f s e) es"

lemma run_steps_append [simp]: "run_steps f s (xs @ ys) = run_steps f (run_steps f s xs) ys"
  by (induction xs arbitrary: s) auto

lemma run_steps_invariant:
  "P s \<Longrightarrow> (\<And>s e. P s \<Longrightarrow> P (f s e)) \<Longrightarrow> P (run_steps f s es)"
  by (induction es arbitrary: s) auto

text \<open>
  JavaScript strings that are built from numbers: the decimal digits of a natural number. Different
  numbers have different digit strings.
\<close>

definition digit_char :: "nat \<Rightarrow> char" where
  "digit_char d = char_of (48 + d)"

fun show_nat :: "nat \<Rightarrow> string" where
  "show_nat n = (if n < 10 then [digit_char n] else show_nat (n div 10) @ [digit_char (n mod 10)])"

declare show_nat.simps [simp del]

fun read_nat :: "string \<Rightarrow> nat" where
  "read_nat cs = foldl (\<lambda>n c. 10 * n + (of_char c - 48)) 0 cs"

declare read_nat.simps [simp del]

lemma of_char_digit: "d < 10 \<Longrightarrow> (of_char (digit_char d) :: nat) = 48 + d"
  by (simp add: digit_char_def)

lemma read_show_nat [simp]: "read_nat (show_nat n) = n"
proof (induction n rule: show_nat.induct)
  case (1 n)
  show ?case
  proof (cases "n < 10")
    case True
    then show ?thesis by (simp add: show_nat.simps [of n] read_nat.simps of_char_digit)
  next
    case False
    with 1 have "foldl (\<lambda>n c. 10 * n + (of_char c - 48)) 0 (show_nat (n div 10)) = n div 10"
      by (simp add: read_nat.simps)
    with False show ?thesis by (simp add: show_nat.simps [of n] read_nat.simps of_char_digit)
  qed
qed

lemma show_nat_inject [simp]: "show_nat m = show_nat n \<longleftrightarrow> m = n"
  by (metis read_show_nat)

text \<open>Lists read and written by index.\<close>

lemma takeWhile_append_stop:
  "\<forall>x\<in>set xs. P x \<Longrightarrow> \<not> P y \<Longrightarrow> takeWhile P (xs @ y # ys) = xs"
  by (induction xs) auto

lemma dropWhile_append_stop:
  "\<forall>x\<in>set xs. P x \<Longrightarrow> \<not> P y \<Longrightarrow> dropWhile P (xs @ y # ys) = y # ys"
  by (induction xs) auto

lemma length_dropWhile_le_Suc: "length (dropWhile P xs) < Suc (length xs)"
  by (simp add: length_dropWhile_le less_Suc_eq_le)

lemma list_of_length_6: "length xs = 6 \<Longrightarrow> \<exists>a b c d e f. xs = [a, b, c, d, e, f]"
  by (auto simp: eval_nat_numeral length_Suc_conv)

text \<open>
  Bits of machine words. A sixteen-bit word is its two bytes; a word is zero when it is shifted
  by its width; equations between short words reduce to their bits.
\<close>

lemma unat_u8: "unat (b :: u8) < 256"
  using unsigned_less [of b] by simp

lemma mask_255: "(255 :: 'a::len word) = mask 8"
  by (simp add: mask_eq_exp_minus_1)

lemma hi_lo_word16 [codec]:
  fixes v :: u16
  shows "push_bit 8 (ucast (ucast (drop_bit 8 v) :: u8)) OR ucast (ucast v :: u8) = v"
  by (rule bit_word_eqI) (auto simp: bit_simps)

lemma hi_byte [codec]: "(ucast (drop_bit 8 (push_bit 8 (ucast (h::u8)) OR ucast (l::u8) :: u16)) :: u8) = h"
  by (rule bit_word_eqI) (auto simp: bit_simps dest: bit_imp_le_length)

lemma lo_byte [codec]: "(ucast (push_bit 8 (ucast (h::u8)) OR ucast (l::u8) :: u16) :: u8) = l"
  by (rule bit_word_eqI) (auto simp: bit_simps)

lemma ucast_and_255 [codec]:
  fixes v :: u16
  shows "(ucast (v AND 255) :: u8) = ucast v"
  by (rule bit_word_eqI) (auto simp: bit_simps mask_255)

lemma xor_cancel_word: "a XOR (a XOR b) = (b :: 'a::len word)"
  by (simp flip: xor.assoc)

end
