(* ===== verification/Checksum.thy ===== *)
theory Checksum
  imports Prelude
begin

text \<open>
  The two checksums of the engine: the X.25 CRC of MAVLink frames (\<open>src/src/mavlink/x25/x25.go\<close>)
  and the table-driven CRC-16 of the cloud protocol (\<open>src/src/cloudlink/crc16/crc16.go\<close>). Both
  are a byte-wise update of a sixteen-bit register; the locale \<open>byte_checksum\<close> states the law the
  frame formats rely on (the update is injective in the register and in the byte) and proves once
  that a single altered byte always changes the checksum.
\<close>

section \<open>The interface\<close>

locale byte_checksum =
  fixes step :: "'c \<Rightarrow> u8 \<Rightarrow> 'c"
  assumes step_inj_state: "step c b = step c' b \<Longrightarrow> c = c'"
    and step_inj_byte: "step c b = step c b' \<Longrightarrow> b = b'"
begin

lemma fold_inj: "foldl step c bs = foldl step c' bs \<Longrightarrow> c = c'"
  by (induction bs arbitrary: c c') (auto dest: step_inj_state)

lemma one_byte_changed:
  assumes "b \<noteq> b'"
  shows "foldl step c (xs @ b # ys) \<noteq> foldl step c (xs @ b' # ys)"
proof
  assume "foldl step c (xs @ b # ys) = foldl step c (xs @ b' # ys)"
  then have "step (foldl step c xs) b = step (foldl step c xs) b'"
    using fold_inj by simp
  with assms show False by (blast dest: step_inj_byte)
qed

lemma one_byte_changed_update:
  assumes "i < length bs" and "b \<noteq> bs ! i"
  shows "foldl step c (bs[i := b]) \<noteq> foldl step c bs"
proof -
  have "bs[i := b] = take i bs @ b # drop (Suc i) bs"
    and "bs = take i bs @ bs ! i # drop (Suc i) bs"
    using assms by (auto simp: upd_conv_take_nth_drop id_take_nth_drop)
  with one_byte_changed [OF assms(2)] show ?thesis by metis
qed

lemma last_byte_changed: "b \<noteq> b' \<Longrightarrow> foldl step c (bs @ [b]) \<noteq> foldl step c (bs @ [b'])"
  using one_byte_changed [of b b' c bs "[]"] by simp

end

section \<open>X.25\<close>

definition x25_Reset :: u16 where
  "x25_Reset = 0xffff"

definition x25_WriteByte :: "u16 \<Rightarrow> u8 \<Rightarrow> u16" where
  "x25_WriteByte crc b =
     (let tmp = b XOR ucast (crc AND 0xff);
          tmp = tmp XOR push_bit 4 tmp
      in drop_bit 8 crc XOR push_bit 8 (ucast tmp) XOR push_bit 3 (ucast tmp)
         XOR drop_bit 4 (ucast tmp))"

definition x25_Write :: "u16 \<Rightarrow> u8 list \<Rightarrow> u16" where
  "x25_Write crc p = foldl x25_WriteByte crc p"

definition x25_Sum :: "u16 \<Rightarrow> u8 list \<Rightarrow> u8 list" where
  "x25_Sum crc bs = bs @ [ucast (drop_bit 8 crc), ucast crc]"

text \<open>
  The update mixes the low byte of the register with the input byte by an involution and then
  spreads the result, so both can be read back from the new register.
\<close>

definition spread :: "u8 \<Rightarrow> u8" where
  "spread t = t XOR push_bit 4 t"

definition mixed :: "u16 \<Rightarrow> u8" where
  "mixed out = (let h = ucast (drop_bit 8 out) in h XOR drop_bit 5 h)"

lemma spread_spread: "spread (spread s) = s"
  by (simp add: spread_def push_bit_xor xor.assoc)

lemma spread_eq_iff: "spread s = spread t \<longleftrightarrow> s = t"
  by (metis spread_spread)

lemma byte_parts:
  fixes t :: u8 and crc :: u16
  shows "(ucast (drop_bit 8 (drop_bit 8 crc)) :: u8) = 0"
    and "(ucast (drop_bit 8 (push_bit 8 (ucast t) :: u16)) :: u8) = t"
    and "(ucast (drop_bit 8 (push_bit 3 (ucast t) :: u16)) :: u8) = drop_bit 5 t"
    and "(ucast (drop_bit 8 (drop_bit 4 (ucast t) :: u16)) :: u8) = 0"
    and "drop_bit 5 (drop_bit 5 t) = 0"
  by (rule bit_word_eqI, auto simp: bit_simps dest: bit_imp_le_length)+

lemma mixed_spreaded:
  "mixed (drop_bit 8 crc XOR push_bit 8 (ucast t) XOR push_bit 3 (ucast t) XOR drop_bit 4 (ucast t)) = t"
  by (simp add: mixed_def Let_def drop_bit_xor unsigned_xor_eq byte_parts del: drop_bit_drop_bit)
     (simp add: xor.assoc)

lemma mixed_step: "mixed (x25_WriteByte crc b) = spread (b XOR ucast (crc AND 0xff))"
  by (simp only: x25_WriteByte_def spread_def Let_def mixed_spreaded)

lemma x25_split: "crc = crc' \<longleftrightarrow> drop_bit 8 crc = drop_bit 8 crc' \<and> (ucast crc :: u8) = ucast crc'"
  for crc crc' :: u16
  by (metis hi_lo_word16)

lemma x25_inj_byte: "x25_WriteByte c b = x25_WriteByte c b' \<Longrightarrow> b = b'"
  by (metis mixed_step spread_eq_iff xor.commute xor_cancel_word)

lemma x25_inj_state:
  assumes "x25_WriteByte c b = x25_WriteByte c' b"
  shows "c = c'"
proof -
  from assms have "b XOR ucast (c AND 0xff) = b XOR ucast (c' AND 0xff)"
    by (metis mixed_step spread_eq_iff)
  then have lo: "(ucast (c AND 0xff) :: u8) = ucast (c' AND 0xff)"
    by (metis xor_cancel_word)
  with assms have "drop_bit 8 c = drop_bit 8 c'"
    unfolding x25_WriteByte_def Let_def
    by (simp only: xor.assoc) (metis xor.commute xor_cancel_word)
  with lo show ?thesis
    by (simp add: x25_split [of c c'] ucast_and_255)
qed

interpretation x25: byte_checksum x25_WriteByte
  by unfold_locales (fact x25_inj_state, fact x25_inj_byte)

section \<open>CRC-16\<close>

definition TABLE :: "u16 list" where
  "TABLE = [
    0x0000, 0xc0c1, 0xc181, 0x0140, 0xc301, 0x03c0, 0x0280, 0xc241,
    0xc601, 0x06c0, 0x0780, 0xc741, 0x0500, 0xc5c1, 0xc481, 0x0440,
    0xcc01, 0x0cc0, 0x0d80, 0xcd41, 0x0f00, 0xcfc1, 0xce81, 0x0e40,
    0x0a00, 0xcac1, 0xcb81, 0x0b40, 0xc901, 0x09c0, 0x0880, 0xc841,
    0xd801, 0x18c0, 0x1980, 0xd941, 0x1b00, 0xdbc1, 0xda81, 0x1a40,
    0x1e00, 0xdec1, 0xdf81, 0x1f40, 0xdd01, 0x1dc0, 0x1c80, 0xdc41,
    0x1400, 0xd4c1, 0xd581, 0x1540, 0xd701, 0x17c0, 0x1680, 0xd641,
    0xd201, 0x12c0, 0x1380, 0xd341, 0x1100, 0xd1c1, 0xd081, 0x1040,
    0xf001, 0x30c0, 0x3180, 0xf141, 0x3300, 0xf3c1, 0xf281, 0x3240,
    0x3600, 0xf6c1, 0xf781, 0x3740, 0xf501, 0x35c0, 0x3480, 0xf441,
    0x3c00, 0xfcc1, 0xfd81, 0x3d40, 0xff01, 0x3fc0, 0x3e80, 0xfe41,
    0xfa01, 0x3ac0, 0x3b80, 0xfb41, 0x3900, 0xf9c1, 0xf881, 0x3840,
    0x2800, 0xe8c1, 0xe981, 0x2940, 0xeb01, 0x2bc0, 0x2a80, 0xea41,
    0xee01, 0x2ec0, 0x2f80, 0xef41, 0x2d00, 0xedc1, 0xec81, 0x2c40,
    0xe401, 0x24c0, 0x2580, 0xe541, 0x2700, 0xe7c1, 0xe681, 0x2640,
    0x2200, 0xe2c1, 0xe381, 0x2340, 0xe101, 0x21c0, 0x2080, 0xe041,
    0xa001, 0x60c0, 0x6180, 0xa141, 0x6300, 0xa3c1, 0xa281, 0x6240,
    0x6600, 0xa6c1, 0xa781, 0x6740, 0xa501, 0x65c0, 0x6480, 0xa441,
    0x6c00, 0xacc1, 0xad81, 0x6d40, 0xaf01, 0x6fc0, 0x6e80, 0xae41,
    0xaa01, 0x6ac0, 0x6b80, 0xab41, 0x6900, 0xa9c1, 0xa881, 0x6840,
    0x7800, 0xb8c1, 0xb981, 0x7940, 0xbb01, 0x7bc0, 0x7a80, 0xba41,
    0xbe01, 0x7ec0, 0x7f80, 0xbf41, 0x7d00, 0xbdc1, 0xbc81, 0x7c40,
    0xb401, 0x74c0, 0x7580, 0xb541, 0x7700, 0xb7c1, 0xb681, 0x7640,
    0x7200, 0xb2c1, 0xb381, 0x7340, 0xb101, 0x71c0, 0x7080, 0xb041,
    0x5000, 0x90c1, 0x9181, 0x5140, 0x9301, 0x53c0, 0x5280, 0x9241,
    0x9601, 0x56c0, 0x5780, 0x9741, 0x5500, 0x95c1, 0x9481, 0x5440,
    0x9c01, 0x5cc0, 0x5d80, 0x9d41, 0x5f00, 0x9fc1, 0x9e81, 0x5e40,
    0x5a00, 0x9ac1, 0x9b81, 0x5b40, 0x9901, 0x59c0, 0x5880, 0x9841,
    0x8801, 0x48c0, 0x4980, 0x8941, 0x4b00, 0x8bc1, 0x8a81, 0x4a40,
    0x4e00, 0x8ec1, 0x8f81, 0x4f40, 0x8d01, 0x4dc0, 0x4c80, 0x8c41,
    0x4400, 0x84c1, 0x8581, 0x4540, 0x8701, 0x47c0, 0x4680, 0x8641,
    0x8201, 0x42c0, 0x4380, 0x8341, 0x4100, 0x81c1, 0x8081, 0x4040]"

definition crc16_step :: "u16 \<Rightarrow> u8 \<Rightarrow> u16" where
  "crc16_step crc b =
     (TABLE ! unat ((crc XOR ucast b) AND 0xff) XOR drop_bit 8 crc) AND 0xffff"

definition Crc16 :: "u8 list \<Rightarrow> u16" where
  "Crc16 bs = foldl crc16_step 0 bs"

text \<open>The high bytes of the table are pairwise different: an entry determines its index.\<close>

lemma length_TABLE: "length TABLE = 256"
  by (simp add: TABLE_def)

lemma distinct_high_TABLE: "distinct (map (\<lambda>w. unat w div 256) TABLE)"
  by (simp add: TABLE_def)

lemma unat_and_255: "unat (w AND 255) < 256" for w :: u16
  using word_and_le1 [of w 255] by (simp add: word_le_nat_alt)

lemma drop_byte_div: "unat (drop_bit 8 w) = unat w div 256" for w :: u16
  by (simp add: drop_bit_eq_div unat_div)

lemma drop_byte_xor_high: "unat (w XOR drop_bit 8 c) div 256 = unat w div 256" for w c :: u16
proof -
  have "drop_bit 8 (drop_bit 8 c) = 0"
    by (rule bit_word_eqI) (auto simp: bit_simps)
  then have "drop_bit 8 (w XOR drop_bit 8 c) = drop_bit 8 w"
    by (simp only: drop_bit_xor) simp
  then show ?thesis by (metis drop_byte_div)
qed

lemma crc16_step_alt:
  "crc16_step crc b = TABLE ! unat ((crc XOR ucast b) AND 0xff) XOR drop_bit 8 crc"
proof -
  have "(0xffff :: u16) = - 1" by simp
  then show ?thesis by (simp only: crc16_step_def and.right_neutral)
qed

lemma TABLE_index_eq:
  assumes "i < 256" and "j < 256" and "unat (TABLE ! i) div 256 = unat (TABLE ! j) div 256"
  shows "i = j"
  using nth_eq_iff_index_eq [OF distinct_high_TABLE, of i j] assms by (simp add: length_TABLE)

text \<open>Equal new registers were produced through the same table entry.\<close>

lemma crc16_step_index:
  assumes "crc16_step c b = crc16_step c' b'"
  shows "(c XOR ucast b) AND 0xff = (c' XOR ucast b') AND 0xff"
    and "drop_bit 8 c = drop_bit 8 c'"
proof -
  let ?i = "(c XOR ucast b) AND 0xff" and ?j = "(c' XOR ucast b') AND 0xff"
  from assms have eq: "TABLE ! unat ?i XOR drop_bit 8 c = TABLE ! unat ?j XOR drop_bit 8 c'"
    by (simp only: crc16_step_alt)
  then have "unat (TABLE ! unat ?i) div 256 = unat (TABLE ! unat ?j) div 256"
    by (metis drop_byte_xor_high)
  then have "unat ?i = unat ?j"
    by (rule TABLE_index_eq [OF unat_and_255 unat_and_255])
  then show ij: "?i = ?j" by (simp add: word_unat_eq_iff)
  show "drop_bit 8 c = drop_bit 8 c'"
    using eq unfolding ij by (metis xor_cancel_word)
qed

lemma low_byte_xor: "(ucast ((c XOR ucast b) AND 0xff :: u16) :: u8) = ucast c XOR b"
  by (rule bit_word_eqI) (auto simp: bit_simps mask_255)

lemma crc16_inj_byte: "crc16_step c b = crc16_step c b' \<Longrightarrow> b = b'"
  by (metis crc16_step_index(1) low_byte_xor xor_cancel_word)

lemma crc16_inj_state:
  assumes "crc16_step c b = crc16_step c' b"
  shows "c = c'"
proof -
  from crc16_step_index(1) [OF assms] have "ucast c XOR b = ucast c' XOR b"
    by (metis low_byte_xor)
  then have "(ucast c :: u8) = ucast c'" by (metis xor.commute xor_cancel_word)
  with crc16_step_index(2) [OF assms] show ?thesis by (simp only: x25_split [of c c'])
qed

interpretation crc16: byte_checksum crc16_step
  by unfold_locales (fact crc16_inj_state, fact crc16_inj_byte)

text \<open>
  The table is the usual one: an entry is the eight-fold division step of the reflected polynomial
  \<open>0xA001\<close> applied to its index.
\<close>

definition crc16_bit :: "u16 \<Rightarrow> u16" where
  "crc16_bit w = (if odd w then drop_bit 1 w XOR 0xA001 else drop_bit 1 w)"

lemma crc16_bit_numerals:
  "crc16_bit 0 = 0" "crc16_bit 1 = 0xA001"
  "crc16_bit (numeral (num.Bit0 n)) = drop_bit 1 (numeral (num.Bit0 n))"
  "crc16_bit (numeral (num.Bit1 n)) = drop_bit 1 (numeral (num.Bit1 n)) XOR 0xA001"
  by (simp_all add: crc16_bit_def)

text \<open>
  The division step is linear, so the table is generated by its entries at the powers of two:
  doubling a table adds the next of these entries to every entry so far.
\<close>

lemma crc16_bit_xor: "crc16_bit (x XOR y) = crc16_bit x XOR crc16_bit y"
  by (simp add: crc16_bit_def even_xor_iff drop_bit_xor xor.assoc xor.commute xor.left_commute)

lemma crc16_bits_xor: "(crc16_bit ^^ n) (x XOR y) = (crc16_bit ^^ n) x XOR (crc16_bit ^^ n) y"
  by (induction n) (simp_all add: crc16_bit_xor)

lemma crc16_bits_0: "(crc16_bit ^^ n) 0 = 0"
  by (induction n) (simp_all add: crc16_bit_numerals)

fun double_table :: "u16 list \<Rightarrow> u16 list" where
  "double_table [] = [0]"
| "double_table (b # bs) = double_table bs @ map (\<lambda>w. b XOR w) (double_table bs)"

lemma double_table_linear:
  assumes "f 0 = 0" and "\<And>x y. f (x XOR y) = f x XOR f y"
  shows "double_table (map f bs) = map f (double_table bs)"
  using assms by (induction bs) simp_all

lemma double_table_powers:
  "double_table [128, 64, 32, 16, 8, 4, 2, 1] = map word_of_nat [0..<256]"
  by (simp add: upt_conv_Cons)

lemma crc16_bits_8:
  "(crc16_bit ^^ 8) w = crc16_bit (crc16_bit (crc16_bit (crc16_bit
     (crc16_bit (crc16_bit (crc16_bit (crc16_bit w)))))))"
  by (simp add: eval_nat_numeral)

lemma crc16_bits_powers:
  "map (crc16_bit ^^ 8) [128, 64, 32, 16, 8, 4, 2, 1] =
   [0xA001, 0xF001, 0xD801, 0xCC01, 0xC601, 0xC301, 0xC181, 0xC0C1]"
  by (simp add: crc16_bits_8 crc16_bit_numerals)

lemma TABLE_doubled: "TABLE = double_table [0xA001, 0xF001, 0xD801, 0xCC01, 0xC601, 0xC301, 0xC181, 0xC0C1]"
  by (simp add: TABLE_def)

lemma TABLE_entries: "TABLE = map (\<lambda>i. (crc16_bit ^^ 8) (word_of_nat i)) [0..<256]"
proof -
  have "TABLE = map (crc16_bit ^^ 8) (double_table [128, 64, 32, 16, 8, 4, 2, 1])"
    unfolding TABLE_doubled crc16_bits_powers [symmetric]
    by (rule double_table_linear [OF crc16_bits_0 crc16_bits_xor])
  then show ?thesis unfolding double_table_powers by (simp add: comp_def)
qed

lemma TABLE_nth: "i < 256 \<Longrightarrow> TABLE ! i = (crc16_bit ^^ 8) (word_of_nat i)"
  by (simp add: TABLE_entries)

text \<open>A division step leaves the bits above the ones it consumes to a plain shift.\<close>

lemma crc16_bit_xor_even:
  assumes "\<not> bit y 0"
  shows "crc16_bit (x XOR y) = crc16_bit x XOR drop_bit 1 y"
  using assms
  by (auto simp: crc16_bit_def bit_0 even_xor_iff drop_bit_xor xor.assoc xor.commute xor.left_commute)

lemma crc16_bits_xor_high:
  assumes "\<forall>i<n. \<not> bit y i"
  shows "(crc16_bit ^^ n) (x XOR y) = (crc16_bit ^^ n) x XOR drop_bit n y"
  using assms
proof (induction n)
  case 0
  then show ?case by simp
next
  case (Suc n)
  then have "(crc16_bit ^^ n) (x XOR y) = (crc16_bit ^^ n) x XOR drop_bit n y" by simp
  moreover have "\<not> bit (drop_bit n y) 0" using Suc.prems by (simp add: bit_drop_bit_eq)
  ultimately show ?case by (simp add: crc16_bit_xor_even drop_bit_drop_bit add.commute)
qed

lemma crc16_step_bits: "crc16_step crc b = (crc16_bit ^^ 8) (crc XOR ucast b)"
proof -
  let ?w = "crc XOR ucast b" and ?m = "NOT (mask 8) :: u16"
  have split: "?w = (?w AND 0xff) XOR (?w AND ?m)"
    by (rule bit_word_eqI) (auto simp: bit_simps mask_255)
  have high: "drop_bit 8 (?w AND ?m) = drop_bit 8 crc"
    by (rule bit_word_eqI) (auto simp: bit_simps dest: bit_imp_le_length)
  have "\<forall>i<8. \<not> bit (?w AND ?m) i" by (auto simp: bit_simps)
  then have "(crc16_bit ^^ 8) ?w = (crc16_bit ^^ 8) (?w AND 0xff) XOR drop_bit 8 crc"
    using crc16_bits_xor_high [of 8 "?w AND ?m" "?w AND 0xff"] split high by simp
  then show ?thesis
    by (simp add: crc16_step_alt TABLE_nth unat_and_255)
qed

definition crc16_reference :: "u8 list \<Rightarrow> u16" where
  "crc16_reference bs = foldl (\<lambda>crc b. (crc16_bit ^^ 8) (crc XOR ucast b)) 0 bs"

section \<open>Properties\<close>

text \<open>
  C7. The table-driven CRC-16 of the DDP datagrams is the bitwise CRC it is a table for: processing
  each byte bit by bit with the reflected polynomial gives the same checksum on every input.
\<close>

theorem Crc16_is_bitwise: "Crc16 bs = crc16_reference bs"
proof -
  have "crc16_step = (\<lambda>crc b. (crc16_bit ^^ 8) (crc XOR ucast b))"
    by (intro ext) (rule crc16_step_bits)
  then show ?thesis by (simp only: Crc16_def crc16_reference_def)
qed

text \<open>
  X.25 detects every single altered byte: after any start state, two inputs that differ in
  exactly one byte have different checksums.
\<close>

lemma x25_detects_one_byte:
  assumes "i < length bs" and "b \<noteq> bs ! i"
  shows "x25_Write crc (bs[i := b]) \<noteq> x25_Write crc bs"
  unfolding x25_Write_def using x25.one_byte_changed_update assms by blast

end
