(* ===== verification/Mavlink.thy ===== *)
theory Mavlink
  imports Checksum
begin

text \<open>
  MAVLink framing (\<open>src/src/mavlink/parser/message.go\<close>, \<open>dialect.go\<close> and the CRC seeds of
  \<open>common.go\<close>): packets, dialects, the stream decoder, the datagram decoder and the encoder with the
  buffered writer it runs on. A reader is the list of bytes still to come, a writer is the buffer
  of Go's \<open>bufio.Writer\<close> with the bytes it has passed on.
\<close>

section \<open>Packets, errors and dialects\<close>

record packet =
  SeqID :: u8
  SysID :: u8
  CompID :: u8
  MsgID :: u8
  Payload :: "u8 list"
  pChecksum :: u16

datatype mav_error =
  ErrUnknownMsgID | ErrCrcFail | EOF | ErrUnexpectedEOF | InvalidHeader | ErrShortWrite | WriteFailed

definition startByte :: u8 where "startByte = 0xfe"
definition numChecksumBytes :: nat where "numChecksumBytes = 2"
definition hdrLen :: nat where "hdrLen = 6"

record dialect =
  dName :: string
  crcExtras :: "u8 \<rightharpoonup> u8"

fun findCrcX :: "dialect list \<Rightarrow> u8 \<Rightarrow> mav_error + u8" where
  "findCrcX [] msgid = Inl ErrUnknownMsgID"
| "findCrcX (d # ds) msgid =
     (case crcExtras d msgid of Some crcx \<Rightarrow> Inr crcx | None \<Rightarrow> findCrcX ds msgid)"

declare findCrcX.simps [simp del]

text \<open>\<open>IndexOf\<close> returns -1 when no dialect of the slice has the name.\<close>

fun IndexOf_from :: "int \<Rightarrow> dialect list \<Rightarrow> dialect \<Rightarrow> int" where
  "IndexOf_from i [] d = -1"
| "IndexOf_from i (dlct # ds) d = (if dName d = dName dlct then i else IndexOf_from (i + 1) ds d)"

definition IndexOf :: "dialect list \<Rightarrow> dialect \<Rightarrow> int" where
  "IndexOf ds d = IndexOf_from 0 ds d"

definition Add :: "dialect list \<Rightarrow> dialect \<Rightarrow> dialect list" where
  "Add ds d = (if IndexOf ds d < 0 then ds @ [d] else ds)"

definition Remove :: "dialect list \<Rightarrow> dialect \<Rightarrow> dialect list" where
  "Remove ds d =
     (let i = IndexOf ds d
      in if i \<ge> 0 then take (nat i) ds @ drop (nat i + 1) ds else ds)"

definition common_crcExtras :: "(u8 \<times> u8) list" where
  "common_crcExtras = [
     (0, 50), (1, 124), (2, 137), (4, 237), (5, 217), (6, 104), (7, 119), (11, 89),
     (20, 214), (21, 159), (22, 220), (23, 168), (24, 24), (25, 23), (26, 170), (27, 144),
     (28, 67), (29, 115), (30, 39), (31, 246), (32, 185), (33, 104), (34, 237), (35, 244),
     (36, 175), (37, 212), (38, 9), (39, 254), (40, 230), (41, 28), (42, 28), (43, 132),
     (44, 221), (45, 232), (46, 11), (47, 153), (48, 41), (49, 39), (50, 78), (51, 196),
     (54, 15), (55, 3), (61, 167), (62, 183), (63, 119), (64, 191), (65, 118), (66, 148),
     (67, 21), (69, 243), (70, 124), (73, 38), (74, 20), (75, 158), (76, 152), (77, 143),
     (81, 106), (82, 49), (83, 22), (84, 143), (85, 140), (86, 5), (87, 150), (89, 231),
     (90, 183), (91, 63), (92, 54), (93, 47), (100, 175), (101, 102), (102, 158), (103, 208),
     (104, 56), (105, 93), (106, 138), (107, 108), (108, 32), (109, 185), (110, 84), (111, 34),
     (112, 174), (113, 124), (114, 237), (115, 4), (116, 76), (117, 128), (118, 56), (119, 116),
     (120, 134), (121, 237), (122, 203), (123, 250), (124, 87), (125, 203), (126, 220), (127, 25),
     (128, 226), (129, 46), (130, 29), (131, 223), (132, 85), (133, 6), (134, 229), (135, 203),
     (136, 1), (137, 195), (138, 109), (139, 168), (140, 181), (141, 47), (142, 72), (143, 131),
     (144, 127), (146, 103), (147, 154), (148, 178), (149, 200), (230, 163), (231, 105), (232, 151),
     (233, 35), (234, 150), (241, 90), (242, 104), (243, 85), (244, 95), (245, 130), (246, 184),
     (247, 81), (248, 8), (249, 204), (250, 49), (251, 170), (252, 44), (253, 83), (254, 46)]"

definition DialectCommon :: dialect where
  "DialectCommon = \<lparr>dName = ''common'', crcExtras = map_of common_crcExtras\<rparr>"

section \<open>The stream decoder\<close>

record decoder =
  dCurrSeqID :: u8
  dDialects :: "dialect list"

definition u16ToBytes :: "u16 \<Rightarrow> u8 list" where
  "u16ToBytes v = [ucast (v AND 0xff), ucast (drop_bit 8 v)]"

text \<open>
  \<open>bytesToU16\<close> indexes its argument twice; on fewer than two bytes the program panics, which is
  \<open>None\<close>.
\<close>

fun bytesToU16 :: "u8 list \<Rightarrow> u16 option" where
  "bytesToU16 (b0 # b1 # _) = Some (push_bit 8 (ucast b1) OR ucast b0)"
| "bytesToU16 _ = None"

text \<open>
  \<open>newPacketFromBytes\<close> reads five bytes: length, sequence, system, component and message id; a
  shorter argument panics.
\<close>

fun newPacketFromBytes :: "u8 list \<Rightarrow> (packet \<times> nat) option" where
  "newPacketFromBytes (b0 # b1 # b2 # b3 # b4 # _) =
     Some (\<lparr>SeqID = b1, SysID = b2, CompID = b3, MsgID = b4, Payload = [], pChecksum = 0\<rparr>, unat b0)"
| "newPacketFromBytes _ = None"

text \<open>The loop that discards bytes up to and including the start byte.\<close>

fun skip_to_start :: "u8 list \<Rightarrow> mav_error + u8 list" where
  "skip_to_start [] = Inl EOF"
| "skip_to_start (c # br) = (if c = startByte then Inr br else skip_to_start br)"

text \<open>
  \<open>io.ReadFull\<close> of \<open>n\<close> bytes: the bytes and the rest of the input, \<open>EOF\<close> when there was nothing
  to read and \<open>ErrUnexpectedEOF\<close> when the input ended in between.
\<close>

definition ReadFull :: "nat \<Rightarrow> u8 list \<Rightarrow> mav_error + u8 list \<times> u8 list" where
  "ReadFull n br =
     (if n \<le> length br then Inr (take n br, drop n br)
      else if br = [] then Inl EOF else Inl ErrUnexpectedEOF)"

text \<open>
  \<open>Decode\<close> returns the packet, if one was allocated, the error, if there was one, the decoder and
  what is left of the input. A panic would be \<open>None\<close>; \<open>Decode_total\<close> shows there is none.
\<close>

definition Decode ::
  "decoder \<Rightarrow> u8 list \<Rightarrow> ((packet option \<times> mav_error option) \<times> decoder \<times> u8 list) option" where
  "Decode dec br =
    (case skip_to_start br of
       Inl err \<Rightarrow> Some ((None, Some err), dec, [])
     | Inr br1 \<Rightarrow>
    (case ReadFull 5 br1 of
       Inl err \<Rightarrow> Some ((None, Some err), dec, [])
     | Inr (hdr, br2) \<Rightarrow>
    (case newPacketFromBytes hdr of
       None \<Rightarrow> None
     | Some (p, payloadLen) \<Rightarrow>
    (let crc = x25_Write x25_Reset hdr
     in case ReadFull (payloadLen + numChecksumBytes) br2 of
       Inl err \<Rightarrow> Some ((Some p, Some err), dec, [])
     | Inr (buf, br3) \<Rightarrow>
    (let p = p\<lparr>Payload := take payloadLen buf\<rparr>;
         crc = x25_Write crc (Payload p)
     in case findCrcX (dDialects dec) (MsgID p) of
       Inl err \<Rightarrow> Some ((Some p, Some err), dec, br3)
     | Inr crcx \<Rightarrow>
    (let crc = x25_WriteByte crc crcx
     in case bytesToU16 (drop payloadLen buf) of
       None \<Rightarrow> None
     | Some cs \<Rightarrow>
    (let p = p\<lparr>pChecksum := cs\<rparr>
     in if pChecksum p \<noteq> crc then Some ((Some p, Some ErrCrcFail), dec, br3)
        else Some ((Some p, None), dec\<lparr>dCurrSeqID := SeqID p\<rparr>, br3))))))))"

section \<open>The datagram decoder\<close>

text \<open>
  A Go slice reaches from its start to its capacity: \<open>arr\<close> holds these bytes and \<open>len\<close> says how
  many belong to the slice. Slicing may extend to the capacity, indexing and the default end only
  to \<open>len\<close>; beyond them the program panics (\<open>None\<close>).
\<close>

record goslice =
  arr :: "u8 list"
  len :: nat

definition slice_ok :: "goslice \<Rightarrow> bool" where
  "slice_ok b \<longleftrightarrow> len b \<le> length (arr b)"

definition sub_slice :: "goslice \<Rightarrow> nat \<Rightarrow> nat \<Rightarrow> u8 list option" where
  "sub_slice b lo hi =
     (if lo \<le> hi \<and> hi \<le> length (arr b) then Some (take (hi - lo) (drop lo (arr b))) else None)"

definition DecodeBytes :: "goslice \<Rightarrow> (packet option \<times> mav_error option) option" where
  "DecodeBytes b =
    (if len b < hdrLen \<or> arr b ! 0 \<noteq> startByte then Some (None, Some InvalidHeader)
     else case Option.bind (sub_slice b 1 (len b)) newPacketFromBytes of
       None \<Rightarrow> None
     | Some (p, payloadLen) \<Rightarrow>
    (case sub_slice b hdrLen (hdrLen + payloadLen) of
       None \<Rightarrow> None
     | Some payload \<Rightarrow>
    (let p = p\<lparr>Payload := payload\<rparr>
     in case sub_slice b 1 (hdrLen + payloadLen) of
       None \<Rightarrow> None
     | Some body \<Rightarrow>
    (let crc = x25_Write x25_Reset body
     in case findCrcX [DialectCommon] (MsgID p) of
       Inl err \<Rightarrow> Some (Some p, Some err)
     | Inr crcx \<Rightarrow>
    (let crc = x25_WriteByte crc crcx
     in case Option.bind (sub_slice b (hdrLen + payloadLen) (len b)) bytesToU16 of
       None \<Rightarrow> None
     | Some cs \<Rightarrow>
    (let p = p\<lparr>pChecksum := cs\<rparr>
     in if pChecksum p \<noteq> crc then Some (Some p, Some ErrCrcFail) else Some (Some p, None)))))))"

section \<open>The encoder and its buffered writer\<close>

text \<open>
  \<open>bufio.Writer\<close>: at most 4096 buffered bytes, the bytes the underlying writer has accepted, and
  the sticky error. The underlying writer is the parameter \<open>sink\<close>: given what it has accepted so far
  and a chunk, it says how many bytes of the chunk it takes; taking fewer than all is a failure.
\<close>

record bufw =
  bbuf :: "u8 list"
  bout :: "u8 list"
  berr :: bool

type_synonym sink = "u8 list \<Rightarrow> u8 list \<Rightarrow> nat"

definition bufSize :: nat where "bufSize = 4096"

definition Flush :: "sink \<Rightarrow> bufw \<Rightarrow> mav_error option \<times> bufw" where
  "Flush sink w =
    (if berr w then (Some WriteFailed, w)
     else if bbuf w = [] then (None, w)
     else let n = min (sink (bout w) (bbuf w)) (length (bbuf w));
              w' = w\<lparr>bout := bout w @ take n (bbuf w), bbuf := drop n (bbuf w)\<rparr>
          in if n < length (bbuf w) then (Some WriteFailed, w'\<lparr>berr := True\<rparr>) else (None, w'))"

definition write_direct :: "sink \<Rightarrow> bufw \<Rightarrow> u8 list \<Rightarrow> nat \<times> mav_error option \<times> bufw" where
  "write_direct sink w p =
     (let n = min (sink (bout w) p) (length p);
          w' = w\<lparr>bout := bout w @ take n p\<rparr>
      in if n < length p then (n, Some WriteFailed, w'\<lparr>berr := True\<rparr>) else (n, None, w'))"

lemma Flush_ok_empties: "\<not> berr (snd (Flush sink w)) \<Longrightarrow> bbuf (snd (Flush sink w)) = []"
  by (auto simp: Flush_def Let_def split: if_splits)

function Write :: "sink \<Rightarrow> bufw \<Rightarrow> u8 list \<Rightarrow> nat \<times> mav_error option \<times> bufw" where
  "Write sink w p =
    (if berr w then (0, Some WriteFailed, w)
     else if length p \<le> bufSize - length (bbuf w) then (length p, None, w\<lparr>bbuf := bbuf w @ p\<rparr>)
     else if bbuf w = [] then write_direct sink w p
     else let k = bufSize - length (bbuf w);
              w' = snd (Flush sink (w\<lparr>bbuf := bbuf w @ take k p\<rparr>))
          in if berr w' then (k, Some WriteFailed, w')
             else let (n, err, w'') = Write sink w' (drop k p) in (k + n, err, w''))"
  by pat_completeness auto
termination
  by (relation "measure (\<lambda>(sink, w, p). length p + length (bbuf w))")
     (auto simp: Flush_ok_empties bufSize_def)

declare Write.simps [simp del]

record encoder =
  eCurrSeqID :: u8
  eDialects :: "dialect list"
  bw :: bufw

definition writeAndCheck :: "sink \<Rightarrow> encoder \<Rightarrow> u8 list \<Rightarrow> mav_error option \<times> encoder" where
  "writeAndCheck sink enc p =
     (let (n, err, w) = Write sink (bw enc) p; enc' = enc\<lparr>bw := w\<rparr>
      in if err = None \<and> n \<noteq> length p then (Some ErrShortWrite, enc') else (err, enc'))"

definition frame_header :: "u8 \<Rightarrow> packet \<Rightarrow> u8 list" where
  "frame_header seq p =
     [startByte, word_of_nat (length (Payload p)), seq, SysID p, CompID p, MsgID p]"

definition EncodePacket :: "sink \<Rightarrow> encoder \<Rightarrow> packet \<Rightarrow> mav_error option \<times> encoder" where
  "EncodePacket sink enc p =
    (let hdr = frame_header (eCurrSeqID enc) p
     in case writeAndCheck sink enc hdr of
       (Some err, enc) \<Rightarrow> (Some err, enc)
     | (None, enc) \<Rightarrow>
    (let crc = x25_Write x25_Reset (tl hdr)
     in case writeAndCheck sink enc (Payload p) of
       (Some err, enc) \<Rightarrow> (Some err, enc)
     | (None, enc) \<Rightarrow>
    (let crc = x25_Write crc (Payload p)
     in case findCrcX (eDialects enc) (MsgID p) of
       Inl err \<Rightarrow> (Some err, enc)
     | Inr crcx \<Rightarrow>
    (let crc = x25_WriteByte crc crcx
     in case writeAndCheck sink enc (u16ToBytes crc) of
       (Some err, enc) \<Rightarrow> (Some err, enc)
     | (None, enc) \<Rightarrow>
    (case Flush sink (bw enc) of
       (Some err, w) \<Rightarrow> (Some err, enc\<lparr>bw := w\<rparr>)
     | (None, w) \<Rightarrow> (None, enc\<lparr>bw := w, eCurrSeqID := eCurrSeqID enc + 1\<rparr>))))))"

text \<open>\<open>Encode\<close> packs a message and addresses it; \<open>pack\<close> is the message's own \<open>Pack\<close> method.\<close>

definition Encode ::
  "sink \<Rightarrow> encoder \<Rightarrow> u8 \<Rightarrow> u8 \<Rightarrow> (packet \<Rightarrow> mav_error + packet) \<Rightarrow> mav_error option \<times> encoder" where
  "Encode sink enc sysID compID pack =
     (case pack \<lparr>SeqID = 0, SysID = 0, CompID = 0, MsgID = 0, Payload = [], pChecksum = 0\<rparr> of
        Inl err \<Rightarrow> (Some err, enc)
      | Inr p \<Rightarrow> EncodePacket sink enc (p\<lparr>SysID := sysID, CompID := compID\<rparr>))"

section \<open>The bytes of a frame\<close>

text \<open>The frame of a packet under a CRC seed, the specification both directions are proved against.\<close>

definition frame_body :: "u8 \<Rightarrow> packet \<Rightarrow> u8 list" where
  "frame_body seq p = tl (frame_header seq p) @ Payload p"

definition frame_crc :: "u8 \<Rightarrow> packet \<Rightarrow> u8 \<Rightarrow> u16" where
  "frame_crc seq p crcx = x25_WriteByte (x25_Write x25_Reset (frame_body seq p)) crcx"

definition frame :: "u8 \<Rightarrow> packet \<Rightarrow> u8 \<Rightarrow> u8 list" where
  "frame seq p crcx = startByte # frame_body seq p @ u16ToBytes (frame_crc seq p crcx)"

lemma length_u16ToBytes [simp]: "length (u16ToBytes v) = 2"
  by (simp add: u16ToBytes_def)

lemma bytes_u16_roundtrip [codec]: "bytesToU16 (u16ToBytes v @ bs) = Some v"
  by (simp add: u16ToBytes_def ucast_and_255 hi_lo_word16)

lemma u16ToBytes_of_bytes: "u16ToBytes (push_bit 8 (ucast c1) OR ucast c0) = [c0, c1]"
  by (simp add: u16ToBytes_def codec del: drop_bit_or)

lemma bytesToU16_two:
  assumes "length bs = 2"
  obtains v where "bytesToU16 bs = Some v" and "bs = u16ToBytes v"
proof -
  obtain b0 b1 where "bs = [b0, b1]"
    using assms by (auto simp: eval_nat_numeral length_Suc_conv)
  then show ?thesis
    using that [of "push_bit 8 (ucast b1) OR ucast b0"]
    by (simp add: u16ToBytes_def codec del: drop_bit_or)
qed

lemma x25_Write_append [codec]: "x25_Write c (xs @ ys) = x25_Write (x25_Write c xs) ys"
  by (simp add: x25_Write_def)

lemma frame_crc_parts:
  "frame_crc b1 \<lparr>SeqID = s, SysID = b2, CompID = b3, MsgID = b4, Payload = pay, pChecksum = v\<rparr> crcx =
     x25_WriteByte (x25_Write (x25_Write x25_Reset [word_of_nat (length pay), b1, b2, b3, b4]) pay) crcx"
  using x25_Write_append [of x25_Reset "[word_of_nat (length pay), b1, b2, b3, b4]" pay]
  by (simp add: frame_crc_def frame_body_def frame_header_def)

lemma frame_parts:
  "frame b1 \<lparr>SeqID = s, SysID = b2, CompID = b3, MsgID = b4, Payload = pay, pChecksum = v\<rparr> crcx =
     startByte # [word_of_nat (length pay), b1, b2, b3, b4] @ pay @
       u16ToBytes (x25_WriteByte (x25_Write (x25_Write x25_Reset [word_of_nat (length pay), b1, b2, b3, b4]) pay) crcx)"
  by (simp add: frame_def frame_crc_parts) (simp add: frame_body_def frame_header_def)

lemma length_frame: "length (frame seq p crcx) = length (Payload p) + 8"
  by (simp add: frame_def frame_body_def frame_header_def)

lemma skip_to_start_junk:
  "startByte \<notin> set junk \<Longrightarrow> skip_to_start (junk @ startByte # br) = Inr br"
  by (induction junk) auto

lemma skip_to_start_Inr:
  "skip_to_start br = Inr br1 \<Longrightarrow> \<exists>junk. startByte \<notin> set junk \<and> br = junk @ startByte # br1"
proof (induction br)
  case (Cons c br)
  show ?case
  proof (cases "c = startByte")
    case True
    with Cons.prems show ?thesis by (intro exI [of _ "[]"]) simp
  next
    case False
    with Cons.prems Cons.IH obtain junk where "startByte \<notin> set junk" "br = junk @ startByte # br1"
      by auto
    with False show ?thesis by (intro exI [of _ "c # junk"]) simp
  qed
qed simp

section \<open>Decoding\<close>

text \<open>
  A frame whose length byte and CRC bytes are whatever they are: the decoder reads it, looks the
  seed up and compares. \<open>Decode_bytes\<close> evaluates the decoder on any complete frame.
\<close>

definition received :: "u8 \<Rightarrow> packet \<Rightarrow> packet" where
  "received seq p = p\<lparr>SeqID := seq\<rparr>"

lemma ReadFull_append [codec]: "n = length xs \<Longrightarrow> ReadFull n (xs @ ys) = Inr (xs, ys)"
  by (simp add: ReadFull_def)

lemma ReadFull_Inr:
  "ReadFull n br = Inr (xs, ys) \<Longrightarrow> br = xs @ ys \<and> length xs = n"
  by (auto simp: ReadFull_def split: if_splits)

lemma newPacketFromBytes_five:
  "length hdr = 5 \<Longrightarrow> \<exists>b0 b1 b2 b3 b4. hdr = [b0, b1, b2, b3, b4]"
  by (auto simp: eval_nat_numeral length_Suc_conv)

text \<open>The decoder never panics: the slices it indexes have the lengths it allocated.\<close>

lemma header_parses: "ReadFull 5 br = Inr (hdr, br') \<Longrightarrow> newPacketFromBytes hdr \<noteq> None"
  using newPacketFromBytes_five ReadFull_Inr by fastforce

lemma checksum_parses:
  assumes "ReadFull (n + numChecksumBytes) br = Inr (buf, br')"
  shows "bytesToU16 (drop n buf) \<noteq> None"
proof -
  have "length (drop n buf) = 2"
    using assms by (auto dest!: ReadFull_Inr simp: numChecksumBytes_def)
  then show ?thesis by (rule bytesToU16_two) simp
qed

lemma Decode_total: "Decode dec br \<noteq> None"
  by (auto simp: Decode_def Let_def dest: header_parses checksum_parses split: sum.splits option.splits)

lemma Decode_bytes:
  assumes "length payload = unat b0" and "length cs = 2" and "startByte \<notin> set junk"
    and "p = \<lparr>SeqID = b1, SysID = b2, CompID = b3, MsgID = b4, Payload = payload, pChecksum = 0\<rparr>"
  shows "Decode dec (junk @ startByte # [b0, b1, b2, b3, b4] @ payload @ cs @ rest) =
    (case findCrcX (dDialects dec) b4 of
       Inl err \<Rightarrow> Some ((Some p, Some err), dec, rest)
     | Inr crcx \<Rightarrow>
         let v = the (bytesToU16 cs); p' = p\<lparr>pChecksum := v\<rparr>
         in if v = x25_WriteByte (x25_Write (x25_Write x25_Reset [b0, b1, b2, b3, b4]) payload) crcx
            then Some ((Some p', None), dec\<lparr>dCurrSeqID := b1\<rparr>, rest)
            else Some ((Some p', Some ErrCrcFail), dec, rest))"
proof -
  let ?h = "[b0, b1, b2, b3, b4]"
  have 1: "ReadFull 5 (?h @ payload @ cs @ rest) = Inr (?h, payload @ cs @ rest)"
    by (rule ReadFull_append) simp
  have 2: "ReadFull (unat b0 + numChecksumBytes) (payload @ cs @ rest) = Inr (payload @ cs, rest)"
    using ReadFull_append [of "unat b0 + numChecksumBytes" "payload @ cs" rest] assms
    by (simp add: numChecksumBytes_def)
  obtain c0 c1 where cs: "cs = [c0, c1]"
    using assms(2) by (auto simp: eval_nat_numeral length_Suc_conv)
  have 3: "newPacketFromBytes ?h =
      Some (\<lparr>SeqID = b1, SysID = b2, CompID = b3, MsgID = b4, Payload = [], pChecksum = 0\<rparr>, unat b0)"
    by simp
  show ?thesis
    unfolding Decode_def skip_to_start_junk [OF assms(3)] sum.case 1 prod.case 3 option.case Let_def 2
    using assms(1,4) by (auto simp: cs split: sum.splits)
qed

lemma Decode_frame:
  assumes "length (Payload p) < 256" and "findCrcX (dDialects dec) (MsgID p) = Inr crcx"
    and "startByte \<notin> set junk"
  shows "Decode dec (junk @ frame seq p crcx @ rest) =
    Some ((Some (p\<lparr>SeqID := seq, pChecksum := frame_crc seq p crcx\<rparr>), None),
          dec\<lparr>dCurrSeqID := seq\<rparr>, rest)"
proof -
  have len: "unat (word_of_nat (length (Payload p)) :: u8) = length (Payload p)"
    using assms(1) by (simp add: unat_of_nat)
  note D = Decode_bytes [of "Payload p" "word_of_nat (length (Payload p))"
      "u16ToBytes (frame_crc seq p crcx)" junk _ seq "SysID p" "CompID p" "MsgID p" dec rest,
      OF len [symmetric] length_u16ToBytes assms(3) refl]
  have "bytesToU16 (u16ToBytes (frame_crc seq p crcx)) = Some (frame_crc seq p crcx)"
    using bytes_u16_roundtrip [of _ "[]"] by simp
  with D assms(2) show ?thesis
    by (simp add: frame_def frame_crc_def frame_body_def frame_header_def Let_def
        flip: x25_Write_append)
qed

text \<open>
  C2. Soundness of the decoder: a packet returned without an error is exactly a frame of the input,
  preceded only by bytes that are not start bytes, with a seed its dialects know and its checksum
  recomputed; the reader stands right behind the frame.
\<close>


theorem Decode_accepts_frames_only:
  assumes "Decode dec br = Some ((Some p, None), dec', rest)"
  shows "\<exists>junk crcx. startByte \<notin> set junk \<and> br = junk @ frame (SeqID p) p crcx @ rest \<and>
    findCrcX (dDialects dec) (MsgID p) = Inr crcx \<and> length (Payload p) < 256 \<and>
    pChecksum p = frame_crc (SeqID p) p crcx \<and> dec' = dec\<lparr>dCurrSeqID := SeqID p\<rparr>"
proof -
  obtain br1 where 1: "skip_to_start br = Inr br1"
    using assms by (auto simp: Decode_def split: sum.splits)
  then obtain junk where junk: "startByte \<notin> set junk" "br = junk @ startByte # br1"
    using skip_to_start_Inr by blast
  obtain hdr br2 where 2: "ReadFull 5 br1 = Inr (hdr, br2)"
    using assms 1 by (auto simp: Decode_def split: sum.splits)
  then obtain b0 b1 b2 b3 b4 where hdr: "hdr = [b0, b1, b2, b3, b4]" "br1 = hdr @ br2"
    using newPacketFromBytes_five ReadFull_Inr by metis
  obtain buf where 3: "ReadFull (unat b0 + numChecksumBytes) br2 = Inr (buf, rest)"
    using assms 1 2 hdr(1) by (auto simp: Decode_def Let_def split: sum.splits option.splits if_splits)
  let ?pay = "take (unat b0) buf" and ?cs = "drop (unat b0) buf"
  from 3 have buf: "br2 = ?pay @ ?cs @ rest" "length ?pay = unat b0" "length ?cs = 2"
    by (auto dest!: ReadFull_Inr simp: numChecksumBytes_def)
  have br: "br = junk @ startByte # [b0, b1, b2, b3, b4] @ ?pay @ ?cs @ rest"
    using junk hdr buf by simp
  obtain v where v: "bytesToU16 ?cs = Some v" "?cs = u16ToBytes v"
    using bytesToU16_two [OF buf(3)] by blast
  note D = Decode_bytes [of ?pay b0 ?cs junk _ b1 b2 b3 b4 dec rest, OF buf(2,3) junk(1) refl, folded br]
  let ?crc = "x25_Write (x25_Write x25_Reset [b0, b1, b2, b3, b4]) ?pay"
  obtain crcx where crcx: "findCrcX (dDialects dec) b4 = Inr crcx"
    using D assms by (cases "findCrcX (dDialects dec) b4") auto
  with D assms v have ok: "v = x25_WriteByte ?crc crcx"
    by (simp add: Let_def split: if_splits)
  have p: "p = \<lparr>SeqID = b1, SysID = b2, CompID = b3, MsgID = b4, Payload = ?pay, pChecksum = v\<rparr>"
    and dec': "dec' = dec\<lparr>dCurrSeqID := b1\<rparr>"
    using D assms v crcx ok by (simp_all add: Let_def)
  have b0: "b0 = word_of_nat (length ?pay)" using buf(2) by simp
  then have "frame (SeqID p) p crcx = startByte # [b0, b1, b2, b3, b4] @ ?pay @ ?cs"
    using v(2) ok by (simp add: p frame_parts buf(2) del: length_take)
  moreover have "pChecksum p = frame_crc (SeqID p) p crcx"
    using ok by (simp add: p frame_crc_parts buf(2) del: length_take)
  moreover have "length ?pay < 256" using unat_u8 [of b0] buf(2) by simp
  ultimately show ?thesis
    using junk(1) crcx br dec' by (intro exI [of _ junk] exI [of _ crcx]) (simp add: p)
qed

section \<open>Encoding\<close>

text \<open>A sink that takes every chunk it is given.\<close>

definition accepting :: "sink \<Rightarrow> bool" where
  "accepting sink \<longleftrightarrow> (\<forall>out chunk. length chunk \<le> sink out chunk)"

lemma Write_fits:
  "\<not> berr w \<Longrightarrow> length (bbuf w) + length p \<le> bufSize \<Longrightarrow>
     Write sink w p = (length p, None, w\<lparr>bbuf := bbuf w @ p\<rparr>)"
  using le_diff_conv2 [of "length (bbuf w)" bufSize "length p"] by (subst Write.simps) simp

lemma writeAndCheck_fits [codec]:
  "\<not> berr (bw enc) \<Longrightarrow> length (bbuf (bw enc)) + length p \<le> bufSize \<Longrightarrow>
     writeAndCheck sink enc p = (None, enc\<lparr>bw := (bw enc)\<lparr>bbuf := bbuf (bw enc) @ p\<rparr>\<rparr>)"
  by (simp add: writeAndCheck_def Write_fits)

lemma Flush_accepting [codec]:
  "accepting sink \<Longrightarrow> \<not> berr w \<Longrightarrow>
     Flush sink w = (None, w\<lparr>bout := bout w @ bbuf w, bbuf := []\<rparr>)"
  by (cases w) (auto simp: Flush_def accepting_def Let_def min_absorb2)

lemma length_frame_header [simp]: "length (frame_header seq p) = 6"
  by (simp add: frame_header_def)

lemma header_Cons: "frame_header seq p = startByte # tl (frame_header seq p)"
  by (simp add: frame_header_def)

lemma EncodePacket_known:
  assumes "accepting sink" and "\<not> berr (bw enc)"
    and "length (bbuf (bw enc)) + length (Payload p) + 8 \<le> bufSize"
    and "findCrcX (eDialects enc) (MsgID p) = Inr crcx"
  shows "EncodePacket sink enc p =
    (None, enc\<lparr>bw := \<lparr>bbuf = [], bout = bout (bw enc) @ bbuf (bw enc) @ frame (eCurrSeqID enc) p crcx,
                       berr = False\<rparr>,
               eCurrSeqID := eCurrSeqID enc + 1\<rparr>)"
proof -
  let ?hdr = "frame_header (eCurrSeqID enc) p"
  have "frame (eCurrSeqID enc) p crcx =
      ?hdr @ Payload p @ u16ToBytes (x25_WriteByte (x25_Write (x25_Write x25_Reset (tl ?hdr)) (Payload p)) crcx)"
    using header_Cons [of "eCurrSeqID enc" p]
    by (simp add: frame_def frame_body_def frame_crc_def x25_Write_append flip: append_Cons)
  then show ?thesis
    using assms by (cases "bw enc") (simp add: EncodePacket_def Let_def codec)
qed

lemma EncodePacket_unknown:
  assumes "\<not> berr (bw enc)" and "length (bbuf (bw enc)) + length (Payload p) + 6 \<le> bufSize"
    and "findCrcX (eDialects enc) (MsgID p) = Inl err"
  shows "EncodePacket sink enc p =
    (Some err, enc\<lparr>bw := (bw enc)\<lparr>bbuf := bbuf (bw enc) @ frame_header (eCurrSeqID enc) p @ Payload p\<rparr>\<rparr>)"
  using assms by (simp add: EncodePacket_def Let_def codec)

text \<open>Sending a list of packets one after the other, and reading until the input runs out.\<close>

fun encode_all :: "sink \<Rightarrow> encoder \<Rightarrow> packet list \<Rightarrow> encoder" where
  "encode_all sink enc [] = enc"
| "encode_all sink enc (p # ps) = encode_all sink (snd (EncodePacket sink enc p)) ps"

fun frames :: "dialect list \<Rightarrow> u8 \<Rightarrow> packet list \<Rightarrow> u8 list" where
  "frames ds seq [] = []"
| "frames ds seq (p # ps) =
     frame seq p (case findCrcX ds (MsgID p) of Inr c \<Rightarrow> c | Inl _ \<Rightarrow> 0) @ frames ds (seq + 1) ps"

fun decode_n :: "nat \<Rightarrow> decoder \<Rightarrow> u8 list \<Rightarrow> packet list \<times> decoder \<times> u8 list" where
  "decode_n 0 dec br = ([], dec, br)"
| "decode_n (Suc n) dec br =
     (case Decode dec br of
        Some ((Some p, None), dec', br') \<Rightarrow>
          (let (ps, r) = decode_n n dec' br' in (p # ps, r))
      | _ \<Rightarrow> ([], dec, br))"

definition sendable :: "dialect list \<Rightarrow> packet \<Rightarrow> bool" where
  "sendable ds p \<longleftrightarrow> length (Payload p) < 256 \<and> (\<exists>c. findCrcX ds (MsgID p) = Inr c)"

lemma encode_all_frames:
  assumes "accepting sink" and "\<not> berr (bw enc)" and "bbuf (bw enc) = []"
    and "\<forall>p\<in>set ps. sendable (eDialects enc) p"
  shows "bout (bw (encode_all sink enc ps)) =
    bout (bw enc) @ frames (eDialects enc) (eCurrSeqID enc) ps"
  using assms
proof (induction ps arbitrary: enc)
  case (Cons p ps)
  then obtain c where c: "findCrcX (eDialects enc) (MsgID p) = Inr c" "length (Payload p) < 256"
    by (auto simp: sendable_def)
  with Cons.prems have "EncodePacket sink enc p = (None, enc\<lparr>bw := \<lparr>bbuf = [],
      bout = bout (bw enc) @ frame (eCurrSeqID enc) p c, berr = False\<rparr>, eCurrSeqID := eCurrSeqID enc + 1\<rparr>)"
    by (simp add: EncodePacket_known bufSize_def)
  with Cons c show ?case by simp
qed simp

fun numbered :: "dialect list \<Rightarrow> u8 \<Rightarrow> packet list \<Rightarrow> packet list" where
  "numbered ds seq [] = []"
| "numbered ds seq (p # ps) =
     p\<lparr>SeqID := seq, pChecksum := frame_crc seq p (case findCrcX ds (MsgID p) of Inr c \<Rightarrow> c | Inl _ \<Rightarrow> 0)\<rparr>
     # numbered ds (seq + 1) ps"

lemma decode_n_frames:
  assumes "\<forall>p\<in>set ps. sendable (dDialects dec) p"
  shows "\<exists>dec'. decode_n (length ps) dec (frames (dDialects dec) seq ps @ rest) =
    (numbered (dDialects dec) seq ps, dec', rest)"
  using assms
proof (induction ps arbitrary: dec seq)
  case (Cons p ps)
  then obtain c where c: "findCrcX (dDialects dec) (MsgID p) = Inr c" "length (Payload p) < 256"
    by (auto simp: sendable_def)
  let ?d = "dec\<lparr>dCurrSeqID := seq\<rparr>"
  obtain dec' where "decode_n (length ps) ?d (frames (dDialects dec) (seq + 1) ps @ rest) =
      (numbered (dDialects dec) (seq + 1) ps, dec', rest)"
    using Cons.IH [of ?d "seq + 1"] Cons.prems by auto
  with Decode_frame [OF c(2,1), of "[]" seq] c show ?case by simp
qed simp

text \<open>Whom a packet is from, what it is and its bytes.\<close>

lemma numbered_contents:
  "map (\<lambda>q. (SysID q, CompID q, MsgID q, Payload q)) (numbered ds seq ps) =
    map (\<lambda>p. (SysID p, CompID p, MsgID p, Payload p)) ps"
  by (induction ps arbitrary: seq) simp_all

lemma numbered_seq: "map SeqID (numbered ds seq ps) = map (\<lambda>i. seq + word_of_nat i) [0..<length ps]"
proof (induction ps arbitrary: seq)
  case (Cons p ps)
  have "[0..<length (p # ps)] = 0 # map Suc [0..<length ps]"
    by (simp add: upt_conv_Cons map_Suc_upt del: upt_Suc)
  with Cons show ?case by (simp add: add.assoc del: upt_Suc)
qed simp

section \<open>Damaged frames\<close>

lemma Decode_body:
  assumes "length body = 5 + unat (body ! 0)" and "length cs = 2"
  shows "\<exists>q. Decode dec (startByte # body @ cs @ rest) =
    (case findCrcX (dDialects dec) (body ! 4) of
       Inl err \<Rightarrow> Some ((Some (q\<lparr>pChecksum := 0\<rparr>), Some err), dec, rest)
     | Inr crcx \<Rightarrow>
         if the (bytesToU16 cs) = x25_WriteByte (x25_Write x25_Reset body) crcx
         then Some ((Some q, None), dec\<lparr>dCurrSeqID := body ! 1\<rparr>, rest)
         else Some ((Some q, Some ErrCrcFail), dec, rest))"
proof -
  have "length (take 5 body) = 5" using assms(1) by simp
  then obtain b0 b1 b2 b3 b4 where "take 5 body = [b0, b1, b2, b3, b4]"
    using newPacketFromBytes_five by blast
  then obtain d where body: "body = [b0, b1, b2, b3, b4] @ d"
    by (metis append_take_drop_id)
  let ?q = "\<lparr>SeqID = b1, SysID = b2, CompID = b3, MsgID = b4, Payload = d,
             pChecksum = the (bytesToU16 cs)\<rparr>"
  note D = Decode_bytes [of d b0 cs "[]" _ b1 b2 b3 b4 dec rest, OF _ assms(2) _ refl]
  have "x25_Write (x25_Write x25_Reset [b0, b1, b2, b3, b4]) d = x25_Write x25_Reset body"
    unfolding body by (simp only: x25_Write_append)
  with D assms(1) show ?thesis
    by (intro exI [of _ ?q]) (simp add: body Let_def split: sum.splits)
qed

lemma u16ToBytes_inj: "u16ToBytes v = u16ToBytes w \<Longrightarrow> v = w"
  by (metis append_Nil2 bytes_u16_roundtrip option.inject)

lemma frame_body_nth: "frame_body seq p ! 0 = word_of_nat (length (Payload p))" "frame_body seq p ! 4 = MsgID p"
  by (simp_all add: frame_body_def frame_header_def)

lemma length_frame_body: "length (frame_body seq p) = 5 + length (Payload p)"
  by (simp add: frame_body_def frame_header_def)

text \<open>
  One altered byte in the sequence number, the addresses, the payload or the CRC of a frame is
  always detected: the frame is consumed and reported as a CRC failure.
\<close>

text \<open>
  C3. A single altered byte is caught: a frame with any byte behind the length changed (except the
  message id, which selects the seed) is answered with the CRC error, whatever the new value, and
  the decoder's sequence number stays.
\<close>


theorem altered_frame_rejected:
  assumes "length (Payload p) < 256" and "findCrcX (dDialects dec) (MsgID p) = Inr crcx"
    and "2 \<le> i" and "i \<noteq> 5" and "i < length (frame seq p crcx)" and "b \<noteq> frame seq p crcx ! i"
  shows "\<exists>q. Decode dec ((frame seq p crcx)[i := b] @ rest) = Some ((Some q, Some ErrCrcFail), dec, rest)"
proof -
  let ?body = "frame_body seq p" and ?cs = "u16ToBytes (frame_crc seq p crcx)"
  let ?n = "length (Payload p)"
  have len: "unat (word_of_nat ?n :: u8) = ?n" using assms(1) by (simp add: unat_of_nat)
  obtain j where i: "i = Suc j" "1 \<le> j" "j \<noteq> 4" using assms(3,4) by (cases i) auto
  show ?thesis
  proof (cases "j < 5 + ?n")
    case True
    let ?body' = "?body[j := b]"
    have b: "b \<noteq> ?body ! j"
      using assms(6) i True by (simp add: frame_def length_frame_body nth_append)
    have "x25_Write x25_Reset ?body' \<noteq> x25_Write x25_Reset ?body"
      unfolding x25_Write_def using x25.one_byte_changed_update [OF _ b] True
      by (simp add: length_frame_body)
    then have "x25_WriteByte (x25_Write x25_Reset ?body') crcx \<noteq> frame_crc seq p crcx"
      unfolding frame_crc_def using x25_inj_state by blast
    then have "the (bytesToU16 ?cs) \<noteq> x25_WriteByte (x25_Write x25_Reset ?body') crcx"
      using bytes_u16_roundtrip [of "frame_crc seq p crcx" "[]"] by simp
    with Decode_body [of ?body' ?cs dec rest] show ?thesis
      using True i len assms(2)
      by (auto simp: frame_def list_update_append length_frame_body frame_body_nth)
  next
    case False
    let ?cs' = "?cs[j - (5 + ?n) := b]"
    have j: "j - (5 + ?n) < 2" using False assms(5) i by (simp add: length_frame)
    have b: "b \<noteq> ?cs ! (j - (5 + ?n))"
      using assms(6) i False by (simp add: frame_def length_frame_body nth_append)
    obtain v where v: "bytesToU16 ?cs' = Some v" "?cs' = u16ToBytes v"
      using bytesToU16_two [of ?cs'] by auto
    have "?cs' \<noteq> ?cs" using b j by (metis length_u16ToBytes nth_list_update_eq)
    then have "v \<noteq> frame_crc seq p crcx" using v(2) by auto
    with Decode_body [of ?body ?cs' dec rest] v(1) show ?thesis
      using False i len assms(2)
      by (auto simp: frame_def list_update_append length_frame_body frame_body_nth frame_crc_def)
  qed
qed

section \<open>Datagrams\<close>

text \<open>The header test is passed exactly when six bytes are there and the first is the start byte.\<close>

definition has_header :: "goslice \<Rightarrow> bool" where
  "has_header b \<longleftrightarrow> hdrLen \<le> len b \<and> arr b ! 0 = startByte"

abbreviation (input) payload_len :: "goslice \<Rightarrow> nat" where
  "payload_len b \<equiv> unat (arr b ! 1)"

lemma header_bytes:
  assumes "slice_ok b" and "has_header b"
  obtains b0 b1 b2 b3 b4 xs where "arr b = startByte # b0 # b1 # b2 # b3 # b4 # xs"
proof -
  have "length (take 6 (arr b)) = 6" using assms by (simp add: slice_ok_def has_header_def hdrLen_def)
  then obtain a0 b0 b1 b2 b3 b4 where "take 6 (arr b) = [a0, b0, b1, b2, b3, b4]"
    using list_of_length_6 by blast
  then have "arr b = a0 # b0 # b1 # b2 # b3 # b4 # drop 6 (arr b)"
    by (metis append_Cons append_Nil append_take_drop_id)
  with assms(2) that show ?thesis by (metis has_header_def nth_Cons_0)
qed

lemma take_five_Cons:
  "5 \<le> n \<Longrightarrow> take n (b0 # b1 # b2 # b3 # b4 # xs) = b0 # b1 # b2 # b3 # b4 # take (n - 5) xs"
  by (simp add: take_Cons' eval_nat_numeral)

lemma DecodeBytes_header:
  assumes "slice_ok b" and "hdrLen \<le> len b"
    and "arr b = startByte # b0 # b1 # b2 # b3 # b4 # xs"
  shows "DecodeBytes b =
    (if length xs < unat b0 then None
     else let p = \<lparr>SeqID = b1, SysID = b2, CompID = b3, MsgID = b4, Payload = take (unat b0) xs,
                   pChecksum = 0\<rparr>
          in case findCrcX [DialectCommon] b4 of
               Inl err \<Rightarrow> Some (Some p, Some err)
             | Inr crcx \<Rightarrow>
                 if len b < unat b0 + 8 then None
                 else let v = the (bytesToU16 (drop (unat b0) xs)); p' = p\<lparr>pChecksum := v\<rparr>
                      in if v = x25_WriteByte (x25_Write (x25_Write x25_Reset [b0, b1, b2, b3, b4])
                                                 (take (unat b0) xs)) crcx
                         then Some (Some p', None) else Some (Some p', Some ErrCrcFail))"
proof -
  let ?n = "unat b0"
  have n6: "6 \<le> len b" "len b \<le> length xs + 6" using assms by (simp_all add: hdrLen_def slice_ok_def)
  have hdr: "Option.bind (sub_slice b 1 (len b)) newPacketFromBytes =
      Some (\<lparr>SeqID = b1, SysID = b2, CompID = b3, MsgID = b4, Payload = [], pChecksum = 0\<rparr>, ?n)"
    using n6 assms(3) by (simp add: sub_slice_def take_five_Cons)
  have pay: "sub_slice b hdrLen (hdrLen + ?n) = (if length xs < ?n then None else Some (take ?n xs))"
    using assms(3) by (simp add: sub_slice_def hdrLen_def)
  have body: "sub_slice b 1 (hdrLen + ?n) =
      (if length xs < ?n then None else Some ([b0, b1, b2, b3, b4] @ take ?n xs))"
    using assms(3) by (simp add: sub_slice_def hdrLen_def take_five_Cons)
  have dr: "drop (hdrLen + ?n) (arr b) = drop ?n xs" and la: "length (arr b) = length xs + 6"
    using assms(3) drop_drop [of ?n 6 "arr b"] by (simp_all add: hdrLen_def add.commute del: drop_drop)
  have crc: "Option.bind (sub_slice b (hdrLen + ?n) (len b)) bytesToU16 =
      (if len b < ?n + 8 then None else Some (the (bytesToU16 (drop ?n xs))))"
    if "\<not> length xs < ?n"
  proof (cases "len b < ?n + 8")
    case True
    then have "len b - (?n + 6) < 2" by simp
    then have "length (take (len b - (?n + 6)) (drop ?n xs)) < 2" by simp
    then have "bytesToU16 (take (len b - (?n + 6)) (drop ?n xs)) = None"
      by (cases "take (len b - (?n + 6)) (drop ?n xs)" rule: bytesToU16.cases) auto
    with True show ?thesis
      by (simp add: sub_slice_def dr la bind_eq_None_conv) (simp add: hdrLen_def add.commute)
  next
    case False
    then have "2 \<le> length (drop ?n xs)" using n6 by simp
    then obtain c0 c1 cs where "drop ?n xs = c0 # c1 # cs"
      by (cases "drop ?n xs" rule: bytesToU16.cases) auto
    with False n6 show ?thesis
      by (simp add: sub_slice_def dr la) (simp add: hdrLen_def take_Cons')
  qed
  have ap: "x25_Write x25_Reset (b0 # b1 # b2 # b3 # b4 # take ?n xs) =
      x25_Write (x25_Write x25_Reset [b0, b1, b2, b3, b4]) (take ?n xs)"
    using x25_Write_append [of x25_Reset "[b0, b1, b2, b3, b4]" "take ?n xs"] by simp
  have hd0: "\<not> (len b < hdrLen \<or> arr b ! 0 \<noteq> startByte)" using assms(2,3) by simp
  show ?thesis
  proof (cases "length xs < ?n")
    case True
    then show ?thesis using hd0 by (simp only: DecodeBytes_def hdr pay if_True if_False option.case prod.case)
  next
    case False
    then show ?thesis
      unfolding DecodeBytes_def hdr option.case prod.case pay body crc [OF False] Let_def
      using hd0 by (simp only: if_False option.case ap append_Cons append_Nil) (simp split: sum.splits)
  qed
qed

text \<open>
  The datagram decoder accepts exactly the datagrams that start with a frame of a known message;
  what follows the frame is ignored.
\<close>

text \<open>
  \<open>DecodeBytes\<close> accepts exactly the datagrams that start with a well-formed frame of the common
  dialect.
\<close>


lemma DecodeBytes_accepts:
  assumes "slice_ok b"
  shows "DecodeBytes b = Some (Some p, None) \<longleftrightarrow>
    (\<exists>crcx rest. take (len b) (arr b) = frame (SeqID p) p crcx @ rest \<and>
       findCrcX [DialectCommon] (MsgID p) = Inr crcx \<and> length (Payload p) < 256 \<and>
       pChecksum p = frame_crc (SeqID p) p crcx)" (is "?l \<longleftrightarrow> ?r")
proof
  assume l: ?l
  then have hh: "has_header b" by (auto simp: DecodeBytes_def has_header_def split: if_splits)
  then obtain b0 b1 b2 b3 b4 xs where a: "arr b = startByte # b0 # b1 # b2 # b3 # b4 # xs"
    using header_bytes [OF assms] by blast
  have "hdrLen \<le> len b" using hh by (simp add: has_header_def)
  note D = DecodeBytes_header [OF assms this a]
  let ?n = "unat b0" and ?pay = "take (unat b0) xs" and ?v = "the (bytesToU16 (drop (unat b0) xs))"
  have n: "?n \<le> length xs" using l D by (simp split: if_splits)
  obtain crcx where crcx: "findCrcX [DialectCommon] b4 = Inr crcx"
    using l D n by (cases "findCrcX [DialectCommon] b4") (auto simp: Let_def)
  have len8: "?n + 8 \<le> len b" and v: "?v = x25_WriteByte (x25_Write (x25_Write x25_Reset [b0, b1, b2, b3, b4]) ?pay) crcx"
    and p: "p = \<lparr>SeqID = b1, SysID = b2, CompID = b3, MsgID = b4, Payload = ?pay, pChecksum = ?v\<rparr>"
    using l D n crcx by (auto simp: Let_def split: if_splits)
  have two: "2 \<le> length (drop ?n xs)"
    using len8 assms a by (simp add: slice_ok_def)
  then obtain c0 c1 cs where cs: "drop ?n xs = c0 # c1 # cs"
    by (cases "drop ?n xs" rule: bytesToU16.cases) auto
  have bytes: "u16ToBytes ?v = [c0, c1]"
    by (simp add: cs u16ToBytes_of_bytes)
  have len_pay: "length ?pay = ?n" using n by simp
  have b0: "word_of_nat (length ?pay) = b0" by (simp add: len_pay del: length_take)
  have f: "frame (SeqID p) p crcx = startByte # [b0, b1, b2, b3, b4] @ ?pay @ [c0, c1]"
    using bytes by (simp add: p frame_parts len_pay del: length_take flip: v)
  have "xs = ?pay @ [c0, c1] @ cs" using cs by (metis append_Cons append_Nil append_take_drop_id)
  with f have "arr b = frame (SeqID p) p crcx @ cs" by (simp add: a)
  then have "take (len b) (arr b) = frame (SeqID p) p crcx @ take (len b - (?n + 8)) cs"
    using len8 len_pay by (simp add: length_frame p)
  moreover have "pChecksum p = frame_crc (SeqID p) p crcx"
    by (simp add: p frame_crc_parts len_pay del: length_take flip: v)
  ultimately show ?r
    using crcx len_pay unat_u8 [of b0] by (auto simp: p)
next
  assume ?r
  then obtain crcx rest where t: "take (len b) (arr b) = frame (SeqID p) p crcx @ rest"
    and crcx: "findCrcX [DialectCommon] (MsgID p) = Inr crcx" and n: "length (Payload p) < 256"
    and cs: "pChecksum p = frame_crc (SeqID p) p crcx" by blast
  let ?b0 = "word_of_nat (length (Payload p)) :: u8"
  have unat: "unat ?b0 = length (Payload p)" using n by (simp add: unat_of_nat)
  have lenb: "len b = length (Payload p) + 8 + length rest"
    using arg_cong [OF t, of length] assms by (simp add: slice_ok_def length_frame)
  let ?c = "u16ToBytes (frame_crc (SeqID p) p crcx)"
  have a: "arr b = startByte # ?b0 # SeqID p # SysID p # CompID p # MsgID p #
      (Payload p @ ?c @ rest @ drop (len b) (arr b))"
    using t append_take_drop_id [of "len b" "arr b"]
    by (simp add: frame_def frame_body_def frame_header_def)
  have "hdrLen \<le> len b" using lenb by (simp add: hdrLen_def)
  note D = DecodeBytes_header [OF assms this a]
  show ?l
    using D unat crcx lenb cs
    by (cases p) (simp add: Let_def bytes_u16_roundtrip frame_crc_parts)
qed

text \<open>
  It panics exactly on truncated datagrams: when the announced payload reaches beyond the slice's
  capacity, or when the message is known and payload and CRC are not both there.
\<close>

text \<open>
  C4. \<open>DecodeBytes\<close> panics on exactly the datagrams whose header announces more than they hold: a
  payload past the slice's capacity, or a known message without room for the checksum.
\<close>


theorem DecodeBytes_panics:
  assumes "slice_ok b"
  shows "DecodeBytes b = None \<longleftrightarrow>
    has_header b \<and> (length (arr b) < hdrLen + payload_len b \<or>
      (\<exists>c. findCrcX [DialectCommon] (arr b ! 5) = Inr c) \<and> len b < hdrLen + payload_len b + 2)"
proof (cases "has_header b")
  case True
  then obtain b0 b1 b2 b3 b4 xs where a: "arr b = startByte # b0 # b1 # b2 # b3 # b4 # xs"
    using header_bytes [OF assms] by blast
  have "hdrLen \<le> len b" using True by (simp add: has_header_def)
  from DecodeBytes_header [OF assms this a] True show ?thesis
    by (auto simp: a hdrLen_def Let_def split: sum.splits)
next
  case False
  then show ?thesis by (auto simp: DecodeBytes_def has_header_def)
qed

section \<open>Properties\<close>

text \<open>
  C1. Round trip of a whole stream: what an encoder with an empty buffer sends for any list of
  packets (payloads shorter than 256 bytes, message ids the dialects know) is read back by a
  decoder with the same dialects as those packets, in order, each with its system id, component id,
  message id and payload, with the encoder's consecutive sequence numbers, and nothing is left over.
\<close>

theorem stream_roundtrip:
  assumes "accepting sink" and "\<not> berr (bw enc)" and "bbuf (bw enc) = []" and "bout (bw enc) = []"
    and "dDialects dec = eDialects enc" and "\<forall>p\<in>set ps. sendable (eDialects enc) p"
  shows "\<exists>qs dec'. decode_n (length ps) dec (bout (bw (encode_all sink enc ps))) = (qs, dec', []) \<and>
    map (\<lambda>q. (SysID q, CompID q, MsgID q, Payload q)) qs =
      map (\<lambda>p. (SysID p, CompID p, MsgID p, Payload p)) ps \<and>
    map SeqID qs = map (\<lambda>i. eCurrSeqID enc + word_of_nat i) [0..<length ps]"
proof -
  have "bout (bw (encode_all sink enc ps)) = frames (dDialects dec) (eCurrSeqID enc) ps @ []"
    using encode_all_frames [OF assms(1-3,6)] assms(4,5) by simp
  moreover have "\<forall>p\<in>set ps. sendable (dDialects dec) p" using assms(5,6) by simp
  ultimately show ?thesis
    using decode_n_frames [of ps dec "eCurrSeqID enc" "[]"] numbered_contents numbered_seq
    by fastforce
qed

definition demo_packet :: packet where
  "demo_packet = \<lparr>SeqID = 0, SysID = 1, CompID = 2, MsgID = 0, Payload = [9, 8, 7], pChecksum = 0\<rparr>"

definition demo_encoder :: encoder where
  "demo_encoder = \<lparr>eCurrSeqID = 5, eDialects = [DialectCommon], bw = \<lparr>bbuf = [], bout = [], berr = False\<rparr>\<rparr>"

definition demo_decoder :: decoder where
  "demo_decoder = \<lparr>dCurrSeqID = 0, dDialects = [DialectCommon]\<rparr>"

lemma demo_crcx: "findCrcX [DialectCommon] 0 = Inr 50"
  by (simp add: findCrcX.simps DialectCommon_def common_crcExtras_def)

lemma demo_sendable: "sendable [DialectCommon] demo_packet"
  by (simp add: sendable_def demo_packet_def demo_crcx)

lemma accepting_all: "accepting (\<lambda>out p. length p)"
  by (simp add: accepting_def)

theorem stream_roundtrip_witness:
  "\<exists>qs dec'. decode_n 2 demo_decoder (bout (bw (encode_all (\<lambda>out p. length p) demo_encoder
      [demo_packet, demo_packet]))) = (qs, dec', []) \<and>
    map (\<lambda>q. (SysID q, CompID q, MsgID q, Payload q)) qs = [(1, 2, 0, [9, 8, 7]), (1, 2, 0, [9, 8, 7])]"
proof -
  have "\<exists>qs dec'. decode_n (length [demo_packet, demo_packet]) demo_decoder
      (bout (bw (encode_all (\<lambda>out p. length p) demo_encoder [demo_packet, demo_packet]))) = (qs, dec', []) \<and>
    map (\<lambda>q. (SysID q, CompID q, MsgID q, Payload q)) qs =
      map (\<lambda>p. (SysID p, CompID p, MsgID p, Payload p)) [demo_packet, demo_packet] \<and>
    map SeqID qs = map (\<lambda>i. eCurrSeqID demo_encoder + word_of_nat i) [0..<length [demo_packet, demo_packet]]"
    by (rule stream_roundtrip)
      (simp_all add: accepting_all demo_encoder_def demo_decoder_def demo_sendable)
  then show ?thesis by (auto simp: demo_packet_def eval_nat_numeral simp del: decode_n.simps)
qed

theorem altered_frame_rejected_witness:
  "\<exists>q. Decode demo_decoder ((frame 3 demo_packet 50)[6 := 1] @ [1, 2]) =
    Some ((Some q, Some ErrCrcFail), demo_decoder, [1, 2])"
  by (rule altered_frame_rejected)
    (simp_all add: demo_packet_def demo_decoder_def demo_crcx frame_def frame_body_def frame_header_def
      u16ToBytes_def)

theorem Decode_accepts_frames_only_witness:
  "\<exists>junk crcx. startByte \<notin> set junk \<and>
    [7, 7] @ frame 3 demo_packet 50 @ [1] = junk @ frame 3 (demo_packet\<lparr>SeqID := 3, pChecksum := frame_crc 3 demo_packet 50\<rparr>) crcx @ [1]"
proof -
  have "Decode demo_decoder ([7, 7] @ frame 3 demo_packet 50 @ [1]) =
      Some ((Some (demo_packet\<lparr>SeqID := 3, pChecksum := frame_crc 3 demo_packet 50\<rparr>), None),
        demo_decoder\<lparr>dCurrSeqID := 3\<rparr>, [1])"
    by (rule Decode_frame) (simp_all add: demo_packet_def demo_decoder_def demo_crcx startByte_def)
  from Decode_accepts_frames_only [OF this] show ?thesis by auto
qed

definition demo_slice :: goslice where
  "demo_slice = \<lparr>arr = [0xfe, 200, 0, 1, 2, 0], len = 6\<rparr>"

theorem DecodeBytes_panics_witness: "DecodeBytes demo_slice = None"
  by (subst DecodeBytes_panics)
    (simp_all add: demo_slice_def slice_ok_def has_header_def hdrLen_def startByte_def)

text \<open>
  C5. A message id the encoder's dialects do not know is reported, but its header and payload stay
  in the write buffer: they go out in front of the next frame, so the stream a peer reads is not the
  list of the frames that were encoded successfully.
\<close>

theorem unknown_message_pollutes_stream:
  assumes "accepting sink" and "\<not> berr (bw enc)" and "bbuf (bw enc) = []"
    and "length (Payload p) < 256" and "findCrcX (eDialects enc) (MsgID p) = Inl err"
    and "length (Payload q) < 256" and "findCrcX (eDialects enc) (MsgID q) = Inr crcx"
  shows "fst (EncodePacket sink enc p) = Some err \<and>
    fst (EncodePacket sink (snd (EncodePacket sink enc p)) q) = None \<and>
    bout (bw (snd (EncodePacket sink (snd (EncodePacket sink enc p)) q))) =
      bout (bw enc) @ frame_header (eCurrSeqID enc) p @ Payload p @ frame (eCurrSeqID enc) q crcx"
proof -
  have h: "length (frame_header s r) = 6" for s r by (simp add: frame_header_def)
  have u: "EncodePacket sink enc p = (Some err, enc\<lparr>bw := (bw enc)\<lparr>bbuf := frame_header (eCurrSeqID enc) p @ Payload p\<rparr>\<rparr>)"
    using EncodePacket_unknown [of enc p err sink] assms by (simp add: bufSize_def)
  let ?e = "snd (EncodePacket sink enc p)"
  have k: "EncodePacket sink ?e q = (None, ?e\<lparr>bw := \<lparr>bbuf = [],
      bout = bout (bw ?e) @ bbuf (bw ?e) @ frame (eCurrSeqID ?e) q crcx, berr = False\<rparr>, eCurrSeqID := eCurrSeqID ?e + 1\<rparr>)"
    by (rule EncodePacket_known) (use assms in \<open>simp_all add: u h bufSize_def\<close>)
  then show ?thesis by (simp add: k u)
qed

lemma demo_unknown: "findCrcX [DialectCommon] 3 = Inl ErrUnknownMsgID"
  by (simp add: findCrcX.simps DialectCommon_def common_crcExtras_def)

theorem unknown_message_pollutes_stream_witness:
  "bout (bw (snd (EncodePacket (\<lambda>out p. length p) (snd (EncodePacket (\<lambda>out p. length p) demo_encoder
      (demo_packet\<lparr>MsgID := 3\<rparr>))) demo_packet))) =
    [0xfe, 3, 5, 1, 2, 3, 9, 8, 7] @ frame 5 demo_packet 50"
proof -
  have "bout (bw (snd (EncodePacket (\<lambda>out p. length p) (snd (EncodePacket (\<lambda>out p. length p) demo_encoder
      (demo_packet\<lparr>MsgID := 3\<rparr>))) demo_packet))) = bout (bw demo_encoder) @
    frame_header (eCurrSeqID demo_encoder) (demo_packet\<lparr>MsgID := 3\<rparr>) @ Payload (demo_packet\<lparr>MsgID := 3\<rparr>) @
    frame (eCurrSeqID demo_encoder) demo_packet 50"
    by (rule unknown_message_pollutes_stream [THEN conjunct2, THEN conjunct2])
      (simp_all add: accepting_all demo_encoder_def demo_packet_def demo_unknown demo_crcx)
  then show ?thesis
    by (simp add: demo_encoder_def demo_packet_def frame_header_def startByte_def)
qed

end
