(* ===== verification/Dronedp.thy ===== *)
theory Dronedp
  imports Checksum
begin

text \<open>
  The Dronesmith Data Protocol (\<open>src/src/cloudlink/dronedp/dronedp.go\<close>): how a message is laid out
  in a datagram and how it is read back. JSON encoding and decoding are the standard library's; they
  are the parameters \<open>marshal\<close> and \<open>unmarshal\<close>. A panic of the program is \<open>None\<close>.
\<close>

section \<open>Operations and messages\<close>

type_synonym op = u8

definition OP_STATUS :: op where "OP_STATUS = 0x10"
definition OP_CODE :: op where "OP_CODE = 0x11"
definition OP_TERMINAL :: op where "OP_TERMINAL = 0x12"
definition OP_MAVLINK_TEXT :: op where "OP_MAVLINK_TEXT = 0xFD"
definition OP_MAVLINK_BIN :: op where "OP_MAVLINK_BIN = 0xFE"

lemmas op_defs = OP_STATUS_def OP_CODE_def OP_TERMINAL_def OP_MAVLINK_TEXT_def OP_MAVLINK_BIN_def

datatype ddp_error = UnknownOp | CrcError | ReadEOF | JsonError

text \<open>
  What a message carries: raw bytes, a string, or a decoded value (\<open>*StatusMsg\<close>, \<open>*mavlink.Packet\<close>).
\<close>

datatype 'j payload = DBytes "u8 list" | DString "u8 list" | DValue 'j

record 'j msg =
  Op :: op
  Session :: u32
  Data :: "'j payload"

section \<open>Layout\<close>

definition PutUint32 :: "u32 \<Rightarrow> u8 list" where
  "PutUint32 v = [ucast (drop_bit 24 v), ucast (drop_bit 16 v), ucast (drop_bit 8 v), ucast v]"

definition PutUint16 :: "u16 \<Rightarrow> u8 list" where
  "PutUint16 v = [ucast (drop_bit 8 v), ucast v]"

fun Uint32 :: "u8 list \<Rightarrow> u32" where
  "Uint32 (a # b # c # d # _) =
     push_bit 24 (ucast a) OR push_bit 16 (ucast b) OR push_bit 8 (ucast c) OR ucast d"
| "Uint32 _ = 0"

fun Uint16 :: "u8 list \<Rightarrow> u16" where
  "Uint16 (a # b # _) = push_bit 8 (ucast a) OR ucast b"
| "Uint16 _ = 0"

text \<open>
  \<open>GenerateMsg\<close>: a binary message must carry raw bytes (the type assertion panics otherwise), the
  JSON operations marshal whatever they carry, any other operation is an error.
\<close>

definition encode_msg :: "op \<Rightarrow> u32 \<Rightarrow> u8 list \<Rightarrow> u8 list" where
  "encode_msg opCode session payload =
     (let buf = PutUint32 session @ [opCode] @ PutUint16 (word_of_nat (length payload)) @ payload
      in buf @ PutUint16 (Crc16 buf))"

definition GenerateMsg ::
  "('j payload \<Rightarrow> ddp_error + u8 list) \<Rightarrow> op \<Rightarrow> u32 \<Rightarrow> 'j payload \<Rightarrow> (ddp_error + u8 list) option" where
  "GenerateMsg marshal opCode session data =
     (if opCode = OP_MAVLINK_BIN then
        (case data of DBytes packet \<Rightarrow> Some (Inr (encode_msg opCode session packet)) | _ \<Rightarrow> None)
      else if opCode = OP_CODE \<or> opCode = OP_MAVLINK_TEXT \<or> opCode = OP_TERMINAL \<or> opCode = OP_STATUS then
        (case marshal data of
           Inl err \<Rightarrow> Some (Inl err)
         | Inr payload \<Rightarrow> Some (Inr (encode_msg opCode session payload)))
      else Some (Inl UnknownOp))"

section \<open>Reading\<close>

text \<open>
  \<open>bytes.Reader\<close>: \<open>ReadAt\<close> fills a zeroed buffer with what there is from an offset on and reports
  EOF when the offset is at or past the end or the buffer was not filled.
\<close>

definition padded :: "nat \<Rightarrow> u8 list \<Rightarrow> u8 list" where
  "padded n bs = take n bs @ replicate (n - length bs) 0"

definition ReadAt :: "u8 list \<Rightarrow> nat \<Rightarrow> nat \<Rightarrow> u8 list \<times> ddp_error option" where
  "ReadAt s n off =
     (if off \<ge> length s then (replicate n 0, Some ReadEOF)
      else (padded n (drop off s), if length s - off < n then Some ReadEOF else None))"

definition ReadByteAt :: "u8 list \<Rightarrow> nat \<Rightarrow> u8" where
  "ReadByteAt s i = (if i < length s then s ! i else 0)"

text \<open>
  \<open>ParseMsg\<close>. Slicing off the last two bytes panics on a shorter datagram. Of the read errors only
  the last assignment to \<open>err\<close> is looked at, the one of the payload read.
\<close>

definition ParseMsg ::
  "(op \<Rightarrow> u8 list \<Rightarrow> 'j \<times> ddp_error option) \<Rightarrow> u8 list \<Rightarrow>
     ('j msg option \<times> ddp_error option) option" where
  "ParseMsg unmarshal data =
    (let dataSize = length data
     in if dataSize < 2 then None
     else let crcVal = Uint16 (drop (dataSize - 2) data)
     in if Crc16 (take (dataSize - 2) data) \<noteq> crcVal then Some (None, Some CrcError)
     else let session = Uint32 (padded 4 data);
              opb = ReadByteAt data (min 4 dataSize);
              length = Uint16 (fst (ReadAt data 2 5));
              (decoded, err) = ReadAt data (unat length) 7
     in if err \<noteq> None then Some (None, err)
     else if opb = OP_MAVLINK_BIN then
       Some (Some \<lparr>Op = opb, Session = session, Data = DBytes decoded\<rparr>, None)
     else if opb = OP_MAVLINK_TEXT \<or> opb = OP_STATUS then
       (let (v, err) = unmarshal opb decoded
        in Some (Some \<lparr>Op = opb, Session = session, Data = DValue v\<rparr>, err))
     else if opb = OP_CODE then
       Some (Some \<lparr>Op = opb, Session = session, Data = DString decoded\<rparr>, None)
     else Some (None, Some UnknownOp))"

section \<open>Round trip\<close>

lemma Uint16_PutUint16 [codec]: "Uint16 (PutUint16 v @ bs) = v"
  by (simp add: PutUint16_def hi_lo_word16)

lemma Uint32_PutUint32 [codec]: "Uint32 (PutUint32 v @ bs) = v"
proof -
  have "bit (Uint32 (PutUint32 v @ bs)) n = bit v n" if "n < 32" for n
    using that by (cases "n < 8"; cases "n < 16"; cases "n < 24") (auto simp: PutUint32_def bit_simps)
  then show ?thesis by (intro bit_word_eqI) simp
qed

lemma length_Put [simp]: "length (PutUint16 v) = 2" "length (PutUint32 w) = 4"
  by (simp_all add: PutUint16_def PutUint32_def)

definition ddp_body :: "op \<Rightarrow> u32 \<Rightarrow> u8 list \<Rightarrow> u8 list" where
  "ddp_body opCode session payload =
     PutUint32 session @ [opCode] @ PutUint16 (word_of_nat (length payload)) @ payload"

lemma encode_msg_body:
  "encode_msg opCode session payload =
     ddp_body opCode session payload @ PutUint16 (Crc16 (ddp_body opCode session payload))"
  by (simp add: encode_msg_def ddp_body_def Let_def)

lemma length_ddp_body: "length (ddp_body opCode session payload) = 7 + length payload"
  by (simp add: ddp_body_def)

text \<open>What the parser sees of a datagram with the right CRC.\<close>

lemma ParseMsg_checked:
  assumes "Crc16 body = v"
  shows "ParseMsg unmarshal (body @ PutUint16 v) =
    (let data = body @ PutUint16 v;
         opb = ReadByteAt data (min 4 (length data));
         (decoded, err) = ReadAt data (unat (Uint16 (fst (ReadAt data 2 5)))) 7
     in if err \<noteq> None then Some (None, err)
     else if opb = OP_MAVLINK_BIN then
       Some (Some \<lparr>Op = opb, Session = Uint32 (padded 4 data), Data = DBytes decoded\<rparr>, None)
     else if opb = OP_MAVLINK_TEXT \<or> opb = OP_STATUS then
       (let (j, err) = unmarshal opb decoded
        in Some (Some \<lparr>Op = opb, Session = Uint32 (padded 4 data), Data = DValue j\<rparr>, err))
     else if opb = OP_CODE then
       Some (Some \<lparr>Op = opb, Session = Uint32 (padded 4 data), Data = DString decoded\<rparr>, None)
     else Some (None, Some UnknownOp))"
  using assms Uint16_PutUint16 [of v "[]"]
  by (simp add: ParseMsg_def Let_def case_prod_beta)

lemma ddp_body_reads:
  assumes "length payload < 65536"
  shows "padded 4 (ddp_body opCode session payload @ cs) = PutUint32 session"
    and "ReadByteAt (ddp_body opCode session payload @ cs) (min 4 (length (ddp_body opCode session payload @ cs))) = opCode"
    and "Uint16 (fst (ReadAt (ddp_body opCode session payload @ cs) 2 5)) = word_of_nat (length payload)"
    and "cs \<noteq> [] \<Longrightarrow> ReadAt (ddp_body opCode session payload @ cs) (length payload) 7 = (payload, None)"
proof -
  show "padded 4 (ddp_body opCode session payload @ cs) = PutUint32 session"
    by (simp add: padded_def ddp_body_def)
  show "ReadByteAt (ddp_body opCode session payload @ cs) (min 4 (length (ddp_body opCode session payload @ cs))) = opCode"
    by (simp add: ReadByteAt_def ddp_body_def nth_append)
  have d5: "drop 5 (ddp_body opCode session payload @ cs) = PutUint16 (word_of_nat (length payload)) @ payload @ cs"
    by (simp add: ddp_body_def)
  show "Uint16 (fst (ReadAt (ddp_body opCode session payload @ cs) 2 5)) = word_of_nat (length payload)"
    using Uint16_PutUint16 [of _ "[]"]
    by (simp add: ReadAt_def length_ddp_body d5 padded_def del: drop_append)
  have d7: "drop 7 (ddp_body opCode session payload @ cs) = payload @ cs"
    by (simp add: ddp_body_def)
  show "cs \<noteq> [] \<Longrightarrow> ReadAt (ddp_body opCode session payload @ cs) (length payload) 7 = (payload, None)"
    by (simp add: ReadAt_def length_ddp_body d7 padded_def del: drop_append)
qed

text \<open>
  The bytes between the length field and the CRC reach the parser unchanged, whatever the operation:
  the parser's last step, the one that looks at the operation, runs on them.
\<close>

lemma ParseMsg_encode_msg:
  assumes "length payload < 65536"
  shows "ParseMsg unmarshal (encode_msg opCode session payload) =
    (if opCode = OP_MAVLINK_BIN then
       Some (Some \<lparr>Op = opCode, Session = session, Data = DBytes payload\<rparr>, None)
     else if opCode = OP_MAVLINK_TEXT \<or> opCode = OP_STATUS then
       (let (j, err) = unmarshal opCode payload
        in Some (Some \<lparr>Op = opCode, Session = session, Data = DValue j\<rparr>, err))
     else if opCode = OP_CODE then
       Some (Some \<lparr>Op = opCode, Session = session, Data = DString payload\<rparr>, None)
     else Some (None, Some UnknownOp))"
proof -
  let ?b = "ddp_body opCode session payload" and ?cs = "PutUint16 (Crc16 (ddp_body opCode session payload))"
  have len: "unat (word_of_nat (length payload) :: u16) = length payload"
    using assms by (simp add: unat_of_nat)
  have ne: "?cs \<noteq> []" by (simp add: PutUint16_def)
  have s: "Uint32 (PutUint32 session) = session" using Uint32_PutUint32 [of session "[]"] by simp
  show ?thesis
    unfolding encode_msg_body ParseMsg_checked [OF refl] Let_def ddp_body_reads [OF assms] len
      ddp_body_reads(4) [OF assms ne] prod.case s
    by (simp add: case_prod_beta)
qed

text \<open>Any single altered byte, the CRC included, is caught by the CRC.\<close>

lemma PutUint16_inj: "PutUint16 v = PutUint16 w \<Longrightarrow> v = w"
  by (metis Uint16_PutUint16 append_Nil2)

lemma Uint16_two: "length bs = 2 \<Longrightarrow> bs = PutUint16 (Uint16 bs)"
proof -
  assume "length bs = 2"
  then obtain a b where "bs = [a, b]" by (auto simp: eval_nat_numeral length_Suc_conv)
  then show ?thesis by (simp add: PutUint16_def codec del: drop_bit_or)
qed

text \<open>
  A datagram with any single byte altered, the length field and the CRC included, is answered
  with the CRC error.
\<close>


lemma altered_datagram_rejected:
  assumes "i < length (encode_msg opCode session payload)" and "b \<noteq> encode_msg opCode session payload ! i"
  shows "ParseMsg unmarshal ((encode_msg opCode session payload)[i := b]) = Some (None, Some CrcError)"
proof -
  let ?b = "ddp_body opCode session payload"
  let ?n = "length ?b" and ?cs = "PutUint16 (Crc16 ?b)"
  let ?b' = "if i < ?n then ?b[i := b] else ?b" and ?cs' = "if i < ?n then ?cs else ?cs[i - ?n := b]"
  have upd: "(encode_msg opCode session payload)[i := b] = ?b' @ ?cs'"
    by (simp add: encode_msg_body list_update_append)
  have "Crc16 ?b' \<noteq> Uint16 ?cs'"
  proof (cases "i < ?n")
    case True
    then have "b \<noteq> ?b ! i" using assms(2) by (simp add: encode_msg_body nth_append)
    then have "Crc16 (?b[i := b]) \<noteq> Crc16 ?b"
      unfolding Crc16_def using crc16.one_byte_changed_update True by blast
    with True show ?thesis using Uint16_PutUint16 [of "Crc16 ?b" "[]"] by simp
  next
    case False
    then have j: "i - ?n < 2" "b \<noteq> ?cs ! (i - ?n)"
      using assms by (simp_all add: encode_msg_body nth_append)
    then have "?cs[i - ?n := b] \<noteq> ?cs" by (metis length_Put(1) nth_list_update_eq)
    moreover have "?cs[i - ?n := b] = PutUint16 (Uint16 (?cs[i - ?n := b]))" by (rule Uint16_two) simp
    ultimately have "Uint16 (?cs[i - ?n := b]) \<noteq> Crc16 ?b" by metis
    with False show ?thesis by auto
  qed
  moreover have "length ?cs' = 2" by simp
  ultimately show ?thesis unfolding upd by (simp add: ParseMsg_def Let_def)
qed

section \<open>Properties\<close>

text \<open>
  C6. What \<open>GenerateMsg\<close> writes, of a payload shorter than 65536 bytes, and \<open>ParseMsg\<close> makes of it. A binary
  message and a status or MAVLink text message come back whole: the same operation, session and data, the
  decoded value being the one that was given, as \<open>encoding/json\<close> documents of a value it can represent
  (the hypothesis \<open>json\<close>). A code message comes back with the session and the JSON text of its data, which is
  not decoded. A terminal message is written but the parser has no case for it: it is refused as an unknown
  operation.
\<close>

theorem GenerateMsg_ParseMsg:
  assumes gen: "GenerateMsg marshal opCode session data = Some (Inr bytes)"
    and short: "length bytes < 65545"
    and json: "opCode = OP_STATUS \<or> opCode = OP_MAVLINK_TEXT \<Longrightarrow>
      \<exists>j. data = DValue j \<and> (\<forall>w. marshal data = Inr w \<longrightarrow> unmarshal opCode w = (j, None))"
  shows "if opCode = OP_TERMINAL then ParseMsg unmarshal bytes = Some (None, Some UnknownOp)
    else if opCode = OP_CODE then \<exists>text. marshal data = Inr text \<and>
      ParseMsg unmarshal bytes = Some (Some \<lparr>Op = opCode, Session = session, Data = DString text\<rparr>, None)
    else ParseMsg unmarshal bytes = Some (Some \<lparr>Op = opCode, Session = session, Data = data\<rparr>, None)"
proof -
  obtain wire where wire: "bytes = encode_msg opCode session wire"
    "if opCode = OP_MAVLINK_BIN then data = DBytes wire else marshal data = Inr wire"
    "opCode \<in> {OP_MAVLINK_BIN, OP_STATUS, OP_MAVLINK_TEXT, OP_CODE, OP_TERMINAL}"
    using gen by (auto simp: GenerateMsg_def split: if_splits payload.splits sum.splits)
  then have "length wire < 65536" using short by (simp add: encode_msg_body length_ddp_body)
  note parsed = ParseMsg_encode_msg [OF this, of unmarshal opCode session, folded wire(1)]
  show ?thesis using wire(2,3) json by (auto simp: parsed op_defs)
qed

text \<open>A status message whose JSON text is one byte.\<close>

theorem GenerateMsg_ParseMsg_witness:
  "ParseMsg (\<lambda>oc d. (hd d, None)) (encode_msg OP_STATUS 77 [9]) =
    Some (Some \<lparr>Op = OP_STATUS, Session = 77, Data = DValue 9\<rparr>, None)"
proof -
  let ?marshal = "\<lambda>d. case d of DValue j \<Rightarrow> Inr [j] | _ \<Rightarrow> Inl JsonError"
  have "GenerateMsg ?marshal OP_STATUS 77 (DValue 9) = Some (Inr (encode_msg OP_STATUS 77 [9]))"
    by (simp add: GenerateMsg_def op_defs)
  from GenerateMsg_ParseMsg [OF this, of "\<lambda>oc d. (hd d, None)"] show ?thesis
    by (simp add: encode_msg_body length_ddp_body op_defs)
qed

end
