(* ===== verification/Queues.thy ===== *)
theory Queues
  imports Prelude "HOL-Library.Multiset"
begin

text \<open>
  The containers of \<open>src/src/utils\<close>: the capped double-ended queue of \<open>dequeue.go\<close>, which keeps the
  vehicle's system log, and the heap-ordered priority queue of \<open>pqueue.go\<close>, which orders the commands
  sent to the vehicle. Each is specified by a locale, the clients' lemmas are proved in the locale,
  and the interpretation shows that the Go code meets the specification.
\<close>

section \<open>The double-ended queue\<close>

record 'a deque =
  container :: "'a list"
  capacity :: int

definition NewCappedDeque :: "int \<Rightarrow> 'a deque" where
  "NewCappedDeque cap = \<lparr>container = [], capacity = cap\<rparr>"

definition NewDeque :: "'a deque" where
  "NewDeque = NewCappedDeque (-1)"

definition dq_Append :: "'a deque \<Rightarrow> 'a \<Rightarrow> bool \<times> 'a deque" where
  "dq_Append s item =
     (if capacity s < 0 \<or> int (length (container s)) < capacity s
      then (True, s\<lparr>container := container s @ [item]\<rparr>) else (False, s))"

definition dq_Prepend :: "'a deque \<Rightarrow> 'a \<Rightarrow> bool \<times> 'a deque" where
  "dq_Prepend s item =
     (if capacity s < 0 \<or> int (length (container s)) < capacity s
      then (True, s\<lparr>container := item # container s\<rparr>) else (False, s))"

definition dq_Pop :: "'a deque \<Rightarrow> 'a option \<times> 'a deque" where
  "dq_Pop s = (if container s = [] then (None, s)
               else (Some (last (container s)), s\<lparr>container := butlast (container s)\<rparr>))"

definition dq_Shift :: "'a deque \<Rightarrow> 'a option \<times> 'a deque" where
  "dq_Shift s = (case container s of [] \<Rightarrow> (None, s) | x # xs \<Rightarrow> (Some x, s\<lparr>container := xs\<rparr>))"

definition dq_First :: "'a deque \<Rightarrow> 'a option" where
  "dq_First s = (case container s of [] \<Rightarrow> None | x # _ \<Rightarrow> Some x)"

definition dq_Last :: "'a deque \<Rightarrow> 'a option" where
  "dq_Last s = (if container s = [] then None else Some (last (container s)))"

definition dq_Size :: "'a deque \<Rightarrow> nat" where "dq_Size s = length (container s)"
definition dq_Capacity :: "'a deque \<Rightarrow> int" where "dq_Capacity s = capacity s"
definition dq_Empty :: "'a deque \<Rightarrow> bool" where "dq_Empty s \<longleftrightarrow> length (container s) = 0"
definition dq_Full :: "'a deque \<Rightarrow> bool" where
  "dq_Full s \<longleftrightarrow> capacity s \<ge> 0 \<and> int (length (container s)) \<ge> capacity s"

lemmas deque_defs = NewCappedDeque_def NewDeque_def dq_Append_def dq_Prepend_def dq_Pop_def
  dq_Shift_def dq_First_def dq_Last_def dq_Size_def dq_Capacity_def dq_Empty_def dq_Full_def

text \<open>
  The contract of the log's queue: entries enter at the front and leave at the back; a full queue
  refuses. Its client writes entries with \<open>put\<close> and empties it with \<open>get\<close>.
\<close>

locale log_queue =
  fixes put :: "'q \<Rightarrow> 'a \<Rightarrow> bool \<times> 'q"
    and get :: "'q \<Rightarrow> 'a option \<times> 'q"
    and full :: "'q \<Rightarrow> bool"
    and abs :: "'q \<Rightarrow> 'a list"
  assumes put_full: "full q \<Longrightarrow> put q x = (False, q)"
    and put_room: "\<not> full q \<Longrightarrow> fst (put q x) \<and> abs (snd (put q x)) = abs q @ [x]"
    and get_empty: "abs q = [] \<Longrightarrow> get q = (None, q)"
    and get_first: "abs q = x # xs \<Longrightarrow> fst (get q) = Some x \<and> abs (snd (get q)) = xs"
begin

fun put_all :: "'q \<Rightarrow> 'a list \<Rightarrow> 'q" where
  "put_all q [] = q"
| "put_all q (x # xs) = put_all (snd (put q x)) xs"

fun drain :: "nat \<Rightarrow> 'q \<Rightarrow> 'a list \<times> 'q" where
  "drain 0 q = ([], q)"
| "drain (Suc n) q =
     (case get q of (None, q') \<Rightarrow> ([], q') | (Some x, q') \<Rightarrow> (let (xs, r) = drain n q' in (x # xs, r)))"

lemma drain_all: "length (abs q) \<le> n \<Longrightarrow> fst (drain n q) = abs q \<and> abs (snd (drain n q)) = []"
proof (induction n arbitrary: q)
  case (Suc n)
  show ?case
  proof (cases "abs q")
    case Nil
    then show ?thesis by (simp add: get_empty)
  next
    case (Cons x xs)
    then obtain q' where "get q = (Some x, q')" "abs q' = xs"
      using get_first by (metis prod.collapse)
    with Suc Cons show ?thesis by (simp add: case_prod_beta)
  qed
qed simp

lemma put_abs: "abs (snd (put q x)) = (if full q then abs q else abs q @ [x])"
  using put_full put_room by (cases "full q") auto

end

interpretation syslog: log_queue dq_Prepend dq_Pop dq_Full "\<lambda>s. rev (container s)"
  by unfold_locales (auto simp: deque_defs last_rev split: list.splits)

text \<open>A queue of the other orientation, written at the back and read at the front.\<close>

interpretation backlog: log_queue dq_Append dq_Shift dq_Full container
  by unfold_locales (auto simp: deque_defs split: list.splits)

section \<open>The system log\<close>

text \<open>
  \<open>GetSysLog\<close> of \<open>src/src/vehicle/vehicle.go\<close> pops until the queue is empty; \<open>Statustext\<close> messages
  are prepended as they arrive.
\<close>

function GetSysLog :: "'a deque \<Rightarrow> 'a list \<times> 'a deque" where
  "GetSysLog q =
     (if \<not> dq_Empty q then
        (case dq_Pop q of
           (Some val, q') \<Rightarrow> (let (log, q'') = GetSysLog q' in (val # log, q''))
         | (None, q') \<Rightarrow> ([], q'))
      else ([], q))"
  by pat_completeness auto
termination
  by (relation "measure (\<lambda>q. length (container q))") (auto simp: deque_defs split: if_splits)

declare GetSysLog.simps [simp del]

definition log_statustexts :: "'a deque \<Rightarrow> 'a list \<Rightarrow> 'a deque" where
  "log_statustexts q xs = foldl (\<lambda>q x. snd (dq_Prepend q x)) q xs"

lemma GetSysLog_rev: "GetSysLog q = (rev (container q), q\<lparr>container := []\<rparr>)"
proof (induction q rule: GetSysLog.induct)
  case (1 q)
  show ?case
  proof (cases "container q" rule: rev_cases)
    case Nil
    then show ?thesis by (subst GetSysLog.simps) (simp add: deque_defs)
  next
    case (snoc xs x)
    then have "dq_Pop q = (Some x, q\<lparr>container := xs\<rparr>)" by (simp add: deque_defs)
    with 1 snoc show ?thesis by (subst GetSysLog.simps) (simp add: deque_defs)
  qed
qed

lemma log_statustexts_container:
  assumes "capacity q \<ge> 0" and "int (length (container q)) \<le> capacity q"
  shows "rev (container (log_statustexts q xs)) =
    rev (container q) @ take (nat (capacity q) - length (container q)) xs"
  using assms
proof (induction xs arbitrary: q rule: rev_induct)
  case Nil
  then show ?case by (simp add: log_statustexts_def)
next
  case (snoc x xs)
  let ?q = "log_statustexts q xs"
  have cap: "capacity ?q = capacity q"
    unfolding log_statustexts_def by (induction xs rule: rev_induct) (auto simp: dq_Prepend_def)
  have c: "rev (container ?q) = rev (container q) @ take (nat (capacity q) - length (container q)) xs"
    using snoc by blast
  then have len: "length (container ?q) = length (container q) + min (length xs) (nat (capacity q) - length (container q))"
    by (metis length_append length_rev length_take)
  have s: "log_statustexts q (xs @ [x]) = snd (dq_Prepend ?q x)"
    by (simp add: log_statustexts_def)
  show ?case
    using snoc.prems by (simp add: s syslog.put_abs c) (auto simp: dq_Full_def cap len min_def)
qed

section \<open>Properties\<close>

text \<open>
  C8. The system log returns the oldest entries first and keeps what fits: after any list of status
  texts on a log of non-negative capacity, \<open>GetSysLog\<close> terminates with the waiting entries followed by the new
  ones, in arrival order, cut at the free room, and leaves the log empty.
\<close>

theorem GetSysLog_after_statustexts:
  assumes "capacity q \<ge> 0" and "int (length (container q)) \<le> capacity q"
  shows "GetSysLog (log_statustexts q xs) =
    (rev (container q) @ take (nat (capacity q) - length (container q)) xs,
     (log_statustexts q xs)\<lparr>container := []\<rparr>)"
  using log_statustexts_container [OF assms] by (simp add: GetSysLog_rev)

theorem GetSysLog_after_statustexts_witness:
  "fst (GetSysLog (log_statustexts (NewCappedDeque 2) [''a'', ''b'', ''c''])) = [''a'', ''b'']"
  by (subst GetSysLog_after_statustexts) (simp_all add: NewCappedDeque_def)

end
