(* ===== verification/PriorityQueue.thy ===== *)
theory PriorityQueue
  imports Prelude "HOL-Library.Multiset"
begin

text \<open>
  The heap-ordered priority queue of \<open>src/src/utils/pqueue.go\<close>. The Go slice keeps a nil in slot 0;
  the model keeps the slots from 1 on, and \<open>at q k\<close> reads slot \<open>k\<close>. A locale states what a priority
  queue promises in terms of the multiset of its items; the interpretation discharges it for the
  heap under its invariant, for both orderings.
\<close>

section \<open>The contract\<close>

locale priority_queue =
  fixes inv :: "'q \<Rightarrow> bool"
    and elems :: "'q \<Rightarrow> ('v \<times> int) multiset"
    and worse :: "'q \<Rightarrow> int \<Rightarrow> int \<Rightarrow> bool"
    and push :: "'q \<Rightarrow> 'v \<times> int \<Rightarrow> 'q"
    and pop :: "'q \<Rightarrow> ('v \<times> int) option \<times> 'q"
  assumes push_inv: "inv q \<Longrightarrow> inv (push q x)"
    and push_elems: "inv q \<Longrightarrow> elems (push q x) = add_mset x (elems q)"
    and push_worse: "inv q \<Longrightarrow> worse (push q x) = worse q"
    and pop_empty: "inv q \<Longrightarrow> elems q = {#} \<Longrightarrow> pop q = (None, q)"
    and pop_inv: "inv q \<Longrightarrow> inv (snd (pop q))"
    and pop_best: "inv q \<Longrightarrow> elems q \<noteq> {#} \<Longrightarrow>
      \<exists>x. fst (pop q) = Some x \<and> elems q = add_mset x (elems (snd (pop q))) \<and>
          (\<forall>y\<in>#elems q. \<not> worse q (snd x) (snd y))"
    and pop_worse: "inv q \<Longrightarrow> worse (snd (pop q)) = worse q"
begin

fun push_all :: "'q \<Rightarrow> ('v \<times> int) list \<Rightarrow> 'q" where
  "push_all q [] = q"
| "push_all q (x # xs) = push_all (push q x) xs"

fun pop_n :: "nat \<Rightarrow> 'q \<Rightarrow> ('v \<times> int) list" where
  "pop_n 0 q = []"
| "pop_n (Suc n) q = (case pop q of (None, _) \<Rightarrow> [] | (Some x, q') \<Rightarrow> x # pop_n n q')"

lemma push_all_inv:
  "inv q \<Longrightarrow> inv (push_all q xs) \<and> elems (push_all q xs) = elems q + mset xs \<and>
     worse (push_all q xs) = worse q"
  by (induction xs arbitrary: q) (auto simp: push_inv push_elems push_worse)

lemma pop_n_sorts:
  assumes "inv q" and "size (elems q) = n"
  shows "mset (pop_n n q) = elems q \<and> sorted_wrt (\<lambda>x y. \<not> worse q (snd x) (snd y)) (pop_n n q)"
  using assms
proof (induction n arbitrary: q)
  case (Suc n)
  then have "elems q \<noteq> {#}" by auto
  with Suc.prems(1) obtain x where x: "fst (pop q) = Some x" "elems q = add_mset x (elems (snd (pop q)))"
    "\<forall>y\<in>#elems q. \<not> worse q (snd x) (snd y)"
    using pop_best by blast
  let ?q = "snd (pop q)"
  have "size (elems ?q) = n" using Suc.prems(2) x(2) by simp
  with Suc.IH [OF pop_inv [OF Suc.prems(1)]] have IH: "mset (pop_n n ?q) = elems ?q"
    "sorted_wrt (\<lambda>x y. \<not> worse q (snd x) (snd y)) (pop_n n ?q)"
    by (simp_all add: pop_worse [OF Suc.prems(1)])
  then have "set (pop_n n ?q) \<subseteq> set_mset (elems q)" using x(2) by (metis set_mset_add_mset_insert set_mset_mset subset_insertI)
  with x IH show ?case by (auto simp: case_prod_beta)
qed simp

end

section \<open>The code\<close>

datatype pqtype = MAXPQ | MINPQ

record 'v pqueue =
  items :: "('v \<times> int) list"
  elemsCount :: nat
  comparator :: "int \<Rightarrow> int \<Rightarrow> bool"

definition pq_max :: "int \<Rightarrow> int \<Rightarrow> bool" where "pq_max i j \<longleftrightarrow> i < j"
definition pq_min :: "int \<Rightarrow> int \<Rightarrow> bool" where "pq_min i j \<longleftrightarrow> i > j"

definition NewPQueue :: "pqtype \<Rightarrow> 'v pqueue" where
  "NewPQueue t = \<lparr>items = [], elemsCount = 0, comparator = (if t = MAXPQ then pq_max else pq_min)\<rparr>"

definition slot :: "'v pqueue \<Rightarrow> nat \<Rightarrow> 'v \<times> int" where
  "slot pq k = items pq ! (k - 1)"

definition less_at :: "'v pqueue \<Rightarrow> nat \<Rightarrow> nat \<Rightarrow> bool" where
  "less_at pq i j = comparator pq (snd (slot pq i)) (snd (slot pq j))"

definition exch :: "'v pqueue \<Rightarrow> nat \<Rightarrow> nat \<Rightarrow> 'v pqueue" where
  "exch pq i j = pq\<lparr>items := (items pq)[i - 1 := slot pq j, j - 1 := slot pq i]\<rparr>"

lemma exch_simps [simp]:
  "elemsCount (exch pq i j) = elemsCount pq" "comparator (exch pq i j) = comparator pq"
  "length (items (exch pq i j)) = length (items pq)"
  by (simp_all add: exch_def)

function swim :: "'v pqueue \<Rightarrow> nat \<Rightarrow> 'v pqueue" where
  "swim pq k = (if k > 1 \<and> less_at pq (k div 2) k then swim (exch pq (k div 2) k) (k div 2) else pq)"
  by pat_completeness auto
termination by (relation "measure snd") auto

definition sink_child :: "'v pqueue \<Rightarrow> nat \<Rightarrow> nat" where
  "sink_child pq k = (let j = 2 * k in if j < elemsCount pq \<and> less_at pq j (j + 1) then j + 1 else j)"

text \<open>The comparators are irreflexive, so the loop makes progress even from slot 0.\<close>

definition proper :: "'v pqueue \<Rightarrow> bool" where
  "proper pq \<longleftrightarrow> comparator pq = pq_max \<or> comparator pq = pq_min"

function sink :: "'v pqueue \<Rightarrow> nat \<Rightarrow> 'v pqueue" where
  "sink pq k =
     (if 2 * k \<le> elemsCount pq \<and> k < sink_child pq k then
        (let j = sink_child pq k
         in if \<not> less_at pq k j then pq else sink (exch pq k j) j)
      else pq)"
  by pat_completeness auto
termination
  by (relation "measure (\<lambda>(pq, k). 2 * elemsCount pq + 1 - k)")
     (auto simp: sink_child_def Let_def split: if_splits)

declare swim.simps [simp del] sink.simps [simp del]

definition pq_Push :: "'v pqueue \<Rightarrow> 'v \<times> int \<Rightarrow> 'v pqueue" where
  "pq_Push pq item =
     (let pq = pq\<lparr>items := items pq @ [item]\<rparr>;
          pq = pq\<lparr>elemsCount := elemsCount pq + 1\<rparr>
      in swim pq (elemsCount pq))"

definition pq_Pop :: "'v pqueue \<Rightarrow> ('v \<times> int) option \<times> 'v pqueue" where
  "pq_Pop pq =
     (if elemsCount pq < 1 then (None, pq)
      else let max = slot pq 1;
               pq = exch pq 1 (elemsCount pq);
               pq = pq\<lparr>items := take (elemsCount pq - 1) (items pq)\<rparr>;
               pq = pq\<lparr>elemsCount := elemsCount pq - 1\<rparr>
           in (Some max, sink pq 1))"

definition pq_Head :: "'v pqueue \<Rightarrow> ('v \<times> int) option" where
  "pq_Head pq = (if elemsCount pq < 1 then None else Some (slot pq 1))"

definition pq_Size :: "'v pqueue \<Rightarrow> nat" where "pq_Size pq = elemsCount pq"
definition pq_Empty :: "'v pqueue \<Rightarrow> bool" where "pq_Empty pq \<longleftrightarrow> elemsCount pq = 0"

text \<open>
  The guard \<open>k < sink_child pq k\<close> in \<open>sink\<close> only makes the recursion total: from slot 1 on it always
  holds, and at slot 0 the code's own test fails because no item is less than itself.
\<close>

lemma sink_code:
  assumes "proper pq"
  shows "sink pq k =
     (if 2 * k \<le> elemsCount pq then
        (let j = sink_child pq k
         in if \<not> less_at pq k j then pq else sink (exch pq k j) j)
      else pq)"
proof (cases "k < sink_child pq k")
  case True
  then show ?thesis by (subst sink.simps) simp
next
  case False
  then have "k = 0" and "sink_child pq k = 0" by (auto simp: sink_child_def Let_def split: if_splits)
  with assms show ?thesis
    by (subst sink.simps) (auto simp: less_at_def proper_def pq_max_def pq_min_def)
qed

section \<open>The heap invariant\<close>

definition ordered_at :: "'v pqueue \<Rightarrow> nat \<Rightarrow> nat \<Rightarrow> bool" where
  "ordered_at pq i j \<longleftrightarrow> \<not> less_at pq i j"

definition heap :: "'v pqueue \<Rightarrow> bool" where
  "heap pq \<longleftrightarrow> (\<forall>j. 2 \<le> j \<and> j \<le> elemsCount pq \<longrightarrow> ordered_at pq (j div 2) j)"

definition heap_but_up :: "'v pqueue \<Rightarrow> nat \<Rightarrow> bool" where
  "heap_but_up pq k \<longleftrightarrow>
     (\<forall>j. 2 \<le> j \<and> j \<le> elemsCount pq \<and> j \<noteq> k \<longrightarrow> ordered_at pq (j div 2) j) \<and>
     (\<forall>j. j \<le> elemsCount pq \<and> j div 2 = k \<and> 2 \<le> k \<longrightarrow> ordered_at pq (k div 2) j)"

definition heap_but_down :: "'v pqueue \<Rightarrow> nat \<Rightarrow> bool" where
  "heap_but_down pq k \<longleftrightarrow>
     (\<forall>j. 2 \<le> j \<and> j \<le> elemsCount pq \<and> j div 2 \<noteq> k \<longrightarrow> ordered_at pq (j div 2) j) \<and>
     (\<forall>j. j \<le> elemsCount pq \<and> j div 2 = k \<and> 2 \<le> k \<longrightarrow> ordered_at pq (k div 2) j)"

definition pq_inv :: "'v pqueue \<Rightarrow> bool" where
  "pq_inv pq \<longleftrightarrow> proper pq \<and> elemsCount pq = length (items pq) \<and> heap pq"

definition sized :: "'v pqueue \<Rightarrow> bool" where
  "sized pq \<longleftrightarrow> proper pq \<and> elemsCount pq = length (items pq)"

lemma ordered_trans: "proper pq \<Longrightarrow> ordered_at pq i j \<Longrightarrow> ordered_at pq j k \<Longrightarrow> ordered_at pq i k"
  by (auto simp: ordered_at_def less_at_def proper_def pq_max_def pq_min_def)

lemma less_ordered: "proper pq \<Longrightarrow> less_at pq i j \<Longrightarrow> ordered_at pq j i"
  by (auto simp: ordered_at_def less_at_def proper_def pq_max_def pq_min_def)

lemma slot_exch:
  assumes "1 \<le> i" "i \<le> length (items pq)" "1 \<le> j" "j \<le> length (items pq)" "1 \<le> k"
  shows "slot (exch pq i j) k = (if k = j then slot pq i else if k = i then slot pq j else slot pq k)"
  using assms by (auto simp: slot_def exch_def nth_list_update)

lemma ordered_exch:
  assumes "1 \<le> i" "i \<le> length (items pq)" "1 \<le> j" "j \<le> length (items pq)" "1 \<le> a" "1 \<le> b"
  shows "ordered_at (exch pq i j) a b \<longleftrightarrow>
    ordered_at pq (if a = j then i else if a = i then j else a) (if b = j then i else if b = i then j else b)"
  using assms by (auto simp: ordered_at_def less_at_def slot_exch)

lemma mset_exch:
  assumes "1 \<le> i" "i \<le> length (items pq)" "1 \<le> j" "j \<le> length (items pq)"
  shows "mset (items (exch pq i j)) = mset (items pq)"
proof -
  have "i - 1 < length (items pq)" "j - 1 < length (items pq)" using assms by auto
  then show ?thesis unfolding exch_def slot_def by (simp add: mset_swap)
qed

section \<open>Sifting\<close>

lemma half_bounds: "2 \<le> (j::nat) \<Longrightarrow> 1 \<le> j div 2" "2 \<le> j \<Longrightarrow> j div 2 < j"
  by auto

lemma heap_but_up_exch:
  assumes "sized pq" and "heap_but_up pq k" and "1 < k" and "k \<le> elemsCount pq" and "less_at pq (k div 2) k"
  shows "heap_but_up (exch pq (k div 2) k) (k div 2)"
proof -
  let ?h = "k div 2" and ?q = "exch pq (k div 2) k"
  have len: "?h \<le> length (items pq)" "k \<le> length (items pq)" "1 \<le> ?h" "1 \<le> k" "?h \<noteq> k" "proper pq"
    using assms by (auto simp: sized_def)
  note ex = ordered_exch [OF len(3) len(1) len(4) len(2)]
  have up: "ordered_at pq k ?h" using less_ordered [OF len(6) assms(5)] .
  have 1: "ordered_at ?q (j div 2) j" if j: "2 \<le> j" "j \<le> elemsCount pq" "j \<noteq> ?h" for j
  proof (cases "j = k")
    case True
    then show ?thesis using up len(5) ex [of ?h k] len by auto
  next
    case False
    have old: "ordered_at pq (j div 2) j" using assms(2) j False by (simp add: heap_but_up_def)
    show ?thesis
    proof (cases "j div 2 = ?h")
      case True
      have "ordered_at pq k j" using ordered_trans [OF len(6) up] old True by simp
      then show ?thesis using ex [of "j div 2" j] j False True len by auto
    next
      case nh: False
      show ?thesis
      proof (cases "j div 2 = k")
        case True
        then have "ordered_at pq ?h j" using assms(2,3) j by (simp add: heap_but_up_def)
        then show ?thesis using ex [of "j div 2" j] j False nh True len by auto
      next
        case False
        then show ?thesis using ex [of "j div 2" j] j \<open>j \<noteq> k\<close> nh len half_bounds [OF j(1)] old by auto
      qed
    qed
  qed
  have 2: "ordered_at ?q (?h div 2) j" if j: "j \<le> elemsCount pq" "j div 2 = ?h" "2 \<le> ?h" for j
  proof -
    have hh: "1 \<le> ?h div 2" "?h div 2 < ?h" "?h < k" using j(3) len(4) by auto
    have "2 \<le> ?h \<and> ?h \<le> elemsCount pq \<and> ?h \<noteq> k" using assms(4) hh j(3) by linarith
    then have a: "ordered_at pq (?h div 2) ?h" using assms(2) unfolding heap_but_up_def by blast
    show ?thesis
    proof (cases "j = k")
      case True
      then show ?thesis using ex [of "?h div 2" k] hh a len by auto
    next
      case False
      have "2 \<le> j" using j by auto
      then have "ordered_at pq (j div 2) j" using assms(2) j(1) False unfolding heap_but_up_def by blast
      then have "ordered_at pq ?h j" using j(2) by simp
      then have "ordered_at pq (?h div 2) j" using ordered_trans [OF len(6) a] by blast
      then show ?thesis using ex [of "?h div 2" j] hh False j len \<open>2 \<le> j\<close> by auto
    qed
  qed
  from 1 2 show ?thesis by (simp add: heap_but_up_def)
qed

lemma sized_exch: "sized pq \<Longrightarrow> sized (exch pq i j)"
  by (simp add: sized_def proper_def)

lemma swim_restores:
  assumes "sized pq" and "heap_but_up pq k" and "1 \<le> k" and "k \<le> elemsCount pq"
  shows "pq_inv (swim pq k) \<and> mset (items (swim pq k)) = mset (items pq) \<and>
    comparator (swim pq k) = comparator pq"
  using assms
proof (induction pq k rule: swim.induct)
  case (1 pq k)
  show ?case
  proof (cases "k > 1 \<and> less_at pq (k div 2) k")
    case True
    let ?q = "exch pq (k div 2) k"
    have "heap_but_up ?q (k div 2)" using heap_but_up_exch 1 True by blast
    moreover have "1 \<le> k div 2" "k div 2 \<le> length (items pq)" "k \<le> length (items pq)"
      using 1 True by (auto simp: sized_def)
    moreover note 1(1) [OF True sized_exch [OF 1(2)]]
    ultimately show ?thesis
      using True 1(2) 1(4) mset_exch [of "k div 2" pq k] by (subst (1 2 3) swim.simps) (auto simp: sized_def)
  next
    case False
    have "heap pq"
      unfolding heap_def
    proof (intro allI impI)
      fix j assume j: "2 \<le> j \<and> j \<le> elemsCount pq"
      show "ordered_at pq (j div 2) j"
        using 1(3) j False by (cases "j = k") (auto simp: heap_but_up_def ordered_at_def)
    qed
    with 1(2) False show ?thesis
      by (subst (1 2 3) swim.simps) (auto simp: pq_inv_def sized_def)
  qed
qed

lemma sink_child_cases:
  assumes "2 * k \<le> elemsCount pq" and "proper pq" and "1 \<le> k"
  shows "sink_child pq k \<in> {2 * k, 2 * k + 1}" and "sink_child pq k \<le> elemsCount pq"
    and "\<And>i. i div 2 = k \<Longrightarrow> i \<le> elemsCount pq \<Longrightarrow> ordered_at pq (sink_child pq k) i"
proof -
  let ?j = "sink_child pq k"
  show "?j \<in> {2 * k, 2 * k + 1}" "?j \<le> elemsCount pq"
    using assms by (auto simp: sink_child_def Let_def)
  fix i assume i: "i div 2 = k" "i \<le> elemsCount pq"
  then have "i = 2 * k \<or> i = 2 * k + 1" by auto
  then show "ordered_at pq ?j i"
    using assms(2) i(2) less_ordered [of pq "2 * k" "2 * k + 1"]
    by (auto simp: sink_child_def Let_def ordered_at_def)
       (auto simp: less_at_def proper_def pq_max_def pq_min_def)
qed

lemma heap_but_down_exch:
  assumes "sized pq" and "heap_but_down pq k" and "1 \<le> k" and "2 * k \<le> elemsCount pq"
    and "less_at pq k (sink_child pq k)"
  shows "heap_but_down (exch pq k (sink_child pq k)) (sink_child pq k)"
proof -
  let ?c = "sink_child pq k" and ?q = "exch pq k (sink_child pq k)"
  have pr: "proper pq" and n: "elemsCount pq = length (items pq)" using assms(1) by (auto simp: sized_def)
  note sc = sink_child_cases [OF assms(4) pr assms(3)]
  have c: "?c div 2 = k" "k < ?c" "1 \<le> ?c" "2 \<le> ?c" using sc(1) assms(3) by auto
  have k: "k \<le> length (items pq)" "?c \<le> length (items pq)" using assms(4) sc(2) n by auto
  note ex = ordered_exch [OF assms(3) k(1) c(3) k(2)]
  have 1: "ordered_at ?q (j div 2) j" if j: "2 \<le> j" "j \<le> elemsCount pq" "j div 2 \<noteq> ?c" for j
  proof (cases "j div 2 = k")
    case True
    have "ordered_at pq ?c (if j = ?c then k else j)"
      using sc(3) [OF True j(2)] less_ordered [OF pr assms(5)] by auto
    moreover have "j \<noteq> k" using True j(1) by auto
    ultimately show ?thesis using ex [of "j div 2" j] True j assms(3) c by auto
  next
    case False
    have old: "ordered_at pq (j div 2) j" using assms(2) j False by (simp add: heap_but_down_def)
    have "j \<noteq> ?c" using False c(1) by auto
    show ?thesis
    proof (cases "j = k")
      case True
      have "ordered_at pq (k div 2) ?c" using assms(2) sc(2) c(1) True j(1) by (simp add: heap_but_down_def)
      then show ?thesis using ex [of "j div 2" j] True j c half_bounds [OF j(1)] by auto
    next
      case nk: False
      then show ?thesis using ex [of "j div 2" j] old False j half_bounds [OF j(1)] \<open>j \<noteq> ?c\<close> by auto
    qed
  qed
  have 2: "ordered_at ?q (?c div 2) j" if j: "j \<le> elemsCount pq" "j div 2 = ?c" for j
  proof -
    have "2 \<le> j" "j \<noteq> k" "j \<noteq> ?c" using j c by auto
    moreover have "ordered_at pq ?c j"
      using assms(2) j c \<open>2 \<le> j\<close> unfolding heap_but_down_def by (metis less_irrefl)
    ultimately show ?thesis using ex [of k j] c assms(3) by auto
  qed
  from 1 2 show ?thesis by (simp add: heap_but_down_def)
qed

lemma sink_restores:
  assumes "sized pq" and "heap_but_down pq k" and "1 \<le> k"
  shows "pq_inv (sink pq k) \<and> mset (items (sink pq k)) = mset (items pq) \<and>
    comparator (sink pq k) = comparator pq"
  using assms
proof (induction pq k rule: sink.induct)
  case (1 pq k)
  have pr: "proper pq" using 1(2) by (simp add: sized_def)
  let ?c = "sink_child pq k"
  show ?case
  proof (cases "2 * k \<le> elemsCount pq \<and> less_at pq k ?c")
    case True
    note sc = sink_child_cases [OF conjunct1 [OF True] pr 1(4)]
    have kc: "k < ?c" "1 \<le> ?c" using sc(1) 1(4) by auto
    have d: "heap_but_down (exch pq k ?c) ?c" using heap_but_down_exch 1 True by blast
    have ms: "mset (items (exch pq k ?c)) = mset (items pq)"
      using 1(2,4) True sc(2) kc by (intro mset_exch) (auto simp: sized_def)
    have step: "sink pq k = sink (exch pq k ?c) ?c"
      using True kc by (subst sink.simps) (simp add: Let_def)
    from 1(1) [OF _ refl _ sized_exch [OF 1(2)] d kc(2)] True kc(1) ms step show ?thesis by simp
  next
    case False
    have "heap pq"
      unfolding heap_def
    proof (intro allI impI)
      fix j assume j: "2 \<le> j \<and> j \<le> elemsCount pq"
      show "ordered_at pq (j div 2) j"
      proof (cases "j div 2 = k")
        case True
        then have k2: "2 * k \<le> elemsCount pq" using j by auto
        with False have "ordered_at pq k ?c" by (simp add: ordered_at_def)
        then show ?thesis
          using ordered_trans [OF pr] sink_child_cases(3) [OF k2 pr 1(4) True] j True by auto
      next
        case False
        then show ?thesis using 1(3) j by (simp add: heap_but_down_def)
      qed
    qed
    moreover have "sink pq k = pq" using False by (subst sink_code [OF pr]) (auto simp: Let_def)
    ultimately show ?thesis using 1(2) by (simp add: pq_inv_def sized_def)
  qed
qed

section \<open>The operations keep the contract\<close>

lemma pq_Push_ok:
  assumes "pq_inv pq"
  shows "pq_inv (pq_Push pq x) \<and> mset (items (pq_Push pq x)) = add_mset x (mset (items pq)) \<and>
    comparator (pq_Push pq x) = comparator pq"
proof -
  let ?q = "pq\<lparr>items := items pq @ [x], elemsCount := elemsCount pq + 1\<rparr>"
  let ?n = "elemsCount pq + 1"
  have "sized ?q" using assms by (simp add: pq_inv_def sized_def proper_def)
  moreover have "heap_but_up ?q ?n"
  proof -
    have same: "ordered_at ?q i j \<longleftrightarrow> ordered_at pq i j" if "1 \<le> i" "i < ?n" "1 \<le> j" "j < ?n" for i j
      using that assms by (auto simp: ordered_at_def less_at_def slot_def nth_append pq_inv_def)
    have "ordered_at ?q (j div 2) j" if "2 \<le> j" "j < ?n" for j
      using that same [of "j div 2" j] assms half_bounds [OF that(1)] by (auto simp: pq_inv_def heap_def)
    then show ?thesis by (auto simp: heap_but_up_def)
  qed
  ultimately show ?thesis
    using swim_restores [of ?q ?n] by (simp add: pq_Push_def Let_def)
qed

lemma root_best:
  assumes "proper pq" and "heap pq" and "1 \<le> j" and "j \<le> elemsCount pq"
  shows "ordered_at pq 1 j"
  using assms(3,4)
proof (induction j rule: less_induct)
  case (less j)
  show ?case
  proof (cases "j = 1")
    case True
    then show ?thesis using assms(1) by (auto simp: ordered_at_def less_at_def proper_def pq_max_def pq_min_def)
  next
    case False
    then have j: "2 \<le> j" using less.prems by auto
    have "ordered_at pq 1 (j div 2)" using less half_bounds [OF j] by auto
    moreover have "ordered_at pq (j div 2) j" using assms(2) j less.prems by (simp add: heap_def)
    ultimately show ?thesis using ordered_trans [OF assms(1)] by blast
  qed
qed

lemma pq_Pop_ok:
  assumes "pq_inv pq" and "elemsCount pq \<noteq> 0"
  shows "fst (pq_Pop pq) = Some (slot pq 1) \<and> pq_inv (snd (pq_Pop pq)) \<and>
    mset (items pq) = add_mset (slot pq 1) (mset (items (snd (pq_Pop pq)))) \<and>
    comparator (snd (pq_Pop pq)) = comparator pq"
proof -
  let ?n = "elemsCount pq"
  let ?e = "exch pq 1 ?n"
  let ?q = "?e\<lparr>items := take (?n - 1) (items ?e), elemsCount := ?n - 1\<rparr>"
  have n: "1 \<le> ?n" "?n = length (items pq)" "proper pq" "heap pq"
    using assms by (auto simp: pq_inv_def Suc_le_eq)
  have sl: "slot ?q k = (if k = 1 then slot pq ?n else slot pq k)" if "1 \<le> k" "k < ?n" for k
    using that n slot_exch [of 1 pq ?n k] by (auto simp: slot_def)
  have "sized ?q" using n by (simp add: sized_def proper_def)
  moreover have "heap_but_down ?q 1"
  proof -
    have "ordered_at ?q (j div 2) j" if j: "2 \<le> j" "j \<le> ?n - 1" "j div 2 \<noteq> 1" for j
    proof -
      have "ordered_at pq (j div 2) j" using n(4) j by (auto simp: heap_def)
      moreover have "1 \<le> j div 2" "j div 2 < ?n" "1 \<le> j" "j < ?n" "j \<noteq> 1" using j by auto
      ultimately show ?thesis using j(3) by (simp add: ordered_at_def less_at_def sl del: One_nat_def)
    qed
    then show ?thesis by (simp add: heap_but_down_def)
  qed
  ultimately have s: "pq_inv (sink ?q 1) \<and> mset (items (sink ?q 1)) = mset (items ?q) \<and>
      comparator (sink ?q 1) = comparator ?q"
    using sink_restores [of ?q 1] by blast
  have "items ?e = take (?n - 1) (items ?e) @ [slot pq 1]"
  proof -
    have "items ?e ! (?n - 1) = slot pq 1" using n slot_exch [of 1 pq ?n ?n] by (simp add: slot_def)
    then show ?thesis using n take_Suc_conv_app_nth [of "?n - 1" "items ?e"] by simp
  qed
  then have "mset (items ?e) = add_mset (slot pq 1) (mset (items ?q))"
    by (metis mset.simps(1,2) mset_append union_mset_add_mset_right add.right_neutral pqueue.simps(1)
        pqueue.select_convs(1) pqueue.update_convs(1,2) pqueue.surjective)
  then have "mset (items pq) = add_mset (slot pq 1) (mset (items ?q))"
    using mset_exch [of 1 pq ?n] n by simp
  moreover have "pq_Pop pq = (Some (slot pq 1), sink ?q 1)"
    using assms(2) by (simp add: pq_Pop_def Let_def exch_def)
  ultimately show ?thesis using s by simp
qed

interpretation pq: priority_queue pq_inv "\<lambda>q. mset (items q)" comparator pq_Push pq_Pop
proof (unfold_locales, goal_cases)
  case (1 q x) then show ?case using pq_Push_ok by blast
next
  case (2 q x) then show ?case using pq_Push_ok by blast
next
  case (3 q x) then show ?case using pq_Push_ok by blast
next
  case (4 q) then show ?case by (simp add: pq_Pop_def pq_inv_def)
next
  case (5 q)
  then show ?case using pq_Pop_ok [of q] by (cases "elemsCount q = 0") (simp_all add: pq_Pop_def)
next
  case (6 q)
  then have n: "elemsCount q \<noteq> 0" by (auto simp: pq_inv_def)
  have "\<not> comparator q (snd (slot q 1)) (snd y)" if "y \<in># mset (items q)" for y
  proof -
    have "y \<in> set (items q)" using that by simp
    then obtain i where "i < length (items q)" "items q ! i = y" by (auto simp only: in_set_conv_nth)
    moreover have "proper q" "heap q" "elemsCount q = length (items q)"
      using 6 by (simp_all add: pq_inv_def)
    ultimately show ?thesis
      using root_best [of q "Suc i"] by (simp add: ordered_at_def less_at_def slot_def)
  qed
  with pq_Pop_ok [OF 6(1) n] show ?case by blast
next
  case (7 q)
  then show ?case using pq_Pop_ok [of q] by (cases "elemsCount q = 0") (simp_all add: pq_Pop_def)
qed

lemma NewPQueue_items: "items (NewPQueue t) = []"
  by (simp add: NewPQueue_def)

lemma NewPQueue_comparator: "comparator (NewPQueue t) = (case t of MAXPQ \<Rightarrow> pq_max | MINPQ \<Rightarrow> pq_min)"
  by (simp add: NewPQueue_def split: pqtype.splits)

lemma pq_inv_New: "pq_inv (NewPQueue t)"
  by (auto simp: NewPQueue_def pq_inv_def heap_def proper_def)

section \<open>Properties\<close>

text \<open>
  C9. The priority queue sorts: pushing any items on a new queue and popping them all returns the
  same items, best priority first (largest for \<open>MAXPQ\<close>, smallest for \<open>MINPQ\<close>).
\<close>

theorem pqueue_sorts:
  "mset (pq.pop_n (length xs) (pq.push_all (NewPQueue t) xs)) = mset xs \<and>
   sorted_wrt (\<lambda>x y. case t of MAXPQ \<Rightarrow> snd x \<ge> snd y | MINPQ \<Rightarrow> snd x \<le> snd y)
     (pq.pop_n (length xs) (pq.push_all (NewPQueue t) xs))"
proof -
  let ?q = "pq.push_all (NewPQueue t) xs"
  have q: "pq_inv ?q" "mset (items ?q) = mset xs" "comparator ?q = (case t of MAXPQ \<Rightarrow> pq_max | MINPQ \<Rightarrow> pq_min)"
    using pq.push_all_inv [OF pq_inv_New, of t xs] by (simp_all add: NewPQueue_items NewPQueue_comparator)
  then have "size (mset (items ?q)) = length xs" by simp
  from pq.pop_n_sorts [OF q(1) this] q(2,3) show ?thesis
    by (cases t) (simp_all add: pq_max_def pq_min_def not_less)
qed

text \<open>
  The heap order survives every operation: after any pushes, popping keeps the invariant, so
  the head is at least as good as every queued item.
\<close>

lemma pqueue_head_best:
  assumes "pq_inv q" and "0 < elemsCount q"
  shows "pq_inv (snd (pq_Pop q)) \<and> pq_Head q = fst (pq_Pop q) \<and>
    (\<forall>x\<in>set (items q). \<not> comparator q (snd (the (pq_Head q))) (snd x))"
proof -
  have ne: "mset (items q) \<noteq> {#}" using assms by (auto simp: pq_inv_def)
  from pq.pop_best [OF assms(1) ne] obtain x where x: "fst (pq_Pop q) = Some x"
    "\<forall>y\<in>#mset (items q). \<not> comparator q (snd x) (snd y)"
    by blast
  moreover have "pq_Head q = fst (pq_Pop q)"
    using assms(2) by (simp add: pq_Head_def pq_Pop_def Let_def)
  ultimately show ?thesis using pq.pop_inv [OF assms(1)] by simp
qed

end
