(* ===== verification/StatusUi.thy ===== *)
theory StatusUi
  imports Prelude
begin

text \<open>
  The status page: \<open>assets/public/scripts/controllers/StatusCtrl.js\<close>. The controller's scope is a
  record, the telemetry it receives over the socket is a record of the JSON the engine sends, and
  each callback is a step of \<open>status_step\<close>, which returns the new scope and the requests the step
  sends. Telemetry the page only passes on to the view is the type parameter \<open>'j\<close>; telemetry
  numbers are finite JSON numbers, modelled as rationals. A property that the JSON does not have is
  \<open>None\<close> (JavaScript's \<open>undefined\<close>).
\<close>

section \<open>Telemetry\<close>

record meta =
  mLink :: "string option"
  mFlightData :: "string option"
  mAttCtrl :: "string option"
  mAttEst :: "string option"
  mRC :: "string option"
  mSensors :: "string option"
  mLocalPosEst :: "string option"
  mPower :: "string option"
  mGlobalPosEst :: "string option"
  mGlobalPosCtrl :: "string option"
  mGps :: "string option"
  mServos :: "string option"
  mAltitude :: "string option"

record heartbeat =
  BaseMode :: u8
  SystemStatus :: nat

record battery =
  BatteryFunction :: nat
  BatType :: nat
  BatteryRemaining :: int

record rc_channels =
  Chancount :: nat
  chanRaw :: "string \<rightharpoonup> rat"

record 'j telemetry =
  CloudOnline :: "string option"
  Meta :: meta
  Hb :: heartbeat
  Vfr :: 'j
  AttCtrl :: 'j
  AttEst :: 'j
  RcValues :: rc_channels
  Rssi :: rat
  Imu :: 'j
  LocalPos :: 'j
  Battery :: battery
  GlobalPos :: "string \<rightharpoonup> rat"
  Gps :: 'j
  SatellitesVisible :: nat
  GlobalPosTarget :: 'j
  Servos :: "string \<rightharpoonup> rat"
  Controls :: "rat list"
  Altitude :: 'j

section \<open>Reading the telemetry\<close>

text \<open>\<open>x || d\<close> on strings: the empty string and undefined are falsy.\<close>

definition js_or :: "string option \<Rightarrow> string \<Rightarrow> string" where
  "js_or x d = (case x of None \<Rightarrow> d | Some s \<Rightarrow> if s = [] then d else s)"

text \<open>The property names the page builds from an index.\<close>

definition servo_key :: "nat \<Rightarrow> string" where
  "servo_key i = ''Servo'' @ show_nat i @ ''Raw''"

definition channel_key :: "nat \<Rightarrow> string" where
  "channel_key i = ''Channel '' @ show_nat i @ '' PWM''"

definition raw_key :: "nat \<Rightarrow> string" where
  "raw_key i = ''Chan'' @ show_nat i @ ''Raw''"

definition rssi_key :: string where
  "rssi_key = ''Signal Strength (RSSI)''"

record servo_view =
  servos :: "rat option list"
  targets :: "rat list"

fun parseServos_loop :: "(string \<rightharpoonup> rat) \<Rightarrow> nat \<Rightarrow> rat list \<Rightarrow> servo_view \<Rightarrow> servo_view" where
  "parseServos_loop motors i [] obj = obj"
| "parseServos_loop motors i (val # vals) obj =
     parseServos_loop motors (Suc i) vals
       (if val \<noteq> 0 then obj\<lparr>targets := targets obj @ [val],
                            servos := servos obj @ [motors (servo_key (i + 1))]\<rparr>
        else obj)"

definition parseServos :: "(string \<rightharpoonup> rat) \<Rightarrow> rat list \<Rightarrow> servo_view" where
  "parseServos motors controls = parseServos_loop motors 0 controls \<lparr>servos = [], targets = []\<rparr>"

record hb_view =
  Armed :: string
  ManualCtrl :: string
  SimMode :: string
  Stabilization :: string
  Guided :: string
  Auto :: string
  DevMode :: string
  hbStatus :: "string option"

text \<open>\<open>(''+(!!(b & m))).toUpperCase()\<close>\<close>

definition flag_text :: "u8 \<Rightarrow> u8 \<Rightarrow> string" where
  "flag_text b m = (if b AND m \<noteq> 0 then ''TRUE'' else ''FALSE'')"

definition system_status_text :: "nat \<Rightarrow> string option" where
  "system_status_text n =
     (if n = 0 then Some ''Unknown''
      else if n = 1 then Some ''Booting''
      else if n = 2 then Some ''Calibrating''
      else if n = 3 then Some ''Standing By''
      else if n = 4 then Some ''Active''
      else if n = 5 then Some ''DANGER Critical Failure DANGER''
      else if n = 6 then Some ''!! SEVERE !! EMERGENCY !! SEVERE !!''
      else if n = 7 then Some ''Shutting Down''
      else None)"

definition parseHb :: "heartbeat \<Rightarrow> hb_view" where
  "parseHb hb =
     \<lparr>Armed = flag_text (BaseMode hb) 128,
      ManualCtrl = flag_text (BaseMode hb) 64,
      SimMode = flag_text (BaseMode hb) 32,
      Stabilization = flag_text (BaseMode hb) 16,
      Guided = flag_text (BaseMode hb) 8,
      Auto = flag_text (BaseMode hb) 4,
      DevMode = flag_text (BaseMode hb) 2,
      hbStatus = system_status_text (SystemStatus hb)\<rparr>"

text \<open>
  The RC view is an object built key by key; it is the list of its properties in the order they
  were first assigned, which is the order the view repeats them in.
\<close>

type_synonym rc_view = "(string \<times> rat option) list"

fun set_prop :: "string \<Rightarrow> rat option \<Rightarrow> rc_view \<Rightarrow> rc_view" where
  "set_prop k v [] = [(k, v)]"
| "set_prop k v ((k', v') # ps) = (if k = k' then (k, v) # ps else (k', v') # set_prop k v ps)"

fun parseRc_loop :: "rc_channels \<Rightarrow> nat \<Rightarrow> nat \<Rightarrow> rc_view \<Rightarrow> rc_view" where
  "parseRc_loop rc i 0 obj = obj"
| "parseRc_loop rc i (Suc n) obj =
     parseRc_loop rc (Suc i) n
       (set_prop (channel_key i) (chanRaw rc (raw_key i)) obj)"

definition parseRc :: "rc_channels \<Rightarrow> rat \<Rightarrow> rc_view" where
  "parseRc rc rssi = parseRc_loop rc 1 (Chancount rc) [(rssi_key, Some rssi)]"

record battery_view =
  purpose :: "string option"
  bvType :: "string option"
  remaining :: int

definition battery_purpose :: "nat \<Rightarrow> string option" where
  "battery_purpose n =
     (if n = 0 then Some ''Unknown'' else if n = 1 then Some ''All Flight Systems''
      else if n = 2 then Some ''Propulsion Systems'' else if n = 3 then Some ''Avionics''
      else if n = 4 then Some ''Payloads'' else None)"

definition battery_type :: "nat \<Rightarrow> string option" where
  "battery_type n =
     (if n = 0 then Some ''Unknown'' else if n = 1 then Some ''Lithium Polymer (LIPO)''
      else if n = 2 then Some ''Lithium Iron Phosphate (LIFE)''
      else if n = 3 then Some ''Lithium Ion (LION)''
      else if n = 4 then Some ''Nickel Metal Hydride (NIMH)'' else None)"

definition parseBattery :: "battery \<Rightarrow> battery_view" where
  "parseBattery bat =
     \<lparr>purpose = battery_purpose (BatteryFunction bat), bvType = battery_type (BatType bat),
      remaining = BatteryRemaining bat\<rparr>"

record gps_view =
  lat :: "rat option"
  lon :: "rat option"
  relativeAlt :: "rat option"
  velx :: "rat option"
  vely :: "rat option"
  velz :: "rat option"
  sats :: nat

definition parseGps :: "(string \<rightharpoonup> rat) \<Rightarrow> nat \<Rightarrow> gps_view" where
  "parseGps glb visible =
     \<lparr>lat = glb ''Lat'', lon = glb ''Lon'', relativeAlt = glb ''RelativeAlt'',
      velx = glb ''Vx'', vely = glb ''Vy'', velz = glb ''Vz'', sats = visible\<rparr>"

section \<open>The scope\<close>

text \<open>A panel of the page: its status class (undefined is \<open>None\<close>) and the data below it.\<close>

record 'd panel =
  pstatus :: "string option"
  pdata :: "'d option"

abbreviation offline_panel :: "'d panel" where
  "offline_panel \<equiv> \<lparr>pstatus = Some ''offline'', pdata = None\<rparr>"

record 'j status_scope =
  isCollapsed :: bool
  statusData :: "'j telemetry option"
  noConnect :: bool
  outputs :: "string list"
  toggleBind :: bool
  cloud :: "unit panel"
  link :: "hb_view panel"
  flightData :: "'j panel"
  attCtrl :: "'j panel"
  attEst :: "'j panel"
  rc :: "rc_view panel"
  sensors :: "'j panel"
  lpe :: "'j panel"
  power :: "battery_view panel"
  globalPosEst :: "gps_view panel"
  globalPosCtrl :: "'j panel"
  gps :: "'j panel"
  servosPanel :: "servo_view panel"
  alts :: "'j panel"
  timeOutCnt :: nat

text \<open>
  The requests the controller makes and the completions it gets. \<open>statusData\<close> is \<open>None\<close> for the
  empty object the controller starts from and falls back to.
\<close>

datatype request = GetOutputs | PostOutput string | DeleteOutput string | PostBind string | PostLogout

datatype effect = Request request | Redirect string | Apply

datatype 'j status_event =
  FmuUpdate "'j telemetry" | Tick
| ClickLogout | ClickAddOutput string | ClickDelOutput string | ClickBind string
| GotOutputs "string list" | OutputAdded | OutputDeleted | BindSent | LoggedOut

definition status_init :: "bool \<Rightarrow> 'j status_scope \<times> effect list" where
  "status_init bind =
     (\<lparr>isCollapsed = True, statusData = None, noConnect = False, outputs = [], toggleBind = bind,
       cloud = offline_panel, link = offline_panel, flightData = offline_panel,
       attCtrl = offline_panel, attEst = offline_panel, rc = offline_panel, sensors = offline_panel,
       lpe = offline_panel, power = offline_panel, globalPosEst = offline_panel,
       globalPosCtrl = offline_panel, gps = offline_panel, servosPanel = offline_panel,
       alts = offline_panel, timeOutCnt = 0\<rparr>, [Request GetOutputs])"

definition panel_of :: "string option \<Rightarrow> 'd \<Rightarrow> 'd panel" where
  "panel_of st d = \<lparr>pstatus = Some (js_or st ''offline''), pdata = Some d\<rparr>"

text \<open>
  The handler of \<open>fmu:update\<close>. The estimator panel has no \<open>|| "offline"\<close>: it shows whatever the
  engine says while satellites are visible.
\<close>

definition fmu_update :: "'j status_scope \<Rightarrow> 'j telemetry \<Rightarrow> 'j status_scope" where
  "fmu_update s data =
     s\<lparr>statusData := Some data, noConnect := False, timeOutCnt := 0,
       cloud := \<lparr>pstatus = Some (js_or (CloudOnline data) ''offline''), pdata = None\<rparr>,
       link := panel_of (mLink (Meta data)) (parseHb (Hb data)),
       flightData := panel_of (mFlightData (Meta data)) (Vfr data),
       attCtrl := panel_of (mAttCtrl (Meta data)) (AttCtrl data),
       attEst := panel_of (mAttEst (Meta data)) (AttEst data),
       rc := panel_of (mRC (Meta data)) (parseRc (RcValues data) (Rssi data)),
       sensors := panel_of (mSensors (Meta data)) (Imu data),
       lpe := panel_of (mLocalPosEst (Meta data)) (LocalPos data),
       power := panel_of (mPower (Meta data)) (parseBattery (Battery data)),
       globalPosEst := \<lparr>pstatus = (if SatellitesVisible data \<noteq> 0 then mGlobalPosEst (Meta data)
                                   else Some ''offline''),
                        pdata = Some (parseGps (GlobalPos data) (SatellitesVisible data))\<rparr>,
       globalPosCtrl := panel_of (mGlobalPosCtrl (Meta data)) (GlobalPosTarget data),
       gps := panel_of (mGps (Meta data)) (Gps data),
       servosPanel := panel_of (mServos (Meta data)) (parseServos (Servos data) (Controls data)),
       alts := panel_of (mAltitude (Meta data)) (Altitude data)\<rparr>"

definition set_offline :: "'d panel \<Rightarrow> 'd panel" where
  "set_offline p = p\<lparr>pstatus := Some ''offline''\<rparr>"

text \<open>The one-second interval.\<close>

definition tick :: "'j status_scope \<Rightarrow> 'j status_scope" where
  "tick s =
     (let s = s\<lparr>timeOutCnt := timeOutCnt s + 1\<rparr>
      in if timeOutCnt s > 5 then
           s\<lparr>noConnect := True,
             cloud := set_offline (cloud s), link := set_offline (link s),
             flightData := set_offline (flightData s), attCtrl := set_offline (attCtrl s),
             attEst := set_offline (attEst s), rc := set_offline (rc s),
             sensors := set_offline (sensors s), lpe := set_offline (lpe s),
             power := set_offline (power s), globalPosEst := set_offline (globalPosEst s),
             globalPosCtrl := set_offline (globalPosCtrl s), gps := set_offline (gps s),
             alts := set_offline (alts s), servosPanel := set_offline (servosPanel s),
             statusData := None\<rparr>
         else s)"

fun status_step :: "'j status_scope \<Rightarrow> 'j status_event \<Rightarrow> 'j status_scope \<times> effect list" where
  "status_step s (FmuUpdate data) = (fmu_update s data, [Apply])"
| "status_step s Tick = (tick s, [])"
| "status_step s ClickLogout = (s, [Request PostLogout])"
| "status_step s LoggedOut = (s, [Redirect ''/''])"
| "status_step s (GotOutputs os) = (s\<lparr>outputs := os\<rparr>, [])"
| "status_step s (ClickAddOutput out) = (s, [Request (PostOutput out)])"
| "status_step s OutputAdded = (s, [Request GetOutputs])"
| "status_step s (ClickBind b) = (s, [Request (PostBind b)])"
| "status_step s BindSent = (s\<lparr>toggleBind := False\<rparr>, [Apply])"
| "status_step s (ClickDelOutput out) = (s, [Request (DeleteOutput out)])"
| "status_step s OutputDeleted = (s, [Request GetOutputs])"

definition status_run :: "'j status_scope \<Rightarrow> 'j status_event list \<Rightarrow> 'j status_scope" where
  "status_run s es = run_steps (\<lambda>s e. fst (status_step s e)) s es"

section \<open>The views are what they are computed from\<close>

lemma parseServos_loop_filter:
  "parseServos_loop motors i vals obj =
     obj\<lparr>servos := servos obj @ map (\<lambda>(k, v). motors (servo_key k)) (filter (\<lambda>(k, v). v \<noteq> 0) (zip [Suc i..<Suc i + length vals] vals)),
         targets := targets obj @ filter (\<lambda>v. v \<noteq> 0) vals\<rparr>"
proof (induction vals arbitrary: i obj)
  case (Cons val vals)
  have "[Suc i..<Suc i + length (val # vals)] = Suc i # [Suc (Suc i)..<Suc (Suc i) + length vals]"
    by (simp add: upt_conv_Cons del: upt_Suc)
  then show ?case by (simp add: Cons.IH del: upt_Suc)
qed simp

lemma channel_key_inject [ui_rules]: "channel_key i = channel_key j \<longleftrightarrow> i = j"
  by (simp add: channel_key_def)

lemma set_prop_new [ui_rules]: "k \<notin> fst ` set ps \<Longrightarrow> set_prop k v ps = ps @ [(k, v)]"
  by (induction ps) (auto split: prod.splits)

lemma parseRc_loop_append:
  assumes "\<forall>j\<ge>i. channel_key j \<notin> fst ` set obj"
  shows "parseRc_loop chs i n obj =
    obj @ map (\<lambda>j. (channel_key j, chanRaw chs (raw_key j))) [i..<i + n]"
  using assms
proof (induction n arbitrary: i obj)
  case (Suc n)
  have "set_prop (channel_key i) v obj = obj @ [(channel_key i, v)]" for v
    using Suc.prems by (simp add: ui_rules)
  moreover have "[i..<i + Suc n] = i # [Suc i..<Suc i + n]"
    by (simp add: upt_conv_Cons del: upt_Suc)
  moreover have "\<forall>j\<ge>Suc i. channel_key j \<notin> fst ` set (obj @ [(channel_key i, v)])" for v
    using Suc.prems by (auto simp: ui_rules)
  ultimately show ?case
    using Suc.IH [of "Suc i" "obj @ [(channel_key i, chanRaw chs (raw_key i))]"]
    by (simp del: upt_Suc)
qed simp

lemma rssi_not_channel [simp]: "channel_key j \<noteq> rssi_key"
  by (simp add: channel_key_def rssi_key_def)

lemma parseRc_list:
  "parseRc chs rssi = (rssi_key, Some rssi) #
     map (\<lambda>j. (channel_key j, chanRaw chs (raw_key j))) [1..<1 + Chancount chs]"
  using parseRc_loop_append [of 1 "[(rssi_key, Some rssi)]" chs "Chancount chs"]
  by (simp add: parseRc_def del: upt_Suc One_nat_def)

section \<open>Losing and regaining the vehicle\<close>

text \<open>What the page shows of a lost connection: the banner and every panel offline.\<close>

definition panels :: "'j status_scope \<Rightarrow> string option list" where
  "panels s = [pstatus (cloud s), pstatus (link s), pstatus (flightData s), pstatus (attCtrl s),
     pstatus (attEst s), pstatus (rc s), pstatus (sensors s), pstatus (lpe s), pstatus (power s),
     pstatus (globalPosEst s), pstatus (globalPosCtrl s), pstatus (gps s), pstatus (servosPanel s),
     pstatus (alts s)]"

definition all_offline :: "'j status_scope \<Rightarrow> bool" where
  "all_offline s \<longleftrightarrow> (\<forall>p\<in>set (panels s). p = Some ''offline'') \<and> statusData s = None"

definition ticks_since :: "nat \<Rightarrow> 'j status_event \<Rightarrow> nat" where
  "ticks_since n e = (case e of FmuUpdate _ \<Rightarrow> 0 | Tick \<Rightarrow> n + 1 | _ \<Rightarrow> n)"

definition last_update :: "'j telemetry option \<Rightarrow> 'j status_event \<Rightarrow> 'j telemetry option" where
  "last_update d e = (case e of FmuUpdate data \<Rightarrow> Some data | _ \<Rightarrow> d)"

text \<open>The invariant that relates the scope to the events so far.\<close>

definition page_inv :: "'j status_scope \<Rightarrow> nat \<Rightarrow> 'j telemetry option \<Rightarrow> bool" where
  "page_inv s n d \<longleftrightarrow> timeOutCnt s = n \<and> noConnect s = (n > 5) \<and>
     (n > 5 \<or> d = None \<longrightarrow> all_offline s) \<and> (n \<le> 5 \<longrightarrow> statusData s = d)"

lemma page_inv_init: "page_inv (fst (status_init b)) 0 None"
  by (simp add: page_inv_def status_init_def all_offline_def panels_def)

lemma page_inv_step:
  assumes "page_inv s n d"
  shows "page_inv (fst (status_step s e)) (ticks_since n e) (last_update d e)"
  using assms
  by (cases e) (auto simp: page_inv_def fmu_update_def tick_def Let_def ticks_since_def
      last_update_def all_offline_def panels_def set_offline_def)

lemma page_inv_run:
  "page_inv s n d \<Longrightarrow> page_inv (status_run s es) (foldl ticks_since n es) (foldl last_update d es)"
proof (induction es arbitrary: s n d)
  case (Cons e es)
  from Cons.IH [OF page_inv_step [OF Cons.prems]] show ?case by (simp add: status_run_def)
qed (simp add: status_run_def)

section \<open>Properties\<close>

text \<open>
  C10. Losing and regaining the vehicle: after any sequence of events the banner is up exactly when
  more than five intervals have passed since the last telemetry update (or the start), every panel
  is then offline and the telemetry is dropped; with at most five, the page holds the last update.
\<close>

theorem page_shows_connection:
  "let s = status_run (fst (status_init b)) es; n = foldl ticks_since 0 es
   in noConnect s = (n > 5) \<and> (if n > 5 then all_offline s else statusData s = foldl last_update None es)"
  using page_inv_run [OF page_inv_init, of b es] by (simp add: page_inv_def Let_def)

theorem page_shows_connection_witness:
  "all_offline (status_run (fst (status_init False) :: unit status_scope) [Tick, ClickBind ''1'', Tick, Tick, Tick, Tick, Tick])"
  using page_shows_connection [of False "[Tick, ClickBind ''1'', Tick, Tick, Tick, Tick, Tick] :: unit status_event list"]
  by (simp add: ticks_since_def Let_def)

text \<open>
  The servo panel lists, in output order, exactly the nonzero controls, each with the raw servo
  value of the same output number.
\<close>

lemma parseServos_pairs:
  "targets (parseServos motors controls) = filter (\<lambda>v. v \<noteq> 0) controls \<and>
   servos (parseServos motors controls) =
     map (\<lambda>i. motors (servo_key (i + 1))) (filter (\<lambda>i. controls ! i \<noteq> 0) [0..<length controls])"
proof -
  have z: "zip [Suc 0..<Suc 0 + length controls] controls = map (\<lambda>i. (i + 1, controls ! i)) [0..<length controls]"
    by (rule nth_equalityI) (simp_all del: upt_Suc)
  show ?thesis
    unfolding parseServos_def parseServos_loop_filter z
    by (simp add: filter_map comp_def case_prod_beta del: upt_Suc)
qed

text \<open>
  The RC panel has the signal strength first and then one line per reported channel, in channel
  order, with the channel's raw value; no two lines share their label.
\<close>

lemma parseRc_lines:
  "parseRc chs rssi = (rssi_key, Some rssi) #
     map (\<lambda>j. (channel_key j, chanRaw chs (raw_key j))) [1..<1 + Chancount chs] \<and>
   distinct (map fst (parseRc chs rssi))"
proof -
  have l: "parseRc chs rssi = (rssi_key, Some rssi) #
     map (\<lambda>j. (channel_key j, chanRaw chs (raw_key j))) [1..<1 + Chancount chs]"
    by (rule parseRc_list)
  have "rssi_key \<notin> channel_key ` A" for A using rssi_not_channel by (metis imageE)
  then have "distinct (map fst (parseRc chs rssi))"
    unfolding l by (simp add: comp_def distinct_map inj_on_def channel_key_inject del: upt_Suc)
  with l show ?thesis by blast
qed

end
