(* ===== verification/SetupUi.thy ===== *)
theory SetupUi
  imports Prelude
begin

text \<open>
  The set-up pages: \<open>assets/public/scripts/controllers/MainCtrl.js\<close> and \<open>WifiCtrl.js\<close>. A controller
  is a scope record and one function per callback; a callback returns the new scope, the requests it
  sends, whether it reloads the page and whether it ends in a TypeError. \<open>page_step\<close> puts them
  together with the requests that are under way. The controllers have no guard against a second
  submission: \<open>views/main.html\<close> and \<open>views/wifi.html\<close> hide the submit button while \<open>submitted\<close> holds,
  but pressing Enter in an input still triggers it, so the user can submit at any time.
\<close>

section \<open>The scope and the requests\<close>

text \<open>A JSON object is the list of its properties in enumeration order; a missing one is \<open>None\<close>.\<close>

record netdata =
  ndName :: "string option"
  ndAp :: "string option"
  ndPassword :: "string option"
  ndUsername :: "string option"

record setup_scope =
  toggle :: bool
  email :: string
  password :: string
  name :: string
  username :: string
  SetupStep :: "string option"
  submitted :: bool
  responseError :: string
  aps :: "(string \<times> string) list option"
  netdataModel :: "netdata option"
  HideConnect :: bool

record net_request =
  rqName :: "string option"
  rqSsid :: "string option"
  rqProtocol :: "string option"
  rqPassword :: "string option"
  rqUsername :: "string option"

datatype setup_request =
  GetStage | GetNetworks | ActivateNetwork net_request | SetUp "string option" "string option"

datatype setup_reply =
  StageReply "string option"
| NetworksReply "(string \<times> string) list option"
| ActivateReply "string option" "string option" "string option"
| SetUpReply "string option"

record outcome =
  oScope :: setup_scope
  oRequests :: "setup_request list"
  oReload :: bool
  oThrows :: bool

abbreviation settled :: "setup_scope \<Rightarrow> setup_request list \<Rightarrow> outcome" where
  "settled s rqs \<equiv> \<lparr>oScope = s, oRequests = rqs, oReload = False, oThrows = False\<rparr>"

abbreviation throws :: "setup_scope \<Rightarrow> outcome" where
  "throws s \<equiv> \<lparr>oScope = s, oRequests = [], oReload = False, oThrows = True\<rparr>"

definition fresh_scope :: "string option \<Rightarrow> setup_scope" where
  "fresh_scope st =
     \<lparr>toggle = False, email = [], password = [], name = [], username = [], SetupStep = st,
      submitted = False, responseError = [], aps = None, netdataModel = None, HideConnect = False\<rparr>"

section \<open>The controllers\<close>

text \<open>The start of each controller. \<open>WifiCtrl\<close> has no \<open>SetupStep\<close>.\<close>

definition main_init :: outcome where
  "main_init = settled (fresh_scope (Some ''setupInitial'')) [GetStage]"

definition wifi_init :: outcome where
  "wifi_init = settled (fresh_scope None) [GetNetworks]"

definition got_stage :: "setup_scope \<Rightarrow> string option \<Rightarrow> outcome" where
  "got_stage s st =
     settled (s\<lparr>SetupStep := st\<rparr>) (if st = Some ''setupInitial'' then [GetNetworks] else [])"

text \<open>\<open>Object.keys(undefined)\<close> throws, after \<open>netdata\<close> was replaced.\<close>

definition got_networks :: "setup_scope \<Rightarrow> (string \<times> string) list option \<Rightarrow> outcome" where
  "got_networks s nets =
     (let nd = \<lparr>ndName = None, ndAp = None, ndPassword = None, ndUsername = None\<rparr>;
          s' = s\<lparr>aps := nets, netdataModel := Some nd\<rparr>
      in case nets of
           None \<Rightarrow> throws s'
         | Some [] \<Rightarrow> settled s' []
         | Some ((ap, _) # _) \<Rightarrow> settled (s'\<lparr>netdataModel := Some (nd\<lparr>ndAp := Some ap\<rparr>)\<rparr>) [])"

text \<open>\<open>aps[ap]\<close>; the key \<open>undefined\<close> stands for a missing selection.\<close>

definition security_of :: "(string \<times> string) list \<Rightarrow> string option \<Rightarrow> string option" where
  "security_of nets ap = map_of nets (case ap of None \<Rightarrow> ''undefined'' | Some a \<Rightarrow> a)"

definition submitStep1 :: "setup_scope \<Rightarrow> netdata option \<Rightarrow> outcome" where
  "submitStep1 s nd =
     (let s' = s\<lparr>responseError := [], submitted := True\<rparr>
      in case (nd, aps s) of
           (Some d, Some nets) \<Rightarrow>
             settled s' [ActivateNetwork
               \<lparr>rqName = ndName d, rqSsid = ndAp d, rqProtocol = security_of nets (ndAp d),
                rqPassword = ndPassword d, rqUsername = ndUsername d\<rparr>]
         | _ \<Rightarrow> throws s')"

definition show_js :: "string option \<Rightarrow> string" where
  "show_js x = (case x of None \<Rightarrow> ''undefined'' | Some t \<Rightarrow> t)"

definition wait_message :: "string option \<Rightarrow> string option \<Rightarrow> string" where
  "wait_message ssid nm =
     ''Luci is connecting to your local area network. Wait for 30 seconds, connect to `'' @ show_js ssid
     @ ''`, and go to `http://'' @ show_js nm @ ''.local` to continue the setup process.''
     @ '' If a wireless access point continues to appear, it means the wifi setup failed.''
     @ '' Please verify you have the right network credentials.''"

text \<open>\<open>if (data.error)\<close>: a missing and an empty error are falsy.\<close>

definition truthy :: "string option \<Rightarrow> bool" where
  "truthy x \<longleftrightarrow> x \<noteq> None \<and> x \<noteq> Some []"

definition network_activated ::
  "setup_scope \<Rightarrow> string option \<Rightarrow> string option \<Rightarrow> string option \<Rightarrow> outcome" where
  "network_activated s err ssid nm =
     (let s' = s\<lparr>submitted := False\<rparr>
      in if truthy err then settled (s'\<lparr>responseError := the err\<rparr>) []
         else settled (s'\<lparr>responseError := wait_message ssid nm, HideConnect := True\<rparr>) [])"

text \<open>The form's \<open>cloudData\<close> does not exist before the user types; a missing field is not the empty string.\<close>

definition submit :: "setup_scope \<Rightarrow> (string option \<times> string option) option \<Rightarrow> outcome" where
  "submit s cloudData =
     (let s' = s\<lparr>responseError := []\<rparr>
      in case cloudData of
           None \<Rightarrow> throws s'
         | Some (mail, pwd) \<Rightarrow>
             if mail \<noteq> Some [] \<and> pwd \<noteq> Some [] then settled (s'\<lparr>submitted := True\<rparr>) [SetUp mail pwd]
             else settled s' [])"

definition set_up_done :: "setup_scope \<Rightarrow> string option \<Rightarrow> outcome" where
  "set_up_done s err =
     (let s' = s\<lparr>submitted := False\<rparr>
      in if truthy err then settled (s'\<lparr>responseError := the err\<rparr>) []
         else (settled (s'\<lparr>responseError := ''Success! Please refresh this page.''\<rparr>) [])\<lparr>oReload := True\<rparr>)"

text \<open>Which callback the answer to a request runs; an answer of another shape belongs to no request.\<close>

fun answered :: "setup_scope \<Rightarrow> setup_request \<Rightarrow> setup_reply \<Rightarrow> outcome option" where
  "answered s GetStage (StageReply st) = Some (got_stage s st)"
| "answered s GetNetworks (NetworksReply nets) = Some (got_networks s nets)"
| "answered s (ActivateNetwork rq) (ActivateReply err ssid nm) = Some (network_activated s err ssid nm)"
| "answered s (SetUp mail pwd) (SetUpReply err) = Some (set_up_done s err)"
| "answered s _ _ = None"

section \<open>The page\<close>

text \<open>
  The page is its scope and the requests under way, in the order they were sent; the account form
  exists on the main page only. The user may submit whenever he likes. A request is answered or
  fails by its position; an answer with an error status runs no callback, since the service
  registers \<open>success\<close> only.
\<close>

record page =
  scope :: setup_scope
  pending :: "setup_request list"
  isMain :: bool

definition run_outcome :: "bool \<Rightarrow> setup_request list \<Rightarrow> outcome \<Rightarrow> page" where
  "run_outcome m waiting oc = \<lparr>scope = oScope oc, pending = waiting @ oRequests oc, isMain = m\<rparr>"

definition main_page :: page where
  "main_page = run_outcome True [] main_init"

definition wifi_page :: page where
  "wifi_page = run_outcome False [] wifi_init"

datatype page_event = Connect "netdata option" | Login "(string option \<times> string option) option"
  | Answer nat setup_reply | Fail nat

definition without :: "nat \<Rightarrow> 'a list \<Rightarrow> 'a list" where
  "without k xs = take k xs @ drop (Suc k) xs"

fun page_step :: "page \<Rightarrow> page_event \<Rightarrow> page" where
  "page_step p (Connect nd) = run_outcome (isMain p) (pending p) (submitStep1 (scope p) nd)"
| "page_step p (Login cd) = (if isMain p then run_outcome True (pending p) (submit (scope p) cd) else p)"
| "page_step p (Answer k reply) =
     (if k < length (pending p) then
        case answered (scope p) (pending p ! k) reply of
          Some oc \<Rightarrow> run_outcome (isMain p) (without k (pending p)) oc
        | None \<Rightarrow> p
      else p)"
| "page_step p (Fail k) = p\<lparr>pending := without k (pending p)\<rparr>"

definition is_submission :: "page_event \<Rightarrow> bool" where
  "is_submission e = (case e of Connect _ \<Rightarrow> True | Login _ \<Rightarrow> True | _ \<Rightarrow> False)"

lemma is_submission_simps [simp]:
  "is_submission (Connect nd)" "is_submission (Login cd)" "\<not> is_submission (Answer k reply)" "\<not> is_submission (Fail k)"
  by (simp_all add: is_submission_def)

definition is_post :: "setup_request \<Rightarrow> bool" where
  "is_post rq = (case rq of ActivateNetwork _ \<Rightarrow> True | SetUp _ _ \<Rightarrow> True | _ \<Rightarrow> False)"

definition posts :: "page \<Rightarrow> setup_request list" where
  "posts p = filter is_post (pending p)"

lemma is_post_simps [simp]:
  "is_post (ActivateNetwork rq)" "is_post (SetUp m w)" "\<not> is_post GetStage" "\<not> is_post GetNetworks"
  by (simp_all add: is_post_def)

lemmas controller_defs = got_stage_def got_networks_def submitStep1_def network_activated_def
  submit_def set_up_done_def run_outcome_def posts_def Let_def

text \<open>
  An answer to a submission takes the spinner away; an answer to another request leaves the spinner and
  the message alone. No answer sends a submission.
\<close>

lemma answered_posts:
  assumes "answered s rq reply = Some oc"
  shows "filter is_post (oRequests oc) = []"
    and "if is_post rq then \<not> submitted (oScope oc)
      else submitted (oScope oc) = submitted s \<and> responseError (oScope oc) = responseError s"
  using assms
  by (cases "(s, rq, reply)" rule: answered.cases;
      auto simp: controller_defs truthy_def split: option.splits list.splits if_splits)+

text \<open>While the spinner is shown there is no message.\<close>

definition quiet :: "page \<Rightarrow> bool" where
  "quiet p \<longleftrightarrow> (submitted (scope p) \<longrightarrow> responseError (scope p) = [])"

lemma quiet_step: "quiet p \<Longrightarrow> quiet (page_step p e)"
proof (cases e)
  case (Answer k reply)
  assume "quiet p"
  then show ?thesis
    using Answer answered_posts(2) [of "scope p" "pending p ! k" reply]
    by (auto simp: quiet_def run_outcome_def split: option.splits if_splits)
qed (auto simp: quiet_def controller_defs split: option.splits)

lemma quiet_run: "quiet p \<Longrightarrow> quiet (run_steps page_step p es)"
  by (induction es arbitrary: p) (simp_all add: quiet_step)

lemma quiet_start: "p \<in> {main_page, wifi_page} \<Longrightarrow> quiet p"
  by (auto simp: quiet_def main_page_def wifi_page_def run_outcome_def main_init_def wifi_init_def fresh_scope_def)

lemma filter_without: "filter P xs = [] \<Longrightarrow> filter P (without k xs) = []"
  by (auto simp: without_def filter_empty_conv dest: in_set_takeD in_set_dropD)

lemma filter_without_single:
  assumes "filter P xs = [xs ! k]" "k < length xs"
  shows "filter P (without k xs) = []"
proof -
  have "xs = take k xs @ xs ! k # drop (Suc k) xs" using assms(2) by (simp add: id_take_nth_drop)
  then have "filter P xs = filter P (take k xs) @ filter P [xs ! k] @ filter P (drop (Suc k) xs)"
    by (metis append_Cons append_Nil filter_append)
  moreover have "P (xs ! k)" using assms(1) by (metis filter_eq_Cons_iff)
  ultimately have "length [xs ! k] = length (filter P (take k xs)) + Suc (length (filter P (drop (Suc k) xs)))"
    using assms(1) by simp
  then show ?thesis by (simp add: without_def)
qed

text \<open>A page that lost its submission shows the spinner until the user submits again.\<close>

definition stuck :: "page \<Rightarrow> bool" where
  "stuck p \<longleftrightarrow> submitted (scope p) \<and> posts p = []"

lemma stuck_step: "stuck p \<Longrightarrow> \<not> is_submission e \<Longrightarrow> stuck (page_step p e)"
proof (cases e)
  case (Answer k reply)
  assume "stuck p"
  moreover have "\<not> is_post (pending p ! k)" if "k < length (pending p)"
    using \<open>stuck p\<close> that by (simp add: stuck_def posts_def filter_empty_conv)
  ultimately show ?thesis
    using Answer answered_posts [of "scope p" "pending p ! k" reply]
    by (auto simp: stuck_def posts_def run_outcome_def filter_without split: option.splits)
qed (auto simp: stuck_def posts_def filter_without)

lemma stuck_run:
  "stuck p \<Longrightarrow> \<forall>e\<in>set es. \<not> is_submission e \<Longrightarrow> stuck (run_steps page_step p es)"
  by (induction es arbitrary: p) (simp_all add: stuck_step)

section \<open>Properties\<close>


definition demo_login :: page_event where
  "demo_login = Login (Some (Some ''a@b'', Some ''pwd''))"


text \<open>
  Nothing stops a second submission: two account requests are under way, and the answer to the first
  takes the spinner away while the second is still waiting.
\<close>

lemma submitted_twice:
  "let p = run_steps page_step main_page [demo_login, demo_login]; q = page_step p (Answer 1 (SetUpReply (Some ''wrong''))) in
    length (posts p) = 2 \<and> length (posts q) = 1 \<and> \<not> submitted (scope q) \<and> responseError (scope q) = ''wrong''"
  by (simp add: demo_login_def main_page_def main_init_def fresh_scope_def run_outcome_def submit_def posts_def Let_def
      set_up_done_def truthy_def without_def)

text \<open>
  The first network of the list is preselected, and submitting any network of the list sends
  that network's own security protocol with the user's other entries.
\<close>

lemma submit_sends_protocol:
  assumes "distinct (map fst nets)" and "(ap, sec) \<in> set nets"
  shows "(case netdataModel (oScope (got_networks s nets')) of
            Some d \<Rightarrow> ndAp d = (case nets' of Some ((a, _) # _) \<Rightarrow> Some a | _ \<Rightarrow> None) | None \<Rightarrow> False) \<and>
    submitStep1 (oScope (got_networks s (Some nets))) (Some \<lparr>ndName = nm, ndAp = Some ap, ndPassword = pw, ndUsername = un\<rparr>) =
    settled ((oScope (got_networks s (Some nets)))\<lparr>responseError := [], submitted := True\<rparr>)
      [ActivateNetwork \<lparr>rqName = nm, rqSsid = Some ap, rqProtocol = Some sec, rqPassword = pw, rqUsername = un\<rparr>]"
proof -
  have "map_of nets ap = Some sec" using assms by simp
  moreover have "aps (oScope (got_networks s (Some nets))) = Some nets"
    by (simp add: got_networks_def Let_def split: list.splits)
  ultimately show ?thesis
    by (auto simp: submitStep1_def security_of_def Let_def got_networks_def split: option.splits list.splits)
qed

end
