(* ===== verification/ApiService.thy ===== *)
theory ApiService
  imports Prelude
begin

text \<open>
  The page's service: \<open>assets/public/scripts/services/service.js\<close>. The calls to the engine's HTTP
  interface are the requests they send together with what their callback gets; the WebSocket part is
  the table of the sockets it ever opened and what each event does to it.
\<close>

section \<open>HTTP calls\<close>

text \<open>
  The JSON the page sends. \<open>JSON.stringify\<close> drops a property that is undefined and writes \<open>NaN\<close> as
  \<open>null\<close>. \<open>success\<close> and \<open>then\<close> differ in what the callback gets: the body or the whole response.
\<close>

datatype json = JStr string | JNum nat | JNull

datatype verb = GET | POST

datatype continuation = OnSuccessBody | OnSuccessResponse

record http_call =
  verb_of :: verb
  url :: string
  body :: "(string \<times> json) list option"
  gives :: continuation

definition str_prop :: "string \<Rightarrow> string option \<Rightarrow> (string \<times> json) list" where
  "str_prop k v = (case v of None \<Rightarrow> [] | Some s \<Rightarrow> [(k, JStr s)])"

definition svc_setUp :: "string option \<Rightarrow> string option \<Rightarrow> http_call" where
  "svc_setUp user pwd = \<lparr>verb_of = POST, url = ''/index/setup'',
     body = Some (str_prop ''email'' user @ str_prop ''password'' pwd), gives = OnSuccessBody\<rparr>"

definition svc_getSetupStage :: http_call where
  "svc_getSetupStage = \<lparr>verb_of = GET, url = ''/index/setup'', body = None, gives = OnSuccessBody\<rparr>"

definition svc_getNetworks :: http_call where
  "svc_getNetworks = \<lparr>verb_of = GET, url = ''/index/aps'', body = None, gives = OnSuccessBody\<rparr>"

definition svc_activateNetwork :: "(string \<times> json) list \<Rightarrow> http_call" where
  "svc_activateNetwork data =
     \<lparr>verb_of = POST, url = ''/index/aps'', body = Some data, gives = OnSuccessBody\<rparr>"

definition svc_addOutput :: "string option \<Rightarrow> http_call" where
  "svc_addOutput str = \<lparr>verb_of = POST, url = ''/index/output'', body = Some (str_prop ''Address'' str),
     gives = OnSuccessResponse\<rparr>"

definition svc_removeOutput :: "string option \<Rightarrow> http_call" where
  "svc_removeOutput str = \<lparr>verb_of = POST, url = ''/index/output'',
     body = Some ((''Method'', JStr ''delete'') # str_prop ''Address'' str), gives = OnSuccessResponse\<rparr>"

definition svc_getOutputs :: http_call where
  "svc_getOutputs = \<lparr>verb_of = GET, url = ''/index/output'', body = None, gives = OnSuccessResponse\<rparr>"

text \<open>
  \<open>+b\<close> for the value of a radio button, which is a string of decimal digits, or undefined while none
  is chosen.
\<close>

definition svc_sendBind :: "string option \<Rightarrow> http_call" where
  "svc_sendBind b = \<lparr>verb_of = POST, url = ''/index/bind'',
     body = Some [(''Proto'', case b of None \<Rightarrow> JNull | Some s \<Rightarrow> JNum (read_nat s))],
     gives = OnSuccessResponse\<rparr>"

definition svc_logout :: http_call where
  "svc_logout = \<lparr>verb_of = POST, url = ''/index/logout'', body = Some [], gives = OnSuccessBody\<rparr>"

section \<open>WebSockets\<close>

text \<open>
  A socket is open, closing (\<open>close\<close> was called, its event is still to come) or closed. \<open>socketRef\<close>
  is the service's \<open>this.socket\<close>. Constructing a socket can throw; the event says whether it does.
\<close>

datatype conn = Open | Closing | Closed

record sockets =
  socketRef :: "nat option"
  conns :: "conn list"

datatype 'j socket_event =
  InitSocket bool | CloseEvent nat bool | ErrorEvent nat | MessageEvent nat "'j option"

datatype 'j socket_effect = LogError | Broadcast "'j option"

definition no_sockets :: sockets where
  "no_sockets = \<lparr>socketRef = None, conns = []\<rparr>"

definition initSock :: "bool \<Rightarrow> sockets \<Rightarrow> nat option \<times> sockets" where
  "initSock ok st =
     (if ok then (Some (length (conns st)), st\<lparr>conns := conns st @ [Open]\<rparr>) else (None, st))"

definition close_conn :: "nat \<Rightarrow> sockets \<Rightarrow> sockets" where
  "close_conn i st = (if conns st ! i = Open then st\<lparr>conns := (conns st)[i := Closing]\<rparr> else st)"

definition initSocket :: "bool \<Rightarrow> sockets \<Rightarrow> sockets" where
  "initSocket ok st =
     (let st1 = (case socketRef st of None \<Rightarrow> st | Some i \<Rightarrow> close_conn i st);
          (r, st2) = initSock ok st1
      in st2\<lparr>socketRef := r\<rparr>)"

text \<open>
  \<open>onclose\<close> opens another socket and drops it: \<open>this.socket\<close> is not touched. \<open>onmessage\<close> logs data
  that is not JSON and broadcasts it all the same, as undefined.
\<close>

fun socket_step :: "sockets \<Rightarrow> 'j socket_event \<Rightarrow> sockets \<times> 'j socket_effect list" where
  "socket_step st (InitSocket ok) = (initSocket ok st, [])"
| "socket_step st (CloseEvent i ok) = (snd (initSock ok (st\<lparr>conns := (conns st)[i := Closed]\<rparr>)), [])"
| "socket_step st (ErrorEvent i) = (st, [LogError])"
| "socket_step st (MessageEvent i data) =
     (st, (if data = None then [LogError] else []) @ [Broadcast data])"

text \<open>A socket is closed once, and only one that exists.\<close>

fun event_ok :: "sockets \<Rightarrow> 'j socket_event \<Rightarrow> bool" where
  "event_ok st (CloseEvent i _) \<longleftrightarrow> i < length (conns st) \<and> conns st ! i \<noteq> Closed"
| "event_ok st _ \<longleftrightarrow> True"

fun events_ok :: "sockets \<Rightarrow> 'j socket_event list \<Rightarrow> bool" where
  "events_ok st [] \<longleftrightarrow> True"
| "events_ok st (e # es) \<longleftrightarrow> event_ok st e \<and> events_ok (fst (socket_step st e)) es"

definition socket_run :: "sockets \<Rightarrow> 'j socket_event list \<Rightarrow> sockets" where
  "socket_run st es = run_steps (\<lambda>s e. fst (socket_step s e)) st es"

definition live :: "sockets \<Rightarrow> nat" where
  "live st = length (filter (\<lambda>c. c \<noteq> Closed) (conns st))"

fun opened :: "'j socket_event \<Rightarrow> int" where
  "opened (InitSocket ok) = (if ok then 1 else 0)"
| "opened (CloseEvent i ok) = (if ok then 0 else -1)"
| "opened _ = 0"

definition ref_ok :: "sockets \<Rightarrow> bool" where
  "ref_ok st \<longleftrightarrow> (\<forall>i. socketRef st = Some i \<longrightarrow> i < length (conns st))"

lemma filter_update:
  "i < length xs \<Longrightarrow> length (filter P (xs[i := y])) + (if P (xs ! i) then 1 else 0) =
     length (filter P xs) + (if P y then 1 else 0)"
proof (induction xs arbitrary: i)
  case (Cons x xs)
  then show ?case by (cases i) auto
qed simp

lemma live_close_conn: "i < length (conns st) \<Longrightarrow> live (close_conn i st) = live st"
  using filter_update [of i "conns st" "\<lambda>c. c \<noteq> Closed" Closing]
  by (auto simp: live_def close_conn_def)

lemma initSock_live: "int (live (snd (initSock ok st))) = int (live st) + (if ok then 1 else 0)"
  by (simp add: initSock_def live_def)

lemma socket_step_ref: "ref_ok st \<Longrightarrow> event_ok st e \<Longrightarrow> ref_ok (fst (socket_step st e))"
  by (cases e) (auto simp: ref_ok_def initSocket_def initSock_def close_conn_def Let_def less_Suc_eq
      split: option.splits)

lemma socket_step_live:
  assumes "ref_ok st" and "event_ok st e"
  shows "int (live (fst (socket_step st e))) = int (live st) + opened e"
proof (cases e)
  case (InitSocket ok)
  let ?st1 = "case socketRef st of None \<Rightarrow> st | Some i \<Rightarrow> close_conn i st"
  have "live ?st1 = live st"
    using assms(1) by (auto simp: ref_ok_def live_close_conn split: option.splits)
  then show ?thesis
    using initSock_live [of ok ?st1] InitSocket
    by (simp add: initSocket_def case_prod_beta live_def Let_def)
next
  case (CloseEvent i ok)
  then have "live (st\<lparr>conns := (conns st)[i := Closed]\<rparr>) + 1 = live st"
    using assms(2) filter_update [of i "conns st" "\<lambda>c. c \<noteq> Closed" Closed] by (simp add: live_def)
  then show ?thesis
    using initSock_live [of ok "st\<lparr>conns := (conns st)[i := Closed]\<rparr>"] CloseEvent by simp
qed simp_all

lemma socket_run_live:
  "ref_ok st \<Longrightarrow> events_ok st es \<Longrightarrow> int (live (socket_run st es)) = int (live st) + sum_list (map opened es)"
proof (induction es arbitrary: st)
  case (Cons e es)
  then have "ref_ok (fst (socket_step st e))" using socket_step_ref [of st e] by simp
  with Cons socket_step_live [of st e] show ?case by (simp add: socket_run_def)
qed (simp add: socket_run_def)

section \<open>Properties\<close>

text \<open>
  C14. Reconnecting: after any sequence of service calls and socket events the number of sockets that
  are not closed is the number of \<open>initSocket\<close> calls whose constructor worked, less the closings whose
  reconnect threw. A closing alone never loses the connection, and a second \<open>initSocket\<close> always leaves a
  second socket behind, because the first one reconnects when it is closed.
\<close>

theorem sockets_are_never_given_up:
  assumes "events_ok no_sockets es"
  shows "int (live (socket_run no_sockets es)) = sum_list (map opened es)"
  using socket_run_live [OF _ assms] by (simp add: no_sockets_def ref_ok_def live_def)

theorem sockets_are_never_given_up_witness:
  "live (socket_run no_sockets ([InitSocket True, InitSocket True, CloseEvent 0 True] :: unit socket_event list)) = 2"
proof -
  have "events_ok no_sockets ([InitSocket True, InitSocket True, CloseEvent 0 True] :: unit socket_event list)"
    by (simp add: no_sockets_def initSocket_def initSock_def close_conn_def)
  from sockets_are_never_given_up [OF this] show ?thesis by simp
qed

end
