(* ===== verification/UiPaging.thy ===== *)
theory UiPaging
  imports Prelude
begin

text \<open>
  Pager and pagination: \<open>ui.bootstrap.paging\<close>, \<open>pager\<close> and \<open>pagination\<close> of
  \<open>assets/public/components/angular-bootstrap/ui-bootstrap.js\<close>. Page numbers and counts are the
  integers JavaScript computes exactly; \<open>None\<close> stands for undefined and for \<open>NaN\<close>, which every
  comparison of this code treats alike.
\<close>

section \<open>State\<close>

datatype label = LNum int | LText string

record page_button =
  number :: int
  text_of :: label
  active :: bool

record paging_config =
  rotate :: bool
  forceEllipses :: bool
  boundaryLinkNumbers :: bool
  pageLabel :: "int \<Rightarrow> label"

record paging =
  config :: paging_config
  maxSize :: "int option"
  itemsPerPage :: "int option"
  totalItems :: "int option"
  totalPages :: "int option"
  page :: "int option"
  viewValue :: "int option"
  ngDisabled :: bool
  pages :: "page_button list"
  numPages :: "int option"

definition uibPaginationConfig :: paging_config where
  "uibPaginationConfig = \<lparr>rotate = True, forceEllipses = False, boundaryLinkNumbers = False, pageLabel = LNum\<rparr>"

definition paging_init :: "paging_config \<Rightarrow> int option \<Rightarrow> bool \<Rightarrow> paging" where
  "paging_init cfg mx dis =
     \<lparr>config = cfg, maxSize = mx, itemsPerPage = Some 10, totalItems = None, totalPages = None,
      page = None, viewValue = None, ngDisabled = dis, pages = [], numPages = None\<rparr>"

text \<open>Comparisons with an undefined operand are false.\<close>

fun js_less :: "int option \<Rightarrow> int option \<Rightarrow> bool" where
  "js_less (Some a) (Some b) \<longleftrightarrow> a < b"
| "js_less _ _ \<longleftrightarrow> False"

fun js_le :: "int option \<Rightarrow> int option \<Rightarrow> bool" where
  "js_le (Some a) (Some b) \<longleftrightarrow> a \<le> b"
| "js_le _ _ \<longleftrightarrow> False"

text \<open>\<open>Math.ceil(a / b)\<close> for a nonzero divisor.\<close>

definition ceil_div :: "int \<Rightarrow> int \<Rightarrow> int" where
  "ceil_div a b = - ((- a) div b)"

section \<open>Operations\<close>

text \<open>\<open>totalPages || 0\<close> turns \<open>NaN\<close> into 0.\<close>

definition calculateTotalPages :: "paging \<Rightarrow> int" where
  "calculateTotalPages c =
     max 1 (if js_less (itemsPerPage c) (Some 1) then 1
            else case (totalItems c, itemsPerPage c) of
                   (Some t, Some i) \<Rightarrow> ceil_div t i
                 | _ \<Rightarrow> 0)"

definition makePage :: "int \<Rightarrow> label \<Rightarrow> bool \<Rightarrow> page_button" where
  "makePage n txt act = \<lparr>number = n, text_of = txt, active = act\<rparr>"

text \<open>The window of pages that have their own button.\<close>

definition page_window :: "paging_config \<Rightarrow> int option \<Rightarrow> int \<Rightarrow> int \<Rightarrow> int \<times> int" where
  "page_window cfg mx currentPage tot =
     (if js_less mx (Some tot) then
        (let m = the mx
         in if rotate cfg then
              (let startPage = max (currentPage - m div 2) 1; endPage = startPage + m - 1
               in if endPage > tot then (tot - m + 1, tot) else (startPage, endPage))
            else (let startPage = (ceil_div currentPage m - 1) * m + 1
                  in (startPage, min (startPage + m - 1) tot)))
      else (1, tot))"

definition getPages :: "paging_config \<Rightarrow> int option \<Rightarrow> int \<Rightarrow> int \<Rightarrow> page_button list" where
  "getPages cfg mx currentPage tot =
     (let (startPage, endPage) = page_window cfg mx currentPage tot;
          ps = map (\<lambda>n. makePage n (pageLabel cfg n) (n = currentPage)) [startPage..endPage];
          bl = boundaryLinkNumbers cfg
      in if js_less mx (Some tot) \<and> js_less (Some 0) mx \<and> (\<not> rotate cfg \<or> forceEllipses cfg \<or> bl) then
           (let before =
                  (if startPage > 1 then
                     (if bl then [makePage 1 (LText ''1'') False] else [])
                     @ (if bl \<and> startPage = 3 then [makePage 2 (LText ''2'') False] else [])
                     @ (if \<not> bl \<or> startPage > 3 then [makePage (startPage - 1) (LText ''...'') False] else [])
                   else []);
                after =
                  (if endPage < tot then
                     (if \<not> bl \<or> endPage < tot - 2 then [makePage (endPage + 1) (LText ''...'') False] else [])
                     @ (if bl \<and> endPage = tot - 2 then [makePage (tot - 1) (LNum (tot - 1)) False] else [])
                     @ (if bl then [makePage tot (LNum tot) False] else [])
                   else [])
            in before @ ps @ after)
         else ps)"

text \<open>\<open>parseInt(\<dots>, 10) || 1\<close>, and the pagination's own \<open>render\<close> around it.\<close>

definition base_render :: "paging \<Rightarrow> paging" where
  "base_render c = c\<lparr>page := Some (case viewValue c of None \<Rightarrow> 1 | Some v \<Rightarrow> if v = 0 then 1 else v)\<rparr>"

definition render :: "paging \<Rightarrow> paging" where
  "render c =
     (let c = base_render c
      in if js_less (Some 0) (page c) \<and> js_le (page c) (totalPages c)
         then c\<lparr>pages := getPages (config c) (maxSize c) (the (page c)) (the (totalPages c))\<rparr>
         else c)"

definition selectPage :: "paging \<Rightarrow> int \<Rightarrow> bool \<Rightarrow> paging" where
  "selectPage c p evt =
     (let clickAllowed = (\<not> ngDisabled c \<or> \<not> evt)
      in if clickAllowed \<and> page c \<noteq> Some p \<and> p > 0 \<and> js_le (Some p) (totalPages c)
         then render (c\<lparr>viewValue := Some p\<rparr>)
         else c)"

definition noPrevious :: "paging \<Rightarrow> bool" where
  "noPrevious c \<longleftrightarrow> page c = Some 1"

definition noNext :: "paging \<Rightarrow> bool" where
  "noNext c \<longleftrightarrow> page c = totalPages c"

definition updatePage :: "paging \<Rightarrow> paging" where
  "updatePage c =
     (let c = c\<lparr>numPages := totalPages c\<rparr>
      in if js_less (totalPages c) (page c) then selectPage c (the (totalPages c)) False else render c)"

definition getText :: "string option \<Rightarrow> string \<Rightarrow> string" where
  "getText own dflt = (case own of None \<Rightarrow> dflt | Some t \<Rightarrow> if t = [] then dflt else t)"

datatype paging_event =
  ItemsPerPageChanged "int option"
| TotalItemsChanged "int option"
| MaxSizeChanged "int option"
| SelectPage int bool
| ModelChanged "int option"

fun paging_step :: "paging \<Rightarrow> paging_event \<Rightarrow> paging" where
  "paging_step c (ItemsPerPageChanged v) =
     (let c = c\<lparr>itemsPerPage := v\<rparr> in updatePage (c\<lparr>totalPages := Some (calculateTotalPages c)\<rparr>))"
| "paging_step c (TotalItemsChanged v) =
     (let old = totalItems c; c = c\<lparr>totalItems := v\<rparr>
      in if v \<noteq> None \<or> v \<noteq> old then updatePage (c\<lparr>totalPages := Some (calculateTotalPages c)\<rparr>) else c)"
| "paging_step c (MaxSizeChanged v) = render (c\<lparr>maxSize := v\<rparr>)"
| "paging_step c (SelectPage p evt) = selectPage c p evt"
| "paging_step c (ModelChanged v) = render (c\<lparr>viewValue := v\<rparr>)"

section \<open>The window\<close>

lemma ceil_div_bounds:
  assumes "0 < b"
  shows "(ceil_div a b - 1) * b < a" "a \<le> ceil_div a b * b"
proof -
  define q r where "q = (- a) div b" and "r = (- a) mod b"
  have "b * q + r = - a" "0 \<le> r" "r < b"
    using assms unfolding q_def r_def by (simp_all only: mult_div_mod_eq pos_mod_sign pos_mod_bound)
  then show "(ceil_div a b - 1) * b < a" "a \<le> ceil_div a b * b"
    by (simp_all add: ceil_div_def q_def [symmetric] algebra_simps)
qed

lemma page_window_bounds:
  assumes "1 \<le> p" and "p \<le> tot" and "case mx of None \<Rightarrow> True | Some m \<Rightarrow> 1 \<le> m"
    and "page_window cfg mx p tot = (a, b)"
  shows "1 \<le> a \<and> a \<le> p \<and> p \<le> b \<and> b \<le> tot"
proof (cases mx)
  case None
  then show ?thesis using assms by (simp add: page_window_def)
next
  case (Some m)
  then have m: "1 \<le> m" using assms(3) by simp
  then have half: "0 \<le> m div 2" "m div 2 < m" by simp_all
  have c: "(ceil_div p m - 1) * m < p" "p \<le> ceil_div p m * m"
    using ceil_div_bounds [of m p] m by simp_all
  have "0 \<le> (ceil_div p m - 1) * m"
  proof -
    have "0 < ceil_div p m * m" using c(2) assms(1) m by linarith
    then have "1 \<le> ceil_div p m" using m by (simp add: zero_less_mult_iff)
    then show ?thesis using m by simp
  qed
  moreover have "(ceil_div p m - 1) * m + m = ceil_div p m * m" by (simp add: algebra_simps)
  ultimately show ?thesis
    using assms(1,2,4) m half c Some
    by (auto simp: page_window_def Let_def split: if_splits)
qed

text \<open>With \<open>rotate\<close> the window has exactly \<open>maxSize\<close> pages when there are more pages than that.\<close>

lemma page_window_size:
  assumes "rotate cfg" and "1 \<le> m" and "m < tot" and "page_window cfg (Some m) p tot = (a, b)"
  shows "b - a + 1 = m"
  using assms by (auto simp: page_window_def Let_def split: if_splits)

section \<open>The state\<close>

lemma render_fields [simp]:
  "totalPages (render c) = totalPages c" "viewValue (render c) = viewValue c" "config (render c) = config c"
  "maxSize (render c) = maxSize c"
  "page (render c) = Some (case viewValue c of None \<Rightarrow> 1 | Some v \<Rightarrow> if v = 0 then 1 else v)"
  by (simp_all add: render_def base_render_def Let_def)

lemma calculateTotalPages_pos: "1 \<le> calculateTotalPages c"
  by (simp add: calculateTotalPages_def)

text \<open>The page buttons are those of the current page whenever that page exists.\<close>

definition buttons_ok :: "paging \<Rightarrow> bool" where
  "buttons_ok c \<longleftrightarrow>
     (\<forall>p t. page c = Some p \<and> totalPages c = Some t \<and> 0 < p \<and> p \<le> t \<longrightarrow> pages c = getPages (config c) (maxSize c) p t)"

lemma buttons_ok_render: "buttons_ok (render c)"
  by (auto simp: buttons_ok_def render_def base_render_def Let_def)

lemma selectPage_buttons: "buttons_ok c \<Longrightarrow> buttons_ok (selectPage c p evt)"
  by (simp add: selectPage_def Let_def buttons_ok_render)

text \<open>
  What every event keeps: the page shown is the one the model asks for, the buttons belong to it, and
  there is at least one page. The page number itself is positive as long as the model's is.
\<close>

definition shown :: "int option \<Rightarrow> int" where
  "shown v = (case v of None \<Rightarrow> 1 | Some n \<Rightarrow> if n = 0 then 1 else n)"

definition paging_inv :: "paging \<Rightarrow> bool" where
  "paging_inv c \<longleftrightarrow> buttons_ok c \<and> (page c = None \<or> page c = Some (shown (viewValue c))) \<and>
     (case totalPages c of None \<Rightarrow> True | Some t \<Rightarrow> 1 \<le> t) \<and> 1 \<le> shown (viewValue c)"

fun model_ok :: "paging_event \<Rightarrow> bool" where
  "model_ok (ModelChanged (Some v)) \<longleftrightarrow> 0 \<le> v"
| "model_ok _ \<longleftrightarrow> True"

lemma render_inv:
  "1 \<le> shown (viewValue c) \<Longrightarrow> (case totalPages c of None \<Rightarrow> True | Some t \<Rightarrow> 1 \<le> t) \<Longrightarrow> paging_inv (render c)"
  by (simp add: paging_inv_def buttons_ok_render shown_def)

lemma selectPage_inv: "paging_inv c \<Longrightarrow> paging_inv (selectPage c p evt)"
  by (auto simp: selectPage_def Let_def shown_def paging_inv_def buttons_ok_render)

lemma updatePage_inv:
  assumes "totalPages c = Some t" and "1 \<le> t" and "1 \<le> shown (viewValue c)"
    and "page c = None \<or> page c = Some (shown (viewValue c))"
  shows "paging_inv (updatePage c)" and "totalPages (updatePage c) = Some t"
    and "page c \<noteq> None \<Longrightarrow> js_le (page (updatePage c)) (Some t)"
  using assms
  by (auto simp: updatePage_def Let_def selectPage_def render_inv shown_def paging_inv_def buttons_ok_render
      split: option.splits)

lemma paging_inv_step: "paging_inv c \<Longrightarrow> model_ok e \<Longrightarrow> paging_inv (paging_step c e)"
proof (induction c e rule: paging_step.induct)
  case (1 c v)
  then show ?case
    by (simp add: Let_def) (rule updatePage_inv, auto simp: paging_inv_def calculateTotalPages_pos)
next
  case (2 c v)
  have "paging_inv (updatePage (c\<lparr>totalItems := v, totalPages := Some (calculateTotalPages (c\<lparr>totalItems := v\<rparr>))\<rparr>))"
    by (rule updatePage_inv) (use 2 in \<open>auto simp: paging_inv_def calculateTotalPages_pos\<close>)
  with 2 show ?case by (auto simp: Let_def paging_inv_def buttons_ok_def)
next
  case (3 c v)
  have "paging_inv (render (c\<lparr>maxSize := v\<rparr>))"
    by (rule render_inv) (use 3 in \<open>simp_all add: paging_inv_def\<close>)
  then show ?case by simp
next
  case (4 c p evt)
  then show ?case by (simp add: selectPage_inv)
next
  case (5 c v)
  then show ?case by (cases v) (auto simp: paging_inv_def shown_def buttons_ok_render)
qed

definition paging_run :: "paging \<Rightarrow> paging_event list \<Rightarrow> paging" where
  "paging_run c es = run_steps paging_step c es"

lemma paging_inv_run: "paging_inv c \<Longrightarrow> \<forall>e\<in>set es. model_ok e \<Longrightarrow> paging_inv (paging_run c es)"
  by (induction es arbitrary: c) (simp_all add: paging_run_def paging_inv_step)

lemma paging_inv_init: "paging_inv (paging_init cfg mx dis)"
  by (simp add: paging_init_def paging_inv_def buttons_ok_def shown_def)

section \<open>The buttons\<close>

text \<open>The numbers on the buttons are strictly increasing, whatever options are set.\<close>

definition sorted_buttons :: "page_button list \<Rightarrow> bool" where
  "sorted_buttons bs \<longleftrightarrow> sorted_wrt (<) (map number bs)"

lemma getPages_numbers:
  assumes "page_window cfg mx p tot = (a, b)" and "1 \<le> a" and "a \<le> b" and "b \<le> tot"
  shows "sorted_buttons (getPages cfg mx p tot) \<and> (\<forall>k\<in>set (getPages cfg mx p tot). 1 \<le> number k \<and> number k \<le> tot)"
proof -
  have w: "map number (map (\<lambda>n. makePage n (pageLabel cfg n) (n = p)) [a..b]) = [a..b]"
    by (simp add: makePage_def comp_def)
  have s: "sorted_wrt (<) [a..b]" by (simp add: sorted_wrt_upto)
  show ?thesis
    using assms s
    by (auto simp: getPages_def Let_def sorted_buttons_def w sorted_wrt_append makePage_def comp_def)
qed

lemma getPages_active:
  assumes "page_window cfg mx p tot = (a, b)" and "a \<le> p" and "p \<le> b"
  shows "map number (filter active (getPages cfg mx p tot)) = [p]"
proof -
  have "map number (filter active (map (\<lambda>n. makePage n (pageLabel cfg n) (n = p)) [a..b])) = filter (\<lambda>n. n = p) [a..b]"
    by (simp add: makePage_def filter_map comp_def)
  moreover have "[a..b] = [a..p - 1] @ p # [p + 1..b]"
    using assms(2,3) upto_split3 by blast
  ultimately have "map number (filter active (map (\<lambda>n. makePage n (pageLabel cfg n) (n = p)) [a..b])) = [p]"
    by simp
  then show ?thesis
    using assms(1) by (auto simp: getPages_def Let_def makePage_def)
qed

section \<open>Properties\<close>

text \<open>
  C15. The page buttons: for an existing page and a positive or missing \<open>maxSize\<close>, the numbers on the
  buttons are strictly increasing and between 1 and the number of pages, and exactly one button, the
  one of the current page, is active.
\<close>

theorem page_buttons:
  assumes "1 \<le> p" and "p \<le> tot" and "case mx of None \<Rightarrow> True | Some m \<Rightarrow> 1 \<le> m"
  shows "sorted_wrt (<) (map number (getPages cfg mx p tot)) \<and>
    (\<forall>k\<in>set (getPages cfg mx p tot). 1 \<le> number k \<and> number k \<le> tot) \<and>
    map number (filter active (getPages cfg mx p tot)) = [p]"
proof -
  obtain a b where w: "page_window cfg mx p tot = (a, b)" by force
  with page_window_bounds [OF assms] have "1 \<le> a" "a \<le> p" "p \<le> b" "b \<le> tot" by blast+
  with getPages_numbers [OF w] getPages_active [OF w] show ?thesis
    by (simp add: sorted_buttons_def)
qed

theorem page_buttons_witness:
  "map number (filter active (getPages (uibPaginationConfig\<lparr>boundaryLinkNumbers := True\<rparr>) (Some 3) 6 20)) = [6]"
  by (rule page_buttons [THEN conjunct2, THEN conjunct2]) simp_all

text \<open>
  After any events, a change of the number of items leaves the page within range: the number of
  pages is at least one, the page is between 1 and it, and the buttons are those of that page (for a
  page rendered before and a model that was never negative).
\<close>

lemma page_in_range:
  assumes "\<forall>e\<in>set es. model_ok e" and "page (paging_run (paging_init cfg mx dis) es) \<noteq> None"
  shows "\<exists>p t. page (paging_run (paging_init cfg mx dis) (es @ [TotalItemsChanged (Some n)])) = Some p \<and>
    totalPages (paging_run (paging_init cfg mx dis) (es @ [TotalItemsChanged (Some n)])) = Some t \<and>
    1 \<le> p \<and> p \<le> t \<and>
    pages (paging_run (paging_init cfg mx dis) (es @ [TotalItemsChanged (Some n)])) =
      getPages (config (paging_run (paging_init cfg mx dis) (es @ [TotalItemsChanged (Some n)])))
        (maxSize (paging_run (paging_init cfg mx dis) (es @ [TotalItemsChanged (Some n)]))) p t"
proof -
  let ?c = "paging_run (paging_init cfg mx dis) es"
  let ?d = "?c\<lparr>totalItems := Some n, totalPages := Some (calculateTotalPages (?c\<lparr>totalItems := Some n\<rparr>))\<rparr>"
  have inv: "paging_inv ?c" by (rule paging_inv_run [OF paging_inv_init assms(1)])
  have run: "paging_run (paging_init cfg mx dis) (es @ [TotalItemsChanged (Some n)]) = updatePage ?d"
    by (simp add: paging_run_def Let_def)
  define t where "t = calculateTotalPages (?c\<lparr>totalItems := Some n\<rparr>)"
  have d: "totalPages ?d = Some t" "1 \<le> t" "1 \<le> shown (viewValue ?d)" "page ?d \<noteq> None"
    "page ?d = None \<or> page ?d = Some (shown (viewValue ?d))"
    using inv assms(2) by (simp_all add: t_def calculateTotalPages_pos paging_inv_def)
  note u = updatePage_inv(1) [OF d(1,2,3,5)] updatePage_inv(2) [OF d(1,2,3,5)] updatePage_inv(3) [OF d(1,2,3,5,4)]
  obtain p where p: "page (updatePage ?d) = Some p" "p \<le> t"
    using u(3) by (cases "page (updatePage ?d)") auto
  then have "1 \<le> p" using u(1) by (auto simp: paging_inv_def)
  with u(1,2) p show ?thesis
    unfolding run by (auto simp: paging_inv_def buttons_ok_def)
qed

end
