(* ===== verification/UiTabs.thy ===== *)
theory UiTabs
  imports Prelude
begin

text \<open>
  Tab sets: \<open>UibTabsetController\<close> and the \<open>uibTab\<close> directive of
  \<open>assets/public/components/angular-bootstrap/ui-bootstrap.js\<close>. A tab is its scope: an identity,
  its index and its flags. \<open>None\<close> is undefined or null; \<open>ctrl.tabs[i]\<close> out of range is undefined.
\<close>

record tab =
  tid :: nat
  tindex :: int
  tactive :: bool
  tdisabled :: bool

datatype tab_callback = OnSelect nat | OnDeselect nat

record tabset =
  tabs :: "tab list"
  activeIndex :: "int option"
  oldIndex :: "int option"
  destroyed :: bool
  callbacks :: "tab_callback list"

definition new_tabset :: tabset where
  "new_tabset = \<lparr>tabs = [], activeIndex = None, oldIndex = None, destroyed = False, callbacks = []\<rparr>"

fun find_from :: "nat \<Rightarrow> tab list \<Rightarrow> int option \<Rightarrow> nat option" where
  "find_from i [] idx = None"
| "find_from i (t # ts) idx = (if idx = Some (tindex t) then Some i else find_from (Suc i) ts idx)"

definition findTabIndex :: "tabset \<Rightarrow> int option \<Rightarrow> nat option" where
  "findTabIndex c idx = find_from 0 (tabs c) idx"

definition tab_at :: "tabset \<Rightarrow> int option \<Rightarrow> tab option" where
  "tab_at c i = (case i of None \<Rightarrow> None
     | Some k \<Rightarrow> if 0 \<le> k \<and> k < int (length (tabs c)) then Some (tabs c ! nat k) else None)"

text \<open>Writing the \<open>active\<close> flag of one tab of the list.\<close>

definition set_tab :: "tabset \<Rightarrow> int \<Rightarrow> bool \<Rightarrow> tabset" where
  "set_tab c k b = c\<lparr>tabs := (tabs c)[nat k := (tabs c ! nat k)\<lparr>tactive := b\<rparr>]\<rparr>"

text \<open>
  \<open>select\<close> first deselects the tab it selected last, then selects the tab at a position; a position
  without a tab clears the selection.
\<close>

definition deselected :: "tabset \<Rightarrow> tabset" where
  "deselected c =
     (let previousIndex = map_option int (findTabIndex c (oldIndex c))
      in case tab_at c previousIndex of
           None \<Rightarrow> c
         | Some t \<Rightarrow> (set_tab c (the previousIndex) False)\<lparr>callbacks := callbacks c @ [OnDeselect (tid t)]\<rparr>)"

definition select :: "tabset \<Rightarrow> int option \<Rightarrow> tabset" where
  "select c index =
     (if destroyed c then c
      else let c1 = deselected c
           in case tab_at c1 index of
                Some t \<Rightarrow> (set_tab c1 (the index) True)\<lparr>callbacks := callbacks c1 @ [OnSelect (tid t)],
                            activeIndex := Some (tindex t), oldIndex := Some (tindex t)\<rparr>
              | None \<Rightarrow> if oldIndex c1 \<noteq> None then c1\<lparr>activeIndex := None, oldIndex := None\<rparr> else c1)"

definition addTab :: "tabset \<Rightarrow> tab \<Rightarrow> tabset" where
  "addTab c t =
     (let c1 = c\<lparr>tabs := sort_key tindex (tabs c @ [t])\<rparr>
      in if Some (tindex t) = activeIndex c1 \<or> activeIndex c1 = None \<and> length (tabs c1) = 1
         then select c1 (map_option int (findTabIndex c1 (Some (tindex t))))
         else c1)"

definition removeTab :: "tabset \<Rightarrow> tab \<Rightarrow> tabset" where
  "removeTab c t =
     (let index = findTabIndex c (Some (tindex t));
          n = length (tabs c);
          c1 = (if Some (tindex t) = activeIndex c then
                  select c (case index of None \<Rightarrow> None
                            | Some i \<Rightarrow> Some (if int i = int n - 1 then int i - 1 else int i + 1 mod int n))
                else c);
          k = (case index of None \<Rightarrow> 0 | Some i \<Rightarrow> i)
      in c1\<lparr>tabs := take k (tabs c1) @ drop (Suc k) (tabs c1)\<rparr>)"

text \<open>The watch on the bound \<open>active\<close>, the tab's link function and its \<open>select\<close>.\<close>

definition active_watch :: "tabset \<Rightarrow> int option \<Rightarrow> tabset" where
  "active_watch c val =
     (let c1 = c\<lparr>activeIndex := val\<rparr>
      in if val \<noteq> None \<and> val \<noteq> oldIndex c1 then select c1 (map_option int (findTabIndex c1 val)) else c1)"

definition link_tab :: "tabset \<Rightarrow> nat \<Rightarrow> int option \<Rightarrow> tabset" where
  "link_tab c i index =
     addTab c \<lparr>tid = i, tindex = (case index of Some k \<Rightarrow> k
                 | None \<Rightarrow> if tabs c \<noteq> [] then Max (set (map tindex (tabs c))) + 1 else 0),
               tactive = False, tdisabled = False\<rparr>"

fun position_of :: "nat \<Rightarrow> tab list \<Rightarrow> nat \<Rightarrow> nat option" where
  "position_of i [] x = None"
| "position_of i (t # ts) x = (if tid t = x then Some i else position_of (Suc i) ts x)"

definition click_tab :: "tabset \<Rightarrow> tab \<Rightarrow> tabset" where
  "click_tab c t =
     (if tdisabled t then c else select c (map_option int (position_of 0 (tabs c) (tid t))))"

section \<open>What every operation keeps\<close>

text \<open>
  The tabs are in the order of their indices, which are distinct, and a tab is active only when the
  controller remembers its index as the selected one.
\<close>

definition tabs_inv :: "tabset \<Rightarrow> bool" where
  "tabs_inv c \<longleftrightarrow> sorted_wrt (<) (map tindex (tabs c)) \<and>
     (\<forall>t\<in>set (tabs c). tactive t \<longrightarrow> oldIndex c = Some (tindex t))"

lemma find_from_Some:
  "find_from i ts idx = Some k \<Longrightarrow> \<exists>j. k = i + j \<and> j < length ts \<and> idx = Some (tindex (ts ! j))"
proof (induction ts arbitrary: i)
  case (Cons t ts)
  show ?case
  proof (cases "idx = Some (tindex t)")
    case True
    with Cons.prems show ?thesis by (intro exI [of _ 0]) simp
  next
    case False
    with Cons.prems have "find_from (Suc i) ts idx = Some k" by simp
    from Cons.IH [OF this] obtain j where "k = Suc i + j" "j < length ts" "idx = Some (tindex (ts ! j))"
      by blast
    then show ?thesis by (intro exI [of _ "Suc j"]) simp
  qed
qed simp

lemma find_from_None: "find_from i ts idx = None \<longleftrightarrow> (\<forall>t\<in>set ts. idx \<noteq> Some (tindex t))"
  by (induction ts arbitrary: i) auto

lemma findTabIndex_Some:
  "findTabIndex c idx = Some k \<Longrightarrow> k < length (tabs c) \<and> idx = Some (tindex (tabs c ! k))"
  using find_from_Some [of 0 "tabs c" idx k] by (auto simp: findTabIndex_def)

lemma findTabIndex_None: "findTabIndex c idx = None \<longleftrightarrow> (\<forall>t\<in>set (tabs c). idx \<noteq> Some (tindex t))"
  by (simp add: findTabIndex_def find_from_None)

lemma sorted_index_inj:
  "sorted_wrt (<) (map tindex ts) \<Longrightarrow> i < length ts \<Longrightarrow> j < length ts \<Longrightarrow> tindex (ts ! i) = tindex (ts ! j) \<longleftrightarrow> i = j"
  by (metis length_map linorder_neqE_nat nth_map order_less_irrefl sorted_wrt_nth_less)

text \<open>With distinct indices, writing the flag at a position is writing it at that position's index.\<close>

lemma set_tab_map:
  assumes "sorted_wrt (<) (map tindex (tabs c))" and "0 \<le> k" and "k < int (length (tabs c))"
  shows "tabs (set_tab c k b) =
    map (\<lambda>t. if tindex t = tindex (tabs c ! nat k) then t\<lparr>tactive := b\<rparr> else t) (tabs c)"
proof (rule nth_equalityI)
  fix i assume "i < length (tabs (set_tab c k b))"
  then have "i < length (tabs c)" by (simp add: set_tab_def)
  then show "tabs (set_tab c k b) ! i =
      map (\<lambda>t. if tindex t = tindex (tabs c ! nat k) then t\<lparr>tactive := b\<rparr> else t) (tabs c) ! i"
    using assms sorted_index_inj [OF assms(1), of i "nat k"] by (auto simp: set_tab_def nth_list_update)
qed (simp add: set_tab_def)

lemma set_tab_fields [simp]:
  "oldIndex (set_tab c k b) = oldIndex c" "activeIndex (set_tab c k b) = activeIndex c"
  "destroyed (set_tab c k b) = destroyed c"
  by (simp_all add: set_tab_def)

lemma tab_at_Some: "tab_at c (Some k) = Some t \<longleftrightarrow> 0 \<le> k \<and> k < int (length (tabs c)) \<and> t = tabs c ! nat k"
  by (auto simp: tab_at_def)

definition flag_only :: "int option \<Rightarrow> tab \<Rightarrow> tab" where
  "flag_only idx t = t\<lparr>tactive := (idx = Some (tindex t))\<rparr>"

lemma tindex_flag_only [simp]: "tindex (flag_only idx t) = tindex t"
  by (simp add: flag_only_def)

lemma flag_only_same: "(tactive t \<longleftrightarrow> idx = Some (tindex t)) \<Longrightarrow> flag_only idx t = t"
  by (cases t) (simp add: flag_only_def)

text \<open>Deselecting leaves no tab active.\<close>

lemma deselected_tabs:
  assumes "tabs_inv c"
  shows "tabs (deselected c) = map (flag_only None) (tabs c)"
    and "oldIndex (deselected c) = oldIndex c" and "activeIndex (deselected c) = activeIndex c"
    and "destroyed (deselected c) = destroyed c"
proof -
  show "oldIndex (deselected c) = oldIndex c" "activeIndex (deselected c) = activeIndex c"
    "destroyed (deselected c) = destroyed c"
    by (simp_all add: deselected_def Let_def split: option.splits)
  have act: "\<forall>t\<in>set (tabs c). tactive t \<longrightarrow> oldIndex c = Some (tindex t)"
    and srt: "sorted_wrt (<) (map tindex (tabs c))"
    using assms by (simp_all add: tabs_inv_def)
  show "tabs (deselected c) = map (flag_only None) (tabs c)"
  proof (cases "findTabIndex c (oldIndex c)")
    case None
    then have "\<forall>t\<in>set (tabs c). flag_only None t = t"
      using act by (auto simp: findTabIndex_None intro!: flag_only_same)
    with None show ?thesis by (simp add: deselected_def tab_at_def map_idI)
  next
    case (Some k)
    then have k: "k < length (tabs c)" "oldIndex c = Some (tindex (tabs c ! k))"
      using findTabIndex_Some by blast+
    have "tabs (deselected c) = tabs (set_tab c (int k) False)"
      using Some k by (simp add: deselected_def tab_at_def)
    also have "\<dots> = map (flag_only None) (tabs c)"
      using act k srt by (auto simp: set_tab_map flag_only_def)
    finally show ?thesis .
  qed
qed

lemma select_result:
  assumes "tabs_inv c" and "\<not> destroyed c"
  shows "tabs (select c i) = map (flag_only (map_option tindex (tab_at c i))) (tabs c)"
    and "oldIndex (select c i) = map_option tindex (tab_at c i)"
    and "tab_at c i \<noteq> None \<Longrightarrow> activeIndex (select c i) = map_option tindex (tab_at c i)"
    and "destroyed (select c i) = destroyed c"
proof -
  note d = deselected_tabs [OF assms(1)]
  have srt: "sorted_wrt (<) (map tindex (tabs (deselected c)))"
    using assms(1) by (simp add: d tabs_inv_def comp_def)
  have at: "tab_at (deselected c) i = map_option (flag_only None) (tab_at c i)"
    by (cases i) (auto simp: tab_at_def d)
  show "oldIndex (select c i) = map_option tindex (tab_at c i)"
    "tab_at c i \<noteq> None \<Longrightarrow> activeIndex (select c i) = map_option tindex (tab_at c i)"
    "destroyed (select c i) = destroyed c"
    using assms(2) by (auto simp: select_def Let_def at d split: option.splits)
  show "tabs (select c i) = map (flag_only (map_option tindex (tab_at c i))) (tabs c)"
  proof (cases "tab_at c i")
    case None
    then show ?thesis by (simp add: select_def Let_def assms(2) at d)
  next
    case (Some t)
    then obtain k where k: "i = Some k" "0 \<le> k" "k < int (length (tabs c))" "t = tabs c ! nat k"
      by (cases i) (auto simp: tab_at_def split: if_splits)
    have "tab_at (deselected c) (Some k) = Some (flag_only None t)"
      using at Some k(1) by simp
    then have "tabs (select c i) = tabs (set_tab (deselected c) k True)"
      by (simp add: select_def Let_def assms(2) k(1))
    also have "\<dots> = map (flag_only (Some (tindex t))) (tabs c)"
      using k srt by (subst set_tab_map) (auto simp: d flag_only_def)
    finally show ?thesis using Some by simp
  qed
qed

lemma select_inv: "tabs_inv c \<Longrightarrow> tabs_inv (select c i)"
proof (cases "destroyed c")
  case False
  assume inv: "tabs_inv c"
  note s = select_result [OF inv False]
  show ?thesis
    using inv by (auto simp: tabs_inv_def s comp_def) (auto simp: flag_only_def)
qed (simp add: select_def)

lemma sorted_insort_end:
  fixes ts :: "tab list"
  assumes "sorted_wrt (<) (map tindex ts)" and "tindex t \<notin> tindex ` set ts"
  shows "sorted_wrt (<) (map tindex (sort_key tindex (ts @ [t])))"
proof -
  have "distinct (map tindex (ts @ [t]))"
    using assms strict_sorted_iff by auto
  then have "distinct (map tindex (sort_key tindex (ts @ [t])))"
    by (simp only: distinct_map distinct_sort set_sort)
  then show ?thesis by (simp add: strict_sorted_iff)
qed

lemma addTab_inv:
  assumes "tabs_inv c" and "\<not> tactive t" and "tindex t \<notin> tindex ` set (tabs c)"
  shows "tabs_inv (addTab c t)"
proof -
  have "tabs_inv (c\<lparr>tabs := sort_key tindex (tabs c @ [t])\<rparr>)"
    using assms sorted_insort_end [of "tabs c" t] by (auto simp: tabs_inv_def)
  then show ?thesis by (simp add: addTab_def Let_def select_inv)
qed

lemma sorted_wrt_drop_one:
  assumes "sorted_wrt P xs" shows "sorted_wrt P (take k xs @ drop (Suc k) xs)"
proof -
  have "sorted_wrt P (take k xs @ drop k xs)" using assms by simp
  moreover have "drop (Suc k) xs = tl (drop k xs)" by (simp add: drop_Suc drop_tl)
  ultimately show ?thesis by (cases "drop k xs") (simp_all add: sorted_wrt_append)
qed

lemma drop_one_inv:
  assumes "tabs_inv c" shows "tabs_inv (c\<lparr>tabs := take k (tabs c) @ drop (Suc k) (tabs c)\<rparr>)"
  using assms sorted_wrt_drop_one [of "(<)" "map tindex (tabs c)" k]
  by (auto simp: tabs_inv_def take_map drop_map dest: in_set_takeD in_set_dropD)

lemma removeTab_inv: "tabs_inv c \<Longrightarrow> tabs_inv (removeTab c t)"
  by (auto simp: removeTab_def Let_def intro!: drop_one_inv select_inv)

lemma active_watch_inv: "tabs_inv c \<Longrightarrow> tabs_inv (active_watch c v)"
proof -
  assume "tabs_inv c"
  then have "tabs_inv (c\<lparr>activeIndex := v\<rparr>)" by (simp add: tabs_inv_def)
  then show ?thesis by (simp add: active_watch_def Let_def select_inv)
qed

lemma click_tab_inv: "tabs_inv c \<Longrightarrow> tabs_inv (click_tab c t)"
  by (simp add: click_tab_def select_inv)

text \<open>The events of a tab set; a tab is named by its position, its index may be left out.\<close>

datatype tab_event = LinkTab nat "int option" | DestroyTab nat | ClickTab nat | ActiveChanged "int option"
  | DisableTab nat bool | DestroyTabset

definition set_disabled :: "tabset \<Rightarrow> nat \<Rightarrow> bool \<Rightarrow> tabset" where
  "set_disabled c k b = c\<lparr>tabs := (tabs c)[k := (tabs c ! k)\<lparr>tdisabled := b\<rparr>]\<rparr>"

fun tab_step :: "tabset \<Rightarrow> tab_event \<Rightarrow> tabset" where
  "tab_step c (LinkTab i index) = link_tab c i index"
| "tab_step c (DestroyTab k) = (if k < length (tabs c) then removeTab c (tabs c ! k) else c)"
| "tab_step c (ClickTab k) = (if k < length (tabs c) then click_tab c (tabs c ! k) else c)"
| "tab_step c (ActiveChanged v) = active_watch c v"
| "tab_step c (DisableTab k b) = (if k < length (tabs c) then set_disabled c k b else c)"
| "tab_step c DestroyTabset = c\<lparr>destroyed := True\<rparr>"

text \<open>Explicit indices are used for one tab each.\<close>

fun fresh_indices :: "tabset \<Rightarrow> tab_event list \<Rightarrow> bool" where
  "fresh_indices c [] \<longleftrightarrow> True"
| "fresh_indices c (e # es) \<longleftrightarrow>
     (case e of LinkTab i (Some k) \<Rightarrow> k \<notin> tindex ` set (tabs c) | _ \<Rightarrow> True) \<and> fresh_indices (tab_step c e) es"

lemma link_tab_inv:
  assumes "tabs_inv c" and "case k of Some n \<Rightarrow> n \<notin> tindex ` set (tabs c) | None \<Rightarrow> True"
  shows "tabs_inv (link_tab c i k)"
proof -
  have "Max (set (map tindex (tabs c))) + 1 \<notin> tindex ` set (tabs c)"
    using Max_ge [of "set (map tindex (tabs c))" "Max (set (map tindex (tabs c))) + 1"] by auto
  then show ?thesis
    unfolding link_tab_def using assms by (intro addTab_inv) (auto split: option.splits)
qed

lemma set_disabled_inv: "tabs_inv c \<Longrightarrow> tabs_inv (set_disabled c k b)"
proof -
  assume inv: "tabs_inv c"
  have "map tindex (tabs (set_disabled c k b)) = map tindex (tabs c)"
    by (cases "k < length (tabs c)") (simp_all add: set_disabled_def map_update list_update_same_conv list_update_beyond)
  moreover have "tactive t \<longrightarrow> oldIndex c = Some (tindex t)" if "t \<in> set (tabs (set_disabled c k b))" for t
  proof (cases "k < length (tabs c)")
    case True
    then have "t \<in> insert ((tabs c ! k)\<lparr>tdisabled := b\<rparr>) (set (tabs c))"
      using that set_update_subset_insert by (fastforce simp: set_disabled_def)
    moreover have "tabs c ! k \<in> set (tabs c)" using True by simp
    ultimately show ?thesis using inv by (auto simp: tabs_inv_def)
  next
    case False
    then show ?thesis using that inv by (simp add: set_disabled_def tabs_inv_def list_update_beyond)
  qed
  moreover have "oldIndex (set_disabled c k b) = oldIndex c" by (simp add: set_disabled_def)
  ultimately show ?thesis using inv by (simp add: tabs_inv_def)
qed

lemma tab_step_inv:
  assumes "tabs_inv c" and "case e of LinkTab i (Some k) \<Rightarrow> k \<notin> tindex ` set (tabs c) | _ \<Rightarrow> True"
  shows "tabs_inv (tab_step c e)"
proof (cases e)
  case DestroyTabset
  then show ?thesis using assms(1) by (simp add: tabs_inv_def)
qed (use assms in \<open>auto simp: link_tab_inv removeTab_inv click_tab_inv active_watch_inv set_disabled_inv split: option.splits\<close>)

lemma tabs_run_inv: "tabs_inv c \<Longrightarrow> fresh_indices c es \<Longrightarrow> tabs_inv (run_steps tab_step c es)"
  by (induction es arbitrary: c) (simp_all add: tab_step_inv)

lemma new_tabset_inv: "tabs_inv new_tabset"
  by (simp add: tabs_inv_def new_tabset_def)

section \<open>Properties\<close>

text \<open>
  Without that condition it does not hold. Two tabs with one index: the first is selected when it is
  added; clicking the second and the first again deselects by index, which finds the first one both times.
\<close>

lemma shared_index_two_active:
  "map (\<lambda>t. (tid t, tactive t)) (tabs (run_steps tab_step new_tabset
     [LinkTab 7 (Some 1), LinkTab 8 (Some 1), ClickTab 1, ClickTab 0])) = [(7, True), (8, True)]"
  by (simp add: link_tab_def addTab_def click_tab_def new_tabset_def select_def deselected_def findTabIndex_def
      tab_at_def set_tab_def)

text \<open>
  C16. One tab at a time: as long as no tab is added with an explicit index that another tab of the set has
  at that moment (the hypothesis \<open>fresh_indices\<close>; without it two tabs can be active, as
  \<open>shared_index_two_active\<close> shows), after any additions, removals, clicks and changes of the bound \<open>active\<close>
  the tabs are in strictly increasing order of their indices and at most one of them is active.
\<close>

theorem at_most_one_active_tab:
  assumes "fresh_indices new_tabset es"
  shows "sorted_wrt (<) (map tindex (tabs (run_steps tab_step new_tabset es))) \<and>
    length (filter tactive (tabs (run_steps tab_step new_tabset es))) \<le> 1"
proof -
  let ?c = "run_steps tab_step new_tabset es"
  have inv: "tabs_inv ?c" by (rule tabs_run_inv [OF new_tabset_inv assms])
  then have d: "distinct (map tindex (tabs ?c))" by (simp add: tabs_inv_def strict_sorted_iff)
  then have "distinct (map tindex (filter tactive (tabs ?c)))" by (simp add: distinct_map_filter)
  moreover have "set (map tindex (filter tactive (tabs ?c))) \<subseteq> (case oldIndex ?c of None \<Rightarrow> {} | Some i \<Rightarrow> {i})"
    using inv by (auto simp: tabs_inv_def split: option.splits)
  moreover have "card (case oldIndex ?c of None \<Rightarrow> {} | Some i \<Rightarrow> {i}) \<le> 1"
    "finite (case oldIndex ?c of None \<Rightarrow> {} | Some i \<Rightarrow> {i})"
    by (simp_all split: option.splits)
  ultimately have "length (map tindex (filter tactive (tabs ?c))) \<le> 1"
    using card_mono distinct_card by (metis (no_types, lifting) le_trans)
  with inv show ?thesis by (simp add: tabs_inv_def)
qed

theorem at_most_one_active_tab_witness:
  "length (filter tactive (tabs (run_steps tab_step new_tabset [LinkTab 7 (Some 2), LinkTab 8 (Some 1), ClickTab 0]))) \<le> 1"
  using at_most_one_active_tab [of "[LinkTab 7 (Some 2), LinkTab 8 (Some 1), ClickTab 0]"]
  by (simp add: link_tab_def addTab_def new_tabset_def select_def deselected_def findTabIndex_def tab_at_def set_tab_def)

text \<open>
  Removing the active tab moves the selection to its right neighbour, or to its left one when it
  is the last; the other tabs are untouched and the removed one is gone.
\<close>

lemma removing_selects_neighbour:
  assumes "tabs_inv c" and "\<not> destroyed c" and "k < length (tabs c)" and "2 \<le> length (tabs c)"
    and "activeIndex c = Some (tindex (tabs c ! k))"
  shows "let n = (if k = length (tabs c) - 1 then k - 1 else k + 1); c' = removeTab c (tabs c ! k) in
    oldIndex c' = Some (tindex (tabs c ! n)) \<and> activeIndex c' = oldIndex c' \<and>
    map tindex (tabs c') = map tindex (take k (tabs c) @ drop (Suc k) (tabs c)) \<and>
    (\<forall>t\<in>set (tabs c'). tactive t \<longleftrightarrow> tindex t = tindex (tabs c ! n))"
proof -
  define n where "n = (if k = length (tabs c) - 1 then k - 1 else k + 1)"
  have srt: "sorted_wrt (<) (map tindex (tabs c))" using assms(1) by (simp add: tabs_inv_def)
  obtain j where j: "findTabIndex c (Some (tindex (tabs c ! k))) = Some j"
    using assms(3) findTabIndex_None [of c "Some (tindex (tabs c ! k))"] nth_mem by fastforce
  have "j = k" using findTabIndex_Some [OF j] sorted_index_inj [OF srt, of k j] assms(3) by auto
  have pos: "(if int k = int (length (tabs c)) - 1 then int k - 1 else int k + 1 mod int (length (tabs c))) = int n"
    using assms(3,4) by (auto simp: n_def)
  have rm: "removeTab c (tabs c ! k) = (let c1 = select c (Some (int n)) in c1\<lparr>tabs := take k (tabs c1) @ drop (Suc k) (tabs c1)\<rparr>)"
    using assms(5) unfolding removeTab_def Let_def j \<open>j = k\<close> option.case pos by simp
  have at: "tab_at c (Some (int n)) = Some (tabs c ! n)"
    using assms(3,4) by (auto simp: tab_at_def n_def)
  note s = select_result [OF assms(1,2), of "Some (int n)", unfolded at]
  let ?c' = "removeTab c (tabs c ! k)"
  have "oldIndex ?c' = Some (tindex (tabs c ! n))" "activeIndex ?c' = Some (tindex (tabs c ! n))"
    by (simp_all add: rm Let_def s)
  moreover have t: "tabs ?c' = map (flag_only (Some (tindex (tabs c ! n)))) (take k (tabs c) @ drop (Suc k) (tabs c))"
    by (simp add: rm Let_def s take_map drop_map)
  moreover have "\<forall>t\<in>set (tabs ?c'). tactive t \<longleftrightarrow> tindex t = tindex (tabs c ! n)"
    unfolding t by (auto simp: flag_only_def)
  ultimately show ?thesis unfolding n_def [symmetric] Let_def by (simp add: comp_def)
qed

end
