(* ===== verification/NgLexer.thy ===== *)
theory NgLexer
  imports Prelude
begin

text \<open>
  The lexer of Angular's expression language: \<open>Lexer\<close> in
  \<open>assets/public/components/angular/angular.js\<close>. A JavaScript string is the list of its UTF-16 code
  units. The lexer's \<open>text\<close> and \<open>index\<close> are the index and the rest of the text behind it, so
  \<open>charAt(index)\<close> is the head of the rest and \<open>peek\<close> looks behind it.
\<close>

section \<open>Strings and numbers\<close>

type_synonym jstring = "nat list"

definition js :: "string \<Rightarrow> jstring" where
  "js s = map of_char s"

text \<open>
  The value of a numeric literal, exact: its rounding to a double is not modelled. A text that is not
  a numeral, such as one with two points, is \<open>NaN\<close>.
\<close>

datatype jnum = NaN | Fin rat

datatype token_value = NumValue jnum | StrValue jstring

datatype token_kind = Punct | Operator | Ident | Constant token_value

record token =
  index :: nat
  text_of :: jstring
  kind :: token_kind

section \<open>Character classes\<close>

definition isNumber :: "nat option \<Rightarrow> bool" where
  "isNumber ch = (case ch of None \<Rightarrow> False | Some c \<Rightarrow> 48 \<le> c \<and> c \<le> 57)"

definition isWhitespace :: "nat \<Rightarrow> bool" where
  "isWhitespace c \<longleftrightarrow> c \<in> {32, 13, 9, 10, 11, 160}"

definition isIdent :: "nat \<Rightarrow> bool" where
  "isIdent c \<longleftrightarrow> 97 \<le> c \<and> c \<le> 122 \<or> 65 \<le> c \<and> c \<le> 90 \<or> c = 95 \<or> c = 36"

definition isExpOperator :: "nat option \<Rightarrow> bool" where
  "isExpOperator ch \<longleftrightarrow> ch = Some 45 \<or> ch = Some 43 \<or> isNumber ch"

definition is_punct :: "nat \<Rightarrow> bool" where
  "is_punct c \<longleftrightarrow> c \<in> set (js ''(){}[].,;:?'')"

definition lower :: "nat \<Rightarrow> nat" where
  "lower c = (if 65 \<le> c \<and> c \<le> 90 then c + 32 else c)"

definition peek1 :: "jstring \<Rightarrow> nat option" where
  "peek1 s = (case s of [] \<Rightarrow> None | c # _ \<Rightarrow> Some c)"

definition OPERATORS :: "jstring list" where
  "OPERATORS = map js [''+'', ''-'', ''*'', ''/'', ''%'', ''==='', ''!=='', ''=='', ''!='', ''<'', ''>'',
     ''<='', ''>='', ''&&'', ''||'', ''!'', ''='', ''|'']"

text \<open>\<open>ESCAPE[ch] || ch\<close>\<close>

definition ESCAPE :: "nat \<Rightarrow> nat" where
  "ESCAPE c = (if c = 110 then 10 else if c = 102 then 12 else if c = 114 then 13
     else if c = 116 then 9 else if c = 118 then 11 else c)"

definition hex_digit :: "nat \<Rightarrow> nat option" where
  "hex_digit c = (if 48 \<le> c \<and> c \<le> 57 then Some (c - 48)
     else if 97 \<le> c \<and> c \<le> 102 then Some (c - 87)
     else if 65 \<le> c \<and> c \<le> 70 then Some (c - 55) else None)"

section \<open>Errors\<close>

datatype lex_error =
  UnexpectedCharacter nat
| InvalidExponent nat
| InvalidUnicodeEscape nat jstring
| UnterminatedQuote nat nat

text \<open>The text of the error, as \<open>throwError\<close> composes it from the expression.\<close>

definition substring :: "jstring \<Rightarrow> nat \<Rightarrow> nat \<Rightarrow> jstring" where
  "substring s a b = take (b - a) (drop a s)"

definition column_text :: "jstring \<Rightarrow> nat option \<Rightarrow> nat \<Rightarrow> nat \<Rightarrow> jstring" where
  "column_text txt start idx stop =
     (case start of
        Some st \<Rightarrow> js (''s '' @ show_nat st @ ''-'' @ show_nat idx @ '' ['') @ substring txt st stop @ js '']''
      | None \<Rightarrow> js ('' '' @ show_nat stop))"

fun lex_error_parts :: "lex_error \<Rightarrow> jstring \<times> nat option \<times> nat \<times> nat" where
  "lex_error_parts (UnexpectedCharacter i) = (js ''Unexpected next character '', Some i, i, i + 1)"
| "lex_error_parts (InvalidExponent i) = (js ''Invalid exponent'', None, i, i)"
| "lex_error_parts (InvalidUnicodeEscape i hex) =
     (js ''Invalid unicode escape ['' @ [92, 117] @ hex @ js '']'', None, i, i)"
| "lex_error_parts (UnterminatedQuote st i) = (js ''Unterminated quote'', Some st, i, i)"

definition throwError :: "jstring \<Rightarrow> lex_error \<Rightarrow> jstring" where
  "throwError txt err =
     (case lex_error_parts err of (msg, start, idx, stop) \<Rightarrow>
        js ''Lexer Error: '' @ msg @ js '' at column'' @ column_text txt start idx stop
        @ js '' in expression ['' @ txt @ js ''].'')"

section \<open>Numbers\<close>

definition digits_value :: "jstring \<Rightarrow> nat" where
  "digits_value ds = foldl (\<lambda>n d. 10 * n + (d - 48)) 0 ds"

text \<open>
  \<open>Number(text)\<close> on the texts \<open>readNumber\<close> collects, which consist of digits, points, \<open>e\<close> and signs:
  digits, optionally a point and digits, optionally an exponent, with a digit before the exponent.
\<close>

definition exponent_value :: "jstring \<Rightarrow> int option" where
  "exponent_value s =
     (let (neg, ds) = (case s of [] \<Rightarrow> (False, []) | c # cs \<Rightarrow> if c = 45 then (True, cs) else if c = 43 then (False, cs) else (False, s))
      in if ds \<noteq> [] \<and> list_all (\<lambda>d. isNumber (Some d)) ds
         then Some (if neg then - int (digits_value ds) else int (digits_value ds)) else None)"

definition js_Number :: "jstring \<Rightarrow> jnum" where
  "js_Number s =
     (let ip = takeWhile (\<lambda>d. isNumber (Some d)) s; r1 = drop (length ip) s;
          (fp, r2) = (case r1 of c # cs \<Rightarrow>
                        if c = 46 then (let fp = takeWhile (\<lambda>d. isNumber (Some d)) cs in (fp, drop (length fp) cs))
                        else ([], r1)
                      | [] \<Rightarrow> ([], []));
          mant = of_nat (digits_value (ip @ fp)) / 10 ^ length fp
      in if ip @ fp = [] then NaN
         else case r2 of
                [] \<Rightarrow> Fin mant
              | c # cs \<Rightarrow> if c = 101 then
                            (case exponent_value cs of None \<Rightarrow> NaN
                             | Some e \<Rightarrow> Fin (if 0 \<le> e then mant * 10 ^ nat e else mant / 10 ^ nat (- e)))
                          else NaN)"

section \<open>Reading tokens\<close>

text \<open>Each reader gets the index and the rest of the text and returns what it read and the new rest.\<close>

fun readNumber :: "nat \<Rightarrow> jstring \<Rightarrow> jstring \<Rightarrow> lex_error + jstring \<times> jstring" where
  "readNumber i number [] = Inr (number, [])"
| "readNumber i number (c # cs) =
     (let ch = lower c; peekCh = peek1 cs
      in if ch = 46 \<or> isNumber (Some ch) then readNumber (Suc i) (number @ [ch]) cs
         else if ch = 101 \<and> isExpOperator peekCh then readNumber (Suc i) (number @ [ch]) cs
         else if isExpOperator (Some ch) \<and> peekCh \<noteq> None \<and> isNumber peekCh \<and> number \<noteq> [] \<and> last number = 101
           then readNumber (Suc i) (number @ [ch]) cs
         else if isExpOperator (Some ch) \<and> (peekCh = None \<or> \<not> isNumber peekCh) \<and> number \<noteq> [] \<and> last number = 101
           then Inl (InvalidExponent i)
         else Inr (number, c # cs))"

fun readIdent :: "jstring \<Rightarrow> jstring \<times> jstring" where
  "readIdent [] = ([], [])"
| "readIdent (c # cs) =
     (if \<not> (isIdent c \<or> isNumber (Some c)) then ([], c # cs)
      else (let (name, rest) = readIdent cs in (c # name, rest)))"

text \<open>The state of \<open>readString\<close>: the value so far, the raw text so far and the escape flag.\<close>

definition hex4 :: "jstring \<Rightarrow> nat option" where
  "hex4 s = (case map hex_digit s of
      [Some a, Some b, Some c, Some d] \<Rightarrow> Some (((a * 16 + b) * 16 + c) * 16 + d)
    | _ \<Rightarrow> None)"

function readString :: "nat \<Rightarrow> nat \<Rightarrow> nat \<Rightarrow> jstring \<Rightarrow> jstring \<Rightarrow> bool \<Rightarrow> jstring \<Rightarrow> lex_error + (jstring \<times> jstring) \<times> jstring" where
  "readString quote start i str raw escape [] = Inl (UnterminatedQuote start i)"
| "readString quote start i str raw escape (c # cs) =
     (let raw = raw @ [c]
      in if escape then
           (if c = 117 then
              (case hex4 (take 4 cs) of
                 None \<Rightarrow> Inl (InvalidUnicodeEscape i (take 4 cs))
               | Some u \<Rightarrow> readString quote start (i + 5) (str @ [u]) raw False (drop 4 cs))
            else readString quote start (Suc i) (str @ [ESCAPE c]) raw False cs)
         else if c = 92 then readString quote start (Suc i) str raw True cs
         else if c = quote then Inr ((str, raw), cs)
         else readString quote start (Suc i) (str @ [c]) raw False cs)"
  by pat_completeness auto
termination by (relation "measure (\<lambda>(q, st, i, s, r, e, cs). length cs)") auto

lemma readNumber_shrinks: "readNumber i n s = Inr (m, r) \<Longrightarrow> length r \<le> length s"
proof (induction i n s rule: readNumber.induct)
  case (2 i n c cs)
  then show ?case by (auto simp: Let_def le_SucI split: if_splits)
qed simp

lemma readNumber_starts:
  "isNumber (Some c) \<or> c = 46 \<Longrightarrow> readNumber i n (c # cs) = readNumber (Suc i) (n @ [c]) cs"
  by (auto simp: lower_def isNumber_def)

lemma readIdent_rest: "readIdent s = (name, r) \<Longrightarrow> s = name @ r"
  by (induction s arbitrary: name r) (auto split: if_splits prod.splits)

lemma readString_shrinks: "readString q st i v raw e s = Inr (w, r) \<Longrightarrow> length r \<le> length s"
proof (induction q st i v raw e s rule: readString.induct)
  case (2 q st i v raw e c cs)
  then show ?case by (auto simp: Let_def le_SucI split: if_splits option.splits) fastforce
qed simp

section \<open>The loop\<close>

definition operator_at :: "jstring \<Rightarrow> jstring option" where
  "operator_at s =
     (let ch = take 1 s; ch2 = take 2 s; ch3 = take 3 s
      in if length ch3 = 3 \<and> ch3 \<in> set OPERATORS then Some ch3
         else if length ch2 = 2 \<and> ch2 \<in> set OPERATORS then Some ch2
         else if ch \<in> set OPERATORS then Some ch
         else None)"

text \<open>One turn of the loop: the token read, if any, and the rest of the text.\<close>

definition lex_one :: "nat \<Rightarrow> nat \<Rightarrow> jstring \<Rightarrow> lex_error + token option \<times> jstring" where
  "lex_one i c cs =
     (if c = 34 \<or> c = 39 then
        (case readString c i (Suc i) [] [c] False cs of
           Inl err \<Rightarrow> Inl err
         | Inr ((v, raw), rest) \<Rightarrow> Inr (Some \<lparr>index = i, text_of = raw, kind = Constant (StrValue v)\<rparr>, rest))
      else if isNumber (Some c) \<or> c = 46 \<and> isNumber (peek1 cs) then
        (case readNumber i [] (c # cs) of
           Inl err \<Rightarrow> Inl err
         | Inr (number, rest) \<Rightarrow>
             Inr (Some \<lparr>index = i, text_of = number, kind = Constant (NumValue (js_Number number))\<rparr>, rest))
      else if isIdent c then
        (let (name, rest) = readIdent (c # cs) in Inr (Some \<lparr>index = i, text_of = name, kind = Ident\<rparr>, rest))
      else if is_punct c then Inr (Some \<lparr>index = i, text_of = [c], kind = Punct\<rparr>, cs)
      else if isWhitespace c then Inr (None, cs)
      else (case operator_at (c # cs) of
              Some op \<Rightarrow> Inr (Some \<lparr>index = i, text_of = op, kind = Operator\<rparr>, drop (length op) (c # cs))
            | None \<Rightarrow> Inl (UnexpectedCharacter i)))"

lemma length_operator: "operator_at (c # cs) = Some op \<Longrightarrow> 1 \<le> length op"
  by (auto simp: operator_at_def Let_def split: if_splits)

lemma readIdent_starts:
  assumes "isIdent c" and "readIdent (c # cs) = (name, r)" shows "length r \<le> length cs"
proof -
  obtain n' where "readIdent cs = (n', r)"
    using assms by (auto split: prod.splits)
  with readIdent_rest [of cs] show ?thesis by auto
qed

lemma lex_one_shrinks:
  assumes "lex_one i c cs = Inr (t, r)" shows "length r \<le> length cs"
proof -
  consider (string) "c = 34 \<or> c = 39" | (number) "c \<noteq> 34" "c \<noteq> 39" "isNumber (Some c) \<or> c = 46 \<and> isNumber (peek1 cs)"
    | (ident) "c \<noteq> 34" "c \<noteq> 39" "\<not> (isNumber (Some c) \<or> c = 46 \<and> isNumber (peek1 cs))" "isIdent c"
    | (other) "c \<noteq> 34" "c \<noteq> 39" "\<not> (isNumber (Some c) \<or> c = 46 \<and> isNumber (peek1 cs))" "\<not> isIdent c"
    by blast
  then show ?thesis
  proof cases
    case string
    with assms show ?thesis by (auto simp: lex_one_def dest: readString_shrinks split: sum.splits)
  next
    case number
    then have "readNumber i [] (c # cs) = readNumber (Suc i) [c] cs" using readNumber_starts by fastforce
    with number assms show ?thesis
      by (auto simp: lex_one_def simp del: readNumber.simps dest: readNumber_shrinks split: sum.splits)
  next
    case ident
    with assms show ?thesis
      by (auto simp: lex_one_def simp del: readIdent.simps dest: readIdent_starts split: prod.splits)
  next
    case other
    with assms show ?thesis
      by (auto simp: lex_one_def split: if_splits option.splits dest: length_operator)
  qed
qed

function lex_from :: "nat \<Rightarrow> jstring \<Rightarrow> lex_error + token list" where
  "lex_from i [] = Inr []"
| "lex_from i (c # cs) =
     (case lex_one i c cs of
        Inl err \<Rightarrow> Inl err
      | Inr (t, rest) \<Rightarrow>
          (case lex_from (i + (Suc (length cs) - length rest)) rest of
             Inl err \<Rightarrow> Inl err
           | Inr ts \<Rightarrow> Inr ((case t of None \<Rightarrow> [] | Some tok \<Rightarrow> [tok]) @ ts)))"
  by pat_completeness auto
termination by (relation "measure (\<lambda>(i, s). length s)") (auto dest!: lex_one_shrinks)

definition lex :: "jstring \<Rightarrow> lex_error + token list" where
  "lex txt = lex_from 0 txt"

section \<open>Positions\<close>

lemma lex_one_index: "lex_one i c cs = Inr (Some t, r) \<Longrightarrow> index t = i"
  by (auto simp: lex_one_def simp del: readNumber.simps readIdent.simps readString.simps
      split: if_splits sum.splits option.splits prod.splits)

lemma lex_from_positions:
  "lex_from i s = Inr ts \<Longrightarrow>
     sorted_wrt (<) (map index ts) \<and> (\<forall>t\<in>set ts. i \<le> index t \<and> index t < i + length s)"
proof (induction i s arbitrary: ts rule: lex_from.induct)
  case (2 i c cs)
  then obtain t r us where one: "lex_one i c cs = Inr (t, r)"
    and rest: "lex_from (i + (Suc (length cs) - length r)) r = Inr us"
    and ts: "ts = (case t of None \<Rightarrow> [] | Some tok \<Rightarrow> [tok]) @ us"
    by (auto split: sum.splits prod.splits)
  have len: "length r \<le> length cs" by (rule lex_one_shrinks [OF one])
  have IH: "sorted_wrt (<) (map index us)"
    "\<forall>u\<in>set us. i + (Suc (length cs) - length r) \<le> index u \<and> index u < i + (Suc (length cs) - length r) + length r"
    using "2.IH" [OF one refl rest] by blast+
  show ?case
  proof (cases t)
    case None
    with IH len show ?thesis by (auto simp: ts)
  next
    case (Some tok)
    then have "index tok = i" using one lex_one_index by blast
    with IH len Some show ?thesis by (fastforce simp: ts)
  qed
qed simp

section \<open>Printing tokens\<close>

text \<open>The lexemes the printer of expressions uses, their spelling and the token they stand for.\<close>

datatype lexeme = LPunct nat | LOp jstring | LIdent jstring | LNat nat | LStr jstring

definition escape_unit :: "nat \<Rightarrow> jstring" where
  "escape_unit c = (if c = 39 \<or> c = 92 then [92, c] else [c])"

definition quote :: "jstring \<Rightarrow> jstring" where
  "quote v = [39] @ concat (map escape_unit v) @ [39]"

fun spell :: "lexeme \<Rightarrow> jstring" where
  "spell (LPunct c) = [c]"
| "spell (LOp op) = op"
| "spell (LIdent name) = name"
| "spell (LNat n) = js (show_nat n)"
| "spell (LStr v) = quote v"

fun lexeme_kind :: "lexeme \<Rightarrow> token_kind" where
  "lexeme_kind (LPunct c) = Punct"
| "lexeme_kind (LOp op) = Operator"
| "lexeme_kind (LIdent name) = Ident"
| "lexeme_kind (LNat n) = Constant (NumValue (Fin (of_nat n)))"
| "lexeme_kind (LStr v) = Constant (StrValue v)"

definition ident_ok :: "jstring \<Rightarrow> bool" where
  "ident_ok name \<longleftrightarrow> name \<noteq> [] \<and> isIdent (hd name) \<and> (\<forall>c\<in>set name. isIdent c \<or> isNumber (Some c))"

fun lexeme_ok :: "lexeme \<Rightarrow> bool" where
  "lexeme_ok (LPunct c) = is_punct c"
| "lexeme_ok (LOp op) = (op \<in> set OPERATORS)"
| "lexeme_ok (LIdent name) = ident_ok name"
| "lexeme_ok _ = True"

fun print_lexemes :: "lexeme list \<Rightarrow> jstring" where
  "print_lexemes [] = []"
| "print_lexemes (l # ls) = spell l @ 32 # print_lexemes ls"

fun lexeme_tokens :: "nat \<Rightarrow> lexeme list \<Rightarrow> token list" where
  "lexeme_tokens i [] = []"
| "lexeme_tokens i (l # ls) =
     \<lparr>index = i, text_of = spell l, kind = lexeme_kind l\<rparr> # lexeme_tokens (i + length (spell l) + 1) ls"

lemma readString_quoted:
  "readString 39 st i s raw False (concat (map escape_unit v) @ 39 # r) =
     Inr ((s @ v, raw @ concat (map escape_unit v) @ [39]), r)"
  by (induction v arbitrary: i s raw) (auto simp: escape_unit_def ESCAPE_def Let_def)

lemma readNumber_digits:
  "\<forall>c\<in>set ds. isNumber (Some c) \<Longrightarrow> readNumber i n (ds @ 32 # r) = Inr (n @ ds, 32 # r)"
proof (induction ds arbitrary: i n)
  case (Cons d ds)
  then have "lower d = d" by (simp add: lower_def isNumber_def)
  with Cons show ?case by simp
qed (simp add: lower_def isNumber_def isExpOperator_def Let_def)

lemma readIdent_name:
  "\<forall>c\<in>set name. isIdent c \<or> isNumber (Some c) \<Longrightarrow> readIdent (name @ 32 # r) = (name, 32 # r)"
  by (induction name) (auto simp: isIdent_def isNumber_def)

lemma js_digits: "\<forall>c\<in>set (js (show_nat n)). isNumber (Some c)"
proof (induction n rule: show_nat.induct)
  case (1 n)
  have d: "isNumber (Some (of_char (digit_char d)))" if "d < 10" for d
    using that by (simp add: of_char_digit isNumber_def)
  show ?case
    using 1 d by (cases "n < 10") (auto simp: show_nat.simps [of n] js_def)
qed

lemma show_nat_nonempty: "show_nat n \<noteq> []"
  by (subst show_nat.simps) simp

lemma js_Number_show_nat: "js_Number (js (show_nat n)) = Fin (of_nat n)"
proof -
  have t: "takeWhile (\<lambda>d. isNumber (Some d)) (js (show_nat n)) = js (show_nat n)"
    using js_digits by simp
  have "digits_value (js (show_nat n)) = read_nat (show_nat n)"
    by (simp add: digits_value_def js_def read_nat.simps foldl_map)
  moreover have "js (show_nat n) \<noteq> []" using show_nat_nonempty by (simp add: js_def)
  ultimately show ?thesis by (simp add: js_Number_def t Let_def)
qed

lemma js_Cons: "js (c # s) = of_char c # js s"
  by (simp add: js_def)

lemma js_Nil: "js [] = []"
  by (simp add: js_def)

lemma OPERATORS_codes: "OPERATORS = [[43], [45], [42], [47], [37], [61, 61, 61], [33, 61, 61], [61, 61], [33, 61],
   [60], [62], [60, 61], [62, 61], [38, 38], [124, 124], [33], [61], [124]]"
  by (simp add: OPERATORS_def js_def)

lemma operator_at_op:
  assumes "op \<in> set OPERATORS" shows "operator_at (op @ 32 # r) = Some op"
  using assms unfolding OPERATORS_codes list.set insert_iff empty_iff
  by (elim disjE) (simp_all add: operator_at_def OPERATORS_codes)

lemma is_punct_codes: "is_punct c \<longleftrightarrow> c \<in> {40, 41, 123, 125, 91, 93, 46, 44, 59, 58, 63}"
  by (simp add: is_punct_def js_def)

lemma operator_start:
  assumes "op \<in> set OPERATORS"
  shows "\<exists>c cs. op = c # cs \<and> c \<noteq> 34 \<and> c \<noteq> 39 \<and> c \<noteq> 46 \<and> \<not> isNumber (Some c) \<and> \<not> isIdent c \<and>
    \<not> is_punct c \<and> \<not> isWhitespace c"
  using assms unfolding OPERATORS_codes list.set insert_iff empty_iff
  by (elim disjE) (simp_all add: isNumber_def isIdent_def is_punct_codes isWhitespace_def)

lemma punct_chars:
  assumes "is_punct c"
  shows "c \<noteq> 34 \<and> c \<noteq> 39 \<and> \<not> isNumber (Some c) \<and> \<not> isIdent c"
  using assms by (auto simp: is_punct_codes isNumber_def isIdent_def)

lemma lex_one_lexeme:
  assumes "lexeme_ok l" and "spell l = c # cs"
  shows "lex_one i c (cs @ 32 # r) = Inr (Some \<lparr>index = i, text_of = spell l, kind = lexeme_kind l\<rparr>, 32 # r)"
proof (cases l)
  case (LPunct p)
  then have "c = p" "cs = []" using assms(2) by auto
  with LPunct assms(1) punct_chars [of p] show ?thesis
    by (auto simp: lex_one_def peek1_def isNumber_def)
next
  case (LOp op)
  with assms operator_at_op [of op r] operator_start [of op] show ?thesis
    by (auto simp: lex_one_def)
next
  case (LIdent name)
  then have "isIdent c" "readIdent (c # cs @ 32 # r) = (c # cs, 32 # r)"
    using assms readIdent_name [of "c # cs" r] by (auto simp: ident_ok_def)
  moreover from this have "c \<noteq> 34" "c \<noteq> 39" "c \<noteq> 46" "\<not> isNumber (Some c)"
    by (auto simp: isIdent_def isNumber_def)
  ultimately show ?thesis using LIdent assms(2) by (simp add: lex_one_def)
next
  case (LNat n)
  then have c: "c # cs = js (show_nat n)" using assms(2) by simp
  then have "isNumber (Some c)" "readNumber i [] (c # cs @ 32 # r) = Inr (c # cs, 32 # r)"
    using js_digits [of n] readNumber_digits [of "c # cs" i "[]" r] unfolding c [symmetric]
    by (simp_all del: readNumber.simps)
  moreover from this have "c \<noteq> 34" "c \<noteq> 39" by (auto simp: isNumber_def)
  moreover have "js_Number (c # cs) = Fin (of_nat n)" unfolding c by (rule js_Number_show_nat)
  ultimately show ?thesis using LNat c by (simp add: lex_one_def del: readNumber.simps)
next
  case (LStr v)
  then have "c = 39" "cs = concat (map escape_unit v) @ [39]" using assms(2) by (simp_all add: quote_def)
  then show ?thesis using LStr readString_quoted [of i "Suc i" "[]" "[39]" v "32 # r"]
    by (simp add: lex_one_def quote_def)
qed

lemma lex_from_space: "lex_from i (32 # r) = lex_from (Suc i) r"
  by (simp add: lex_one_def isNumber_def isIdent_def is_punct_codes isWhitespace_def split: sum.splits)

lemma lex_printed: "list_all lexeme_ok ls \<Longrightarrow> lex_from i (print_lexemes ls) = Inr (lexeme_tokens i ls)"
proof (induction ls arbitrary: i)
  case (Cons l ls)
  have "spell l \<noteq> []"
    using Cons.prems by (cases l) (auto simp: ident_ok_def quote_def js_def show_nat_nonempty dest: operator_start)
  then obtain c cs where s: "spell l = c # cs" by (cases "spell l") auto
  then have "lex_one i c (cs @ 32 # print_lexemes ls) =
      Inr (Some \<lparr>index = i, text_of = spell l, kind = lexeme_kind l\<rparr>, 32 # print_lexemes ls)"
    using Cons.prems lex_one_lexeme by simp
  then have "lex_from i (c # cs @ 32 # print_lexemes ls) =
      (case lex_from (Suc (i + length (c # cs))) (print_lexemes ls) of
         Inl err \<Rightarrow> Inl err
       | Inr ts \<Rightarrow> Inr (\<lparr>index = i, text_of = spell l, kind = lexeme_kind l\<rparr> # ts))"
    using lex_from_space [of "Suc (i + length cs)" "print_lexemes ls"] by (simp split: sum.splits)
  with Cons s show ?case by simp
qed simp

end
