(* ===== verification/NgParser.thy ===== *)
theory NgParser
  imports NgLexer
begin

text \<open>
  The parser of Angular's expression language: \<open>AST\<close> in
  \<open>assets/public/components/angular/angular.js\<close>. The parser's \<open>tokens\<close> are the input every method
  consumes from the front. A method that calls other methods is a definition with the parameter
  \<open>self\<close>; \<open>parse\<close> ties the knot with fuel, and \<open>parse_fuel\<close> tokens' worth of it is always enough
  (\<open>parse_terminates\<close>). The loops of the methods are the non-terminals with a \<open>Loop\<close> in their name,
  which carry what the loop has accumulated.
\<close>

section \<open>Syntax trees\<close>

datatype literal = LitNum jnum | LitStr jstring | LitBool bool | LitNull | LitUndefined

datatype ast =
  Literal literal
| Identifier jstring
| ThisExpression
| LocalsExpression
| UnaryExpression jstring ast
| BinaryExpression jstring ast ast
| LogicalExpression jstring ast ast
| ConditionalExpression ast ast ast
| AssignmentExpression ast ast
| CallExpression ast "ast list" bool
| MemberExpression ast ast bool
| ArrayExpression "ast list"
| ObjectExpression "(ast \<times> ast) list"

datatype syntax_error =
  UnexpectedEnd
| SyntaxError string "token option"

text \<open>\<open>None\<close> is lack of fuel; otherwise an error, or a result and the tokens left.\<close>

type_synonym 'a res = "(syntax_error + 'a \<times> token list) option"

definition pbind :: "'a res \<Rightarrow> ('a \<Rightarrow> token list \<Rightarrow> 'b res) \<Rightarrow> 'b res" where
  "pbind m f = (case m of None \<Rightarrow> None | Some (Inl err) \<Rightarrow> Some (Inl err) | Some (Inr (x, ts)) \<Rightarrow> f x ts)"

definition ret :: "'a \<Rightarrow> token list \<Rightarrow> 'a res" where
  "ret x ts = Some (Inr (x, ts))"

definition fail :: "string \<Rightarrow> token list \<Rightarrow> 'a res" where
  "fail msg ts = Some (Inl (SyntaxError msg (case ts of [] \<Rightarrow> None | t # _ \<Rightarrow> Some t)))"

section \<open>Tokens\<close>

definition peek_is :: "jstring list \<Rightarrow> token list \<Rightarrow> bool" where
  "peek_is es ts = (case ts of [] \<Rightarrow> False | t # _ \<Rightarrow> text_of t \<in> set es)"

definition expect :: "jstring list \<Rightarrow> token list \<Rightarrow> (token \<times> token list) option" where
  "expect es ts = (case ts of [] \<Rightarrow> None | t # r \<Rightarrow> if text_of t \<in> set es then Some (t, r) else None)"

text \<open>\<open>consume()\<close> takes any token, \<open>consume(e)\<close> one with that text.\<close>

definition consume_any :: "token list \<Rightarrow> token res" where
  "consume_any ts = (case ts of [] \<Rightarrow> Some (Inl UnexpectedEnd) | t # r \<Rightarrow> ret t r)"

definition consume :: "jstring \<Rightarrow> token list \<Rightarrow> token res" where
  "consume e ts =
     (case ts of
        [] \<Rightarrow> Some (Inl UnexpectedEnd)
      | t # r \<Rightarrow> (case expect [e] ts of Some (t, r) \<Rightarrow> ret t r | None \<Rightarrow> fail ''is unexpected'' ts))"

definition is_constant :: "token list \<Rightarrow> bool" where
  "is_constant ts = (case ts of t # _ \<Rightarrow> (case kind t of Constant _ \<Rightarrow> True | _ \<Rightarrow> False) | [] \<Rightarrow> False)"

definition is_identifier :: "token list \<Rightarrow> bool" where
  "is_identifier ts = (case ts of t # _ \<Rightarrow> kind t = Ident | [] \<Rightarrow> False)"

definition parse_identifier :: "token list \<Rightarrow> ast res" where
  "parse_identifier ts = pbind (consume_any ts) (\<lambda>t r.
     if kind t = Ident then ret (Identifier (text_of t)) r
     else Some (Inl (SyntaxError ''is not a valid identifier'' (Some t))))"

definition token_literal :: "token \<Rightarrow> literal" where
  "token_literal t = (case kind t of
     Constant (NumValue n) \<Rightarrow> LitNum n | Constant (StrValue s) \<Rightarrow> LitStr s | _ \<Rightarrow> LitUndefined)"

definition parse_constant :: "token list \<Rightarrow> ast res" where
  "parse_constant ts = pbind (consume_any ts) (\<lambda>t r. ret (Literal (token_literal t)) r)"

definition selfReferential :: "jstring \<Rightarrow> ast option" where
  "selfReferential txt = (if txt = js ''this'' then Some ThisExpression
     else if txt = js ''$locals'' then Some LocalsExpression else None)"

definition literals :: "jstring \<Rightarrow> literal option" where
  "literals txt = (if txt = js ''true'' then Some (LitBool True)
     else if txt = js ''false'' then Some (LitBool False)
     else if txt = js ''null'' then Some LitNull
     else if txt = js ''undefined'' then Some LitUndefined else None)"

section \<open>The grammar\<close>

datatype level = LogicalOR | LogicalAND | Equality | Relational | Additive | Multiplicative

datatype nt =
  FilterChain | FilterLoop ast | Filter ast | FilterArgsLoop ast "ast list"
| Expression | Assignment | Ternary | Binary level | BinaryLoop level ast | Unary | Primary | PostfixLoop ast
| ArgumentsLoop ast "ast list" | ArrayDeclaration | ElementsLoop "ast list" | Object | PropertiesLoop "(ast \<times> ast) list"

text \<open>The operators of each binary level, and the level its operands are read at.\<close>

definition level_ops :: "level \<Rightarrow> jstring list" where
  "level_ops l = map js (case l of
     LogicalOR \<Rightarrow> [''||''] | LogicalAND \<Rightarrow> [''&&'']
   | Equality \<Rightarrow> [''=='', ''!='', ''==='', ''!=='']
   | Relational \<Rightarrow> [''<'', ''>'', ''<='', ''>='']
   | Additive \<Rightarrow> [''+'', ''-''] | Multiplicative \<Rightarrow> [''*'', ''/'', ''%''])"

definition operand :: "level \<Rightarrow> nt" where
  "operand l = (case l of LogicalOR \<Rightarrow> Binary LogicalAND | LogicalAND \<Rightarrow> Binary Equality
     | Equality \<Rightarrow> Binary Relational | Relational \<Rightarrow> Binary Additive
     | Additive \<Rightarrow> Binary Multiplicative | Multiplicative \<Rightarrow> Unary)"

definition binary_node :: "level \<Rightarrow> jstring \<Rightarrow> ast \<Rightarrow> ast \<Rightarrow> ast" where
  "binary_node l op left right =
     (if l = LogicalOR \<or> l = LogicalAND then LogicalExpression op left right else BinaryExpression op left right)"

type_synonym parser = "nt \<Rightarrow> token list \<Rightarrow> ast res"

definition filterChain :: "parser \<Rightarrow> token list \<Rightarrow> ast res" where
  "filterChain self ts = pbind (self Expression ts) (\<lambda>left r. self (FilterLoop left) r)"

definition filter_loop :: "parser \<Rightarrow> ast \<Rightarrow> token list \<Rightarrow> ast res" where
  "filter_loop self left ts =
     (case expect [js ''|''] ts of
        Some (_, r) \<Rightarrow> pbind (self (Filter left) r) (\<lambda>left r. self (FilterLoop left) r)
      | None \<Rightarrow> ret left ts)"

definition filter_call :: "parser \<Rightarrow> ast \<Rightarrow> token list \<Rightarrow> ast res" where
  "filter_call self base ts = pbind (parse_identifier ts) (\<lambda>callee r. self (FilterArgsLoop callee [base]) r)"

definition filter_args_loop :: "parser \<Rightarrow> ast \<Rightarrow> ast list \<Rightarrow> token list \<Rightarrow> ast res" where
  "filter_args_loop self callee args ts =
     (case expect [js '':''] ts of
        Some (_, r) \<Rightarrow> pbind (self Expression r) (\<lambda>e r. self (FilterArgsLoop callee (args @ [e])) r)
      | None \<Rightarrow> ret (CallExpression callee args True) ts)"

definition assignment :: "parser \<Rightarrow> token list \<Rightarrow> ast res" where
  "assignment self ts = pbind (self Ternary ts) (\<lambda>result r.
     case expect [js ''=''] r of
       Some (_, r) \<Rightarrow> pbind (self Assignment r) (\<lambda>right r. ret (AssignmentExpression result right) r)
     | None \<Rightarrow> ret result r)"

definition ternary :: "parser \<Rightarrow> token list \<Rightarrow> ast res" where
  "ternary self ts = pbind (self (Binary LogicalOR) ts) (\<lambda>test r.
     case expect [js ''?''] r of
       Some (_, r) \<Rightarrow> pbind (self Expression r) (\<lambda>alternate r.
         pbind (consume (js '':'') r) (\<lambda>_ r.
           pbind (self Expression r) (\<lambda>consequent r. ret (ConditionalExpression test alternate consequent) r)))
     | None \<Rightarrow> ret test r)"

definition binary :: "parser \<Rightarrow> level \<Rightarrow> token list \<Rightarrow> ast res" where
  "binary self l ts = pbind (self (operand l) ts) (\<lambda>left r. self (BinaryLoop l left) r)"

definition binary_loop :: "parser \<Rightarrow> level \<Rightarrow> ast \<Rightarrow> token list \<Rightarrow> ast res" where
  "binary_loop self l left ts =
     (case expect (level_ops l) ts of
        Some (t, r) \<Rightarrow> pbind (self (operand l) r) (\<lambda>right r. self (BinaryLoop l (binary_node l (text_of t) left right)) r)
      | None \<Rightarrow> ret left ts)"

definition unary :: "parser \<Rightarrow> token list \<Rightarrow> ast res" where
  "unary self ts =
     (case expect (map js [''+'', ''-'', ''!'']) ts of
        Some (t, r) \<Rightarrow> pbind (self Unary r) (\<lambda>a r. ret (UnaryExpression (text_of t) a) r)
      | None \<Rightarrow> self Primary ts)"

text \<open>
  At the end of the input \<open>this.peek().text\<close> is undefined, which is a key of \<open>options.literals\<close>, so
  \<open>consume\<close> reports the unexpected end.
\<close>

definition primary_start :: "parser \<Rightarrow> token list \<Rightarrow> ast res" where
  "primary_start self ts =
     (case ts of
        [] \<Rightarrow> Some (Inl UnexpectedEnd)
      | t # r \<Rightarrow>
          if text_of t = js ''('' then
            pbind (self FilterChain r) (\<lambda>p r. pbind (consume (js '')'') r) (\<lambda>_ r. ret p r))
          else if text_of t = js ''['' then self ArrayDeclaration r
          else if text_of t = js ''{'' then self Object r
          else (case selfReferential (text_of t) of
                  Some a \<Rightarrow> ret a r
                | None \<Rightarrow>
                    (case literals (text_of t) of
                       Some v \<Rightarrow> ret (Literal v) r
                     | None \<Rightarrow>
                         if is_identifier ts then parse_identifier ts
                         else if is_constant ts then parse_constant ts
                         else fail ''not a primary expression'' ts)))"

definition primary :: "parser \<Rightarrow> token list \<Rightarrow> ast res" where
  "primary self ts = pbind (primary_start self ts) (\<lambda>p r. self (PostfixLoop p) r)"

definition close_call :: "parser \<Rightarrow> ast \<Rightarrow> ast list \<Rightarrow> token list \<Rightarrow> ast res" where
  "close_call self callee args ts =
     pbind (consume (js '')'') ts) (\<lambda>_ r. self (PostfixLoop (CallExpression callee args False)) r)"

definition postfix_loop :: "parser \<Rightarrow> ast \<Rightarrow> token list \<Rightarrow> ast res" where
  "postfix_loop self p ts =
     (case expect (map js [''('', ''['', ''.'']) ts of
        None \<Rightarrow> ret p ts
      | Some (next, r) \<Rightarrow>
          if text_of next = js ''('' then
            (if r = [] then Some (Inl UnexpectedEnd)
             else if \<not> peek_is [js '')''] r then self (ArgumentsLoop p []) r
             else close_call self p [] r)
          else if text_of next = js ''['' then
            pbind (self Expression r) (\<lambda>e r. pbind (consume (js '']'') r) (\<lambda>_ r. self (PostfixLoop (MemberExpression p e True)) r))
          else pbind (parse_identifier r) (\<lambda>m r. self (PostfixLoop (MemberExpression p m False)) r))"

definition arguments_loop :: "parser \<Rightarrow> ast \<Rightarrow> ast list \<Rightarrow> token list \<Rightarrow> ast res" where
  "arguments_loop self callee args ts = pbind (self Expression ts) (\<lambda>e r.
     case expect [js '',''] r of
       Some (_, r) \<Rightarrow> self (ArgumentsLoop callee (args @ [e])) r
     | None \<Rightarrow> close_call self callee (args @ [e]) r)"

definition arrayDeclaration :: "parser \<Rightarrow> token list \<Rightarrow> ast res" where
  "arrayDeclaration self ts = (if ts = [] then Some (Inl UnexpectedEnd) else self (ElementsLoop []) ts)"

definition elements_loop :: "parser \<Rightarrow> ast list \<Rightarrow> token list \<Rightarrow> ast res" where
  "elements_loop self elements ts =
     (let close = (\<lambda>es ts. pbind (consume (js '']'') ts) (\<lambda>_ r. ret (ArrayExpression es) r))
      in if peek_is [js '']''] ts then close elements ts
         else pbind (self Expression ts) (\<lambda>e r.
           case expect [js '',''] r of
             Some (_, r) \<Rightarrow> self (ElementsLoop (elements @ [e])) r
           | None \<Rightarrow> close (elements @ [e]) r))"

definition object :: "parser \<Rightarrow> token list \<Rightarrow> ast res" where
  "object self ts = (if ts = [] then Some (Inl UnexpectedEnd) else self (PropertiesLoop []) ts)"

definition properties_loop :: "parser \<Rightarrow> (ast \<times> ast) list \<Rightarrow> token list \<Rightarrow> ast res" where
  "properties_loop self properties ts =
     (let close = (\<lambda>ps ts. pbind (consume (js ''}'') ts) (\<lambda>_ r. ret (ObjectExpression ps) r))
      in if peek_is [js ''}''] ts then close properties ts
         else pbind (if is_constant ts then parse_constant ts else if is_identifier ts then parse_identifier ts
                     else fail ''invalid key'' ts) (\<lambda>key r.
           pbind (consume (js '':'') r) (\<lambda>_ r.
             pbind (self Expression r) (\<lambda>val r.
               case expect [js '',''] r of
                 Some (_, r) \<Rightarrow> self (PropertiesLoop (properties @ [(key, val)])) r
               | None \<Rightarrow> close (properties @ [(key, val)]) r))))"

fun productions :: "parser \<Rightarrow> parser" where
  "productions self FilterChain ts = filterChain self ts"
| "productions self (FilterLoop left) ts = filter_loop self left ts"
| "productions self (Filter base) ts = filter_call self base ts"
| "productions self (FilterArgsLoop callee args) ts = filter_args_loop self callee args ts"
| "productions self Expression ts = self Assignment ts"
| "productions self Assignment ts = assignment self ts"
| "productions self Ternary ts = ternary self ts"
| "productions self (Binary l) ts = binary self l ts"
| "productions self (BinaryLoop l left) ts = binary_loop self l left ts"
| "productions self Unary ts = unary self ts"
| "productions self Primary ts = primary self ts"
| "productions self (PostfixLoop p) ts = postfix_loop self p ts"
| "productions self (ArgumentsLoop callee args) ts = arguments_loop self callee args ts"
| "productions self ArrayDeclaration ts = arrayDeclaration self ts"
| "productions self (ElementsLoop es) ts = elements_loop self es ts"
| "productions self Object ts = object self ts"
| "productions self (PropertiesLoop ps) ts = properties_loop self ps ts"

primrec parse :: "nat \<Rightarrow> parser" where
  "parse 0 = (\<lambda>n ts. None)"
| "parse (Suc k) = productions (parse k)"

section \<open>Programs\<close>

text \<open>
  The loop of \<open>program\<close> reads a statement unless the next token closes something, and goes on as long
  as there is a semicolon; each turn but the last takes one token, so the number of tokens bounds it.
\<close>

fun program_loop :: "nat \<Rightarrow> nat \<Rightarrow> ast list \<Rightarrow> token list \<Rightarrow> (ast list) res" where
  "program_loop 0 k body ts = None"
| "program_loop (Suc n) k body ts =
     pbind (if ts \<noteq> [] \<and> \<not> peek_is (map js [''}'', '')'', '';'', '']'']) ts
            then pbind (parse k FilterChain ts) (\<lambda>e r. ret (body @ [e]) r) else ret body ts)
       (\<lambda>body r. case expect [js '';''] r of
          None \<Rightarrow> ret body r
        | Some (_, r) \<Rightarrow> program_loop n k body r)"

definition parse_fuel :: "token list \<Rightarrow> nat" where
  "parse_fuel ts = 16 * length ts + 16"

definition program :: "token list \<Rightarrow> (ast list) res" where
  "program ts = program_loop (Suc (length ts)) (parse_fuel ts) [] ts"

datatype parse_error = LexicalError lex_error | ParseError syntax_error

definition ast_of_tokens :: "token list \<Rightarrow> (syntax_error + ast list) option" where
  "ast_of_tokens ts =
     (case program ts of
        None \<Rightarrow> None
      | Some (Inl err) \<Rightarrow> Some (Inl err)
      | Some (Inr (body, [])) \<Rightarrow> Some (Inr body)
      | Some (Inr (body, t # _)) \<Rightarrow> Some (Inl (SyntaxError ''is an unexpected token'' (Some t))))"

definition ast_of :: "jstring \<Rightarrow> (parse_error + ast list) option" where
  "ast_of txt =
     (case lex txt of
        Inl err \<Rightarrow> Some (Inl (LexicalError err))
      | Inr ts \<Rightarrow> map_option (map_sum ParseError id) (ast_of_tokens ts))"

section \<open>Termination\<close>

lemma pbind_result [parse_rules]:
  "pbind m f = Some (Inr z) \<longleftrightarrow> (\<exists>x r. m = Some (Inr (x, r)) \<and> f x r = Some (Inr z))"
  by (auto simp: pbind_def split: option.splits sum.splits)

lemma pbind_stuck [parse_rules]:
  "pbind m f = None \<longleftrightarrow> m = None \<or> (\<exists>x r. m = Some (Inr (x, r)) \<and> f x r = None)"
  by (auto simp: pbind_def split: option.splits sum.splits)

lemma ret_simps [parse_rules]:
  "ret x ts = Some (Inr z) \<longleftrightarrow> z = (x, ts)" "(ret x ts = None) \<longleftrightarrow> False" "fail msg ts \<noteq> Some (Inr z)" "(fail msg ts = None) \<longleftrightarrow> False"
  by (auto simp: ret_def fail_def)

lemma expect_simps [parse_rules]:
  "expect es ts = Some (t, r) \<longleftrightarrow> ts = t # r \<and> text_of t \<in> set es"
  by (auto simp: expect_def split: list.splits if_splits)

lemma consume_simps [parse_rules]:
  "consume e ts = Some (Inr (t, r)) \<longleftrightarrow> ts = t # r \<and> text_of t = e" "(consume e ts = None) \<longleftrightarrow> False"
  "consume_any ts = Some (Inr (t, r)) \<longleftrightarrow> ts = t # r" "(consume_any ts = None) \<longleftrightarrow> False"
  by (auto simp: consume_def consume_any_def ret_def fail_def expect_def split: list.splits if_splits option.splits)

lemma leaf_simps [parse_rules]:
  "parse_identifier ts = Some (Inr (v, r)) \<longleftrightarrow> (\<exists>t. ts = t # r \<and> kind t = Ident \<and> v = Identifier (text_of t))"
  "(parse_identifier ts = None) \<longleftrightarrow> False"
  "parse_constant ts = Some (Inr (v, r)) \<longleftrightarrow> (\<exists>t. ts = t # r \<and> v = Literal (token_literal t))"
  "(parse_constant ts = None) \<longleftrightarrow> False"
  by (auto simp: parse_identifier_def parse_constant_def pbind_result pbind_stuck ret_simps consume_simps
      simp del: not_None_eq)

lemmas production_defs = filterChain_def filter_loop_def filter_call_def filter_args_loop_def assignment_def
  ternary_def binary_def binary_loop_def unary_def primary_def primary_start_def close_call_def
  postfix_loop_def arguments_loop_def arrayDeclaration_def elements_loop_def object_def properties_loop_def

definition shrinking :: "parser \<Rightarrow> bool" where
  "shrinking self \<longleftrightarrow> (\<forall>n ts v r. self n ts = Some (Inr (v, r)) \<longrightarrow> length r \<le> length ts)"

lemma shrinkingD: "shrinking self \<Longrightarrow> self n ts = Some (Inr (v, r)) \<Longrightarrow> length r \<le> length ts"
  by (auto simp: shrinking_def)

lemma shrinking_productions: "shrinking self \<Longrightarrow> shrinking (productions self)"
  unfolding shrinking_def [of "productions self"]
proof (intro allI impI)
  fix n ts v r
  assume s: "shrinking self" and p: "productions self n ts = Some (Inr (v, r))"
  show "length r \<le> length ts"
    using p
    by (cases n)
      (auto simp: production_defs parse_rules Let_def split: option.splits prod.splits if_splits list.splits
        dest!: shrinkingD [OF s])
qed

lemma shrinking_parse: "shrinking (parse k)"
  by (induction k) (simp_all add: shrinking_productions, simp add: shrinking_def)

text \<open>
  A rank of the non-terminals: a method called before any token was consumed has a smaller rank. With
  at most sixteen ranks, fuel for sixteen calls per token is enough.
\<close>

fun nt_rank :: "nt \<Rightarrow> nat" where
  "nt_rank FilterChain = 14"
| "nt_rank (FilterLoop _) = 0"
| "nt_rank (Filter _) = 0"
| "nt_rank (FilterArgsLoop _ _) = 0"
| "nt_rank Expression = 13"
| "nt_rank Assignment = 12"
| "nt_rank Ternary = 11"
| "nt_rank (Binary l) = (case l of LogicalOR \<Rightarrow> 10 | LogicalAND \<Rightarrow> 9 | Equality \<Rightarrow> 8 | Relational \<Rightarrow> 7
     | Additive \<Rightarrow> 6 | Multiplicative \<Rightarrow> 5)"
| "nt_rank (BinaryLoop _ _) = 0"
| "nt_rank Unary = 4"
| "nt_rank Primary = 3"
| "nt_rank (PostfixLoop _) = 0"
| "nt_rank (ArgumentsLoop _ _) = 14"
| "nt_rank ArrayDeclaration = 15"
| "nt_rank (ElementsLoop _) = 14"
| "nt_rank Object = 15"
| "nt_rank (PropertiesLoop _) = 14"

definition demand :: "nt \<Rightarrow> token list \<Rightarrow> nat" where
  "demand n ts = 16 * length ts + nt_rank n"

definition answers :: "parser \<Rightarrow> nat \<Rightarrow> bool" where
  "answers self k \<longleftrightarrow> (\<forall>n ts. demand n ts < k \<longrightarrow> self n ts \<noteq> None)"

lemma answersD: "answers self k \<Longrightarrow> self n ts = None \<Longrightarrow> k \<le> 16 * length ts + nt_rank n"
  unfolding answers_def demand_def by (meson not_le)

lemma operand_rank: "nt_rank (operand l) < nt_rank (Binary l)"
  by (cases l) (simp_all add: operand_def)

lemma rank_bound: "nt_rank n < 16"
  by (cases n) (auto split: level.splits)

lemma answers_productions:
  assumes "answers self k" and "shrinking self" shows "answers (productions self) (Suc k)"
  unfolding answers_def
proof (intro allI impI notI)
  fix n ts
  assume d: "demand n ts < Suc k" and p: "productions self n ts = None"
  let ?l = "case n of Binary l \<Rightarrow> l | BinaryLoop l _ \<Rightarrow> l | _ \<Rightarrow> LogicalOR"
  show False
    using d p operand_rank [of ?l] rank_bound [of "operand ?l"]
    by (cases n)
      (auto simp: production_defs parse_rules Let_def demand_def simp del: nt_rank.simps(8)
        split: option.splits prod.splits if_splits list.splits
        dest!: shrinkingD [OF assms(2)] answersD [OF assms(1)], (simp add: rank_bound split: level.splits)?)
qed

lemma answers_parse: "answers (parse k) k"
proof (induction k)
  case (Suc k)
  then show ?case using answers_productions shrinking_parse by simp
qed (simp add: answers_def)

lemma parse_terminates: "demand n ts < k \<Longrightarrow> parse k n ts \<noteq> None"
  using answers_parse by (simp add: answers_def)

lemma program_loop_terminates:
  "length ts < n \<Longrightarrow> 16 * length ts + 14 < k \<Longrightarrow> program_loop n k body ts \<noteq> None"
proof (induction n arbitrary: body ts)
  case (Suc n)
  have step: "length ts \<le> length r'" if "program_loop n k b r' = None" for b r'
    using that Suc.IH [of r' b] Suc.prems by linarith
  have top: "parse k FilterChain ts = None \<Longrightarrow> False"
    using parse_terminates [of FilterChain ts k] Suc.prems by (simp add: demand_def)
  show ?case
  proof
    assume "program_loop (Suc n) k body ts = None"
    then show False
      by (auto simp: parse_rules simp del: not_None_eq split: option.splits prod.splits if_splits
          dest!: step shrinkingD [OF shrinking_parse] dest: top)
  qed
qed simp

lemma program_terminates: "program ts \<noteq> None"
  unfolding program_def by (rule program_loop_terminates) (simp_all add: parse_fuel_def)

section \<open>More fuel changes nothing\<close>

definition le_res :: "'a option \<Rightarrow> 'a option \<Rightarrow> bool" where
  "le_res m m' \<longleftrightarrow> m = None \<or> m' = m"

named_theorems le_intros

lemma le_res_refl [le_intros]: "le_res m m"
  by (simp add: le_res_def)

lemma le_res_pbind [le_intros]:
  "le_res m m' \<Longrightarrow> (\<And>x r. le_res (f x r) (f' x r)) \<Longrightarrow> le_res (pbind m f) (pbind m' f')"
  by (auto simp: le_res_def pbind_def split: option.splits sum.splits)

lemma le_res_if [le_intros]:
  "(b \<Longrightarrow> le_res x x') \<Longrightarrow> (\<not> b \<Longrightarrow> le_res y y') \<Longrightarrow> le_res (if b then x else y) (if b then x' else y')"
  by simp

lemma le_res_option [le_intros]:
  "le_res x x' \<Longrightarrow> (\<And>t r. le_res (f t r) (f' t r)) \<Longrightarrow>
     le_res (case m of None \<Rightarrow> x | Some (t, r) \<Rightarrow> f t r) (case m of None \<Rightarrow> x' | Some (t, r) \<Rightarrow> f' t r)"
  by (simp split: option.splits prod.splits)

lemma le_res_list [le_intros]:
  "le_res x x' \<Longrightarrow> (\<And>t r. le_res (f t r) (f' t r)) \<Longrightarrow>
     le_res (case ts of [] \<Rightarrow> x | t # r \<Rightarrow> f t r) (case ts of [] \<Rightarrow> x' | t # r \<Rightarrow> f' t r)"
  by (simp split: list.splits)

definition below :: "parser \<Rightarrow> parser \<Rightarrow> bool" where
  "below p q \<longleftrightarrow> (\<forall>n ts. le_res (p n ts) (q n ts))"

lemma belowD: "below p q \<Longrightarrow> le_res (p n ts) (q n ts)"
  by (simp add: below_def)

lemma below_productions: "below p q \<Longrightarrow> below (productions p) (productions q)"
  unfolding below_def [of "productions p"]
proof (intro allI)
  fix n ts
  assume b: "below p q"
  note le = le_intros belowD [OF b]
  show "le_res (productions p n ts) (productions q n ts)"
    by (cases n) (simp_all only: productions.simps production_defs Let_def, (intro le)+)
qed

lemma below_parse: "below (parse k) (parse (k + j))"
proof (induction k)
  case (Suc k)
  then show ?case using below_productions by simp
qed (simp add: below_def le_res_def)

lemma parse_more: "parse k n ts = Some z \<Longrightarrow> k \<le> k' \<Longrightarrow> parse k' n ts = Some z"
  using belowD [OF below_parse [of k "k' - k"], of n ts] by (auto simp: le_res_def)

end
