(* ===== verification/NgPrinter.thy ===== *)
theory NgPrinter
  imports NgParser
begin

text \<open>
  A printer for expressions of Angular's language, and the proof that the lexer and the parser read
  back what it prints. Every compound expression is printed in parentheses, with a space after every
  token.
\<close>

section \<open>Printing\<close>

definition P :: "nat \<Rightarrow> lexeme" where "P c = LPunct c"

definition sep :: "lexeme \<Rightarrow> lexeme list list \<Rightarrow> lexeme list" where
  "sep l lss = (case lss of [] \<Rightarrow> [] | ls # lss \<Rightarrow> ls @ concat (map (\<lambda>ls. l # ls) lss))"

fun literal_lexemes :: "literal \<Rightarrow> lexeme list" where
  "literal_lexemes (LitNum (Fin q)) = [LNat (nat \<lfloor>q\<rfloor>)]"
| "literal_lexemes (LitNum NaN) = []"
| "literal_lexemes (LitStr v) = [LStr v]"
| "literal_lexemes (LitBool b) = [LIdent (js (if b then ''true'' else ''false''))]"
| "literal_lexemes LitNull = [LIdent (js ''null'')]"
| "literal_lexemes LitUndefined = [LIdent (js ''undefined'')]"

fun ident_lexemes :: "ast \<Rightarrow> lexeme list" where
  "ident_lexemes (Identifier x) = [LIdent x]"
| "ident_lexemes (Literal l) = literal_lexemes l"
| "ident_lexemes _ = []"

fun lexemes :: "ast \<Rightarrow> lexeme list" where
  "lexemes (Literal l) = literal_lexemes l"
| "lexemes (Identifier x) = [LIdent x]"
| "lexemes ThisExpression = [LIdent (js ''this'')]"
| "lexemes LocalsExpression = [LIdent (js ''$locals'')]"
| "lexemes (UnaryExpression op a) = P 40 # LOp op # lexemes a @ [P 41]"
| "lexemes (BinaryExpression op l r) = P 40 # lexemes l @ LOp op # lexemes r @ [P 41]"
| "lexemes (LogicalExpression op l r) = P 40 # lexemes l @ LOp op # lexemes r @ [P 41]"
| "lexemes (ConditionalExpression t a c) = P 40 # lexemes t @ P 63 # lexemes a @ P 58 # lexemes c @ [P 41]"
| "lexemes (AssignmentExpression l r) = P 40 # lexemes l @ LOp (js ''='') # lexemes r @ [P 41]"
| "lexemes (CallExpression f args flt) =
     (if flt then
        (case map lexemes args of
           [] \<Rightarrow> []
         | b # as \<Rightarrow> P 40 # sep (P 58) ((b @ LOp (js ''|'') # ident_lexemes f) # as) @ [P 41])
      else lexemes f @ P 40 # sep (P 44) (map lexemes args) @ [P 41])"
| "lexemes (MemberExpression ob p computed) =
     lexemes ob @ (if computed then P 91 # lexemes p @ [P 93] else P 46 # ident_lexemes p)"
| "lexemes (ArrayExpression es) = P 91 # sep (P 44) (map lexemes es) @ [P 93]"
| "lexemes (ObjectExpression ps) =
     P 123 # sep (P 44) (map (\<lambda>(k, v). ident_lexemes k @ P 58 # lexemes v) ps) @ [P 125]"

section \<open>What can be printed\<close>

text \<open>
  Number literals are natural numbers, names are names, and the operators are those of the grammar.
\<close>

fun literal_ok :: "literal \<Rightarrow> bool" where
  "literal_ok (LitNum (Fin q)) \<longleftrightarrow> 0 \<le> q \<and> of_int \<lfloor>q\<rfloor> = q"
| "literal_ok (LitNum NaN) \<longleftrightarrow> False"
| "literal_ok _ \<longleftrightarrow> True"

fun name_ok :: "ast \<Rightarrow> bool" where
  "name_ok (Identifier x) \<longleftrightarrow> ident_ok x"
| "name_ok _ \<longleftrightarrow> False"

fun key_ok :: "ast \<Rightarrow> bool" where
  "key_ok (Identifier x) \<longleftrightarrow> ident_ok x"
| "key_ok (Literal (LitStr v)) \<longleftrightarrow> True"
| "key_ok (Literal (LitNum n)) \<longleftrightarrow> literal_ok (LitNum n)"
| "key_ok _ \<longleftrightarrow> False"

definition binary_ops :: "jstring list" where
  "binary_ops = level_ops Equality @ level_ops Relational @ level_ops Additive @ level_ops Multiplicative"

fun printable :: "ast \<Rightarrow> bool" where
  "printable (Literal l) \<longleftrightarrow> literal_ok l"
| "printable (Identifier x) \<longleftrightarrow> ident_ok x \<and> selfReferential x = None \<and> literals x = None"
| "printable ThisExpression \<longleftrightarrow> True"
| "printable LocalsExpression \<longleftrightarrow> True"
| "printable (UnaryExpression op a) \<longleftrightarrow> op \<in> set (map js [''+'', ''-'', ''!'']) \<and> printable a"
| "printable (BinaryExpression op l r) \<longleftrightarrow> op \<in> set binary_ops \<and> printable l \<and> printable r"
| "printable (LogicalExpression op l r) \<longleftrightarrow>
     op \<in> set (level_ops LogicalOR @ level_ops LogicalAND) \<and> printable l \<and> printable r"
| "printable (ConditionalExpression t a c) \<longleftrightarrow> printable t \<and> printable a \<and> printable c"
| "printable (AssignmentExpression l r) \<longleftrightarrow> printable l \<and> printable r"
| "printable (CallExpression f args flt) \<longleftrightarrow>
     list_all printable args \<and> (if flt then name_ok f \<and> args \<noteq> [] else printable f)"
| "printable (MemberExpression ob p computed) \<longleftrightarrow> printable ob \<and> (if computed then printable p else name_ok p)"
| "printable (ArrayExpression es) \<longleftrightarrow> list_all printable es"
| "printable (ObjectExpression ps) \<longleftrightarrow> list_all (\<lambda>(k, v). key_ok k \<and> printable v) ps"

text \<open>Tokens that spell lexemes, at whatever positions.\<close>

definition spells :: "lexeme list \<Rightarrow> token list \<Rightarrow> bool" where
  "spells ls ts \<longleftrightarrow> list_all2 (\<lambda>l t. text_of t = spell l \<and> kind t = lexeme_kind l) ls ts"

lemma spells_simps [simp]:
  "spells [] ts \<longleftrightarrow> ts = []"
  "spells (l # ls) ts \<longleftrightarrow> (\<exists>t us. ts = t # us \<and> text_of t = spell l \<and> kind t = lexeme_kind l \<and> spells ls us)"
  by (auto simp: spells_def list_all2_Cons1)

lemma spells_append [simp]:
  "spells (ls @ ls') ts \<longleftrightarrow> (\<exists>us vs. ts = us @ vs \<and> spells ls us \<and> spells ls' vs)"
proof -
  let ?P = "\<lambda>l t. text_of t = spell l \<and> kind t = lexeme_kind l"
  have "list_all2 ?P (ls @ ls') ts \<longleftrightarrow> (\<exists>us vs. ts = us @ vs \<and> list_all2 ?P ls us \<and> list_all2 ?P ls' vs)"
    unfolding list_all2_append1 using list_all2_lengthD by fastforce
  then show ?thesis by (simp only: spells_def)
qed

lemma spells_lexeme_tokens: "spells ls (lexeme_tokens i ls)"
  by (induction ls arbitrary: i) auto

section \<open>Parsing without counting fuel\<close>

definition parses :: "nt \<Rightarrow> token list \<Rightarrow> ast \<Rightarrow> token list \<Rightarrow> bool" where
  "parses n ts v r \<longleftrightarrow> (\<exists>k. parse k n ts = Some (Inr (v, r)))"

lemma parsesI: "productions (parse k) n ts = Some (Inr (v, r)) \<Longrightarrow> parses n ts v r"
  unfolding parses_def by (rule exI [of _ "Suc k"]) simp

lemma parses_one:
  assumes "parses n ts v r" obtains k where "parse k n ts = Some (Inr (v, r))"
  using assms by (auto simp: parses_def)

text \<open>Two facts of this kind hold with the same fuel.\<close>

lemma parses_two:
  assumes "parses n ts v r" and "parses m us w s"
  obtains k where "parse k n ts = Some (Inr (v, r))" and "parse k m us = Some (Inr (w, s))"
proof -
  obtain i j where "parse i n ts = Some (Inr (v, r))" "parse j m us = Some (Inr (w, s))"
    using assms by (auto simp: parses_def)
  then have "parse (max i j) n ts = Some (Inr (v, r))" "parse (max i j) m us = Some (Inr (w, s))"
    by (meson parse_more max.cobounded1 max.cobounded2)+
  with that show thesis .
qed

lemma parses_three:
  assumes "parses n ts v r" and "parses m us w s" and "parses o' xs x q"
  obtains k where "parse k n ts = Some (Inr (v, r))" and "parse k m us = Some (Inr (w, s))"
    and "parse k o' xs = Some (Inr (x, q))"
proof -
  obtain i j l where "parse i n ts = Some (Inr (v, r))" "parse j m us = Some (Inr (w, s))"
    "parse l o' xs = Some (Inr (x, q))"
    using assms by (auto simp: parses_def)
  then have "parse (i + j + l) n ts = Some (Inr (v, r))" "parse (i + j + l) m us = Some (Inr (w, s))"
    "parse (i + j + l) o' xs = Some (Inr (x, q))"
    by (meson parse_more le_add1 le_add2 le_trans)+
  with that show thesis .
qed

lemma js_codes:
  "js ''('' = [40]" "js '')'' = [41]" "js ''['' = [91]" "js '']'' = [93]" "js ''{'' = [123]" "js ''}'' = [125]"
  "js '','' = [44]" "js '':'' = [58]" "js ''?'' = [63]" "js ''.'' = [46]" "js '';'' = [59]"
  "js ''|'' = [124]" "js ''='' = [61]" "js ''+'' = [43]" "js ''-'' = [45]" "js ''!'' = [33]"
  "js ''*'' = [42]" "js ''/'' = [47]" "js ''%'' = [37]" "js ''||'' = [124, 124]" "js ''&&'' = [38, 38]"
  "js ''=='' = [61, 61]" "js ''!='' = [33, 61]" "js ''==='' = [61, 61, 61]" "js ''!=='' = [33, 61, 61]"
  "js ''<'' = [60]" "js ''>'' = [62]" "js ''<='' = [60, 61]" "js ''>='' = [62, 61]"
  by (simp_all add: js_def)

lemma level_ops_codes:
  "level_ops LogicalOR = [[124, 124]]" "level_ops LogicalAND = [[38, 38]]"
  "level_ops Equality = [[61, 61], [33, 61], [61, 61, 61], [33, 61, 61]]"
  "level_ops Relational = [[60], [62], [60, 61], [62, 61]]"
  "level_ops Additive = [[43], [45]]" "level_ops Multiplicative = [[42], [47], [37]]"
  by (simp_all add: level_ops_def js_codes)

lemma pbind_ok [simp]: "pbind (Some (Inr (x, r))) f = f x r"
  by (simp add: pbind_def)

lemma pbind_ret [simp]: "pbind (ret x r) f = f x r"
  by (simp add: ret_def)

lemma expect_Cons: "expect es (t # r) = (if text_of t \<in> set es then Some (t, r) else None)"
  by (simp add: expect_def)

lemma consume_Cons: "text_of t = e \<Longrightarrow> consume e (t # r) = ret t r"
  by (simp add: consume_def expect_def)

section \<open>One rule per production\<close>

lemma parses_Expression: "parses Assignment ts v r \<Longrightarrow> parses Expression ts v r"
  unfolding parses_def [of Assignment] by (auto intro: parsesI)

lemma parses_FilterChain:
  assumes "parses Expression ts e r" and "parses (FilterLoop e) r v s"
  shows "parses FilterChain ts v s"
  using parses_two [OF assms] by (metis parsesI productions.simps(1) filterChain_def pbind_ok)

lemma parses_FilterLoop_end: "expect [js ''|''] ts = None \<Longrightarrow> parses (FilterLoop e) ts e ts"
  by (rule parsesI [of 0]) (simp add: filter_loop_def ret_def)

lemma parses_FilterLoop:
  assumes "text_of t = js ''|''" and "parses (Filter e) ts f r" and "parses (FilterLoop f) r v s"
  shows "parses (FilterLoop e) (t # ts) v s"
proof -
  obtain k where "parse k (Filter e) ts = Some (Inr (f, r))" "parse k (FilterLoop f) r = Some (Inr (v, s))"
    using parses_two [OF assms(2,3)] .
  then show ?thesis by (intro parsesI [of k]) (simp add: filter_loop_def expect_Cons assms(1))
qed

lemma parses_Filter:
  assumes "kind t = Ident" and "parses (FilterArgsLoop (Identifier (text_of t)) [e]) ts v r"
  shows "parses (Filter e) (t # ts) v r"
proof -
  obtain k where "parse k (FilterArgsLoop (Identifier (text_of t)) [e]) ts = Some (Inr (v, r))"
    using parses_one [OF assms(2)] .
  then show ?thesis
    by (intro parsesI [of k]) (simp add: filter_call_def parse_identifier_def consume_any_def assms(1))
qed

lemma parses_FilterArgs_end:
  "expect [js '':''] ts = None \<Longrightarrow> parses (FilterArgsLoop f as) ts (CallExpression f as True) ts"
  by (rule parsesI [of 0]) (simp add: filter_args_loop_def ret_def)

lemma parses_FilterArgs:
  assumes "text_of t = js '':''" and "parses Expression ts e r" and "parses (FilterArgsLoop f (as @ [e])) r v s"
  shows "parses (FilterArgsLoop f as) (t # ts) v s"
proof -
  obtain k where "parse k Expression ts = Some (Inr (e, r))" "parse k (FilterArgsLoop f (as @ [e])) r = Some (Inr (v, s))"
    using parses_two [OF assms(2,3)] .
  then show ?thesis by (intro parsesI [of k]) (simp add: filter_args_loop_def expect_Cons assms(1))
qed

lemma parses_Assignment_plain:
  assumes "parses Ternary ts v r" and "expect [js ''=''] r = None" shows "parses Assignment ts v r"
proof -
  obtain k where "parse k Ternary ts = Some (Inr (v, r))" using parses_one [OF assms(1)] .
  then show ?thesis by (intro parsesI [of k]) (simp add: assignment_def assms(2) ret_def)
qed

lemma parses_Assignment:
  assumes "parses Ternary ts l (t # r)" and "text_of t = js ''=''" and "parses Assignment r v s"
  shows "parses Assignment ts (AssignmentExpression l v) s"
proof -
  obtain k where "parse k Ternary ts = Some (Inr (l, t # r))" "parse k Assignment r = Some (Inr (v, s))"
    using parses_two [OF assms(1,3)] .
  then show ?thesis by (intro parsesI [of k]) (simp add: assignment_def expect_Cons assms(2) ret_def)
qed

lemma parses_Ternary_plain:
  assumes "parses (Binary LogicalOR) ts v r" and "expect [js ''?''] r = None" shows "parses Ternary ts v r"
proof -
  obtain k where "parse k (Binary LogicalOR) ts = Some (Inr (v, r))" using parses_one [OF assms(1)] .
  then show ?thesis by (intro parsesI [of k]) (simp add: ternary_def assms(2) ret_def)
qed

lemma parses_Ternary:
  assumes "parses (Binary LogicalOR) ts a (t # r)" and "text_of t = js ''?''" and "parses Expression r b (u # s)"
    and "text_of u = js '':''" and "parses Expression s c q"
  shows "parses Ternary ts (ConditionalExpression a b c) q"
proof -
  obtain k where "parse k (Binary LogicalOR) ts = Some (Inr (a, t # r))" "parse k Expression r = Some (Inr (b, u # s))"
    "parse k Expression s = Some (Inr (c, q))"
    using parses_three [OF assms(1,3,5)] .
  then show ?thesis
    by (intro parsesI [of k]) (simp add: ternary_def expect_Cons consume_Cons assms(2,4), simp add: ret_def)
qed

lemma parses_Binary:
  assumes "parses (operand l) ts a r" and "parses (BinaryLoop l a) r v s" shows "parses (Binary l) ts v s"
proof -
  obtain k where "parse k (operand l) ts = Some (Inr (a, r))" "parse k (BinaryLoop l a) r = Some (Inr (v, s))"
    using parses_two [OF assms] .
  then show ?thesis by (intro parsesI [of k]) (simp add: binary_def)
qed

lemma parses_BinaryLoop_end: "expect (level_ops l) ts = None \<Longrightarrow> parses (BinaryLoop l a) ts a ts"
  by (rule parsesI [of 0]) (simp add: binary_loop_def ret_def)

lemma parses_BinaryLoop:
  assumes "text_of t \<in> set (level_ops l)" and "parses (operand l) ts b r"
    and "parses (BinaryLoop l (binary_node l (text_of t) a b)) r v s"
  shows "parses (BinaryLoop l a) (t # ts) v s"
proof -
  obtain k where "parse k (operand l) ts = Some (Inr (b, r))"
    "parse k (BinaryLoop l (binary_node l (text_of t) a b)) r = Some (Inr (v, s))"
    using parses_two [OF assms(2,3)] .
  then show ?thesis by (intro parsesI [of k]) (simp add: binary_loop_def expect_Cons assms(1))
qed

lemma parses_Unary:
  assumes "text_of t \<in> set (map js [''+'', ''-'', ''!''])" and "parses Unary ts a r"
  shows "parses Unary (t # ts) (UnaryExpression (text_of t) a) r"
proof -
  obtain k where "parse k Unary ts = Some (Inr (a, r))" using assms(2) by (auto simp: parses_def)
  moreover have "expect (map js [''+'', ''-'', ''!'']) (t # ts) = Some (t, ts)"
    using assms(1) by (simp only: expect_Cons if_True)
  ultimately show ?thesis by (intro parsesI [of k]) (simp add: unary_def ret_def del: list.map)
qed

lemma parses_Unary_plain:
  assumes "expect (map js [''+'', ''-'', ''!'']) ts = None" and "parses Primary ts a r" shows "parses Unary ts a r"
proof -
  obtain k where "parse k Primary ts = Some (Inr (a, r))" using assms(2) by (auto simp: parses_def)
  then show ?thesis by (intro parsesI [of k]) (simp add: unary_def assms(1) del: list.map)
qed

lemma parses_Primary:
  assumes "primary_start (parse k) ts = Some (Inr (p, r))" and "parses (PostfixLoop p) r v s"
  shows "parses Primary ts v s"
proof -
  obtain j where "parse j (PostfixLoop p) r = Some (Inr (v, s))" using parses_one [OF assms(2)] .
  then have "parse (max j k) (PostfixLoop p) r = Some (Inr (v, s))" by (meson parse_more max.cobounded1)
  moreover have "le_res (primary_start (parse k) ts) (primary_start (parse (max j k)) ts)"
    unfolding primary_start_def
    by (intro le_intros belowD [OF below_parse [of k "max j k - k", simplified]])
  ultimately show ?thesis
    using assms(1) by (intro parsesI [of "max j k"]) (auto simp: primary_def le_res_def)
qed

lemma parses_PostfixLoop_end:
  "expect (map js [''('', ''['', ''.'']) ts = None \<Longrightarrow> parses (PostfixLoop p) ts p ts"
  by (rule parsesI [of 0]) (simp add: postfix_loop_def ret_def del: list.map)

lemma postfix_next: "text_of t \<in> set (map js [''('', ''['', ''.'']) \<Longrightarrow>
    expect (map js [''('', ''['', ''.'']) (t # r) = Some (t, r)"
  by (simp only: expect_Cons if_True)

lemma parses_call_empty:
  assumes "text_of t = js ''(''" and "text_of u = js '')''" and "parses (PostfixLoop (CallExpression p [] False)) r v s"
  shows "parses (PostfixLoop p) (t # u # r) v s"
proof -
  obtain k where "parse k (PostfixLoop (CallExpression p [] False)) r = Some (Inr (v, s))"
    using parses_one [OF assms(3)] .
  moreover have "expect (map js [''('', ''['', ''.'']) (t # u # r) = Some (t, u # r)"
    by (rule postfix_next) (simp add: assms(1))
  ultimately show ?thesis
    by (intro parsesI [of k])
      (simp add: postfix_loop_def assms(1,2) peek_is_def close_call_def consume_Cons del: list.map)
qed

lemma parses_call:
  assumes "text_of t = js ''(''" and "r \<noteq> []" and "text_of (hd r) \<noteq> js '')''" and "parses (ArgumentsLoop p []) r v s"
  shows "parses (PostfixLoop p) (t # r) v s"
proof -
  obtain k where "parse k (ArgumentsLoop p []) r = Some (Inr (v, s))" using parses_one [OF assms(4)] .
  moreover have "expect (map js [''('', ''['', ''.'']) (t # r) = Some (t, r)"
    by (rule postfix_next) (simp add: assms(1))
  ultimately show ?thesis
    using assms(2,3)
    by (intro parsesI [of k]) (cases r; simp add: postfix_loop_def assms(1) peek_is_def del: list.map)
qed

lemma parses_index:
  assumes "text_of t = js ''[''" and "parses Expression r e (u # q)" and "text_of u = js '']''"
    and "parses (PostfixLoop (MemberExpression p e True)) q v s"
  shows "parses (PostfixLoop p) (t # r) v s"
proof -
  obtain k where "parse k Expression r = Some (Inr (e, u # q))"
    "parse k (PostfixLoop (MemberExpression p e True)) q = Some (Inr (v, s))"
    using parses_two [OF assms(2,4)] .
  moreover have "expect (map js [''('', ''['', ''.'']) (t # r) = Some (t, r)"
    by (rule postfix_next) (simp add: assms(1))
  ultimately show ?thesis
    by (intro parsesI [of k]) (simp add: postfix_loop_def assms(1,3) consume_Cons js_codes)
qed

lemma parses_dot:
  assumes "text_of t = js ''.''" and "kind u = Ident"
    and "parses (PostfixLoop (MemberExpression p (Identifier (text_of u)) False)) q v s"
  shows "parses (PostfixLoop p) (t # u # q) v s"
proof -
  obtain k where "parse k (PostfixLoop (MemberExpression p (Identifier (text_of u)) False)) q = Some (Inr (v, s))"
    using parses_one [OF assms(3)] .
  moreover have "expect (map js [''('', ''['', ''.'']) (t # u # q) = Some (t, u # q)"
    by (rule postfix_next) (simp add: assms(1))
  ultimately show ?thesis
    by (intro parsesI [of k])
      (simp add: postfix_loop_def assms(1,2) parse_identifier_def consume_any_def js_codes)
qed

lemma parses_Arguments:
  assumes "parses Expression ts e (t # r)" and "text_of t = js '',''" and "parses (ArgumentsLoop p (as @ [e])) r v s"
  shows "parses (ArgumentsLoop p as) ts v s"
proof -
  obtain k where "parse k Expression ts = Some (Inr (e, t # r))" "parse k (ArgumentsLoop p (as @ [e])) r = Some (Inr (v, s))"
    using parses_two [OF assms(1,3)] .
  then show ?thesis by (intro parsesI [of k]) (simp add: arguments_loop_def expect_Cons assms(2))
qed

lemma parses_Arguments_end:
  assumes "parses Expression ts e (t # r)" and "text_of t = js '')''"
    and "parses (PostfixLoop (CallExpression p (as @ [e]) False)) r v s"
  shows "parses (ArgumentsLoop p as) ts v s"
proof -
  obtain k where "parse k Expression ts = Some (Inr (e, t # r))"
    "parse k (PostfixLoop (CallExpression p (as @ [e]) False)) r = Some (Inr (v, s))"
    using parses_two [OF assms(1,3)] .
  then show ?thesis
    by (intro parsesI [of k]) (simp add: arguments_loop_def expect_Cons assms(2) close_call_def consume_Cons js_codes)
qed

lemma parses_Elements_end:
  "text_of t = js '']'' \<Longrightarrow> parses (ElementsLoop es) (t # r) (ArrayExpression es) r"
  by (rule parsesI [of 0]) (simp add: elements_loop_def peek_is_def consume_Cons ret_def Let_def)

lemma parses_Elements_last:
  assumes "ts \<noteq> []" and "text_of (hd ts) \<noteq> js '']''" and "parses Expression ts e (t # r)" and "text_of t = js '']''"
  shows "parses (ElementsLoop es) ts (ArrayExpression (es @ [e])) r"
proof -
  obtain k where "parse k Expression ts = Some (Inr (e, t # r))" using parses_one [OF assms(3)] .
  then show ?thesis using assms(1,2)
    by (intro parsesI [of k])
      (cases ts; simp add: elements_loop_def peek_is_def Let_def expect_Cons assms(4) consume_Cons js_codes ret_def)
qed

lemma parses_Elements:
  assumes "ts \<noteq> []" and "text_of (hd ts) \<noteq> js '']''" and "parses Expression ts e (t # r)" and "text_of t = js '',''"
    and "parses (ElementsLoop (es @ [e])) r v s"
  shows "parses (ElementsLoop es) ts v s"
proof -
  obtain k where "parse k Expression ts = Some (Inr (e, t # r))" "parse k (ElementsLoop (es @ [e])) r = Some (Inr (v, s))"
    using parses_two [OF assms(3,5)] .
  then show ?thesis using assms(1,2)
    by (intro parsesI [of k]) (cases ts; simp add: elements_loop_def peek_is_def Let_def expect_Cons assms(4))
qed

lemma parses_Properties_end:
  "text_of t = js ''}'' \<Longrightarrow> parses (PropertiesLoop ps) (t # r) (ObjectExpression ps) r"
  by (rule parsesI [of 0]) (simp add: properties_loop_def peek_is_def consume_Cons ret_def Let_def)

definition reads_key :: "token \<Rightarrow> ast \<Rightarrow> bool" where
  "reads_key t key \<longleftrightarrow>
     (case kind t of Ident \<Rightarrow> key = Identifier (text_of t) | Constant _ \<Rightarrow> key = Literal (token_literal t) | _ \<Rightarrow> False)"

lemma parses_Properties:
  assumes "text_of t \<noteq> js ''}''" and "reads_key t key" and "text_of c = js '':''" and "parses Expression ts e (u # r)"
    and "text_of u = js '',''" and "parses (PropertiesLoop (ps @ [(key, e)])) r v s"
  shows "parses (PropertiesLoop ps) (t # c # ts) v s"
proof -
  obtain k where "parse k Expression ts = Some (Inr (e, u # r))" "parse k (PropertiesLoop (ps @ [(key, e)])) r = Some (Inr (v, s))"
    using parses_two [OF assms(4,6)] .
  then show ?thesis using assms(1,2,3,5)
    by (intro parsesI [of k])
      (auto simp: properties_loop_def peek_is_def Let_def expect_Cons consume_Cons reads_key_def is_constant_def
        is_identifier_def parse_constant_def parse_identifier_def consume_any_def split: token_kind.splits)
qed

lemma parses_Properties_last:
  assumes "text_of t \<noteq> js ''}''" and "reads_key t key" and "text_of c = js '':''" and "parses Expression ts e (u # r)"
    and "text_of u = js ''}''"
  shows "parses (PropertiesLoop ps) (t # c # ts) (ObjectExpression (ps @ [(key, e)])) r"
proof -
  obtain k where "parse k Expression ts = Some (Inr (e, u # r))" using parses_one [OF assms(4)] .
  then show ?thesis using assms(1,2,3,5)
    by (intro parsesI [of k])
      (auto simp: properties_loop_def peek_is_def Let_def expect_Cons consume_Cons reads_key_def is_constant_def
        is_identifier_def parse_constant_def parse_identifier_def consume_any_def ret_def js_codes split: token_kind.splits)
qed

section \<open>From a primary to an expression\<close>

fun level_no :: "level \<Rightarrow> nat" where
  "level_no LogicalOR = 0" | "level_no LogicalAND = 1" | "level_no Equality = 2"
| "level_no Relational = 3" | "level_no Additive = 4" | "level_no Multiplicative = 5"

lemma parses_up: "parses (operand l) ts v r \<Longrightarrow> expect (level_ops l) r = None \<Longrightarrow> parses (Binary l) ts v r"
  using parses_Binary parses_BinaryLoop_end by blast

text \<open>A unary expression is an operand of a level when no operator of a deeper level follows.\<close>

lemma parses_operand:
  assumes "parses Unary ts v r" and "\<forall>l. level_no L < level_no l \<longrightarrow> expect (level_ops l) r = None"
  shows "parses (operand L) ts v r"
proof -
  have m: "parses (operand Multiplicative) ts v r" using assms(1) by (simp add: operand_def)
  have a: "parses (operand Additive) ts v r" if "level_no L \<le> 4"
    using parses_up [OF m] assms(2) that by (simp add: operand_def)
  have r: "parses (operand Relational) ts v r" if "level_no L \<le> 3"
    using parses_up [OF a] assms(2) that by (simp add: operand_def)
  have e: "parses (operand Equality) ts v r" if "level_no L \<le> 2"
    using parses_up [OF r] assms(2) that by (simp add: operand_def)
  have d: "parses (operand LogicalAND) ts v r" if "level_no L \<le> 1"
    using parses_up [OF e] assms(2) that by (simp add: operand_def)
  have c: "parses (operand LogicalOR) ts v r" if "level_no L = 0"
    using parses_up [OF d] assms(2) that by (simp add: operand_def)
  show ?thesis using m a r e d c by (cases L) simp_all
qed

text \<open>What can follow an expression: a closing token, a separator or a filter.\<close>

definition closed :: "token list \<Rightarrow> bool" where
  "closed r \<longleftrightarrow> (case r of [] \<Rightarrow> True
     | t # _ \<Rightarrow> text_of t \<in> {[41], [93], [125], [44], [58], [59], [124]})"

lemma closed_stops:
  assumes "closed r"
  shows "expect (level_ops l) r = None" "expect [js ''='' ] r = None" "expect [js ''?''] r = None"
    "expect (map js [''('', ''['', ''.'']) r = None"
  using assms by (cases l; auto simp: closed_def expect_def level_ops_codes js_codes split: list.splits)+

lemma parses_climb:
  assumes "parses (Binary L) ts v r" and "closed r" shows "parses (Binary LogicalOR) ts v r"
proof -
  note up = parses_up [OF _ closed_stops(1) [OF assms(2)]]
  have a: "parses (Binary Additive) ts v r" if "L = Multiplicative \<or> L = Additive"
    using that assms(1) up [of Additive] by (auto simp: operand_def)
  have r: "parses (Binary Relational) ts v r" if "level_no L \<ge> 3"
    using that assms(1) a up [of Relational] by (cases L) (auto simp: operand_def)
  have e: "parses (Binary Equality) ts v r" if "level_no L \<ge> 2"
    using that assms(1) r up [of Equality] by (cases L) (auto simp: operand_def)
  have d: "parses (Binary LogicalAND) ts v r" if "level_no L \<ge> 1"
    using that assms(1) e up [of LogicalAND] by (cases L) (auto simp: operand_def)
  show ?thesis using assms(1) d up [of LogicalOR] by (cases L) (auto simp: operand_def)
qed

lemma parses_Binary_Expression:
  assumes "parses (Binary L) ts v r" and "closed r" shows "parses Expression ts v r"
  using parses_climb [OF assms] closed_stops [OF assms(2)]
  by (intro parses_Expression parses_Assignment_plain parses_Ternary_plain)

lemma parses_Expression_FilterChain:
  assumes "parses Expression ts v r" and "expect [js ''|''] r = None" shows "parses FilterChain ts v r"
  using parses_FilterChain [OF assms(1)] parses_FilterLoop_end [OF assms(2)] by blast

definition unary_free :: "token list \<Rightarrow> bool" where
  "unary_free ts \<longleftrightarrow> ts \<noteq> [] \<and> text_of (hd ts) \<notin> {[43], [45], [33], [93], [41], [125], [59]}"

lemma parses_Primary_Unary: "parses Primary ts v r \<Longrightarrow> unary_free ts \<Longrightarrow> parses Unary ts v r"
  by (rule parses_Unary_plain) (auto simp: unary_free_def expect_def js_codes split: list.splits)

lemma parses_Unary_Expression:
  assumes "parses Unary ts v r" and "closed r" shows "parses Expression ts v r"
proof -
  have "parses (operand LogicalOR) ts v r"
    using parses_operand [OF assms(1)] closed_stops(1) [OF assms(2)] by blast
  then show ?thesis
    using parses_Binary_Expression [OF _ assms(2)] parses_up closed_stops(1) [OF assms(2)] by blast
qed

section \<open>The printed text is read back\<close>

lemma ident_text:
  assumes "ident_ok x" shows "x \<notin> {[40], [91], [123], [43], [45], [33], [93], [41], [125], [59]}"
  using assms by (auto simp: ident_ok_def isIdent_def)

lemma primary_name:
  assumes "kind t = Ident" and "ident_ok (text_of t)"
  shows "primary_start self (t # r) =
    (case selfReferential (text_of t) of Some a \<Rightarrow> ret a r
     | None \<Rightarrow> (case literals (text_of t) of Some v \<Rightarrow> ret (Literal v) r | None \<Rightarrow> ret (Identifier (text_of t)) r))"
  using assms(1) ident_text [OF assms(2)]
  by (simp add: primary_start_def js_codes is_identifier_def parse_identifier_def consume_any_def split: option.splits)

lemma keyword_heads:
  "\<exists>cs. js ''this'' = 116 # cs" "\<exists>cs. js ''$locals'' = 36 # cs" "\<exists>cs. js ''true'' = 116 # cs"
  "\<exists>cs. js ''false'' = 102 # cs" "\<exists>cs. js ''null'' = 110 # cs" "\<exists>cs. js ''undefined'' = 117 # cs"
  by (simp_all add: js_def)

lemma no_keyword:
  assumes "c \<notin> {116, 36, 102, 110, 117}"
  shows "selfReferential (c # cs) = None" "literals (c # cs) = None"
  using assms keyword_heads by (auto simp: selfReferential_def literals_def)

lemma primary_constant:
  assumes "kind t = Constant v" and "text_of t = c # cs" and "isNumber (Some c) \<or> c = 39"
  shows "primary_start self (t # r) = ret (Literal (token_literal t)) r"
proof -
  have c: "c \<notin> {116, 36, 102, 110, 117}" "c \<noteq> 40" "c \<noteq> 91" "c \<noteq> 123"
    using assms(3) by (auto simp: isNumber_def)
  then show ?thesis using no_keyword [OF c(1), of cs] assms(1,2)
    by (simp add: primary_start_def js_codes is_identifier_def is_constant_def parse_constant_def consume_any_def)
qed

lemma number_text: "\<exists>c cs. js (show_nat n) = c # cs \<and> isNumber (Some c)"
  using js_digits [of n] show_nat_nonempty [of n] by (cases "js (show_nat n)") (auto simp: js_def)

lemma keyword_idents:
  "ident_ok (js ''this'')" "ident_ok (js ''$locals'')" "ident_ok (js ''true'')" "ident_ok (js ''false'')"
  "ident_ok (js ''null'')" "ident_ok (js ''undefined'')"
  by (simp_all add: ident_ok_def js_def isIdent_def)

lemmas keyword_text = keyword_idents [THEN ident_text, simplified]

text \<open>No printed expression starts with a unary operator or a closing token.\<close>

lemma unary_free_Cons: "unary_free ((t # us) @ rest) \<longleftrightarrow> text_of t \<notin> {[43], [45], [33], [93], [41], [125], [59]}"
  by (simp add: unary_free_def)

lemma spelled_name:
  assumes "ident_ok x" and "spells [LIdent x] ts" shows "unary_free (ts @ rest)"
proof -
  obtain t where "ts = [t]" "text_of t = x" using assms(2) by auto
  with ident_text [OF assms(1)] show ?thesis by (simp add: unary_free_def)
qed

lemma spelled_paren:
  assumes "spells (P c # ls) ts" and "c \<in> {40, 91, 123}" shows "unary_free (ts @ rest)"
proof -
  obtain t us where "ts = t # us" "text_of t = [c]" using assms(1) by (auto simp: P_def)
  with assms(2) show ?thesis by (auto simp: unary_free_def)
qed

lemma spelled_literal:
  assumes "literal_ok l" and "spells (literal_lexemes l) ts" shows "unary_free (ts @ rest)"
proof (cases l)
  case (LitNum n)
  then obtain q where q: "n = Fin q" using assms(1) by (cases n) auto
  obtain c cs where c: "js (show_nat (nat \<lfloor>q\<rfloor>)) = c # cs" "isNumber (Some c)" using number_text by blast
  then have "c \<notin> {43, 45, 33, 93, 41, 125, 59}" by (auto simp: isNumber_def)
  with assms LitNum q c(1) show ?thesis by (auto simp: unary_free_def)
next
  case (LitStr v)
  then show ?thesis using assms(2) by (auto simp: unary_free_def quote_def)
next
  case (LitBool b)
  then show ?thesis using assms(2) spelled_name keyword_idents by (cases b) auto
next
  case LitNull
  then show ?thesis using assms(2) spelled_name keyword_idents by auto
next
  case LitUndefined
  then show ?thesis using assms(2) spelled_name keyword_idents by auto
qed

lemma spelled_start:
  "printable e \<Longrightarrow> spells (lexemes e) ts \<Longrightarrow> unary_free (ts @ rest)"
proof (induction e arbitrary: ts rest)
  case (Literal l)
  then show ?case by (intro spelled_literal) simp_all
next
  case (Identifier x)
  then show ?case by (intro spelled_name) simp_all
next
  case ThisExpression
  then show ?case by (intro spelled_name [OF keyword_idents(1)]) simp
next
  case LocalsExpression
  then show ?case by (intro spelled_name [OF keyword_idents(2)]) simp
next
  case (CallExpression f args flt)
  show ?case
  proof (cases flt)
    case True
    then obtain a as where "args = a # as" using CallExpression.prems by (cases args) auto
    with CallExpression.prems(2) True obtain t us where "ts = t # us" "text_of t = [40]"
      by (auto simp: P_def)
    then show ?thesis by (simp add: unary_free_def)
  next
    case False
    then obtain us vs where "ts = us @ vs" "spells (lexemes f) us" using CallExpression.prems(2) by auto
    with CallExpression.IH(1) CallExpression.prems(1) False show ?thesis by simp
  qed
next
  case (MemberExpression ob p computed)
  then obtain us vs where "ts = us @ vs" "spells (lexemes ob) us" by auto
  with MemberExpression show ?case by simp
qed (simp_all only: lexemes.simps, (rule spelled_paren, assumption, simp)+)

text \<open>
  An expression is read from its spelling as a primary, whatever the loop after a primary makes of what
  follows; hence as a unary expression, an operand and an expression.
\<close>

definition reads :: "ast \<Rightarrow> bool" where
  "reads e \<longleftrightarrow> (\<forall>ts rest v r. spells (lexemes e) ts \<longrightarrow> parses (PostfixLoop e) rest v r \<longrightarrow> parses Primary (ts @ rest) v r)"

lemma reads_Unary:
  assumes "reads e" and "printable e" and "spells (lexemes e) ts" and "expect (map js [''('', ''['', ''.'']) rest = None"
  shows "parses Unary (ts @ rest) e rest"
proof -
  have "parses Primary (ts @ rest) e rest"
    using assms(1,3) parses_PostfixLoop_end [OF assms(4)] unfolding reads_def by blast
  then show ?thesis using parses_Primary_Unary spelled_start [OF assms(2,3)] by blast
qed

lemma reads_Expression:
  "reads e \<Longrightarrow> printable e \<Longrightarrow> spells (lexemes e) ts \<Longrightarrow> closed rest \<Longrightarrow> parses Expression (ts @ rest) e rest"
  using parses_Unary_Expression reads_Unary closed_stops(4) by blast

lemma reads_FilterChain:
  "reads e \<Longrightarrow> printable e \<Longrightarrow> spells (lexemes e) ts \<Longrightarrow> text_of t = [41] \<Longrightarrow>
     parses FilterChain (ts @ t # rest) e (t # rest)"
  by (rule parses_Expression_FilterChain [OF reads_Expression]) (simp_all add: closed_def expect_def js_codes)

lemma reads_operand:
  assumes "reads e" and "printable e" and "spells (lexemes e) ts" and "expect (map js [''('', ''['', ''.'']) rest = None"
    and "\<forall>l. level_no L < level_no l \<longrightarrow> expect (level_ops l) rest = None"
  shows "parses (operand L) (ts @ rest) e rest"
  using parses_operand [OF reads_Unary [OF assms(1-4)] assms(5)] .

text \<open>In parentheses, everything a filter chain can be is a primary.\<close>

lemma parses_parens:
  assumes "text_of t = [40]" and "parses FilterChain us e (c # rest)" and "text_of c = [41]"
    and "parses (PostfixLoop e) rest v r"
  shows "parses Primary (t # us) v r"
proof -
  obtain k where "parse k FilterChain us = Some (Inr (e, c # rest))" using parses_one [OF assms(2)] .
  then have "primary_start (parse k) (t # us) = Some (Inr (e, rest))"
    by (simp add: primary_start_def assms(1) js_codes consume_Cons assms(3), simp add: ret_def)
  then show ?thesis using parses_Primary assms(4) by blast
qed

lemma op_of_level:
  assumes "op \<in> set (level_ops L)" and "text_of t = op"
  shows "expect (map js [''('', ''['', ''.'']) (t # r) = None"
    and "\<forall>l. level_no L < level_no l \<longrightarrow> expect (level_ops l) (t # r) = None"
proof -
  show "expect (map js [''('', ''['', ''.'']) (t # r) = None"
    using assms by (cases L) (auto simp: expect_def level_ops_codes js_codes)
  have "expect (level_ops l) (t # r) = None" if "level_no L < level_no l" for l
    using that assms by (cases L; cases l) (auto simp: expect_def level_ops_codes)
  then show "\<forall>l. level_no L < level_no l \<longrightarrow> expect (level_ops l) (t # r) = None" by blast
qed

lemma binary_reads:
  assumes "reads a" "printable a" "reads b" "printable b" and "op \<in> set (level_ops L)"
    and "spells (lexemes a) ta" and "text_of t = op" and "spells (lexemes b) tb" and "text_of c = [41]"
  shows "parses FilterChain (ta @ t # tb @ c # rest) (binary_node L op a b) (c # rest)"
proof -
  have cl: "closed (c # rest)" by (simp add: closed_def assms(9))
  have a: "parses (operand L) (ta @ t # tb @ c # rest) a (t # tb @ c # rest)"
    using reads_operand [OF assms(1,2,6)] op_of_level [OF assms(5,7)] by blast
  have b: "parses (operand L) (tb @ c # rest) b (c # rest)"
    using reads_operand [OF assms(3,4,8)] closed_stops [OF cl] by blast
  have "parses (BinaryLoop L a) (t # tb @ c # rest) (binary_node L op a b) (c # rest)"
    using parses_BinaryLoop [OF _ b parses_BinaryLoop_end] assms(5,7) closed_stops(1) [OF cl] by auto
  from parses_Binary [OF a this] show ?thesis
    using parses_Binary_Expression [OF _ cl] parses_Expression_FilterChain by (simp add: expect_def js_codes assms(9))
qed

lemma sep_simps [simp]:
  "sep l [] = []" "sep l [x] = x" "sep l (x # y # zs) = x @ l # sep l (y # zs)"
  by (simp_all add: sep_def)

lemma unary_freeD: "unary_free ts \<Longrightarrow> ts \<noteq> [] \<and> text_of (hd ts) \<noteq> [93] \<and> text_of (hd ts) \<noteq> [41]"
  by (simp add: unary_free_def)

abbreviation all_read :: "ast list \<Rightarrow> bool" where
  "all_read es \<equiv> \<forall>e\<in>set es. reads e \<and> printable e"

lemma elements_read:
  assumes "es \<noteq> []" and "all_read es" and "spells (sep (P 44) (map lexemes es)) ts" and "text_of c = [93]"
  shows "parses (ElementsLoop acc) (ts @ c # rest) (ArrayExpression (acc @ es)) rest"
  using assms(1,2,3)
proof (induction es arbitrary: acc ts rule: induct_list012)
  case (2 e)
  then have s: "spells (lexemes e) ts" "reads e" "printable e" by simp_all
  have "parses Expression (ts @ c # rest) e (c # rest)"
    using reads_Expression s by (simp add: closed_def assms(4))
  then show ?case
    using parses_Elements_last unary_freeD [OF spelled_start [OF s(3,1)]] assms(4) by (simp add: js_codes)
next
  case (3 e e' es)
  then obtain us t vs where ts: "ts = us @ t # vs" "spells (lexemes e) us" "text_of t = [44]"
    "spells (sep (P 44) (map lexemes (e' # es))) vs"
    by (auto simp: P_def)
  have e: "reads e" "printable e" using "3.prems" by simp_all
  have "parses Expression (us @ t # vs @ c # rest) e (t # vs @ c # rest)"
    using reads_Expression [OF e ts(2)] by (simp add: closed_def ts(3))
  moreover have "parses (ElementsLoop (acc @ [e])) (vs @ c # rest) (ArrayExpression ((acc @ [e]) @ e' # es)) rest"
    using "3.IH"(2) [of vs "acc @ [e]"] "3.prems" ts(4) by simp
  ultimately show ?case
    using parses_Elements unary_freeD [OF spelled_start [OF e(2) ts(2)]] ts(1,3) by (simp add: js_codes)
qed simp

lemma arguments_read:
  assumes "es \<noteq> []" and "all_read es" and "spells (sep (P 44) (map lexemes es)) ts" and "text_of c = [41]"
    and "parses (PostfixLoop (CallExpression p (acc @ es) False)) rest v r"
  shows "parses (ArgumentsLoop p acc) (ts @ c # rest) v r"
  using assms(1,2,3,5)
proof (induction es arbitrary: acc ts rule: induct_list012)
  case (2 e)
  then have "parses Expression (ts @ c # rest) e (c # rest)"
    using reads_Expression [of e ts "c # rest"] by (simp add: closed_def assms(4))
  with 2 show ?case using parses_Arguments_end assms(4) by (simp add: js_codes)
next
  case (3 e e' es)
  then obtain us t vs where ts: "ts = us @ t # vs" "spells (lexemes e) us" "text_of t = [44]"
    "spells (sep (P 44) (map lexemes (e' # es))) vs"
    by (auto simp: P_def)
  have e: "reads e" "printable e" using "3.prems" by simp_all
  have "parses Expression (us @ t # vs @ c # rest) e (t # vs @ c # rest)"
    using reads_Expression [OF e ts(2)] by (simp add: closed_def ts(3))
  moreover have "parses (ArgumentsLoop p (acc @ [e])) (vs @ c # rest) v r"
    using "3.IH"(2) [of vs "acc @ [e]"] "3.prems" ts(4) by simp
  ultimately show ?case using parses_Arguments ts(1,3) by (simp add: js_codes)
qed simp

lemma filter_args_read:
  assumes "all_read es" and "spells (concat (map (\<lambda>ls. P 58 # ls) (map lexemes es))) ts" and "text_of c = [41]"
  shows "parses (FilterArgsLoop f acc) (ts @ c # rest) (CallExpression f (acc @ es) True) (c # rest)"
  using assms(1,2)
proof (induction es arbitrary: acc ts)
  case Nil
  then show ?case using parses_FilterArgs_end assms(3) by (simp add: expect_def js_codes)
next
  case (Cons e es)
  then obtain t us vs where ts: "ts = t # us @ vs" "text_of t = [58]" "spells (lexemes e) us"
    "spells (concat (map (\<lambda>ls. P 58 # ls) (map lexemes es))) vs"
    by (auto simp: P_def)
  have cl: "closed (vs @ c # rest)"
    using ts(4) assms(3) by (cases es) (auto simp: closed_def P_def)
  have "parses Expression (us @ vs @ c # rest) e (vs @ c # rest)"
    using reads_Expression [OF _ _ ts(3) cl] Cons.prems by simp
  moreover have "parses (FilterArgsLoop f (acc @ [e])) (vs @ c # rest) (CallExpression f ((acc @ [e]) @ es) True) (c # rest)"
    using Cons.IH [of vs "acc @ [e]"] Cons.prems ts(4) by simp
  ultimately show ?case using parses_FilterArgs ts(1,2) by (simp add: js_codes)
qed

lemma key_read:
  assumes "key_ok k" and "spells (ident_lexemes k) us"
  shows "\<exists>t. us = [t] \<and> reads_key t k \<and> text_of t \<noteq> [125]"
proof (cases k)
  case (Identifier x)
  then show ?thesis using assms ident_text [of x] by (auto simp: reads_key_def)
next
  case (Literal l)
  show ?thesis
  proof (cases l)
    case (LitNum n)
    then obtain q where q: "n = Fin q" "0 \<le> q" "of_int \<lfloor>q\<rfloor> = q" using assms(1) Literal by (cases n) auto
    then have "(of_nat (nat \<lfloor>q\<rfloor>) :: rat) = q" by simp
    moreover obtain c cs where "js (show_nat (nat \<lfloor>q\<rfloor>)) = c # cs" "isNumber (Some c)" using number_text by blast
    ultimately show ?thesis
      using assms(2) Literal LitNum q(1) by (auto simp: reads_key_def token_literal_def isNumber_def)
  next
    case (LitStr v)
    then show ?thesis using assms(2) Literal by (auto simp: reads_key_def token_literal_def quote_def)
  qed (use assms(1) Literal in simp_all)
qed (use assms(1) in simp_all)

lemma properties_read:
  assumes "ps \<noteq> []" and "\<forall>(k, e)\<in>set ps. key_ok k \<and> reads e \<and> printable e"
    and "spells (sep (P 44) (map (\<lambda>(k, v). ident_lexemes k @ P 58 # lexemes v) ps)) ts" and "text_of c = [125]"
  shows "parses (PropertiesLoop acc) (ts @ c # rest) (ObjectExpression (acc @ ps)) rest"
  using assms(1,2,3)
proof (induction ps arbitrary: acc ts rule: induct_list012)
  case (2 ke)
  obtain k e where ke: "ke = (k, e)" by force
  then obtain us d vs where ts: "ts = us @ d # vs" "spells (ident_lexemes k) us" "text_of d = [58]" "spells (lexemes e) vs"
    using "2.prems"(3) by (auto simp: P_def)
  have e: "key_ok k" "reads e" "printable e" using "2.prems" ke by simp_all
  obtain t where t: "us = [t]" "reads_key t k" "text_of t \<noteq> [125]" using key_read [OF e(1) ts(2)] by blast
  have "parses Expression (vs @ c # rest) e (c # rest)"
    using reads_Expression [OF e(2,3) ts(4)] by (simp add: closed_def assms(4))
  then show ?case using parses_Properties_last [OF _ t(2)] t(1,3) ts(1,3) assms(4) ke by (simp add: js_codes)
next
  case (3 ke ke' ps)
  obtain k e where ke: "ke = (k, e)" by force
  then obtain us d vs u ws where ts: "ts = us @ d # vs @ u # ws" "spells (ident_lexemes k) us" "text_of d = [58]"
    "spells (lexemes e) vs" "text_of u = [44]"
    "spells (sep (P 44) (map (\<lambda>(k, v). ident_lexemes k @ P 58 # lexemes v) (ke' # ps))) ws"
    using "3.prems"(3) by (auto simp: P_def)
  have e: "key_ok k" "reads e" "printable e" using "3.prems" ke by simp_all
  obtain t where t: "us = [t]" "reads_key t k" "text_of t \<noteq> [125]" using key_read [OF e(1) ts(2)] by blast
  have "parses Expression (vs @ u # ws @ c # rest) e (u # ws @ c # rest)"
    using reads_Expression [OF e(2,3) ts(4)] by (simp add: closed_def ts(5))
  moreover have "parses (PropertiesLoop (acc @ [(k, e)])) (ws @ c # rest) (ObjectExpression ((acc @ [(k, e)]) @ ke' # ps)) rest"
    using "3.IH"(2) [of ws "acc @ [(k, e)]"] "3.prems" ts(6) by simp
  ultimately show ?case
    using parses_Properties [OF _ t(2)] t(1,3) ts(1,3,5) ke by (simp add: js_codes)
qed simp

lemma parses_primary_of_start:
  "primary_start (parse 0) (t # us) = ret p r \<Longrightarrow> parses (PostfixLoop p) r v s \<Longrightarrow> parses Primary (t # us) v s"
  unfolding ret_def by (rule parses_Primary)

lemma literal_reads:
  assumes "literal_ok l" and "spells (literal_lexemes l) ts" and "parses (PostfixLoop (Literal l)) rest v r"
  shows "parses Primary (ts @ rest) v r"
proof -
  obtain t where t: "ts = [t]" "text_of t = spell (hd (literal_lexemes l))" "kind t = lexeme_kind (hd (literal_lexemes l))"
    using assms(1,2) by (cases l rule: literal_lexemes.cases) auto
  have kw: "selfReferential (js ''true'') = None" "literals (js ''true'') = Some (LitBool True)"
    "selfReferential (js ''false'') = None" "literals (js ''false'') = Some (LitBool False)"
    "selfReferential (js ''null'') = None" "literals (js ''null'') = Some LitNull"
    "selfReferential (js ''undefined'') = None" "literals (js ''undefined'') = Some LitUndefined"
    by (simp_all add: selfReferential_def literals_def js_def)
  have "primary_start (parse 0) (t # rest) = ret (Literal l) rest"
  proof (cases l)
    case (LitNum n)
    then obtain q where q: "n = Fin q" "0 \<le> q" "of_int \<lfloor>q\<rfloor> = q" using assms(1) by (cases n) auto
    then have "(of_nat (nat \<lfloor>q\<rfloor>) :: rat) = q" by simp
    moreover obtain c cs where "js (show_nat (nat \<lfloor>q\<rfloor>)) = c # cs" "isNumber (Some c)" using number_text by blast
    ultimately show ?thesis
      using primary_constant [of t "NumValue n" c cs "parse 0" rest] t LitNum q(1)
      by (simp add: token_literal_def)
  next
    case (LitStr s)
    then show ?thesis
      using primary_constant [of t "StrValue s" 39 _ "parse 0" rest] t by (simp add: token_literal_def quote_def)
  next
    case (LitBool b)
    then show ?thesis using primary_name [of t "parse 0" rest] t keyword_idents kw by (cases b) simp_all
  next
    case LitNull
    then show ?thesis using primary_name [of t "parse 0" rest] t keyword_idents kw by simp
  next
    case LitUndefined
    then show ?thesis using primary_name [of t "parse 0" rest] t keyword_idents kw by simp
  qed
  then show ?thesis using parses_primary_of_start assms(3) t(1) by simp
qed

lemma name_reads:
  assumes "ident_ok x" and "spells [LIdent x] ts" and "parses (PostfixLoop e) rest v r"
    and "\<And>us. (case selfReferential x of Some a \<Rightarrow> ret a us
     | None \<Rightarrow> (case literals x of Some l \<Rightarrow> ret (Literal l) us | None \<Rightarrow> ret (Identifier x) us)) = ret e us"
  shows "parses Primary (ts @ rest) v r"
proof -
  obtain t where t: "ts = [t]" "text_of t = x" "kind t = Ident" using assms(2) by auto
  then have "ident_ok (text_of t)" using assms(1) by simp
  from primary_name [OF t(3) this, unfolded t(2)] have "primary_start (parse 0) (t # rest) = ret e rest"
    unfolding assms(4) .
  then show ?thesis using parses_primary_of_start assms(3) t(1) by simp
qed

lemma binary_parens:
  assumes "reads a" "printable a" "reads b" "printable b" and "op \<in> set (level_ops L)"
    and "spells (P 40 # lexemes a @ LOp op # lexemes b @ [P 41]) ts"
    and "parses (PostfixLoop (binary_node L op a b)) rest v r"
  shows "parses Primary (ts @ rest) v r"
proof -
  obtain t ta u tb c where ts: "ts = t # ta @ u # tb @ [c]" "text_of t = [40]" "spells (lexemes a) ta" "text_of u = op"
    "spells (lexemes b) tb" "text_of c = [41]"
    using assms(6) by (auto simp: P_def)
  have "parses FilterChain (ta @ u # tb @ c # rest) (binary_node L op a b) (c # rest)"
    by (rule binary_reads [OF assms(1-5) ts(3,4,5,6)])
  from parses_parens [OF ts(2) this ts(6) assms(7)] ts(1) show ?thesis by simp
qed

lemma paren_reads:
  assumes "spells (P 40 # ls @ [P 41]) ts"
    and "\<And>us c. spells ls us \<Longrightarrow> text_of c = [41] \<Longrightarrow> parses FilterChain (us @ c # rest) e (c # rest)"
    and "parses (PostfixLoop e) rest v r"
  shows "parses Primary (ts @ rest) v r"
proof -
  obtain t us c where ts: "ts = t # us @ [c]" "text_of t = [40]" "spells ls us" "text_of c = [41]"
    using assms(1) by (auto simp: P_def)
  from parses_parens [OF ts(2) assms(2) [OF ts(3,4)] ts(4) assms(3)] ts(1) show ?thesis by simp
qed

lemma conditional_reads:
  assumes "reads a" "printable a" "reads b" "printable b" "reads c" "printable c"
    and "spells (lexemes a @ P 63 # lexemes b @ P 58 # lexemes c) us" and "text_of d = [41]"
  shows "parses FilterChain (us @ d # rest) (ConditionalExpression a b c) (d # rest)"
proof -
  obtain ta q tb w tc where us: "us = ta @ q # tb @ w # tc" "spells (lexemes a) ta" "text_of q = [63]"
    "spells (lexemes b) tb" "text_of w = [58]" "spells (lexemes c) tc"
    using assms(7) by (auto simp: P_def)
  have stop: "expect (level_ops l) (q # xs) = None" "expect (map js [''('', ''['', ''.'']) (q # xs) = None" for l xs
    using us(3) by (cases l; simp add: expect_def level_ops_codes js_codes)+
  have "parses (operand LogicalOR) (ta @ q # tb @ w # tc @ d # rest) a (q # tb @ w # tc @ d # rest)"
    using reads_operand [OF assms(1,2) us(2) stop(2)] stop(1) by blast
  then have "parses (Binary LogicalOR) (ta @ q # tb @ w # tc @ d # rest) a (q # tb @ w # tc @ d # rest)"
    using parses_up stop(1) by blast
  moreover have "parses Expression (tb @ w # tc @ d # rest) b (w # tc @ d # rest)"
    using reads_Expression [OF assms(3,4) us(4)] by (simp add: closed_def us(5))
  moreover have "parses Expression (tc @ d # rest) c (d # rest)"
    using reads_Expression [OF assms(5,6) us(6)] by (simp add: closed_def assms(8))
  ultimately have "parses Ternary (us @ d # rest) (ConditionalExpression a b c) (d # rest)"
    using parses_Ternary us(1,3,5) by (simp add: js_codes)
  then show ?thesis
    using assms(8) by (intro parses_Expression_FilterChain parses_Expression parses_Assignment_plain)
      (simp_all add: expect_def js_codes)
qed

lemma assignment_reads:
  assumes "reads a" "printable a" "reads b" "printable b"
    and "spells (lexemes a @ LOp (js ''='') # lexemes b) us" and "text_of d = [41]"
  shows "parses FilterChain (us @ d # rest) (AssignmentExpression a b) (d # rest)"
proof -
  obtain ta q tb where us: "us = ta @ q # tb" "spells (lexemes a) ta" "text_of q = [61]" "spells (lexemes b) tb"
    using assms(5) by (auto simp: js_codes)
  have stop: "expect (level_ops l) (q # xs) = None" "expect (map js [''('', ''['', ''.'']) (q # xs) = None"
    "expect [js ''?''] (q # xs) = None" for l xs
    using us(3) by (cases l; simp add: expect_def level_ops_codes js_codes)+
  have "parses (operand LogicalOR) (ta @ q # tb @ d # rest) a (q # tb @ d # rest)"
    using reads_operand [OF assms(1,2) us(2) stop(2)] stop(1) by blast
  then have "parses Ternary (ta @ q # tb @ d # rest) a (q # tb @ d # rest)"
    using parses_up stop parses_Ternary_plain by blast
  moreover have "parses Expression (tb @ d # rest) b (d # rest)"
    using reads_Expression [OF assms(3,4) us(4)] by (simp add: closed_def assms(6))
  then have "parses Assignment (tb @ d # rest) b (d # rest)"
    unfolding parses_def [of Expression] by (metis parses_def parse.simps option.distinct(1) old.nat.exhaust productions.simps(5))
  ultimately have "parses Assignment (us @ d # rest) (AssignmentExpression a b) (d # rest)"
    using parses_Assignment us(1,3) by (simp add: js_codes)
  then show ?thesis
    using assms(6) by (intro parses_Expression_FilterChain parses_Expression) (simp_all add: expect_def js_codes)
qed

lemma filter_reads:
  assumes "reads a" "printable a" "all_read as" "name_ok f"
    and "spells (sep (P 58) ((lexemes a @ LOp (js ''|'') # ident_lexemes f) # map lexemes as)) us" and "text_of d = [41]"
  shows "parses FilterChain (us @ d # rest) (CallExpression f (a # as) True) (d # rest)"
proof -
  obtain x where f: "f = Identifier x" using assms(4) by (cases f) auto
  obtain ta q n ts where us: "us = ta @ q # n # ts" "spells (lexemes a) ta" "text_of q = [124]" "text_of n = x" "kind n = Ident"
    "spells (concat (map (\<lambda>ls. P 58 # ls) (map lexemes as))) ts"
    using assms(5) by (auto simp: sep_def js_codes f)
  have "parses Expression (ta @ q # n # ts @ d # rest) a (q # n # ts @ d # rest)"
    using reads_Expression [OF assms(1,2) us(2)] by (simp add: closed_def us(3))
  moreover have "parses (FilterLoop a) (q # n # ts @ d # rest) (CallExpression f (a # as) True) (d # rest)"
  proof (rule parses_FilterLoop)
    show "text_of q = js ''|''" using us(3) by (simp add: js_codes)
    have "parses (FilterArgsLoop f [a]) (ts @ d # rest) (CallExpression f ([a] @ as) True) (d # rest)"
      by (rule filter_args_read [OF assms(3) us(6) assms(6)])
    then show "parses (Filter a) (n # ts @ d # rest) (CallExpression f (a # as) True) (d # rest)"
      using parses_Filter us(4,5) f by simp
    show "parses (FilterLoop (CallExpression f (a # as) True)) (d # rest) (CallExpression f (a # as) True) (d # rest)"
      by (rule parses_FilterLoop_end) (simp add: expect_def js_codes assms(6))
  qed
  ultimately show ?thesis using parses_FilterChain us(1) by simp
qed

lemma unary_reads:
  assumes "reads a" "printable a" "op \<in> set (map js [''+'', ''-'', ''!''])"
    and "spells (LOp op # lexemes a) us" and "text_of d = [41]"
  shows "parses FilterChain (us @ d # rest) (UnaryExpression op a) (d # rest)"
proof -
  obtain q ts where us: "us = q # ts" "text_of q = op" "spells (lexemes a) ts" using assms(4) by auto
  have cl: "closed (d # rest)" by (simp add: closed_def assms(5))
  have "parses Unary (ts @ d # rest) a (d # rest)"
    using reads_Unary [OF assms(1,2) us(3)] closed_stops(4) [OF cl] by blast
  then have "parses Unary (us @ d # rest) (UnaryExpression op a) (d # rest)"
    using parses_Unary [of q "ts @ d # rest"] us(1,2) assms(3) by simp
  then show ?thesis
    using parses_Unary_Expression [OF _ cl] parses_Expression_FilterChain by (simp add: expect_def js_codes assms(5))
qed

lemma binary_level:
  assumes "op \<in> set binary_ops"
  shows "\<exists>L. op \<in> set (level_ops L) \<and> (\<forall>a b. binary_node L op a b = BinaryExpression op a b)"
  using assms unfolding binary_ops_def set_append Un_iff
  by (elim disjE) (rule exI, rule conjI, assumption, simp add: binary_node_def)+

lemma logical_level:
  assumes "op \<in> set (level_ops LogicalOR @ level_ops LogicalAND)"
  shows "\<exists>L. op \<in> set (level_ops L) \<and> (\<forall>a b. binary_node L op a b = LogicalExpression op a b)"
  using assms unfolding set_append Un_iff
  by (elim disjE) (rule exI, rule conjI, assumption, simp add: binary_node_def)+

lemma call_reads:
  assumes "reads f" "all_read args" and "spells (lexemes f @ P 40 # sep (P 44) (map lexemes args) @ [P 41]) ts"
    and "parses (PostfixLoop (CallExpression f args False)) rest v r"
  shows "parses Primary (ts @ rest) v r"
proof -
  obtain tf t ta c where ts: "ts = tf @ t # ta @ [c]" "spells (lexemes f) tf" "text_of t = [40]"
    "spells (sep (P 44) (map lexemes args)) ta" "text_of c = [41]"
    using assms(3) by (auto simp: P_def)
  have "parses (PostfixLoop f) (t # ta @ c # rest) v r"
  proof (cases args)
    case Nil
    then show ?thesis using parses_call_empty ts assms(4) by (simp add: js_codes)
  next
    case (Cons a as)
    then have "parses (ArgumentsLoop f []) (ta @ c # rest) v r"
      using arguments_read [OF _ assms(2) ts(4,5), of f "[]"] assms(4) by simp
    moreover obtain ta1 ta2 where "ta = ta1 @ ta2" "spells (lexemes a) ta1"
      using ts(4) Cons by (cases as) auto
    then have "ta @ c # rest \<noteq> [] \<and> text_of (hd (ta @ c # rest)) \<noteq> js '')''"
      using unary_freeD [OF spelled_start [of a ta1 "ta2 @ c # rest"]] assms(2) Cons by (simp add: js_codes)
    ultimately show ?thesis using parses_call ts(3) by (simp add: js_codes)
  qed
  with assms(1) ts(1,2) show ?thesis by (simp add: reads_def)
qed

lemma index_reads:
  assumes "reads ob" "reads p" "printable p" and "spells (lexemes ob @ P 91 # lexemes p @ [P 93]) ts"
    and "parses (PostfixLoop (MemberExpression ob p True)) rest v r"
  shows "parses Primary (ts @ rest) v r"
proof -
  obtain tf t ta c where ts: "ts = tf @ t # ta @ [c]" "spells (lexemes ob) tf" "text_of t = [91]"
    "spells (lexemes p) ta" "text_of c = [93]"
    using assms(4) by (auto simp: P_def)
  have "parses Expression (ta @ c # rest) p (c # rest)"
    using reads_Expression [OF assms(2,3) ts(4)] by (simp add: closed_def ts(5))
  then have "parses (PostfixLoop ob) (t # ta @ c # rest) v r"
    using parses_index ts(3,5) assms(5) by (simp add: js_codes)
  with assms(1) ts(1,2) show ?thesis by (simp add: reads_def)
qed

lemma dot_reads:
  assumes "reads ob" "name_ok p" and "spells (lexemes ob @ P 46 # ident_lexemes p) ts"
    and "parses (PostfixLoop (MemberExpression ob p False)) rest v r"
  shows "parses Primary (ts @ rest) v r"
proof -
  obtain x where p: "p = Identifier x" using assms(2) by (cases p) auto
  obtain tf t u where ts: "ts = tf @ [t, u]" "spells (lexemes ob) tf" "text_of t = [46]" "text_of u = x" "kind u = Ident"
    using assms(3) by (auto simp: P_def p)
  have "parses (PostfixLoop ob) (t # u # rest) v r"
    using parses_dot ts(3,4,5) assms(4) p by (simp add: js_codes)
  with assms(1) ts(1,2) show ?thesis by (simp add: reads_def)
qed

lemma array_reads:
  assumes "all_read es" and "spells (P 91 # sep (P 44) (map lexemes es) @ [P 93]) ts"
    and "parses (PostfixLoop (ArrayExpression es)) rest v r"
  shows "parses Primary (ts @ rest) v r"
proof -
  obtain t ta c where ts: "ts = t # ta @ [c]" "text_of t = [91]" "spells (sep (P 44) (map lexemes es)) ta" "text_of c = [93]"
    using assms(2) by (auto simp: P_def)
  have "parses (ElementsLoop []) (ta @ c # rest) (ArrayExpression es) rest"
    using elements_read [OF _ assms(1) ts(3,4), of "[]" rest] parses_Elements_end ts(3,4)
    by (cases es) (simp_all add: js_codes)
  then obtain k where k: "parse k (ElementsLoop []) (ta @ c # rest) = Some (Inr (ArrayExpression es, rest))"
    using parses_one by blast
  then have "parse (Suc k) ArrayDeclaration (ta @ c # rest) = Some (Inr (ArrayExpression es, rest))"
    by (simp add: arrayDeclaration_def)
  then have "primary_start (parse (Suc k)) (t # ta @ c # rest) = Some (Inr (ArrayExpression es, rest))"
    by (simp only: primary_start_def ts(2) js_codes list.case) simp
  from parses_Primary [OF this assms(3)] ts(1) show ?thesis by simp
qed

lemma object_reads:
  assumes "\<forall>(k, e)\<in>set ps. key_ok k \<and> reads e \<and> printable e"
    and "spells (P 123 # sep (P 44) (map (\<lambda>(k, v). ident_lexemes k @ P 58 # lexemes v) ps) @ [P 125]) ts"
    and "parses (PostfixLoop (ObjectExpression ps)) rest v r"
  shows "parses Primary (ts @ rest) v r"
proof -
  obtain t ta c where ts: "ts = t # ta @ [c]" "text_of t = [123]"
    "spells (sep (P 44) (map (\<lambda>(k, v). ident_lexemes k @ P 58 # lexemes v) ps)) ta" "text_of c = [125]"
    using assms(2) by (auto simp: P_def)
  have "parses (PropertiesLoop []) (ta @ c # rest) (ObjectExpression ps) rest"
    using properties_read [OF _ assms(1) ts(3,4), of "[]" rest] parses_Properties_end ts(3,4)
    by (cases ps) (simp_all add: js_codes)
  then obtain k where k: "parse k (PropertiesLoop []) (ta @ c # rest) = Some (Inr (ObjectExpression ps, rest))"
    using parses_one by blast
  then have "parse (Suc k) Object (ta @ c # rest) = Some (Inr (ObjectExpression ps, rest))"
    by (simp add: object_def)
  then have "primary_start (parse (Suc k)) (t # ta @ c # rest) = Some (Inr (ObjectExpression ps, rest))"
    by (simp only: primary_start_def ts(2) js_codes list.case) simp
  from parses_Primary [OF this assms(3)] ts(1) show ?thesis by simp
qed

lemma readsI:
  "(\<And>ts rest v r. spells (lexemes e) ts \<Longrightarrow> parses (PostfixLoop e) rest v r \<Longrightarrow> parses Primary (ts @ rest) v r) \<Longrightarrow> reads e"
  by (simp add: reads_def)

lemma paren_readsI:
  assumes "lexemes e = P 40 # ls @ [P 41]"
    and "\<And>us c rest. spells ls us \<Longrightarrow> text_of c = [41] \<Longrightarrow> parses FilterChain (us @ c # rest) e (c # rest)"
  shows "reads e"
  by (rule readsI, rule paren_reads [of ls]) (simp_all only: assms)

lemma reads_all: "printable e \<Longrightarrow> reads e"
proof (induction e)
  case (Literal l)
  then show ?case by (intro readsI literal_reads) simp_all
next
  case (Identifier x)
  then show ?case by (intro readsI name_reads [of x _ "Identifier x"]) simp_all
next
  case ThisExpression
  have "selfReferential (js ''this'') = Some ThisExpression" by (simp add: selfReferential_def)
  then show ?case by (intro readsI name_reads [OF keyword_idents(1), of _ ThisExpression]) simp_all
next
  case LocalsExpression
  have "selfReferential (js ''$locals'') = Some LocalsExpression" by (simp add: selfReferential_def js_def)
  then show ?case by (intro readsI name_reads [OF keyword_idents(2), of _ LocalsExpression]) simp_all
next
  case (UnaryExpression op a)
  then have "reads a" "printable a" "op \<in> set (map js [''+'', ''-'', ''!''])" by simp_all
  from unary_reads [OF this] show ?case by (rule paren_readsI [of _ "LOp op # lexemes a", rotated]) simp_all
next
  case (BinaryExpression op a b)
  then obtain L where L: "op \<in> set (level_ops L)" "binary_node L op a b = BinaryExpression op a b"
    using binary_level by (metis printable.simps(6))
  have "reads a" "printable a" "reads b" "printable b" using BinaryExpression by simp_all
  from binary_parens [OF this L(1)] L(2) show ?case by (intro readsI) simp
next
  case (LogicalExpression op a b)
  then obtain L where L: "op \<in> set (level_ops L)" "binary_node L op a b = LogicalExpression op a b"
    using logical_level by (metis printable.simps(7))
  have "reads a" "printable a" "reads b" "printable b" using LogicalExpression by simp_all
  from binary_parens [OF this L(1)] L(2) show ?case by (intro readsI) simp
next
  case (ConditionalExpression a b c)
  then have "reads a" "printable a" "reads b" "printable b" "reads c" "printable c" by simp_all
  from conditional_reads [OF this] show ?case
    by (rule paren_readsI [of _ "lexemes a @ P 63 # lexemes b @ P 58 # lexemes c", rotated]) simp_all
next
  case (AssignmentExpression a b)
  then have "reads a" "printable a" "reads b" "printable b" by simp_all
  from assignment_reads [OF this] show ?case
    by (rule paren_readsI [of _ "lexemes a @ LOp (js ''='') # lexemes b", rotated]) simp_all
next
  case (CallExpression f args flt)
  have all: "all_read args" using CallExpression by (simp add: list_all_iff)
  show ?case
  proof (cases flt)
    case True
    then obtain a as where as: "args = a # as" "name_ok f" using CallExpression.prems by (cases args) auto
    with all have "reads a" "printable a" "all_read as" by simp_all
    from filter_reads [OF this as(2)] have "reads (CallExpression f (a # as) True)"
      by (rule paren_readsI [of _ "sep (P 58) ((lexemes a @ LOp (js ''|'') # ident_lexemes f) # map lexemes as)", rotated])
        simp_all
    then show ?thesis using as(1) True by simp
  next
    case False
    then have "reads f" using CallExpression by simp
    from call_reads [OF this all] False show ?thesis by (intro readsI) simp
  qed
next
  case (MemberExpression ob p computed)
  show ?case
  proof (cases computed)
    case True
    then have "reads ob" "reads p" "printable p" using MemberExpression by simp_all
    from index_reads [OF this] True show ?thesis by (intro readsI) simp
  next
    case False
    then have "reads ob" "name_ok p" using MemberExpression by simp_all
    from dot_reads [OF this] False show ?thesis by (intro readsI) simp
  qed
next
  case (ArrayExpression es)
  then have "all_read es" by (simp add: list_all_iff)
  from array_reads [OF this] show ?case by (intro readsI) simp
next
  case (ObjectExpression ps)
  have "\<forall>(k, e)\<in>set ps. key_ok k \<and> reads e \<and> printable e"
  proof (clarify)
    fix k e assume ke: "(k, e) \<in> set ps"
    then have "key_ok k" "printable e" using ObjectExpression.prems by (auto simp: list_all_iff)
    then show "key_ok k \<and> reads e \<and> printable e" using ObjectExpression.IH ke by (metis snds.intros snd_conv)
  qed
  from object_reads [OF this] show ?case by (intro readsI) simp
qed

section \<open>Whole programs\<close>

lemma OPERATORS_levels:
  "set (level_ops l) \<subseteq> set OPERATORS" "set (map js [''+'', ''-'', ''!'']) \<subseteq> set OPERATORS"
  "js ''='' \<in> set OPERATORS" "js ''|'' \<in> set OPERATORS"
  by (cases l) (simp_all add: OPERATORS_codes level_ops_codes js_codes)

lemma sep_lexemes_ok:
  "lexeme_ok l \<Longrightarrow> \<forall>ls\<in>set lss. list_all lexeme_ok ls \<Longrightarrow> list_all lexeme_ok (sep l lss)"
  by (induction lss rule: induct_list012) auto

lemma punct_ok: "c \<in> {40, 41, 123, 125, 91, 93, 46, 44, 59, 58, 63} \<Longrightarrow> lexeme_ok (P c)"
  by (simp add: P_def is_punct_codes)

lemma literal_lexemes_ok: "list_all lexeme_ok (literal_lexemes l)"
  using keyword_idents by (cases l rule: literal_lexemes.cases) auto

lemma ident_lexemes_ok: "name_ok f \<or> key_ok f \<Longrightarrow> list_all lexeme_ok (ident_lexemes f)"
  using literal_lexemes_ok by (cases f) auto

lemma binary_ops_ok: "op \<in> set binary_ops \<Longrightarrow> op \<in> set OPERATORS"
  using OPERATORS_levels(1) by (auto simp: binary_ops_def)

lemma lexemes_ok: "printable e \<Longrightarrow> list_all lexeme_ok (lexemes e)"
proof (induction e)
  case (Literal l)
  then show ?case using literal_lexemes_ok by simp
next
  case (UnaryExpression op a)
  then show ?case using OPERATORS_levels(2) punct_ok by auto
next
  case (BinaryExpression op a b)
  then show ?case using binary_ops_ok punct_ok by simp
next
  case (LogicalExpression op a b)
  then show ?case using OPERATORS_levels(1) punct_ok by auto
next
  case (AssignmentExpression a b)
  then show ?case using OPERATORS_levels(3) punct_ok by simp
next
  case (CallExpression f args flt)
  then have all: "\<forall>e\<in>set args. list_all lexeme_ok (lexemes e)" by (simp add: list_all_iff)
  show ?case
  proof (cases flt)
    case True
    then obtain a as where "args = a # as" using CallExpression.prems by (cases args) auto
    then show ?thesis
      using all True CallExpression.prems OPERATORS_levels(4) punct_ok ident_lexemes_ok by (auto intro!: sep_lexemes_ok)
  next
    case False
    then show ?thesis using all CallExpression punct_ok by (auto intro!: sep_lexemes_ok)
  qed
next
  case (MemberExpression ob p computed)
  then show ?case using punct_ok ident_lexemes_ok by (cases computed) simp_all
next
  case (ArrayExpression es)
  then have "\<forall>e\<in>set es. list_all lexeme_ok (lexemes e)" by (simp add: list_all_iff)
  then show ?case using punct_ok by (auto intro!: sep_lexemes_ok)
next
  case (ObjectExpression ps)
  have "list_all lexeme_ok (ident_lexemes k @ P 58 # lexemes v)" if "(k, v) \<in> set ps" for k v
  proof -
    have "key_ok k" "printable v" using that ObjectExpression.prems by (auto simp: list_all_iff)
    moreover have "v \<in> Basic_BNFs.snds (k, v)" by simp
    then have "printable v \<Longrightarrow> list_all lexeme_ok (lexemes v)" using ObjectExpression.IH that by blast
    ultimately show ?thesis using punct_ok ident_lexemes_ok by simp
  qed
  then show ?case using punct_ok by (auto intro!: sep_lexemes_ok)
qed (use punct_ok keyword_idents in simp_all)

definition print_program :: "ast list \<Rightarrow> jstring" where
  "print_program es = print_lexemes (sep (P 59) (map lexemes es))"

lemma parse_enough:
  assumes "parses n ts v r" and "demand n ts < k" shows "parse k n ts = Some (Inr (v, r))"
proof -
  obtain j where j: "parse j n ts = Some (Inr (v, r))" using parses_one [OF assms(1)] .
  obtain z where z: "parse k n ts = Some z" using parse_terminates [OF assms(2)] by blast
  have "parse (max j k) n ts = Some (Inr (v, r))" "parse (max j k) n ts = Some z"
    using parse_more j z by (meson max.cobounded1 max.cobounded2)+
  with z show ?thesis by simp
qed

lemma statement_read:
  assumes "printable e" and "spells (lexemes e) ts" and "rest = [] \<or> text_of (hd rest) = [59]"
    and "16 * length (ts @ rest) + 14 < k"
  shows "parse k FilterChain (ts @ rest) = Some (Inr (e, rest))"
proof (rule parse_enough)
  have "closed rest" "expect [js ''|''] rest = None"
    using assms(3) by (cases rest; auto simp: closed_def expect_def js_codes)+
  then show "parses FilterChain (ts @ rest) e rest"
    using reads_Expression [OF reads_all [OF assms(1)] assms(1,2)] parses_Expression_FilterChain by blast
  show "demand FilterChain (ts @ rest) < k" using assms(4) by (simp add: demand_def)
qed

lemma statement_start: "unary_free ts \<Longrightarrow> ts \<noteq> [] \<and> \<not> peek_is (map js [''}'', '')'', '';'', '']'']) ts"
  by (cases ts) (auto simp: unary_free_def peek_is_def js_codes)

lemma program_reads:
  assumes "list_all printable es" and "spells (sep (P 59) (map lexemes es)) ts" and "16 * length ts + 14 < k"
    and "length ts < n"
  shows "program_loop n k body ts = Some (Inr (body @ es, []))"
  using assms
proof (induction es arbitrary: ts body n rule: induct_list012)
  case 1
  then show ?case by (cases n) (simp_all add: expect_def ret_def)
next
  case (2 e)
  then obtain m where n: "n = Suc m" by (cases n) auto
  have s: "spells (lexemes e) ts" "printable e" using 2 by simp_all
  have p: "parse k FilterChain ts = Some (Inr (e, []))"
    using statement_read [OF s(2,1), of "[]" k] "2.prems"(3) by simp
  have "ts \<noteq> [] \<and> \<not> peek_is (map js [''}'', '')'', '';'', '']'']) ts"
    using statement_start [OF spelled_start [OF s(2,1), of "[]"]] by simp
  then show ?case using p by (simp add: n expect_def del: list.map) (simp add: ret_def)
next
  case (3 e e' es)
  then obtain m where n: "n = Suc m" by (cases n) auto
  obtain us t vs where ts: "ts = us @ t # vs" "spells (lexemes e) us" "text_of t = [59]"
    "spells (sep (P 59) (map lexemes (e' # es))) vs"
    using "3.prems"(2) by (auto simp: P_def)
  have e: "printable e" using "3.prems" by simp
  have p: "parse k FilterChain ts = Some (Inr (e, t # vs))"
    using statement_read [OF e ts(2), of "t # vs" k] "3.prems"(3) ts(1,3) by simp
  have start: "ts \<noteq> [] \<and> \<not> peek_is (map js [''}'', '')'', '';'', '']'']) ts"
    using statement_start [OF spelled_start [OF e ts(2), of "t # vs"]] ts(1) by simp
  have "program_loop m k (body @ [e]) vs = Some (Inr ((body @ [e]) @ e' # es, []))"
    using "3.IH"(2) [of vs m "body @ [e]"] "3.prems" ts(1,4) n by simp
  then show ?case using p start ts(3) by (simp add: n expect_Cons js_codes del: list.map)
qed

section \<open>Properties\<close>

text \<open>
  C11. Round trip of the expression language: for every list of printable expressions, lexing and parsing
  the printed text gives back exactly those syntax trees, as the statements of the program.
\<close>

theorem expression_roundtrip:
  assumes "list_all printable es"
  shows "ast_of (print_program es) = Some (Inr es)"
proof -
  let ?ls = "sep (P 59) (map lexemes es)" and ?ts = "lexeme_tokens 0 (sep (P 59) (map lexemes es))"
  have "list_all lexeme_ok ?ls"
  proof (rule sep_lexemes_ok)
    show "\<forall>ls\<in>set (map lexemes es). list_all lexeme_ok ls" using assms lexemes_ok by (auto simp: list_all_iff)
  qed (simp add: punct_ok)
  then have lexed: "lex (print_program es) = Inr ?ts"
    unfolding lex_def print_program_def by (rule lex_printed)
  have "program_loop (Suc (length ?ts)) (parse_fuel ?ts) [] ?ts = Some (Inr ([] @ es, []))"
    by (rule program_reads [OF assms spells_lexeme_tokens]) (simp_all add: parse_fuel_def)
  then show ?thesis by (simp add: ast_of_def lexed ast_of_tokens_def program_def)
qed

definition demo_expression :: ast where
  "demo_expression = AssignmentExpression (MemberExpression (Identifier (js ''link'')) (Identifier (js ''open'')) False)
     (UnaryExpression (js ''!'') (BinaryExpression (js ''=='') (Identifier (js ''status'')) (Literal (LitStr (js ''online'')))))"

theorem expression_roundtrip_witness:
  "ast_of (print_program [demo_expression]) = Some (Inr [demo_expression])"
proof (rule expression_roundtrip)
  have "js ''!'' \<in> set (map js [''+'', ''-'', ''!''])" "js ''=='' \<in> set binary_ops"
    by (simp_all add: binary_ops_def level_ops_def)
  then show "list_all printable [demo_expression]"
    by (simp add: demo_expression_def ident_ok_def isIdent_def selfReferential_def literals_def js_def)
qed

text \<open>The tokens of a text have strictly increasing positions within the text.\<close>

lemma token_positions:
  assumes "lex s = Inr ts"
  shows "sorted_wrt (<) (map index ts) \<and> (\<forall>t\<in>set ts. index t < length s)"
  using lex_from_positions [of 0 s ts] assms by (simp add: lex_def)

text \<open>
  C12. Parsing always ends: on every text the parser returns a program or an error, the fuel the model
  gives it being enough whatever the tokens are.
\<close>

theorem parsing_terminates: "\<exists>r. ast_of txt = Some r"
proof (cases "lex txt")
  case (Inr ts)
  then show ?thesis using program_terminates [of ts]
    by (auto simp: ast_of_def ast_of_tokens_def split: option.splits sum.splits list.splits prod.splits)
qed (simp add: ast_of_def)

end
