(* ===== verification/JsValues.thy ===== *)
theory JsValues
  imports NgLexer
begin

text \<open>
  The part of JavaScript that Angular's expression interpreter runs on: primitive values, objects in
  a heap with their prototype chains, property access, the conversions and the operators. Numbers are
  exact: rounding to doubles and the sign of zero are left out. Accessor properties and proxies are
  left out, so reading a property has no effect. What objects do when they are converted to a
  primitive value, and the text of a number that is not a short integer, come from the engine
  \<open>engine\<close>.
\<close>

section \<open>Numbers\<close>

datatype jnumber = NotNum | PosInf | NegInf | Num rat

definition of_jnum :: "jnum \<Rightarrow> jnumber" where
  "of_jnum n = (case n of NaN \<Rightarrow> NotNum | Fin q \<Rightarrow> Num q)"

definition num_neg :: "jnumber \<Rightarrow> jnumber" where
  "num_neg a = (case a of NotNum \<Rightarrow> NotNum | PosInf \<Rightarrow> NegInf | NegInf \<Rightarrow> PosInf | Num q \<Rightarrow> Num (- q))"

fun num_add :: "jnumber \<Rightarrow> jnumber \<Rightarrow> jnumber" where
  "num_add (Num p) (Num q) = Num (p + q)"
| "num_add NotNum b = NotNum"
| "num_add a NotNum = NotNum"
| "num_add PosInf NegInf = NotNum"
| "num_add NegInf PosInf = NotNum"
| "num_add (Num p) b = b"
| "num_add a b = a"

definition num_sub :: "jnumber \<Rightarrow> jnumber \<Rightarrow> jnumber" where
  "num_sub a b = num_add a (num_neg b)"

definition num_sign :: "jnumber \<Rightarrow> int" where
  "num_sign a = (case a of NotNum \<Rightarrow> 0 | PosInf \<Rightarrow> 1 | NegInf \<Rightarrow> - 1
     | Num q \<Rightarrow> if q > 0 then 1 else if q < 0 then - 1 else 0)"

definition inf_of_sign :: "int \<Rightarrow> jnumber" where
  "inf_of_sign s = (if s > 0 then PosInf else if s < 0 then NegInf else NotNum)"

fun num_mul :: "jnumber \<Rightarrow> jnumber \<Rightarrow> jnumber" where
  "num_mul (Num p) (Num q) = Num (p * q)"
| "num_mul NotNum b = NotNum"
| "num_mul a NotNum = NotNum"
| "num_mul a b = inf_of_sign (num_sign a * num_sign b)"

fun num_div :: "jnumber \<Rightarrow> jnumber \<Rightarrow> jnumber" where
  "num_div NotNum b = NotNum"
| "num_div a NotNum = NotNum"
| "num_div (Num p) (Num q) = (if q = 0 then inf_of_sign (num_sign (Num p)) else Num (p / q))"
| "num_div (Num p) b = Num 0"
| "num_div a (Num q) = inf_of_sign (num_sign a * (if q < 0 then - 1 else 1))"
| "num_div a b = NotNum"

definition truncate :: "rat \<Rightarrow> int" where
  "truncate q = (if q \<ge> 0 then \<lfloor>q\<rfloor> else \<lceil>q\<rceil>)"

fun num_rem :: "jnumber \<Rightarrow> jnumber \<Rightarrow> jnumber" where
  "num_rem (Num p) (Num q) = (if q = 0 then NotNum else Num (p - q * of_int (truncate (p / q))))"
| "num_rem (Num p) PosInf = Num p"
| "num_rem (Num p) NegInf = Num p"
| "num_rem a b = NotNum"

fun num_less :: "jnumber \<Rightarrow> jnumber \<Rightarrow> bool option" where
  "num_less NotNum b = None"
| "num_less a NotNum = None"
| "num_less (Num p) (Num q) = Some (p < q)"
| "num_less a b = Some (a \<noteq> b \<and> (a = NegInf \<or> b = PosInf))"

definition num_eq :: "jnumber \<Rightarrow> jnumber \<Rightarrow> bool" where
  "num_eq a b \<longleftrightarrow> a \<noteq> NotNum \<and> a = b"

section \<open>Values and objects\<close>

datatype prim = Undefined | Null | Bool bool | Number jnumber | Str jstring

datatype jval = Prim prim | Obj nat

record jobj =
  own :: "jstring \<rightharpoonup> jval"
  proto :: "nat option"
  is_array :: bool

record jheap =
  objs :: "nat \<rightharpoonup> jobj"
  fresh :: nat

text \<open>The objects of the language the code names: constructors, prototypes, \<open>call\<close>, \<open>apply\<close>, \<open>bind\<close>.\<close>

record realm =
  ObjectCtor :: nat
  FunctionCtor :: nat
  ObjectProto :: nat
  ArrayProto :: nat
  StringProto :: nat
  NumberProto :: nat
  BooleanProto :: nat
  CALL :: nat
  APPLY :: nat
  BIND :: nat

datatype jerror =
  TypeError
| RangeError
| ParseError_isec string
| UnknownProvider jstring
| Thrown jval

type_synonym 'a comp = "jheap \<Rightarrow> (jerror + 'a) \<times> jheap"

definition retc :: "'a \<Rightarrow> 'a comp" where
  "retc x h = (Inr x, h)"

definition throwc :: "jerror \<Rightarrow> 'a comp" where
  "throwc err h = (Inl err, h)"

definition bindc :: "'a comp \<Rightarrow> ('a \<Rightarrow> 'b comp) \<Rightarrow> 'b comp" where
  "bindc m f h = (case m h of (Inl err, h') \<Rightarrow> (Inl err, h') | (Inr x, h') \<Rightarrow> f x h')"

definition checkc :: "(jheap \<Rightarrow> jerror option) \<Rightarrow> unit comp" where
  "checkc chk h = (case chk h of None \<Rightarrow> (Inr (), h) | Some err \<Rightarrow> (Inl err, h))"

definition readc :: "(jheap \<Rightarrow> 'a) \<Rightarrow> 'a comp" where
  "readc f h = (Inr (f h), h)"

definition undef :: jval where
  "undef = Prim Undefined"

definition nullish :: "jval \<Rightarrow> bool" where
  "nullish v \<longleftrightarrow> v = Prim Undefined \<or> v = Prim Null"

definition truthy :: "jval \<Rightarrow> bool" where
  "truthy v = (case v of Obj _ \<Rightarrow> True
     | Prim p \<Rightarrow> (case p of Undefined \<Rightarrow> False | Null \<Rightarrow> False | Bool b \<Rightarrow> b
                 | Number n \<Rightarrow> n \<noteq> NotNum \<and> n \<noteq> Num 0 | Str s \<Rightarrow> s \<noteq> []))"

section \<open>Properties\<close>

text \<open>A prototype chain is no longer than the number of objects there are, which bounds the search.\<close>

fun chain_get :: "nat \<Rightarrow> jheap \<Rightarrow> nat \<Rightarrow> jstring \<Rightarrow> jval option" where
  "chain_get 0 h a k = None"
| "chain_get (Suc n) h a k =
     (case objs h a of
        None \<Rightarrow> None
      | Some ob \<Rightarrow> (case own ob k of
                     Some v \<Rightarrow> Some v
                   | None \<Rightarrow> (case proto ob of None \<Rightarrow> None | Some b \<Rightarrow> chain_get n h b k)))"

definition obj_get :: "jheap \<Rightarrow> nat \<Rightarrow> jstring \<Rightarrow> jval option" where
  "obj_get h a k = chain_get (fresh h) h a k"

definition array_index :: "jstring \<Rightarrow> nat option" where
  "array_index k = (let n = digits_value k in if js (show_nat n) = k then Some n else None)"

definition str_own :: "jstring \<Rightarrow> jstring \<Rightarrow> jval option" where
  "str_own s k = (if k = js ''length'' then Some (Prim (Number (Num (of_nat (length s)))))
     else case array_index k of
            Some n \<Rightarrow> if n < length s then Some (Prim (Str [s ! n])) else None
          | None \<Rightarrow> None)"

text \<open>\<open>v[k]\<close>, for a value that is neither null nor undefined.\<close>

definition js_get :: "realm \<Rightarrow> jheap \<Rightarrow> jval \<Rightarrow> jstring \<Rightarrow> jval" where
  "js_get r h v k =
     (case (case v of
              Obj a \<Rightarrow> obj_get h a k
            | Prim (Str s) \<Rightarrow> (case str_own s k of Some x \<Rightarrow> Some x | None \<Rightarrow> obj_get h (StringProto r) k)
            | Prim (Number _) \<Rightarrow> obj_get h (NumberProto r) k
            | Prim (Bool _) \<Rightarrow> obj_get h (BooleanProto r) k
            | _ \<Rightarrow> None) of
        Some x \<Rightarrow> x | None \<Rightarrow> undef)"

text \<open>\<open>v[k] = x\<close> in strict mode. An array keeps its \<open>length\<close> above its indices.\<close>

definition array_length :: "jobj \<Rightarrow> nat" where
  "array_length ob = (case own ob (js ''length'') of
     Some (Prim (Number (Num q))) \<Rightarrow> nat \<lfloor>q\<rfloor> | _ \<Rightarrow> 0)"

definition js_nat :: "nat \<Rightarrow> jval" where
  "js_nat n = Prim (Number (Num (of_nat n)))"

definition put :: "jobj \<Rightarrow> jstring \<Rightarrow> jval \<Rightarrow> jobj option" where
  "put ob k x =
     (if \<not> is_array ob then Some (ob\<lparr>own := (own ob)(k \<mapsto> x)\<rparr>)
      else if k = js ''length'' then
        (case x of
           Prim (Number (Num q)) \<Rightarrow>
             if q \<ge> 0 \<and> of_int \<lfloor>q\<rfloor> = q \<and> q < 2 ^ 32
             then Some (ob\<lparr>own := (\<lambda>j. if j = k then Some x
                                        else case array_index j of
                                               Some i \<Rightarrow> if q \<le> of_nat i then None else own ob j
                                             | None \<Rightarrow> own ob j)\<rparr>)
             else None
         | _ \<Rightarrow> None)
      else case array_index k of
             Some i \<Rightarrow> Some (ob\<lparr>own := (own ob)(k \<mapsto> x, js ''length'' \<mapsto> js_nat (max (array_length ob) (Suc i)))\<rparr>)
           | None \<Rightarrow> Some (ob\<lparr>own := (own ob)(k \<mapsto> x)\<rparr>))"

definition js_set :: "jval \<Rightarrow> jstring \<Rightarrow> jval \<Rightarrow> unit comp" where
  "js_set v k x h =
     (case v of
        Prim _ \<Rightarrow> (Inl TypeError, h)
      | Obj a \<Rightarrow> (case objs h a of
                   None \<Rightarrow> (Inl TypeError, h)
                 | Some ob \<Rightarrow> (case put ob k x of
                                 None \<Rightarrow> (Inl RangeError, h)
                               | Some ob' \<Rightarrow> (Inr (), h\<lparr>objs := (objs h)(a \<mapsto> ob')\<rparr>))))"

definition new_obj :: "jobj \<Rightarrow> jval comp" where
  "new_obj ob h = (Inr (Obj (fresh h)), h\<lparr>objs := (objs h)(fresh h \<mapsto> ob), fresh := Suc (fresh h)\<rparr>)"

definition new_object :: "realm \<Rightarrow> (jstring \<rightharpoonup> jval) \<Rightarrow> jval comp" where
  "new_object r ps = new_obj \<lparr>own = ps, proto = Some (ObjectProto r), is_array = False\<rparr>"

fun elements :: "nat \<Rightarrow> jval list \<Rightarrow> jstring \<rightharpoonup> jval" where
  "elements i [] = Map.empty"
| "elements i (v # vs) = (elements (Suc i) vs)(js (show_nat i) \<mapsto> v)"

definition new_array :: "realm \<Rightarrow> jval list \<Rightarrow> jval comp" where
  "new_array r vs = new_obj \<lparr>own = (elements 0 vs)(js ''length'' \<mapsto> js_nat (length vs)),
                             proto = Some (ArrayProto r), is_array = True\<rparr>"

section \<open>Conversions\<close>

record engine =
  to_prim :: "nat \<Rightarrow> prim comp"
  num_text :: "rat \<Rightarrow> jstring"

definition to_primitive :: "engine \<Rightarrow> jval \<Rightarrow> prim comp" where
  "to_primitive en v = (case v of Prim p \<Rightarrow> retc p | Obj a \<Rightarrow> to_prim en a)"

definition js_space :: "nat \<Rightarrow> bool" where
  "js_space c \<longleftrightarrow> c \<in> {9, 10, 11, 12, 13, 32, 160, 5760, 8232, 8233, 8239, 8287, 12288, 65279} \<or> 8192 \<le> c \<and> c \<le> 8202"

definition trim :: "jstring \<Rightarrow> jstring" where
  "trim s = rev (dropWhile js_space (rev (dropWhile js_space s)))"

fun radix_value :: "nat \<Rightarrow> nat \<Rightarrow> jstring \<Rightarrow> jnumber" where
  "radix_value b acc [] = Num (of_nat acc)"
| "radix_value b acc (c # cs) =
     (case hex_digit c of None \<Rightarrow> NotNum | Some d \<Rightarrow> if d < b then radix_value b (b * acc + d) cs else NotNum)"

definition unsigned_number :: "jstring \<Rightarrow> jnumber" where
  "unsigned_number s = (if s = js ''Infinity'' then PosInf else of_jnum (js_Number (map lower s)))"

definition string_number :: "jstring \<Rightarrow> jnumber" where
  "string_number s0 =
     (let s = trim s0
      in case s of
           [] \<Rightarrow> Num 0
         | c # cs \<Rightarrow>
             if c = 45 then num_neg (unsigned_number cs) else if c = 43 then unsigned_number cs
             else if c = 48 \<and> length s > 2 \<and> lower (s ! 1) = 120 then radix_value 16 0 (drop 2 s)
             else if c = 48 \<and> length s > 2 \<and> lower (s ! 1) = 111 then radix_value 8 0 (drop 2 s)
             else if c = 48 \<and> length s > 2 \<and> lower (s ! 1) = 98 then radix_value 2 0 (drop 2 s)
             else unsigned_number s)"

fun to_number :: "prim \<Rightarrow> jnumber" where
  "to_number Undefined = NotNum"
| "to_number Null = Num 0"
| "to_number (Bool b) = Num (if b then 1 else 0)"
| "to_number (Number n) = n"
| "to_number (Str s) = string_number s"

definition number_string :: "engine \<Rightarrow> jnumber \<Rightarrow> jstring" where
  "number_string en n =
     (case n of NotNum \<Rightarrow> js ''NaN'' | PosInf \<Rightarrow> js ''Infinity'' | NegInf \<Rightarrow> js ''-Infinity''
      | Num q \<Rightarrow> if of_int \<lfloor>q\<rfloor> = q \<and> \<bar>q\<bar> < 10 ^ 21
                 then (if q < 0 then [45] else []) @ js (show_nat (nat \<bar>\<lfloor>q\<rfloor>\<bar>))
                 else num_text en q)"

fun to_string :: "engine \<Rightarrow> prim \<Rightarrow> jstring" where
  "to_string en Undefined = js ''undefined''"
| "to_string en Null = js ''null''"
| "to_string en (Bool b) = js (if b then ''true'' else ''false'')"
| "to_string en (Number n) = number_string en n"
| "to_string en (Str s) = s"

section \<open>Operators\<close>

fun is_str :: "prim \<Rightarrow> bool" where
  "is_str (Str s) = True"
| "is_str p = False"

definition js_plus :: "engine \<Rightarrow> jval \<Rightarrow> jval \<Rightarrow> jval comp" where
  "js_plus en a b = bindc (to_primitive en a) (\<lambda>p. bindc (to_primitive en b) (\<lambda>q.
     retc (Prim (if is_str p \<or> is_str q then Str (to_string en p @ to_string en q)
                 else Number (num_add (to_number p) (to_number q))))))"

definition js_arith :: "engine \<Rightarrow> (jnumber \<Rightarrow> jnumber \<Rightarrow> jnumber) \<Rightarrow> jval \<Rightarrow> jval \<Rightarrow> jval comp" where
  "js_arith en f a b = bindc (to_primitive en a) (\<lambda>p. bindc (to_primitive en b) (\<lambda>q.
     retc (Prim (Number (f (to_number p) (to_number q))))))"

fun str_less :: "jstring \<Rightarrow> jstring \<Rightarrow> bool" where
  "str_less s [] = False"
| "str_less [] (c # t) = True"
| "str_less (b # s) (c # t) = (b < c \<or> b = c \<and> str_less s t)"

fun prim_less :: "prim \<Rightarrow> prim \<Rightarrow> bool option" where
  "prim_less (Str s) (Str t) = Some (str_less s t)"
| "prim_less p q = num_less (to_number p) (to_number q)"

text \<open>\<open>a < b\<close> and \<open>a > b\<close> are \<open>prim_less\<close>; \<open>a <= b\<close> and \<open>a >= b\<close> are its negation, false when there is no order.\<close>

definition js_compare :: "engine \<Rightarrow> (prim \<Rightarrow> prim \<Rightarrow> bool) \<Rightarrow> jval \<Rightarrow> jval \<Rightarrow> jval comp" where
  "js_compare en f a b = bindc (to_primitive en a) (\<lambda>p. bindc (to_primitive en b) (\<lambda>q. retc (Prim (Bool (f p q)))))"

fun strict_eq :: "jval \<Rightarrow> jval \<Rightarrow> bool" where
  "strict_eq (Prim (Number a)) (Prim (Number b)) = num_eq a b"
| "strict_eq a b = (a = b)"

fun prim_loose_eq :: "prim \<Rightarrow> prim \<Rightarrow> bool" where
  "prim_loose_eq Undefined q = (q = Undefined \<or> q = Null)"
| "prim_loose_eq Null q = (q = Undefined \<or> q = Null)"
| "prim_loose_eq p Undefined = False"
| "prim_loose_eq p Null = False"
| "prim_loose_eq (Str s) (Str t) = (s = t)"
| "prim_loose_eq p q = num_eq (to_number p) (to_number q)"

fun loose_eq :: "engine \<Rightarrow> jval \<Rightarrow> jval \<Rightarrow> bool comp" where
  "loose_eq en (Prim p) (Prim q) = retc (prim_loose_eq p q)"
| "loose_eq en (Obj a) (Obj b) = retc (a = b)"
| "loose_eq en (Obj a) (Prim q) =
     (if q = Undefined \<or> q = Null then retc False else bindc (to_prim en a) (\<lambda>p. retc (prim_loose_eq p q)))"
| "loose_eq en (Prim p) (Obj b) =
     (if p = Undefined \<or> p = Null then retc False else bindc (to_prim en b) (\<lambda>q. retc (prim_loose_eq p q)))"

section \<open>Facts about computations\<close>

lemma bindc_retc [simp]: "bindc (retc x) f = f x"
  by (rule ext) (simp add: bindc_def retc_def)

lemma bindc_throwc [simp]: "bindc (throwc err) f = throwc err"
  by (rule ext) (simp add: bindc_def throwc_def)

lemma bindc_assoc: "bindc (bindc m f) g = bindc m (\<lambda>x. bindc (f x) g)"
  by (rule ext) (simp add: bindc_def split: prod.splits sum.splits)

lemma bindc_if: "bindc (if c then m else n) f = (if c then bindc m f else bindc n f)"
  by simp

lemma bindc_retc_right [simp]: "bindc m retc = m"
  by (rule ext) (auto simp: bindc_def retc_def split: prod.splits sum.splits)

text \<open>
  A computation that leaves the heap alone and has the same result in two heaps: an error, or a value
  with a given property.
\<close>

definition result_ok :: "('a \<Rightarrow> bool) \<Rightarrow> jerror + 'a \<Rightarrow> bool" where
  "result_ok P r = (case r of Inl _ \<Rightarrow> True | Inr v \<Rightarrow> P v)"

definition steady :: "('a \<Rightarrow> bool) \<Rightarrow> jheap \<Rightarrow> jheap \<Rightarrow> 'a comp \<Rightarrow> bool" where
  "steady P h1 h2 m \<longleftrightarrow> (\<exists>r. result_ok P r \<and> m h1 = (r, h1) \<and> m h2 = (r, h2))"

fun is_prim :: "jval \<Rightarrow> bool" where
  "is_prim (Prim p) = True"
| "is_prim (Obj a) = False"

lemma steady_retc [simp]: "steady P h1 h2 (retc v) = P v"
  by (simp add: steady_def retc_def result_ok_def)

lemma steady_throwc [simp]: "steady P h1 h2 (throwc err)"
  by (simp add: steady_def throwc_def result_ok_def)

lemma steady_bind:
  assumes "steady P h1 h2 m" and f: "\<And>v. P v \<Longrightarrow> steady Q h1 h2 (f v)"
  shows "steady Q h1 h2 (bindc m f)"
proof -
  obtain r where r: "result_ok P r" "m h1 = (r, h1)" "m h2 = (r, h2)"
    using assms(1) by (auto simp: steady_def)
  show ?thesis
  proof (cases r)
    case (Inl err)
    with r show ?thesis by (simp add: steady_def bindc_def result_ok_def)
  next
    case (Inr v)
    with r(1) f obtain r' where "result_ok Q r'" "f v h1 = (r', h1)" "f v h2 = (r', h2)"
      by (auto simp: steady_def result_ok_def)
    with r Inr show ?thesis by (simp add: steady_def bindc_def)
  qed
qed

lemma is_prim_cases: "is_prim v \<longleftrightarrow> (\<exists>p. v = Prim p)"
  by (cases v) auto

lemma steady_ops [simp]:
  assumes "is_prim x" "is_prim y"
  shows "steady is_prim h1 h2 (js_plus en x y)" "steady is_prim h1 h2 (js_arith en f x y)"
    "steady is_prim h1 h2 (js_compare en c x y)" "steady (\<lambda>_. True) h1 h2 (loose_eq en x y)"
  using assms by (auto simp: is_prim_cases js_plus_def js_arith_def js_compare_def to_primitive_def)

end
