(* ===== verification/NgInterp.thy ===== *)
theory NgInterp
  imports NgParser JsValues
begin

text \<open>
  The interpreter of Angular's expressions: \<open>ASTInterpreter\<close>, \<open>findConstantAndWatchExpressions\<close> and
  the security checks of \<open>assets/public/components/angular/angular.js\<close>. \<open>recurse\<close> turns a node into
  a closure; here \<open>recurse\<close> is applied to the closure's arguments, which are in the record \<open>env\<close>, and
  the errors \<open>recurse\<close> itself throws are collected by \<open>recurse_error\<close>. The functions an expression
  can call, the filters, and the conversion of objects belong to the caller: they are fields of
  \<open>env\<close>. Expressions are evaluated without the \<open>inputs\<close> a watch passes.
\<close>

section \<open>Security checks\<close>

definition forbidden_names :: "jstring list" where
  "forbidden_names = map js [''__defineGetter__'', ''__defineSetter__'', ''__lookupGetter__'', ''__lookupSetter__'', ''__proto__'']"

definition ensureSafeMemberName :: "jstring \<Rightarrow> jerror option" where
  "ensureSafeMemberName name =
     (if name \<in> set forbidden_names then Some (ParseError_isec ''isecfld'') else None)"

definition isPossiblyDangerousMemberName :: "jstring \<Rightarrow> bool" where
  "isPossiblyDangerousMemberName name \<longleftrightarrow> name = js ''constructor''"

definition ensureSafeObject :: "realm \<Rightarrow> jval \<Rightarrow> jheap \<Rightarrow> jerror option" where
  "ensureSafeObject r obj h =
     (let get = (\<lambda>k. js_get r h obj (js k))
      in if \<not> truthy obj then None
         else if strict_eq (get ''constructor'') obj then Some (ParseError_isec ''isecfn'')
         else if strict_eq (get ''window'') obj then Some (ParseError_isec ''isecwindow'')
         else if truthy (get ''children'') \<and>
                 (truthy (get ''nodeName'') \<or> truthy (get ''prop'') \<and> truthy (get ''attr'') \<and> truthy (get ''find''))
              then Some (ParseError_isec ''isecdom'')
         else if obj = Obj (ObjectCtor r) then Some (ParseError_isec ''isecobj'')
         else None)"

definition ensureSafeFunction :: "realm \<Rightarrow> jval \<Rightarrow> jheap \<Rightarrow> jerror option" where
  "ensureSafeFunction r obj h =
     (if \<not> truthy obj then None
      else if strict_eq (js_get r h obj (js ''constructor'')) obj then Some (ParseError_isec ''isecfn'')
      else if obj = Obj (CALL r) \<or> obj = Obj (APPLY r) \<or> obj = Obj (BIND r) then Some (ParseError_isec ''isecff'')
      else None)"

definition ensureSafeAssignContext :: "realm \<Rightarrow> jval \<Rightarrow> jheap \<Rightarrow> jerror option" where
  "ensureSafeAssignContext r obj h =
     (let ctor = (\<lambda>a. case obj_get h a (js ''constructor'') of Some v \<Rightarrow> v | None \<Rightarrow> undef)
      in if truthy obj \<and>
            (strict_eq obj (ctor (NumberProto r)) \<or> strict_eq obj (ctor (BooleanProto r)) \<or>
             strict_eq obj (ctor (StringProto r)) \<or> strict_eq obj (ctor (ObjectProto r)) \<or>
             strict_eq obj (ctor (ArrayProto r)) \<or> strict_eq obj (ctor (FunctionCtor r)))
         then Some (ParseError_isec ''isecaf'') else None)"

section \<open>Constants and watched inputs\<close>

fun callee_name :: "ast \<Rightarrow> jstring" where
  "callee_name (Identifier n) = n"
| "callee_name a = []"

text \<open>\<open>stateless f\<close> is \<open>isStateless($filter, f)\<close>.\<close>

fun constant_ast :: "(jstring \<Rightarrow> bool) \<Rightarrow> ast \<Rightarrow> bool" where
  "constant_ast sl (Literal v) = True"
| "constant_ast sl (UnaryExpression op a) = constant_ast sl a"
| "constant_ast sl (BinaryExpression op l r) = (constant_ast sl l \<and> constant_ast sl r)"
| "constant_ast sl (LogicalExpression op l r) = (constant_ast sl l \<and> constant_ast sl r)"
| "constant_ast sl (ConditionalExpression t a c) = (constant_ast sl t \<and> constant_ast sl a \<and> constant_ast sl c)"
| "constant_ast sl (Identifier n) = False"
| "constant_ast sl (MemberExpression ob p computed) = (constant_ast sl ob \<and> (\<not> computed \<or> constant_ast sl p))"
| "constant_ast sl (CallExpression f args isFilter) =
     ((if isFilter then sl (callee_name f) else False) \<and> list_all (constant_ast sl) args)"
| "constant_ast sl (AssignmentExpression l r) = (constant_ast sl l \<and> constant_ast sl r)"
| "constant_ast sl (ArrayExpression es) = list_all (constant_ast sl) es"
| "constant_ast sl (ObjectExpression ps) = list_all (\<lambda>p. constant_ast sl (snd p)) ps"
| "constant_ast sl ThisExpression = False"
| "constant_ast sl LocalsExpression = False"

fun toWatch :: "(jstring \<Rightarrow> bool) \<Rightarrow> ast \<Rightarrow> ast list" where
  "toWatch sl (Literal v) = []"
| "toWatch sl (UnaryExpression op a) = toWatch sl a"
| "toWatch sl (BinaryExpression op l r) = toWatch sl l @ toWatch sl r"
| "toWatch sl (LogicalExpression op l r) =
     (if constant_ast sl (LogicalExpression op l r) then [] else [LogicalExpression op l r])"
| "toWatch sl (ConditionalExpression t a c) =
     (if constant_ast sl (ConditionalExpression t a c) then [] else [ConditionalExpression t a c])"
| "toWatch sl (Identifier n) = [Identifier n]"
| "toWatch sl (MemberExpression ob p computed) = [MemberExpression ob p computed]"
| "toWatch sl (CallExpression f args isFilter) =
     (if isFilter \<and> sl (callee_name f)
      then concat (map (\<lambda>a. if constant_ast sl a then [] else toWatch sl a) args)
      else [CallExpression f args isFilter])"
| "toWatch sl (AssignmentExpression l r) = [AssignmentExpression l r]"
| "toWatch sl (ArrayExpression es) = concat (map (\<lambda>a. if constant_ast sl a then [] else toWatch sl a) es)"
| "toWatch sl (ObjectExpression ps) =
     concat (map (\<lambda>p. if constant_ast sl (snd p) then [] else toWatch sl (snd p)) ps)"
| "toWatch sl ThisExpression = []"
| "toWatch sl LocalsExpression = []"

text \<open>A node differs from its own parts, so comparing the nodes is comparing the references.\<close>

definition getInputs :: "(jstring \<Rightarrow> bool) \<Rightarrow> ast list \<Rightarrow> ast list option" where
  "getInputs sl body =
     (case body of
        [e] \<Rightarrow> (let candidate = toWatch sl e
                in if length candidate \<noteq> 1 then Some candidate
                   else if hd candidate \<noteq> e then Some candidate else None)
      | _ \<Rightarrow> None)"

definition isAssignable :: "ast \<Rightarrow> bool" where
  "isAssignable a = (case a of Identifier _ \<Rightarrow> True | MemberExpression _ _ _ \<Rightarrow> True | _ \<Rightarrow> False)"

definition assignableAST :: "ast list \<Rightarrow> ast option" where
  "assignableAST body = (case body of [e] \<Rightarrow> if isAssignable e then Some e else None | _ \<Rightarrow> None)"

definition isLiteral :: "ast list \<Rightarrow> bool" where
  "isLiteral body =
     (case body of
        [] \<Rightarrow> True
      | [e] \<Rightarrow> (case e of Literal _ \<Rightarrow> True | ArrayExpression _ \<Rightarrow> True | ObjectExpression _ \<Rightarrow> True | _ \<Rightarrow> False)
      | _ \<Rightarrow> False)"

definition isConstant :: "(jstring \<Rightarrow> bool) \<Rightarrow> ast list \<Rightarrow> bool" where
  "isConstant sl body = list_all (constant_ast sl) body"

section \<open>Evaluation\<close>

record env =
  realm_of :: realm
  engine_of :: engine
  call_fn :: "jval \<Rightarrow> jval \<Rightarrow> jval list \<Rightarrow> jval comp"
  filter_fn :: "jstring \<Rightarrow> (jval list \<Rightarrow> jval comp) option"
  stateless :: "jstring \<Rightarrow> bool"
  expensiveChecks :: bool
  scope :: jval
  locals :: jval

text \<open>What a closure compiled with \<open>context\<close> returns; one compiled without returns the value alone.\<close>

record jref =
  context_of :: jval
  name_of :: "jstring option"
  value_of :: jval

definition value_only :: "jval \<Rightarrow> jref" where
  "value_only v = \<lparr>context_of = undef, name_of = None, value_of = v\<rparr>"

text \<open>The argument \<open>create\<close> of \<open>recurse\<close>: undefined, \<open>1\<close>, or \<open>true\<close>.\<close>

datatype create = NoCreate | CreateLast | CreateAll

definition create_left :: "create \<Rightarrow> create" where
  "create_left c = (if c = NoCreate then NoCreate else CreateAll)"

definition safe_object :: "env \<Rightarrow> jval \<Rightarrow> unit comp" where
  "safe_object e v = checkc (ensureSafeObject (realm_of e) v)"

definition literal_value :: "literal \<Rightarrow> jval" where
  "literal_value v = Prim (case v of LitNum n \<Rightarrow> Number (of_jnum n) | LitStr s \<Rightarrow> Str s
     | LitBool b \<Rightarrow> Bool b | LitNull \<Rightarrow> Null | LitUndefined \<Rightarrow> Undefined)"

definition isDefined :: "jval \<Rightarrow> bool" where
  "isDefined v \<longleftrightarrow> v \<noteq> undef"

text \<open>\<open>v[k] = {}\<close> unless \<open>v[k]\<close> is there, as the creating closures do it.\<close>

definition create_member :: "env \<Rightarrow> jval \<Rightarrow> jstring \<Rightarrow> unit comp" where
  "create_member e v k = bindc (readc (\<lambda>h. truthy v \<and> \<not> truthy (js_get (realm_of e) h v k))) (\<lambda>missing.
     if missing then bindc (new_object (realm_of e) Map.empty) (\<lambda>ob. js_set v k ob) else retc ())"

text \<open>\<open>name in locals\<close>\<close>

definition in_locals :: "env \<Rightarrow> jstring \<Rightarrow> bool comp" where
  "in_locals e name h =
     (if \<not> truthy (locals e) then (Inr False, h)
      else case locals e of
             Prim _ \<Rightarrow> (Inl TypeError, h)
           | Obj a \<Rightarrow> (Inr (obj_get h a name \<noteq> None), h))"

definition identifier_ref :: "env \<Rightarrow> jstring \<Rightarrow> bool \<Rightarrow> create \<Rightarrow> jref comp" where
  "identifier_ref e name expensive cr =
     bindc (in_locals e name) (\<lambda>here. let base = (if here then locals e else scope e) in
     bindc (if cr = CreateAll then create_member e base name else retc ()) (\<lambda>_.
     bindc (readc (\<lambda>h. if truthy base then js_get (realm_of e) h base name else undef)) (\<lambda>v.
     bindc (if expensive then safe_object e v else retc ()) (\<lambda>_.
     retc \<lparr>context_of = base, name_of = Some name, value_of = v\<rparr>))))"

definition getStringValue :: "env \<Rightarrow> jval \<Rightarrow> jstring comp" where
  "getStringValue e v = bindc (to_primitive (engine_of e) v) (\<lambda>p. retc (to_string (engine_of e) p))"

text \<open>\<open>computedMember\<close> from the values of its closures on; \<open>right\<close> runs only when there is an object.\<close>

definition computedMember :: "env \<Rightarrow> jval \<Rightarrow> jval comp \<Rightarrow> create \<Rightarrow> jref comp" where
  "computedMember e lhs right cr =
     (if nullish lhs then retc \<lparr>context_of = lhs, name_of = None, value_of = undef\<rparr>
      else bindc right (\<lambda>rv. bindc (getStringValue e rv) (\<lambda>rhs.
           bindc (checkc (\<lambda>h. ensureSafeMemberName rhs)) (\<lambda>_.
           bindc (if cr = CreateAll
                  then bindc (checkc (ensureSafeAssignContext (realm_of e) lhs)) (\<lambda>_. create_member e lhs rhs)
                  else retc ()) (\<lambda>_.
           bindc (readc (\<lambda>h. js_get (realm_of e) h lhs rhs)) (\<lambda>v.
           bindc (safe_object e v) (\<lambda>_.
           retc \<lparr>context_of = lhs, name_of = Some rhs, value_of = v\<rparr>)))))))"

definition nonComputedMember :: "env \<Rightarrow> jval \<Rightarrow> jstring \<Rightarrow> create \<Rightarrow> jref comp" where
  "nonComputedMember e lhs right cr =
     bindc (if cr = CreateAll
            then bindc (checkc (ensureSafeAssignContext (realm_of e) lhs)) (\<lambda>_. create_member e lhs right)
            else retc ()) (\<lambda>_.
     bindc (readc (\<lambda>h. if nullish lhs then undef else js_get (realm_of e) h lhs right)) (\<lambda>v.
     bindc (if expensiveChecks e \<or> isPossiblyDangerousMemberName right then safe_object e v else retc ()) (\<lambda>_.
     retc \<lparr>context_of = lhs, name_of = Some right, value_of = v\<rparr>)))"

text \<open>The unary and binary operators, from the values of their operands on.\<close>

definition unary_op :: "env \<Rightarrow> jstring \<Rightarrow> jval \<Rightarrow> jval comp" where
  "unary_op e oper arg =
     (if oper = js ''!'' then retc (Prim (Bool (\<not> truthy arg)))
      else if \<not> isDefined arg then retc (Prim (Number (Num 0)))
      else bindc (to_primitive (engine_of e) arg) (\<lambda>p.
             retc (Prim (Number (if oper = js ''-'' then num_neg (to_number p) else to_number p)))))"

definition plusFn :: "engine \<Rightarrow> jval \<Rightarrow> jval \<Rightarrow> jval comp" where
  "plusFn en l r = (if l = undef then retc r else if r = undef then retc l else js_plus en l r)"

definition or_zero :: "jval \<Rightarrow> jval" where
  "or_zero v = (if isDefined v then v else Prim (Number (Num 0)))"

definition binary_op :: "env \<Rightarrow> jstring \<Rightarrow> jval \<Rightarrow> jval \<Rightarrow> jval comp" where
  "binary_op e oper l r =
     (let en = engine_of e; is = (\<lambda>s. oper = js s)
      in if is ''+'' then plusFn en l r
         else if is ''-'' then js_arith en num_sub (or_zero l) (or_zero r)
         else if is ''*'' then js_arith en num_mul l r
         else if is ''/'' then js_arith en num_div l r
         else if is ''%'' then js_arith en num_rem l r
         else if is ''==='' then retc (Prim (Bool (strict_eq l r)))
         else if is ''!=='' then retc (Prim (Bool (\<not> strict_eq l r)))
         else if is ''=='' then bindc (loose_eq en l r) (\<lambda>b. retc (Prim (Bool b)))
         else if is ''!='' then bindc (loose_eq en l r) (\<lambda>b. retc (Prim (Bool (\<not> b))))
         else if is ''<'' then js_compare en (\<lambda>p q. prim_less p q = Some True) l r
         else if is ''>'' then js_compare en (\<lambda>p q. prim_less q p = Some True) l r
         else if is ''<='' then js_compare en (\<lambda>p q. prim_less q p = Some False) l r
         else if is ''>='' then js_compare en (\<lambda>p q. prim_less p q = Some False) l r
         else throwc TypeError)"

text \<open>The short-circuit operators and the ternary run the closure they need.\<close>

definition logical_op :: "jstring \<Rightarrow> jval \<Rightarrow> jval comp \<Rightarrow> jval comp" where
  "logical_op oper l right = (if truthy l = (oper = js ''&&'') then right else retc l)"

definition ternary_op :: "jval \<Rightarrow> jval comp \<Rightarrow> jval comp \<Rightarrow> jval comp" where
  "ternary_op test alternate consequent = (if truthy test then alternate else consequent)"

text \<open>The call of a function, after its reference; the arguments are evaluated and checked one by one.\<close>

definition call_result :: "env \<Rightarrow> jref \<Rightarrow> jval list comp \<Rightarrow> jval comp" where
  "call_result e rhs args =
     (if nullish (value_of rhs) then retc undef
      else bindc (safe_object e (context_of rhs)) (\<lambda>_.
           bindc (checkc (ensureSafeFunction (realm_of e) (value_of rhs))) (\<lambda>_.
           bindc args (\<lambda>vs.
           bindc (call_fn e (value_of rhs) (context_of rhs) vs) (\<lambda>v.
           bindc (safe_object e v) (\<lambda>_. retc v))))))"

definition assign_ref :: "env \<Rightarrow> jref \<Rightarrow> jval \<Rightarrow> jval comp" where
  "assign_ref e lhs rhs =
     bindc (safe_object e (value_of lhs)) (\<lambda>_.
     bindc (checkc (ensureSafeAssignContext (realm_of e) (context_of lhs))) (\<lambda>_.
     bindc (js_set (context_of lhs) (case name_of lhs of Some k \<Rightarrow> k | None \<Rightarrow> js ''undefined'') rhs) (\<lambda>_. retc rhs)))"

definition property_key :: "env \<Rightarrow> ast \<Rightarrow> jstring" where
  "property_key e key =
     (case key of Identifier n \<Rightarrow> n
      | Literal v \<Rightarrow> (case literal_value v of Prim p \<Rightarrow> to_string (engine_of e) p | Obj _ \<Rightarrow> [])
      | _ \<Rightarrow> [])"

text \<open>\<open>value[key] = ..\<close> on the fresh object of a literal, where \<open>__proto__\<close> sets the prototype.\<close>

definition empty_object :: "realm \<Rightarrow> jobj" where
  "empty_object r = \<lparr>own = Map.empty, proto = Some (ObjectProto r), is_array = False\<rparr>"

definition init_property :: "jobj \<Rightarrow> jstring \<Rightarrow> jval \<Rightarrow> jobj" where
  "init_property ob k v =
     (if k = js ''__proto__'' then
        (case v of Obj a \<Rightarrow> ob\<lparr>proto := Some a\<rparr>
         | Prim p \<Rightarrow> if p = Null then ob\<lparr>proto := None\<rparr> else ob)
      else ob\<lparr>own := (own ob)(k \<mapsto> v)\<rparr>)"

fun recurse :: "env \<Rightarrow> create \<Rightarrow> ast \<Rightarrow> jref comp"
  and recurse_args :: "env \<Rightarrow> bool \<Rightarrow> ast list \<Rightarrow> jval list comp"
  and recurse_props :: "env \<Rightarrow> (ast \<times> ast) list \<Rightarrow> jobj \<Rightarrow> jobj comp" where
  "recurse e cr (Literal v) = retc (value_only (literal_value v))"
| "recurse e cr (UnaryExpression oper a) =
     bindc (recurse e NoCreate a) (\<lambda>x. bindc (unary_op e oper (value_of x)) (\<lambda>v. retc (value_only v)))"
| "recurse e cr (BinaryExpression oper l r) =
     bindc (recurse e NoCreate l) (\<lambda>x. bindc (recurse e NoCreate r) (\<lambda>y.
     bindc (binary_op e oper (value_of x) (value_of y)) (\<lambda>v. retc (value_only v))))"
| "recurse e cr (LogicalExpression oper l r) =
     bindc (recurse e NoCreate l) (\<lambda>x.
     bindc (logical_op oper (value_of x) (bindc (recurse e NoCreate r) (\<lambda>y. retc (value_of y)))) (\<lambda>v. retc (value_only v)))"
| "recurse e cr (ConditionalExpression t a c) =
     bindc (recurse e NoCreate t) (\<lambda>x.
     bindc (ternary_op (value_of x) (bindc (recurse e NoCreate a) (\<lambda>y. retc (value_of y)))
              (bindc (recurse e NoCreate c) (\<lambda>y. retc (value_of y)))) (\<lambda>v. retc (value_only v)))"
| "recurse e cr (Identifier n) =
     identifier_ref e n (expensiveChecks e \<or> isPossiblyDangerousMemberName n) cr"
| "recurse e cr (MemberExpression ob p computed) =
     bindc (recurse e (create_left cr) ob) (\<lambda>x.
       if computed then computedMember e (value_of x) (bindc (recurse e NoCreate p) (\<lambda>y. retc (value_of y))) cr
       else nonComputedMember e (value_of x) (callee_name p) cr)"
| "recurse e cr (CallExpression f args isFilter) =
     (if isFilter then
        (case filter_fn e (callee_name f) of
           None \<Rightarrow> throwc (UnknownProvider (callee_name f))
         | Some fn \<Rightarrow> bindc (recurse_args e False args) (\<lambda>vs. bindc (fn vs) (\<lambda>v. retc (value_only v))))
      else bindc (recurse e NoCreate f) (\<lambda>rhs.
           bindc (call_result e rhs (recurse_args e True args)) (\<lambda>v. retc (value_only v))))"
| "recurse e cr (AssignmentExpression l r) =
     bindc (recurse e CreateLast l) (\<lambda>lhs. bindc (recurse e NoCreate r) (\<lambda>rhs.
     bindc (assign_ref e lhs (value_of rhs)) (\<lambda>v. retc (value_only v))))"
| "recurse e cr (ArrayExpression es) =
     bindc (recurse_args e False es) (\<lambda>vs. bindc (new_array (realm_of e) vs) (\<lambda>v. retc (value_only v)))"
| "recurse e cr (ObjectExpression ps) =
     bindc (recurse_props e ps (empty_object (realm_of e))) (\<lambda>ob. bindc (new_obj ob) (\<lambda>v. retc (value_only v)))"
| "recurse e cr ThisExpression = retc (value_only (scope e))"
| "recurse e cr LocalsExpression = retc (value_only (locals e))"
| "recurse_args e checked [] = retc []"
| "recurse_args e checked (a # as) =
     bindc (recurse e NoCreate a) (\<lambda>x.
     bindc (if checked then safe_object e (value_of x) else retc ()) (\<lambda>_.
     bindc (recurse_args e checked as) (\<lambda>vs. retc (value_of x # vs))))"
| "recurse_props e [] ob = retc ob"
| "recurse_props e ((key, a) # ps) ob =
     bindc (recurse e NoCreate a) (\<lambda>x. recurse_props e ps (init_property ob (property_key e key) (value_of x)))"

definition eval_ast :: "env \<Rightarrow> ast \<Rightarrow> jval comp" where
  "eval_ast e a = bindc (recurse e NoCreate a) (\<lambda>x. retc (value_of x))"

section \<open>Compiling\<close>

text \<open>
  \<open>findConstantAndWatchExpressions\<close> looks every filter up, before the arguments of its call, and
  throws for an unknown one; \<open>recurse\<close> throws for a forbidden name when it builds the closure.
\<close>

definition first_error :: "'e option list \<Rightarrow> 'e option" where
  "first_error es = (case dropWhile (\<lambda>x. x = None) es of [] \<Rightarrow> None | x # _ \<Rightarrow> x)"

fun filter_error :: "env \<Rightarrow> ast \<Rightarrow> jerror option" where
  "filter_error e (UnaryExpression oper a) = filter_error e a"
| "filter_error e (BinaryExpression oper l r) = first_error [filter_error e l, filter_error e r]"
| "filter_error e (LogicalExpression oper l r) = first_error [filter_error e l, filter_error e r]"
| "filter_error e (ConditionalExpression t a c) = first_error [filter_error e t, filter_error e a, filter_error e c]"
| "filter_error e (MemberExpression ob p computed) =
     first_error [filter_error e ob, if computed then filter_error e p else None]"
| "filter_error e (CallExpression f args isFilter) =
     first_error ((if isFilter \<and> filter_fn e (callee_name f) = None
                   then Some (UnknownProvider (callee_name f)) else None) # map (filter_error e) args)"
| "filter_error e (AssignmentExpression l r) = first_error [filter_error e l, filter_error e r]"
| "filter_error e (ArrayExpression es) = first_error (map (filter_error e) es)"
| "filter_error e (ObjectExpression ps) = first_error (map (\<lambda>p. filter_error e (snd p)) ps)"
| "filter_error e a = None"

fun recurse_error :: "env \<Rightarrow> ast \<Rightarrow> jerror option" where
  "recurse_error e (Identifier n) = ensureSafeMemberName n"
| "recurse_error e (UnaryExpression oper a) = recurse_error e a"
| "recurse_error e (BinaryExpression oper l r) = first_error [recurse_error e l, recurse_error e r]"
| "recurse_error e (LogicalExpression oper l r) = first_error [recurse_error e l, recurse_error e r]"
| "recurse_error e (ConditionalExpression t a c) = first_error [recurse_error e t, recurse_error e a, recurse_error e c]"
| "recurse_error e (MemberExpression ob p computed) = first_error [recurse_error e ob, recurse_error e p]"
| "recurse_error e (CallExpression f args isFilter) =
     first_error (map (recurse_error e) args @
       [if isFilter then (if filter_fn e (callee_name f) = None then Some (UnknownProvider (callee_name f)) else None)
        else recurse_error e f])"
| "recurse_error e (AssignmentExpression l r) = first_error [recurse_error e l, recurse_error e r]"
| "recurse_error e (ArrayExpression es) = first_error (map (recurse_error e) es)"
| "recurse_error e (ObjectExpression ps) = first_error (map (\<lambda>p. recurse_error e (snd p)) ps)"
| "recurse_error e a = None"

text \<open>What \<open>compile\<close> returns: the function of a scope, and what it is marked with.\<close>

record compiled =
  body :: "ast list"
  inputs :: "ast list option"
  assignTo :: "ast option"
  is_literal :: bool
  is_constant :: bool

datatype compile_error = Syntax parse_error | Unsafe jerror

definition compile_body :: "env \<Rightarrow> ast list \<Rightarrow> jerror + compiled" where
  "compile_body e b =
     (case first_error (map (filter_error e) b @
           map (recurse_error e) (case getInputs (stateless e) b of Some ws \<Rightarrow> ws | None \<Rightarrow> []) @ map (recurse_error e) b) of
        Some err \<Rightarrow> Inl err
      | None \<Rightarrow> Inr \<lparr>body = b, inputs = getInputs (stateless e) b, assignTo = assignableAST b,
                     is_literal = isLiteral b, is_constant = isConstant (stateless e) b\<rparr>)"

definition interpreter_compile :: "env \<Rightarrow> jstring \<Rightarrow> (compile_error + compiled) option" where
  "interpreter_compile e txt =
     map_option (\<lambda>r. case r of Inl err \<Rightarrow> Inl (Syntax err) | Inr b \<Rightarrow> map_sum Unsafe id (compile_body e b)) (ast_of txt)"

fun run_body :: "env \<Rightarrow> jval \<Rightarrow> ast list \<Rightarrow> jval comp" where
  "run_body e v [] = retc v"
| "run_body e v (a # as) = bindc (eval_ast e a) (\<lambda>v. run_body e v as)"

definition run_compiled :: "env \<Rightarrow> compiled \<Rightarrow> jval comp" where
  "run_compiled e fn = run_body e undef (body fn)"

definition assign_compiled :: "env \<Rightarrow> compiled \<Rightarrow> jval \<Rightarrow> jval comp option" where
  "assign_compiled e fn v =
     map_option (\<lambda>a. bindc (recurse e CreateLast a) (\<lambda>lhs. assign_ref e lhs v)) (assignTo fn)"

section \<open>Unchanged inputs\<close>

text \<open>
  Expressions whose value is primitive when their inputs' values are. A constant part is not
  watched, so it must be built of literals, operators and stateless filters alone.
\<close>

fun pure_constant :: "(jstring \<Rightarrow> bool) \<Rightarrow> ast \<Rightarrow> bool" where
  "pure_constant sl (Literal v) = True"
| "pure_constant sl (UnaryExpression oper a) = pure_constant sl a"
| "pure_constant sl (BinaryExpression oper l r) = (pure_constant sl l \<and> pure_constant sl r)"
| "pure_constant sl (LogicalExpression oper l r) = (pure_constant sl l \<and> pure_constant sl r)"
| "pure_constant sl (ConditionalExpression t a c) = (pure_constant sl t \<and> pure_constant sl a \<and> pure_constant sl c)"
| "pure_constant sl (CallExpression f args isFilter) =
     (isFilter \<and> sl (callee_name f) \<and> list_all (pure_constant sl) args)"
| "pure_constant sl a = False"

fun primitive_expr :: "(jstring \<Rightarrow> bool) \<Rightarrow> ast \<Rightarrow> bool" where
  "primitive_expr sl (UnaryExpression oper a) = primitive_expr sl a"
| "primitive_expr sl (BinaryExpression oper l r) = (primitive_expr sl l \<and> primitive_expr sl r)"
| "primitive_expr sl (LogicalExpression oper l r) =
     (constant_ast sl (LogicalExpression oper l r) \<longrightarrow> pure_constant sl (LogicalExpression oper l r))"
| "primitive_expr sl (ConditionalExpression t a c) =
     (constant_ast sl (ConditionalExpression t a c) \<longrightarrow> pure_constant sl (ConditionalExpression t a c))"
| "primitive_expr sl (CallExpression f args isFilter) =
     (isFilter \<and> sl (callee_name f) \<longrightarrow>
        list_all (\<lambda>a. if constant_ast sl a then pure_constant sl a else primitive_expr sl a) args)"
| "primitive_expr sl (ArrayExpression es) = False"
| "primitive_expr sl (ObjectExpression ps) = False"
| "primitive_expr sl ThisExpression = False"
| "primitive_expr sl LocalsExpression = False"
| "primitive_expr sl a = True"

text \<open>What a stateless filter promises: its result depends on its arguments only.\<close>

definition pure_filters :: "env \<Rightarrow> bool" where
  "pure_filters e \<longleftrightarrow> (\<forall>f fn. stateless e f \<and> filter_fn e f = Some fn \<longrightarrow>
     (\<forall>vs. list_all is_prim vs \<longrightarrow> (\<exists>r. result_ok is_prim r \<and> (\<forall>h. fn vs h = (r, h)))))"

abbreviation same :: "env \<Rightarrow> jheap \<Rightarrow> jheap \<Rightarrow> ast \<Rightarrow> bool" where
  "same e h1 h2 a \<equiv> steady is_prim h1 h2 (eval_ast e a)"

text \<open>A node that is built from the values of its parts alone.\<close>

lemma eval_ast_parts:
  "eval_ast e (Literal v) = retc (literal_value v)"
  "eval_ast e (UnaryExpression oper a) = bindc (eval_ast e a) (unary_op e oper)"
  "eval_ast e (BinaryExpression oper l r) =
     bindc (eval_ast e l) (\<lambda>x. bindc (eval_ast e r) (\<lambda>y. binary_op e oper x y))"
  "eval_ast e (LogicalExpression oper l r) =
     bindc (eval_ast e l) (\<lambda>x. if truthy x = (oper = js ''&&'') then eval_ast e r else retc x)"
  "eval_ast e (ConditionalExpression t a c) =
     bindc (eval_ast e t) (\<lambda>x. if truthy x then eval_ast e a else eval_ast e c)"
  "eval_ast e (CallExpression f args True) =
     (case filter_fn e (callee_name f) of
        None \<Rightarrow> throwc (UnknownProvider (callee_name f))
      | Some fn \<Rightarrow> bindc (recurse_args e False args) fn)"
  "recurse_args e False (a # as) = bindc (eval_ast e a) (\<lambda>x. bindc (recurse_args e False as) (\<lambda>xs. retc (x # xs)))"
  by (simp_all add: eval_ast_def bindc_assoc bindc_if value_only_def logical_op_def ternary_op_def
      cong: if_cong split: option.split)

lemma steady_if: "steady P h1 h2 m \<Longrightarrow> steady P h1 h2 n \<Longrightarrow> steady P h1 h2 (if c then m else n)"
  by simp

lemma unary_op_steady [simp]: "is_prim x \<Longrightarrow> steady is_prim h1 h2 (unary_op e oper x)"
  by (auto simp: unary_op_def is_prim_cases to_primitive_def)

lemma binary_op_steady [simp]:
  assumes "is_prim x" "is_prim y"
  shows "steady is_prim h1 h2 (binary_op e oper x y)"
proof -
  have "is_prim (or_zero x)" "is_prim (or_zero y)"
    using assms by (auto simp: or_zero_def)
  moreover have "steady is_prim h1 h2 (bindc (loose_eq (engine_of e) x y) (\<lambda>b. retc (Prim (Bool (g b)))))" for g
    by (rule steady_bind [of "\<lambda>_. True"]) (simp_all add: assms)
  ultimately show ?thesis
    unfolding binary_op_def Let_def plusFn_def
    by (intro steady_if) (simp_all add: assms)
qed

lemma filter_call_steady:
  assumes "pure_filters e" and sl: "stateless e (callee_name f)" and "\<And>a. a \<in> set args \<Longrightarrow> same e h1 h2 a"
  shows "same e h1 h2 (CallExpression f args True)"
proof (cases "filter_fn e (callee_name f)")
  case None
  then show ?thesis by (simp add: eval_ast_parts)
next
  case (Some fn)
  have "steady (list_all is_prim) h1 h2 (recurse_args e False args)"
    using assms(3)
  proof (induction args)
    case (Cons a as)
    have "steady (list_all is_prim) h1 h2 (recurse_args e False as)" "same e h1 h2 a"
      using Cons by auto
    then show ?case
      unfolding eval_ast_parts(7)
      by (auto intro!: steady_bind [of is_prim h1 h2 "eval_ast e a"] steady_bind [of "list_all is_prim" h1 h2 "recurse_args e False as"])
  qed simp
  moreover have "steady is_prim h1 h2 (fn vs)" if "list_all is_prim vs" for vs
    using assms(1) sl Some that by (fastforce simp: pure_filters_def steady_def)
  ultimately show ?thesis
    by (simp add: eval_ast_parts Some steady_bind)
qed

lemma pure_constant_steady: "pure_filters e \<Longrightarrow> pure_constant (stateless e) a \<Longrightarrow> same e h1 h2 a"
  by (induction "stateless e" a rule: pure_constant.induct)
    (auto simp: eval_ast_parts(1-5) literal_value_def list_all_iff intro!: steady_bind [of is_prim] filter_call_steady)

lemma primitive_expr_steady:
  assumes "pure_filters e"
  shows "primitive_expr (stateless e) a \<Longrightarrow> (\<And>w. w \<in> set (toWatch (stateless e) a) \<Longrightarrow> same e h1 h2 w) \<Longrightarrow> same e h1 h2 a"
proof (induction "stateless e" a rule: primitive_expr.induct)
  case (5 f args isFilter)
  show ?case
  proof (cases "isFilter \<and> stateless e (callee_name f)")
    case True
    have "same e h1 h2 a" if "a \<in> set args" for a
    proof (cases "constant_ast (stateless e) a")
      case True
      with 5 \<open>isFilter \<and> stateless e (callee_name f)\<close> that show ?thesis
        by (auto simp: list_all_iff intro!: pure_constant_steady [OF assms])
    next
      case False
      show ?thesis
      proof (rule "5.hyps" [OF \<open>isFilter \<and> stateless e (callee_name f)\<close> that])
        show "primitive_expr (stateless e) a"
          using 5 False \<open>isFilter \<and> stateless e (callee_name f)\<close> that by (auto simp: list_all_iff)
        show "same e h1 h2 w" if "w \<in> set (toWatch (stateless e) a)" for w
          using 5 False \<open>isFilter \<and> stateless e (callee_name f)\<close> \<open>a \<in> set args\<close> that by auto
      qed (use False in simp)
    qed
    with True show ?thesis using filter_call_steady [OF assms] by simp
  next
    case False
    with 5 show ?thesis by simp
  qed
next
  case (3 oper l r)
  then show ?case
    using pure_constant_steady [OF assms]
    by (cases "constant_ast (stateless e) (LogicalExpression oper l r)") auto
next
  case (4 t a c)
  then show ?case
    using pure_constant_steady [OF assms]
    by (cases "constant_ast (stateless e) (ConditionalExpression t a c)") auto
qed (use pure_constant_steady [OF assms] in \<open>auto simp: eval_ast_parts(1-3) literal_value_def intro!: steady_bind [of is_prim] split: if_splits\<close>)

section \<open>The sandbox\<close>

text \<open>
  Two hosts that agree on every call but those of \<open>call\<close>, \<open>apply\<close> and \<open>bind\<close> and those that pass
  \<open>Object\<close> on.
\<close>

definition agree_on_safe_calls :: "env \<Rightarrow> (jval \<Rightarrow> jval \<Rightarrow> jval list \<Rightarrow> jval comp) \<Rightarrow> bool" where
  "agree_on_safe_calls e c \<longleftrightarrow> (\<forall>f this args.
     f \<notin> {Obj (CALL (realm_of e)), Obj (APPLY (realm_of e)), Obj (BIND (realm_of e))} \<and>
     Obj (ObjectCtor (realm_of e)) \<notin> insert this (set args) \<longrightarrow> c f this args = call_fn e f this args)"

definition no_object_ctor :: "env \<Rightarrow> jval list \<Rightarrow> bool" where
  "no_object_ctor e vs \<longleftrightarrow> Obj (ObjectCtor (realm_of e)) \<notin> set vs"

lemma safe_object_passes: "safe_object e v h = (Inr x, h') \<Longrightarrow> v \<noteq> Obj (ObjectCtor (realm_of e))"
  by (auto simp: safe_object_def checkc_def ensureSafeObject_def Let_def truthy_def split: option.splits if_splits)

lemma safe_function_passes:
  "ensureSafeFunction r v h = None \<Longrightarrow> v \<notin> {Obj (CALL r), Obj (APPLY r), Obj (BIND r)}"
  by (auto simp: ensureSafeFunction_def truthy_def split: if_splits)

lemma checked_args: "recurse_args e True as h = (Inr vs, h') \<Longrightarrow> Obj (ObjectCtor (realm_of e)) \<notin> set vs"
  by (induction as arbitrary: vs h h')
    (auto simp: bindc_def retc_def split: prod.splits sum.splits dest: safe_object_passes)

lemma call_result_agrees:
  assumes "agree_on_safe_calls e c"
  shows "call_result (e\<lparr>call_fn := c\<rparr>) rhs (recurse_args e True args) = call_result e rhs (recurse_args e True args)"
proof (rule ext)
  fix h
  show "call_result (e\<lparr>call_fn := c\<rparr>) rhs (recurse_args e True args) h = call_result e rhs (recurse_args e True args) h"
    using assms safe_object_passes [of e "context_of rhs" h] safe_function_passes [of "realm_of e" "value_of rhs" h] checked_args [of e args h]
    by (auto simp: call_result_def bindc_def checkc_def safe_object_def agree_on_safe_calls_def retc_def
        split: prod.splits sum.splits option.splits)
qed

lemma agree_parts [simp]:
  "in_locals (e\<lparr>call_fn := c\<rparr>) = in_locals e" "create_member (e\<lparr>call_fn := c\<rparr>) = create_member e"
  "safe_object (e\<lparr>call_fn := c\<rparr>) = safe_object e" "getStringValue (e\<lparr>call_fn := c\<rparr>) = getStringValue e"
  by (simp_all add: fun_eq_iff in_locals_def create_member_def safe_object_def getStringValue_def cong: if_cong)

lemma agree_simps [simp]:
  "identifier_ref (e\<lparr>call_fn := c\<rparr>) = identifier_ref e" "computedMember (e\<lparr>call_fn := c\<rparr>) = computedMember e"
  "nonComputedMember (e\<lparr>call_fn := c\<rparr>) = nonComputedMember e" "unary_op (e\<lparr>call_fn := c\<rparr>) = unary_op e"
  "binary_op (e\<lparr>call_fn := c\<rparr>) = binary_op e" "assign_ref (e\<lparr>call_fn := c\<rparr>) = assign_ref e"
  "property_key (e\<lparr>call_fn := c\<rparr>) = property_key e"
  by (intro ext; simp add: identifier_ref_def computedMember_def nonComputedMember_def unary_op_def
      binary_op_def assign_ref_def property_key_def Let_def cong: if_cong split: ast.split jval.split)+

lemma recurse_agrees:
  "agree_on_safe_calls e c \<Longrightarrow> recurse (e\<lparr>call_fn := c\<rparr>) cr a = recurse e cr a"
  "agree_on_safe_calls e c \<Longrightarrow> recurse_args (e\<lparr>call_fn := c\<rparr>) b as = recurse_args e b as"
  "agree_on_safe_calls e c \<Longrightarrow> recurse_props (e\<lparr>call_fn := c\<rparr>) ps ob = recurse_props e ps ob"
proof (induction e cr a and e b as and e ps ob rule: recurse_recurse_args_recurse_props.induct)
qed (simp_all add: call_result_agrees cong: if_cong split: option.split)

section \<open>Properties\<close>

lemma run_single: "body fn = [a] \<Longrightarrow> run_compiled e fn = eval_ast e a"
  by (simp add: run_compiled_def)

lemma compile_body_fields:
  "compile_body e b = Inr fn \<Longrightarrow> body fn = b \<and> inputs fn = getInputs (stateless e) b"
  by (auto simp: compile_body_def split: option.splits)

definition demo_realm :: realm where
  "demo_realm = \<lparr>ObjectCtor = 0, FunctionCtor = 1, ObjectProto = 2, ArrayProto = 3, StringProto = 4,
     NumberProto = 5, BooleanProto = 6, CALL = 7, APPLY = 8, BIND = 9\<rparr>"

definition demo_heap :: "nat \<Rightarrow> jheap" where
  "demo_heap n = \<lparr>objs = [10 \<mapsto> \<lparr>own = [js ''x'' \<mapsto> js_nat 5, js ''y'' \<mapsto> js_nat n], proto = None, is_array = False\<rparr>],
                  fresh = 11\<rparr>"

definition demo_env :: env where
  "demo_env = \<lparr>realm_of = demo_realm, engine_of = \<lparr>to_prim = (\<lambda>a. throwc TypeError), num_text = (\<lambda>q. [])\<rparr>,
     call_fn = (\<lambda>f this args. retc undef), filter_fn = (\<lambda>f. None), stateless = (\<lambda>f. False),
     expensiveChecks = False, scope = Obj 10, locals = undef\<rparr>"

text \<open>
  C17. The inputs a compiled expression offers for watching determine its value: when each of them has
  the same primitive value in two heaps and leaves the heap alone, then so does the expression, for
  every expression of literals, operators, identifiers, members and stateless filters that builds no
  new object and does not return the scope itself. The watch that compares only the inputs misses no change.
\<close>

theorem unchanged_inputs_unchanged_value:
  assumes "compile_body e [a] = Inr fn" "inputs fn = Some ws"
    and "pure_filters e" "primitive_expr (stateless e) a"
    and "\<forall>w\<in>set ws. steady is_prim h1 h2 (eval_ast e w)"
  shows "\<exists>r. run_compiled e fn h1 = (r, h1) \<and> run_compiled e fn h2 = (r, h2)"
proof -
  have "ws = toWatch (stateless e) a" "body fn = [a]"
    using assms(1,2) by (auto simp: getInputs_def Let_def dest!: compile_body_fields split: if_splits)
  then show ?thesis
    using primitive_expr_steady [OF assms(3,4), of h1 h2] assms(5)
    by (auto simp: run_single steady_def [of _ _ _ "eval_ast e a"])
qed

lemma unchanged_inputs_unchanged_value_witness:
  "\<exists>fn r. compile_body demo_env [BinaryExpression (js ''+'') (Identifier (js ''x'')) (Literal (LitNum (Fin 1)))] = Inr fn \<and>
     run_compiled demo_env fn (demo_heap 1) = (r, demo_heap 1) \<and> run_compiled demo_env fn (demo_heap 2) = (r, demo_heap 2)"
proof -
  let ?a = "BinaryExpression (js ''+'') (Identifier (js ''x'')) (Literal (LitNum (Fin 1)))"
  let ?fn = "\<lparr>body = [?a], inputs = Some [Identifier (js ''x'')], assignTo = None, is_literal = False, is_constant = False\<rparr>"
  have c: "compile_body demo_env [?a] = Inr ?fn"
    by (simp add: compile_body_def first_error_def ensureSafeMemberName_def forbidden_names_def js_def
        getInputs_def assignableAST_def isAssignable_def isLiteral_def isConstant_def demo_env_def)
  have "steady is_prim (demo_heap 1) (demo_heap 2) (eval_ast demo_env (Identifier (js ''x'')))"
    by (simp add: steady_def eval_ast_def identifier_ref_def in_locals_def bindc_def readc_def retc_def demo_env_def
        demo_heap_def js_get_def obj_get_def eval_nat_numeral undef_def truthy_def isPossiblyDangerousMemberName_def
        js_def result_ok_def js_nat_def)
  with unchanged_inputs_unchanged_value [OF c, of "[Identifier (js ''x'')]" "demo_heap 1" "demo_heap 2"] c show ?thesis
    by (simp add: pure_filters_def demo_env_def)
qed

text \<open>The value of a call has passed the check for objects, or the callee was null or undefined.\<close>

lemma call_value_checked:
  assumes "eval_ast e (CallExpression f args False) h = (Inr w, h')"
  shows "w \<noteq> Obj (ObjectCtor (realm_of e))"
proof -
  obtain rhs h1 where 1: "recurse e NoCreate f h = (Inr rhs, h1)" "call_result e rhs (recurse_args e True args) h1 = (Inr w, h')"
    using assms by (auto simp: eval_ast_def bindc_def retc_def value_only_def split: prod.splits sum.splits)
  show ?thesis
  proof (cases "nullish (value_of rhs)")
    case True
    with 1(2) show ?thesis by (auto simp: call_result_def retc_def undef_def)
  next
    case False
    with 1(2) obtain h2 x h3 where "safe_object e w h2 = (Inr x, h3)"
      by (auto simp: call_result_def bindc_def retc_def split: prod.splits sum.splits)
    then show ?thesis by (rule safe_object_passes)
  qed
qed

text \<open>
  C18. The calls \<open>f(..)\<close> and \<open>o.m(..)\<close> of an expression are guarded: none of them calls \<open>call\<close>, \<open>apply\<close> or \<open>bind\<close>,
  none passes \<open>Object\<close> as its receiver or as an argument, and none has \<open>Object\<close> as its value. Whatever the host
  does on the calls that are ruled out makes no difference to what an expression evaluates to, in any heap, nor
  to an assignment to it. This is about calls only: filters get their arguments unchecked, as
  \<open>filter_gets_object\<close> shows, and the operators convert any object to a primitive value.
\<close>

theorem sandbox_guards_calls:
  assumes "agree_on_safe_calls e c"
  shows "run_compiled (e\<lparr>call_fn := c\<rparr>) fn = run_compiled e fn \<and>
    assign_compiled (e\<lparr>call_fn := c\<rparr>) fn v = assign_compiled e fn v \<and>
    (\<forall>f args h w h'. eval_ast e (CallExpression f args False) h = (Inr w, h') \<longrightarrow> w \<noteq> Obj (ObjectCtor (realm_of e)))"
proof -
  have "run_body (e\<lparr>call_fn := c\<rparr>) v as = run_body e v as" for v as
    by (induction as arbitrary: v) (simp_all add: eval_ast_def recurse_agrees [OF assms])
  then show ?thesis
    using call_value_checked by (fastforce simp: run_compiled_def assign_compiled_def recurse_agrees [OF assms])
qed

text \<open>With \<open>Object\<close> as \<open>X\<close> in the scope, \<open>X | id\<close> hands it to the filter and returns it.\<close>

lemma filter_gets_object:
  "let e = demo_env\<lparr>filter_fn := (\<lambda>f. Some (\<lambda>vs. retc (hd vs)))\<rparr>;
       h = \<lparr>objs = [10 \<mapsto> \<lparr>own = [js ''X'' \<mapsto> Obj 0], proto = None, is_array = False\<rparr>], fresh = 11\<rparr>
   in fst (eval_ast e (CallExpression (Identifier (js ''id'')) [Identifier (js ''X'')] True) h) = Inr (Obj (ObjectCtor (realm_of e)))"
  by code_simp

lemma sandbox_guards_calls_witness:
  "let c = (\<lambda>f this args. if f = Obj 7 then throwc (Thrown this) else retc undef)
   in run_compiled (demo_env\<lparr>call_fn := c\<rparr>)
        \<lparr>body = [CallExpression (Identifier (js ''x'')) [] False], inputs = None, assignTo = None,
         is_literal = False, is_constant = False\<rparr> =
      run_compiled demo_env
        \<lparr>body = [CallExpression (Identifier (js ''x'')) [] False], inputs = None, assignTo = None,
         is_literal = False, is_constant = False\<rparr>"
proof -
  have "agree_on_safe_calls demo_env (\<lambda>f this args. if f = Obj 7 then throwc (Thrown this) else retc undef)"
    by (auto simp: agree_on_safe_calls_def demo_env_def demo_realm_def)
  from sandbox_guards_calls [OF this] show ?thesis by (simp add: Let_def)
qed

end
