(* ===== verification/NgAssign.thy ===== *)
theory NgAssign
  imports NgInterp
begin

text \<open>
  The setter of a compiled expression and its getter: \<open>assign\<close> of a path of names \<open>x.k1.k2\<close> creates the objects
  that are missing on the way (the \<open>create\<close> argument of \<open>recurse\<close>), writes the value, and touches
  nothing else; evaluating the same expression afterwards gives the value back.
\<close>

section \<open>Paths\<close>

definition path_ast :: "jstring \<Rightarrow> jstring list \<Rightarrow> ast" where
  "path_ast x ks = foldl (\<lambda>ob k. MemberExpression ob (Identifier k) False) (Identifier x) ks"

lemma path_ast_simps [simp]:
  "path_ast x [] = Identifier x" "path_ast x (ks @ [k]) = MemberExpression (path_ast x ks) (Identifier k) False"
  by (simp_all add: path_ast_def)

text \<open>Names that are not special for arrays or for the checks of the interpreter.\<close>

definition plain_name :: "jstring \<Rightarrow> bool" where
  "plain_name k \<longleftrightarrow> k \<noteq> js ''length'' \<and> array_index k = None \<and> k \<noteq> js ''constructor''"

text \<open>The addresses below \<open>fresh\<close> are those in use.\<close>

definition bounded :: "jheap \<Rightarrow> bool" where
  "bounded h \<longleftrightarrow> (\<forall>a\<in>dom (objs h). a < fresh h)"

section \<open>Changes under some names\<close>

text \<open>
  From \<open>h\<close> to \<open>h'\<close> only objects were added, and properties of these names were written.
\<close>

definition changes :: "jstring set \<Rightarrow> jheap \<Rightarrow> jheap \<Rightarrow> bool" where
  "changes K h h' \<longleftrightarrow> bounded h' \<and> fresh h \<le> fresh h' \<and>
     (\<forall>a ob. objs h a = Some ob \<longrightarrow> (\<exists>ob'. objs h' a = Some ob' \<and> proto ob' = proto ob \<and> is_array ob' = is_array ob \<and>
        (\<forall>k. k \<notin> K \<longrightarrow> own ob' k = own ob k)))"

lemma changes_refl: "bounded h \<Longrightarrow> changes K h h"
  by (auto simp: changes_def)

lemma changes_trans:
  assumes "changes K h h1" "changes K' h1 h2"
  shows "changes (K \<union> K') h h2"
proof -
  have "\<exists>ob'. objs h2 a = Some ob' \<and> proto ob' = proto ob \<and> is_array ob' = is_array ob \<and> (\<forall>k. k \<notin> K \<union> K' \<longrightarrow> own ob' k = own ob k)"
    if a: "objs h a = Some ob" for a ob
  proof -
    obtain ob1 where 1: "objs h1 a = Some ob1" "proto ob1 = proto ob" "is_array ob1 = is_array ob" "\<forall>k. k \<notin> K \<longrightarrow> own ob1 k = own ob k"
      using assms(1) a unfolding changes_def by blast
    moreover from 1(1) assms(2) obtain ob2 where
      "objs h2 a = Some ob2" "proto ob2 = proto ob1" "is_array ob2 = is_array ob1" "\<forall>k. k \<notin> K' \<longrightarrow> own ob2 k = own ob1 k"
      unfolding changes_def by blast
    ultimately show ?thesis by auto
  qed
  moreover have "bounded h2" "fresh h \<le> fresh h2"
    using assms unfolding changes_def by (blast, linarith)
  ultimately show ?thesis unfolding changes_def by blast
qed

lemma changes_mono: "changes K h h' \<Longrightarrow> K \<subseteq> K' \<Longrightarrow> changes K' h h'"
  unfolding changes_def by (meson subsetD)

text \<open>A property that is found stays the same under changes of other names.\<close>

lemma chain_get_changes:
  assumes "changes K h h'" "k \<notin> K"
  shows "chain_get n h a k = Some v \<Longrightarrow> n \<le> n' \<Longrightarrow> chain_get n' h' a k = Some v"
proof (induction n arbitrary: a n')
  case (Suc n)
  then obtain m where m: "n' = Suc m" "n \<le> m" by (cases n') auto
  obtain ob where ob: "objs h a = Some ob" using Suc.prems(1) by (auto split: option.splits)
  obtain ob' where ob': "objs h' a = Some ob'" "proto ob' = proto ob" "own ob' k = own ob k"
    using assms ob unfolding changes_def by metis
  show ?case
    using Suc.prems(1) Suc.IH [OF _ m(2)] ob ob' m(1) by (auto split: option.splits)
qed simp

lemma js_get_changes:
  assumes "changes K h h'" "k \<notin> K" "js_get r h v k \<noteq> undef"
  shows "js_get r h' v k = js_get r h v k"
proof -
  have le: "fresh h \<le> fresh h'" using assms(1) by (simp add: changes_def)
  have g: "obj_get h' a k = Some x" if "obj_get h a k = Some x" for a x
    using that chain_get_changes [OF assms(1,2) _ le] unfolding obj_get_def by blast
  show ?thesis
    using assms(3) g by (auto simp: js_get_def split: jval.splits prim.splits option.splits)
qed

section \<open>Writing and creating\<close>

lemma put_plain: "plain_name k \<Longrightarrow> put ob k x = Some (ob\<lparr>own := (own ob)(k \<mapsto> x)\<rparr>)"
  by (simp add: put_def plain_name_def)

lemma js_set_plain:
  assumes "plain_name k" "bounded h" "js_set v k x h = (Inr u, h')"
  shows "changes {k} h h'" "js_get r h' v k = x" "\<exists>a. v = Obj a"
proof -
  obtain a ob where a: "v = Obj a" "objs h a = Some ob" "h' = h\<lparr>objs := (objs h)(a \<mapsto> ob\<lparr>own := (own ob)(k \<mapsto> x)\<rparr>)\<rparr>"
    using assms(1,3) by (auto simp: js_set_def put_plain split: jval.splits option.splits)
  show "changes {k} h h'"
    using a assms(2) by (auto simp: changes_def bounded_def)
  have "a < fresh h" using a(2) assms(2) by (auto simp: bounded_def)
  then have "fresh h' \<noteq> 0" using a(3) by simp
  then obtain n where "fresh h' = Suc n" by (cases "fresh h'") auto
  then show "js_get r h' v k = x" by (simp add: js_get_def obj_get_def a)
  show "\<exists>a. v = Obj a" using a by simp
qed

lemma new_obj_changes: "bounded h \<Longrightarrow> new_obj ob h = (r, h') \<Longrightarrow> changes {} h h'"
proof -
  assume b: "bounded h" and n: "new_obj ob h = (r, h')"
  have h': "h' = h\<lparr>objs := (objs h)(fresh h \<mapsto> ob), fresh := Suc (fresh h)\<rparr>" using n by (simp add: new_obj_def)
  have "objs h (fresh h) = None" using b by (auto simp: bounded_def)
  then have "objs h' a = Some x" if "objs h a = Some x" for a x using that by (auto simp: h')
  moreover have "bounded h'" using b by (auto simp: bounded_def h' less_SucI)
  ultimately show "changes {} h h'" by (simp add: changes_def h')
qed

lemma create_member_changes:
  assumes "plain_name k" "bounded h" "create_member e v k h = (Inr u, h')"
  shows "changes {k} h h'"
proof (cases "truthy v \<and> \<not> truthy (js_get (realm_of e) h v k)")
  case True
  obtain ob h1 where 1: "new_object (realm_of e) Map.empty h = (Inr ob, h1)"
    by (auto simp: new_object_def new_obj_def)
  with assms(3) True have 2: "js_set v k ob h1 = (Inr u, h')"
    by (simp add: create_member_def bindc_def readc_def)
  have c: "changes {} h h1" using new_obj_changes [OF assms(2)] 1 unfolding new_object_def by blast
  then have "changes {k} h1 h'" using js_set_plain(1) [OF assms(1) _ 2] by (simp add: changes_def)
  with changes_trans [OF c] show ?thesis by simp
next
  case False
  then have "h' = h" using assms(3) by (auto simp: create_member_def bindc_def readc_def retc_def)
  then show ?thesis using assms(2) by (simp add: changes_refl)
qed

section \<open>Following a path\<close>

text \<open>The object the path of \<open>x # ks\<close> leads to, read without creating anything.\<close>

definition read_path :: "env \<Rightarrow> jheap \<Rightarrow> jstring \<Rightarrow> jstring list \<Rightarrow> jval" where
  "read_path e h x ks = foldl (\<lambda>v k. if nullish v then undef else js_get (realm_of e) h v k)
     (if truthy (scope e) then js_get (realm_of e) h (scope e) x else undef) ks"

lemma read_path_simps [simp]:
  "read_path e h x [] = (if truthy (scope e) then js_get (realm_of e) h (scope e) x else undef)"
  "read_path e h x (ks @ [k]) = (if nullish (read_path e h x ks) then undef else js_get (realm_of e) h (read_path e h x ks) k)"
  by (simp_all add: read_path_def)

lemma nullish_undef [simp]: "nullish undef"
  by (simp add: nullish_def undef_def)

lemma read_path_changes:
  assumes "changes K h h'" "set (x # ks) \<inter> K = {}" "read_path e h x ks \<noteq> undef"
  shows "read_path e h' x ks = read_path e h x ks"
  using assms(2,3)
proof (induction ks rule: rev_induct)
  case Nil
  then show ?case using js_get_changes [OF assms(1), of x "realm_of e" "scope e"] by (auto split: if_splits)
next
  case (snoc k ks)
  then have ne: "\<not> nullish (read_path e h x ks)" by auto
  then have "read_path e h x ks \<noteq> undef" by auto
  with snoc have "read_path e h' x ks = read_path e h x ks" by auto
  with snoc.prems ne js_get_changes [OF assms(1), of k "realm_of e" "read_path e h x ks"] show ?case by auto
qed

text \<open>Evaluating a path reads it.\<close>

definition quiet_env :: "env \<Rightarrow> bool" where
  "quiet_env e \<longleftrightarrow> locals e = undef \<and> \<not> expensiveChecks e"

lemma falsy_undef [simp]: "\<not> truthy undef"
  by (simp add: truthy_def undef_def)

lemma eval_path:
  assumes "quiet_env e" "js ''constructor'' \<notin> set (x # ks)"
  shows "bindc (recurse e NoCreate (path_ast x ks)) (\<lambda>y. retc (value_of y)) h = (Inr (read_path e h x ks), h)"
proof -
  have "\<exists>y. recurse e NoCreate (path_ast x ks) h = (Inr y, h) \<and> value_of y = read_path e h x ks"
    using assms(2)
  proof (induction ks rule: rev_induct)
    case Nil
    then show ?case using assms(1)
      by (auto simp: identifier_ref_def quiet_env_def isPossiblyDangerousMemberName_def in_locals_def bindc_def readc_def retc_def Let_def)
  next
    case (snoc k ks)
    then obtain y where "recurse e NoCreate (path_ast x ks) h = (Inr y, h)" "value_of y = read_path e h x ks" by auto
    with snoc.prems assms(1) show ?case
      by (auto simp: nonComputedMember_def create_left_def quiet_env_def isPossiblyDangerousMemberName_def bindc_def readc_def retc_def)
  qed
  then show ?thesis by (auto simp: bindc_def retc_def)
qed

text \<open>With \<open>create\<close>, what is missing is made; afterwards the path can be read.\<close>

lemma create_path:
  assumes "quiet_env e" "bounded h" "distinct (x # ks)" "\<forall>k\<in>set (x # ks). plain_name k"
    and "recurse e CreateAll (path_ast x ks) h = (Inr y, h')"
  shows "changes (set (x # ks)) h h' \<and> (value_of y \<noteq> undef \<longrightarrow> read_path e h' x ks = value_of y)"
  using assms(3-5)
proof (induction ks arbitrary: y h' rule: rev_induct)
  case Nil
  obtain u h1 where c: "create_member e (scope e) x h = (u, h1)" by fastforce
  have cr: "u = Inr ()" "h' = h1" "value_of y = (if truthy (scope e) then js_get (realm_of e) h1 (scope e) x else undef)"
    using Nil.prems assms(1) c
    by (auto simp: identifier_ref_def quiet_env_def isPossiblyDangerousMemberName_def plain_name_def in_locals_def
        bindc_def readc_def retc_def Let_def split: sum.splits)
  with create_member_changes [OF _ assms(2), of x e "scope e" "()" h1] c Nil.prems show ?case by simp
next
  case (snoc k ks)
  obtain z h1 where z: "recurse e CreateAll (path_ast x ks) h = (Inr z, h1)"
    using snoc.prems(3) by (auto simp: bindc_def create_left_def split: prod.splits sum.splits)
  have ih: "changes (set (x # ks)) h h1" "value_of z \<noteq> undef \<Longrightarrow> read_path e h1 x ks = value_of z"
    using snoc.IH [OF _ _ z] snoc.prems by auto
  then have b: "bounded h1" by (simp add: changes_def)
  obtain u h2 where c: "create_member e (value_of z) k h1 = (u, h2)" by fastforce
  have n: "nonComputedMember e (value_of z) k CreateAll h1 = (Inr y, h')"
    using snoc.prems(3) z by (simp add: bindc_def create_left_def)
  then have cr: "u = Inr ()" "h' = h2" "value_of y = (if nullish (value_of z) then undef else js_get (realm_of e) h2 (value_of z) k)"
    using assms(1) c snoc.prems(2)
    by (auto simp: nonComputedMember_def quiet_env_def isPossiblyDangerousMemberName_def plain_name_def
        bindc_def readc_def retc_def checkc_def split: sum.splits prod.splits option.splits)
  have ch: "changes {k} h1 h2"
    using create_member_changes [OF _ b] c cr(1) snoc.prems(2) by simp
  have "changes (set (x # ks @ [k])) h h'"
    using changes_trans [OF ih(1) ch] cr(2) by (simp add: insert_commute)
  moreover have "read_path e h' x (ks @ [k]) = value_of y" if "value_of y \<noteq> undef"
  proof -
    have nn: "\<not> nullish (value_of z)" using that cr(3) by auto
    then have "value_of z \<noteq> undef" by auto
    then have r: "read_path e h1 x ks = value_of z" by (rule ih(2))
    have "read_path e h2 x ks = value_of z"
      using read_path_changes [OF ch, of x ks e] r \<open>value_of z \<noteq> undef\<close> snoc.prems(1) by auto
    with nn cr show ?thesis by simp
  qed
  ultimately show ?case by simp
qed

section \<open>Properties\<close>

lemma assign_ref_write:
  assumes "assign_ref e lhs v h = (Inr w, h')"
  shows "w = v \<and> js_set (context_of lhs) (case name_of lhs of Some k \<Rightarrow> k | None \<Rightarrow> js ''undefined'') v h = (Inr (), h')"
  using assms by (auto simp: assign_ref_def bindc_def checkc_def safe_object_def retc_def split: sum.splits option.splits prod.splits)

text \<open>The last step of the setter's path: its context is read as before, and nothing was written to it yet.\<close>

lemma assign_target:
  assumes "quiet_env e" "bounded h" "distinct (x # ks)" "\<forall>k\<in>set (x # ks). plain_name k"
    and "recurse e CreateLast (path_ast x ks) h = (Inr lhs, h1)"
  shows "changes (set (butlast (x # ks))) h h1 \<and> name_of lhs = Some (last (x # ks)) \<and>
    (context_of lhs \<noteq> undef \<longrightarrow> context_of lhs = (if ks = [] then scope e else read_path e h1 x (butlast ks)))"
proof (cases ks rule: rev_cases)
  case Nil
  then show ?thesis using assms
    by (auto simp: identifier_ref_def quiet_env_def isPossiblyDangerousMemberName_def plain_name_def in_locals_def
        bindc_def readc_def retc_def Let_def changes_refl)
next
  case (snoc js k)
  obtain z h2 where z: "recurse e CreateAll (path_ast x js) h = (Inr z, h2)"
    using assms(5) snoc by (auto simp: bindc_def create_left_def split: prod.splits sum.splits)
  have p: "changes (set (x # js)) h h2" "value_of z \<noteq> undef \<longrightarrow> read_path e h2 x js = value_of z"
    using create_path [OF assms(1,2) _ _ z] assms(3,4) snoc by auto
  have "h1 = h2" "context_of lhs = value_of z" "name_of lhs = Some k"
    using assms(1,4,5) z snoc
    by (auto simp: nonComputedMember_def quiet_env_def isPossiblyDangerousMemberName_def plain_name_def create_left_def
        bindc_def readc_def retc_def)
  with p snoc show ?thesis by (auto simp: butlast_append)
qed

text \<open>
  C19. The setter of an expression and its getter agree. For a path of different names (none of them \<open>length\<close>,
  an index or \<open>constructor\<close>, which arrays and the checks treat specially), without locals and without
  expensive checks: when assigning a value to it succeeds, then evaluating it afterwards gives that value
  and changes nothing; and the assignment has changed no other property of any object there was, though it may
  have created the objects that were missing on the way.
\<close>

theorem assigned_value_is_read:
  assumes "compile_body e [path_ast x ks] = Inr fn" "assign_compiled e fn v = Some m" "m h = (Inr w, h')"
    and "locals e = undef" "\<not> expensiveChecks e" "\<forall>a\<in>dom (objs h). a < fresh h"
    and "distinct (x # ks)" "\<forall>k\<in>set (x # ks). plain_name k"
  shows "w = v \<and> run_compiled e fn h' = (Inr v, h') \<and>
    (\<forall>a ob. objs h a = Some ob \<longrightarrow> (\<exists>ob'. objs h' a = Some ob' \<and> proto ob' = proto ob \<and>
       (\<forall>k. k \<notin> set (x # ks) \<longrightarrow> own ob' k = own ob k)))"
proof -
  have q: "quiet_env e" "bounded h" using assms(4-6) by (simp_all add: quiet_env_def bounded_def)
  have fn: "body fn = [path_ast x ks]" "assignTo fn = assignableAST [path_ast x ks]"
    using assms(1) by (auto simp: compile_body_def split: option.splits)
  then have "assignTo fn = Some (path_ast x ks)"
    using assms(2) by (auto simp: assign_compiled_def assignableAST_def split: if_splits)
  then have m: "m = bindc (recurse e CreateLast (path_ast x ks)) (\<lambda>lhs. assign_ref e lhs v)"
    using assms(2) by (simp add: assign_compiled_def)
  then obtain lhs h1 where 1: "recurse e CreateLast (path_ast x ks) h = (Inr lhs, h1)" "assign_ref e lhs v h1 = (Inr w, h')"
    using assms(3) by (auto simp: bindc_def split: prod.splits sum.splits)
  let ?k = "last (x # ks)"
  have t: "changes (set (butlast (x # ks))) h h1" "name_of lhs = Some ?k"
    "context_of lhs \<noteq> undef \<longrightarrow> context_of lhs = (if ks = [] then scope e else read_path e h1 x (butlast ks))"
    using assign_target [OF q assms(7,8) 1(1)] by auto
  have w: "w = v" "js_set (context_of lhs) ?k v h1 = (Inr (), h')"
    using assign_ref_write [OF 1(2)] t(2) by auto
  have pk: "plain_name ?k" using assms(8) last_in_set [of "x # ks"] by blast
  have b1: "bounded h1" using t(1) by (simp add: changes_def)
  note s = js_set_plain [OF pk b1 w(2)]
  from s(3) obtain a where a: "context_of lhs = Obj a" ..
  then have ctx: "Obj a = (if ks = [] then scope e else read_path e h1 x (butlast ks))" using t(3) by (simp add: undef_def)
  have r: "read_path e h' x ks = v"
  proof (cases ks rule: rev_cases)
    case Nil
    with ctx have "scope e = Obj a" by simp
    then show ?thesis using s(2) a Nil by (simp add: truthy_def)
  next
    case (snoc js k)
    then have "read_path e h1 x js = Obj a" using ctx by simp
    moreover have "set (x # js) \<inter> {k} = {}" using assms(7) snoc by auto
    ultimately have "read_path e h' x js = Obj a"
      using read_path_changes [OF s(1), of x js e] snoc by (simp add: undef_def)
    then show ?thesis using s(2) [of "realm_of e"] a snoc by (simp add: nullish_def)
  qed
  have "js ''constructor'' \<notin> set (x # ks)" using assms(8) by (auto simp: plain_name_def)
  from eval_path [OF q(1) this, of h'] r have "run_compiled e fn h' = (Inr v, h')"
    by (simp add: run_compiled_def fn eval_ast_def)
  moreover have "changes (set (x # ks)) h h'"
    using changes_mono [OF changes_trans [OF t(1) s(1)], of "set (x # ks)"] last_in_set [of "x # ks"]
      in_set_butlastD [of _ "x # ks"] by blast
  ultimately show ?thesis using w(1) unfolding changes_def by blast
qed

text \<open>\<open>x.y = 7\<close> where \<open>x\<close> is not there yet: an object is created in the scope.\<close>

definition closed_heap :: jheap where
  "closed_heap = \<lparr>objs = [2 \<mapsto> \<lparr>own = Map.empty, proto = None, is_array = False\<rparr>, 3 \<mapsto> \<lparr>own = Map.empty, proto = Some 2, is_array = False\<rparr>,
     10 \<mapsto> \<lparr>own = Map.empty, proto = Some 2, is_array = False\<rparr>], fresh = 11\<rparr>"

lemma assigned_value_is_read_witness:
  "\<exists>fn m h'. compile_body demo_env [path_ast (js ''x'') [js ''y'']] = Inr fn \<and> assign_compiled demo_env fn (js_nat 7) = Some m \<and>
     m closed_heap = (Inr (js_nat 7), h') \<and> run_compiled demo_env fn h' = (Inr (js_nat 7), h')"
proof -
  let ?a = "path_ast (js ''x'') [js ''y'']"
  let ?fn = "\<lparr>body = [?a], inputs = None, assignTo = Some ?a, is_literal = False, is_constant = False\<rparr>"
  have a: "?a = MemberExpression (Identifier (js ''x'')) (Identifier (js ''y'')) False" by (simp add: path_ast_def)
  have c: "compile_body demo_env [?a] = Inr ?fn"
    unfolding a by (simp add: compile_body_def first_error_def Let_def ensureSafeMemberName_def forbidden_names_def js_def
        getInputs_def assignableAST_def isAssignable_def isLiteral_def isConstant_def demo_env_def)
  obtain m where m: "assign_compiled demo_env ?fn (js_nat 7) = Some m" "m = bindc (recurse demo_env CreateLast ?a) (\<lambda>lhs. assign_ref demo_env lhs (js_nat 7))"
    by (simp add: assign_compiled_def)
  have "fst (bindc (recurse demo_env CreateLast ?a) (\<lambda>lhs. assign_ref demo_env lhs (js_nat 7)) closed_heap) = Inr (js_nat 7)"
    by code_simp
  then obtain h' where h': "m closed_heap = (Inr (js_nat 7), h')" using m(2) by (metis prod.collapse)
  have "plain_name (js ''x'')" "plain_name (js ''y'')" by code_simp+
  moreover have "\<forall>b\<in>dom (objs closed_heap). b < fresh closed_heap" by (auto simp: closed_heap_def split: if_splits)
  ultimately have "run_compiled demo_env ?fn h' = (Inr (js_nat 7), h')"
    using assigned_value_is_read [OF c m(1) h'] by (simp add: demo_env_def js_def)
  with c m(1) h' show ?thesis by blast
qed

end
