(* ===== verification/NgScope.thy ===== *)
theory NgScope
  imports Prelude "HOL-Library.AList"
begin

text \<open>
  The scopes of Angular: \<open>$RootScopeProvider\<close> in \<open>assets/public/components/angular/angular.js\<close>. The
  scopes, the watchers and the arrays that hold watchers and listeners are objects in stores, because
  the loops hold on to arrays that callbacks change. A callback is a number; what it does is a
  field of \<open>env\<close>, a function of the whole state. The data on the scopes and its inheritance along
  prototypes are the abstract \<open>data\<close>.
\<close>

section \<open>State\<close>

record 'v watcher =
  get :: nat
  fn :: nat
  last_value :: "'v option"
  eq :: bool

text \<open>A listener is a callback or the one \<open>$new\<close> registers; \<open>None\<close> is a slot of a deregistered one.\<close>

datatype listener = Callback nat | DestroyChildScope

record scope =
  parent :: "nat option"
  prevSibling :: "nat option"
  nextSibling :: "nat option"
  childHead :: "nat option"
  childTail :: "nat option"
  inherits :: "nat option"
  own_destroyed :: bool
  disabled :: bool
  watchers :: "nat option"
  watchersCount :: int
  listeners :: "string \<rightharpoonup> nat"
  listenerCount :: "(string \<times> int) list"

datatype deferral = DigestAsyncQueue | ApplyFlush

record ('m, 'v) root =
  scopes :: "nat \<rightharpoonup> scope"
  watcher_objs :: "nat \<rightharpoonup> 'v watcher"
  warrays :: "nat \<Rightarrow> nat list"
  larrays :: "nat \<Rightarrow> listener option list"
  uid :: nat
  lastDirtyWatch :: "nat option"
  asyncQueue :: "(nat \<times> nat) list"
  postDigestQueue :: "nat list"
  applyAsyncQueue :: "(nat \<times> nat) list"
  applyAsyncId :: "nat option"
  deferrals :: "(nat \<times> deferral) list"
  phase :: "string option"
  exceptions :: nat
  data :: 'm

record event =
  event_name :: string
  targetScope :: nat
  currentScope :: "nat option"
  defaultPrevented :: bool
  stopPropagation :: bool

text \<open>
  The callbacks: the getter of a watch, its listener, an expression, an event listener. Each returns
  whether it threw. \<open>same\<close> is \<open>===\<close> or both \<open>NaN\<close>.
\<close>

record ('m, 'v) env =
  get_of :: "nat \<Rightarrow> nat \<Rightarrow> ('m, 'v) root \<Rightarrow> 'v option \<times> ('m, 'v) root"
  fn_of :: "nat \<Rightarrow> 'v \<Rightarrow> 'v \<Rightarrow> nat \<Rightarrow> ('m, 'v) root \<Rightarrow> bool \<times> ('m, 'v) root"
  expr_of :: "nat \<Rightarrow> nat \<Rightarrow> ('m, 'v) root \<Rightarrow> bool \<times> ('m, 'v) root"
  listener_of :: "nat \<Rightarrow> event \<Rightarrow> ('m, 'v) root \<Rightarrow> bool \<times> event \<times> ('m, 'v) root"
  same :: "'v \<Rightarrow> 'v \<Rightarrow> bool"
  equals :: "('m, 'v) root \<Rightarrow> 'v \<Rightarrow> 'v \<Rightarrow> bool"
  copy :: "'v \<Rightarrow> ('m, 'v) root \<Rightarrow> 'v \<times> ('m, 'v) root"
  checkUrlChange :: "('m, 'v) root \<Rightarrow> ('m, 'v) root"

definition new_scope :: scope where
  "new_scope = \<lparr>parent = None, prevSibling = None, nextSibling = None, childHead = None, childTail = None,
     inherits = None, own_destroyed = False, disabled = False, watchers = None, watchersCount = 0,
     listeners = Map.empty, listenerCount = []\<rparr>"

text \<open>Reading and updating the scope object \<open>s\<close>.\<close>

definition scope_of :: "('m, 'v) root \<Rightarrow> nat \<Rightarrow> scope" where
  "scope_of r s = (case scopes r s of Some sc \<Rightarrow> sc | None \<Rightarrow> new_scope)"

definition upd :: "nat \<Rightarrow> (scope \<Rightarrow> scope) \<Rightarrow> ('m, 'v) root \<Rightarrow> ('m, 'v) root" where
  "upd s f r = r\<lparr>scopes := (scopes r)(s := map_option f (scopes r s))\<rparr>"

definition upd_opt :: "nat option \<Rightarrow> (scope \<Rightarrow> scope) \<Rightarrow> ('m, 'v) root \<Rightarrow> ('m, 'v) root" where
  "upd_opt so f r = (case so of None \<Rightarrow> r | Some s \<Rightarrow> upd s f r)"

definition exceptionHandler :: "('m, 'v) root \<Rightarrow> ('m, 'v) root" where
  "exceptionHandler r = r\<lparr>exceptions := Suc (exceptions r)\<rparr>"

definition handle :: "bool \<times> ('m, 'v) root \<Rightarrow> ('m, 'v) root" where
  "handle res = (if fst res then exceptionHandler (snd res) else snd res)"

text \<open>
  A scope and its parents. A parent is created before its children, so the chain is no longer than
  the number of identifiers given out.
\<close>

fun chain :: "nat \<Rightarrow> ('m, 'v) root \<Rightarrow> nat \<Rightarrow> nat list" where
  "chain 0 r s = []"
| "chain (Suc n) r s = s # (case parent (scope_of r s) of None \<Rightarrow> [] | Some p \<Rightarrow> chain n r p)"

definition ancestors :: "('m, 'v) root \<Rightarrow> nat \<Rightarrow> nat list" where
  "ancestors r s = chain (uid r) r s"

text \<open>A scope that is not isolated inherits \<open>$$destroyed\<close> and the disabled methods from its prototype.\<close>

fun inherited :: "nat \<Rightarrow> (scope \<Rightarrow> bool) \<Rightarrow> ('m, 'v) root \<Rightarrow> nat \<Rightarrow> bool" where
  "inherited 0 f r s = False"
| "inherited (Suc n) f r s =
     (f (scope_of r s) \<or> (case inherits (scope_of r s) of None \<Rightarrow> False | Some p \<Rightarrow> inherited n f r p))"

definition is_destroyed :: "('m, 'v) root \<Rightarrow> nat \<Rightarrow> bool" where
  "is_destroyed r s = inherited (uid r) own_destroyed r s"

definition is_disabled :: "('m, 'v) root \<Rightarrow> nat \<Rightarrow> bool" where
  "is_disabled r s = inherited (uid r) disabled r s"

section \<open>Counts\<close>

definition incrementWatchersCount :: "nat \<Rightarrow> int \<Rightarrow> ('m, 'v) root \<Rightarrow> ('m, 'v) root" where
  "incrementWatchersCount s n r =
     fold (\<lambda>c. upd c (\<lambda>sc. sc\<lparr>watchersCount := watchersCount sc + n\<rparr>)) (ancestors r s) r"

text \<open>\<open>listenerCount[name]\<close>, where an absent entry counts as none.\<close>

definition count_of :: "scope \<Rightarrow> string \<Rightarrow> int" where
  "count_of sc name = (case map_of (listenerCount sc) name of None \<Rightarrow> 0 | Some n \<Rightarrow> n)"

definition decrementListenerCount :: "nat \<Rightarrow> int \<Rightarrow> string \<Rightarrow> ('m, 'v) root \<Rightarrow> ('m, 'v) root" where
  "decrementListenerCount s n name r =
     fold (\<lambda>c. upd c (\<lambda>sc. sc\<lparr>listenerCount :=
             (if count_of sc name - n = 0 then AList.delete name (listenerCount sc)
              else AList.update name (count_of sc name - n) (listenerCount sc))\<rparr>))
       (ancestors r s) r"

section \<open>Events\<close>

definition listener_array :: "nat \<Rightarrow> string \<Rightarrow> ('m, 'v) root \<Rightarrow> nat \<times> ('m, 'v) root" where
  "listener_array s name r =
     (case listeners (scope_of r s) name of
        Some a \<Rightarrow> (a, r)
      | None \<Rightarrow> (uid r, upd s (\<lambda>sc. sc\<lparr>listeners := (listeners sc)(name \<mapsto> uid r)\<rparr>)
                         (r\<lparr>uid := Suc (uid r), larrays := (larrays r)(uid r := [])\<rparr>)))"

definition incrementListenerCount :: "nat \<Rightarrow> string \<Rightarrow> ('m, 'v) root \<Rightarrow> ('m, 'v) root" where
  "incrementListenerCount s name r =
     fold (\<lambda>c. upd c (\<lambda>sc. sc\<lparr>listenerCount := AList.update name (count_of sc name + 1) (listenerCount sc)\<rparr>))
       (ancestors r s) r"

text \<open>\<open>$on\<close> returns the array its deregistration function looks in.\<close>

definition on_scope :: "nat \<Rightarrow> string \<Rightarrow> listener \<Rightarrow> ('m, 'v) root \<Rightarrow> nat option \<times> ('m, 'v) root" where
  "on_scope s name l r =
     (if is_disabled r s then (None, r)
      else case listener_array s name r of
             (a, r) \<Rightarrow> (Some a, incrementListenerCount s name (r\<lparr>larrays := (larrays r)(a := larrays r a @ [Some l])\<rparr>)))"

fun index_of :: "'a \<Rightarrow> 'a list \<Rightarrow> nat option" where
  "index_of x [] = None"
| "index_of x (y # ys) = (if x = y then Some 0 else map_option Suc (index_of x ys))"

definition deregister_listener :: "nat \<Rightarrow> string \<Rightarrow> nat \<Rightarrow> listener \<Rightarrow> ('m, 'v) root \<Rightarrow> ('m, 'v) root" where
  "deregister_listener s name a l r =
     (case index_of (Some l) (larrays r a) of
        None \<Rightarrow> r
      | Some i \<Rightarrow> decrementListenerCount s 1 name (r\<lparr>larrays := (larrays r)(a := (larrays r a)[i := None])\<rparr>))"

definition call_listener ::
  "('m, 'v) env \<Rightarrow> listener \<Rightarrow> event \<Rightarrow> ('m, 'v) root \<Rightarrow> event \<times> ('m, 'v) root" where
  "call_listener e l ev r =
     (case l of
        DestroyChildScope \<Rightarrow> (ev, upd_opt (currentScope ev) (\<lambda>sc. sc\<lparr>own_destroyed := True\<rparr>) r)
      | Callback c \<Rightarrow> (case listener_of e c ev r of (threw, ev', r') \<Rightarrow> (ev', handle (threw, r'))))"

text \<open>The loop over the listeners of one scope: \<open>i\<close> and \<open>len\<close> are the code's \<open>i\<close> and \<open>length\<close>.\<close>

function fire :: "('m, 'v) env \<Rightarrow> nat \<Rightarrow> nat \<Rightarrow> nat \<Rightarrow> event \<Rightarrow> ('m, 'v) root \<Rightarrow> event \<times> ('m, 'v) root" where
  "fire e a i len ev r =
     (if i \<ge> len then (ev, r)
      else case (if i < length (larrays r a) then larrays r a ! i else None) of
             None \<Rightarrow> fire e a i (len - 1) ev
                       (r\<lparr>larrays := (larrays r)(a := take i (larrays r a) @ drop (Suc i) (larrays r a))\<rparr>)
           | Some l \<Rightarrow> (case call_listener e l ev r of (ev', r') \<Rightarrow> fire e a (Suc i) len ev' r'))"
  by pat_completeness auto
termination by (relation "measure (\<lambda>(e, a, i, len, ev, r). len - i)") auto

declare fire.simps [simp del]

definition fire_at :: "('m, 'v) env \<Rightarrow> nat \<Rightarrow> event \<Rightarrow> ('m, 'v) root \<Rightarrow> event \<times> ('m, 'v) root" where
  "fire_at e s ev r =
     (let ev = ev\<lparr>currentScope := Some s\<rparr>
      in case listeners (scope_of r s) (event_name ev) of
           None \<Rightarrow> (ev, r)
         | Some a \<Rightarrow> fire e a 0 (length (larrays r a)) ev r)"

definition new_event :: "string \<Rightarrow> nat \<Rightarrow> event" where
  "new_event name s = \<lparr>event_name = name, targetScope = s, currentScope = None, defaultPrevented = False, stopPropagation = False\<rparr>"

text \<open>A loop that calls back may go on for ever: the fuel bounds the scopes it visits.\<close>

fun emit_from :: "('m, 'v) env \<Rightarrow> nat \<Rightarrow> nat \<Rightarrow> event \<Rightarrow> ('m, 'v) root \<Rightarrow> (event \<times> ('m, 'v) root) option" where
  "emit_from e 0 s ev r = None"
| "emit_from e (Suc n) s ev r =
     (case fire_at e s ev r of (ev, r) \<Rightarrow>
        if stopPropagation ev then Some (ev\<lparr>currentScope := None\<rparr>, r)
        else (case parent (scope_of r s) of
                None \<Rightarrow> Some (ev\<lparr>currentScope := None\<rparr>, r)
              | Some p \<Rightarrow> emit_from e n p ev r))"

definition emit :: "('m, 'v) env \<Rightarrow> nat \<Rightarrow> nat \<Rightarrow> string \<Rightarrow> ('m, 'v) root \<Rightarrow> (event \<times> ('m, 'v) root) option" where
  "emit e fuel s name r = emit_from e fuel s (new_event name s) r"

section \<open>Traversal\<close>

text \<open>
  The next scope of a depth-first traversal below \<open>target\<close>, where \<open>down\<close> tells whether to go to the
  children. Climbing from a scope that was cleaned up reads a property of null.
\<close>

datatype step = Stop | Visit nat | Crash

fun climb :: "nat \<Rightarrow> ('m, 'v) root \<Rightarrow> nat \<Rightarrow> nat \<Rightarrow> step" where
  "climb 0 r target s = Crash"
| "climb (Suc n) r target s =
     (if s = target then Stop
      else case nextSibling (scope_of r s) of
             Some x \<Rightarrow> Visit x
           | None \<Rightarrow> (case parent (scope_of r s) of None \<Rightarrow> Crash | Some p \<Rightarrow> climb n r target p))"

definition next_scope :: "('m, 'v) root \<Rightarrow> nat \<Rightarrow> nat \<Rightarrow> bool \<Rightarrow> step" where
  "next_scope r target s down =
     (case (if down then childHead (scope_of r s) else None) of
        Some c \<Rightarrow> Visit c
      | None \<Rightarrow> climb (uid r) r target s)"

datatype outcome = Finished | Infdig | InProgress | NullDereference

fun broadcast_from ::
  "('m, 'v) env \<Rightarrow> nat \<Rightarrow> nat \<Rightarrow> nat \<Rightarrow> event \<Rightarrow> ('m, 'v) root \<Rightarrow> (outcome \<times> event \<times> ('m, 'v) root) option" where
  "broadcast_from e 0 target s ev r = None"
| "broadcast_from e (Suc n) target s ev r =
     (case fire_at e s ev r of (ev, r) \<Rightarrow>
        (case next_scope r target s (count_of (scope_of r s) (event_name ev) \<noteq> 0) of
           Stop \<Rightarrow> Some (Finished, ev\<lparr>currentScope := None\<rparr>, r)
         | Crash \<Rightarrow> Some (NullDereference, ev, r)
         | Visit c \<Rightarrow> broadcast_from e n target c ev r))"

definition broadcast ::
  "('m, 'v) env \<Rightarrow> nat \<Rightarrow> nat \<Rightarrow> string \<Rightarrow> ('m, 'v) root \<Rightarrow> (outcome \<times> event \<times> ('m, 'v) root) option" where
  "broadcast e fuel s name r =
     (if count_of (scope_of r s) name = 0 then Some (Finished, new_event name s, r)
      else broadcast_from e fuel s s (new_event name s) r)"

section \<open>Creating and destroying scopes\<close>

definition alloc_child :: "nat \<Rightarrow> bool \<Rightarrow> nat \<Rightarrow> ('m, 'v) root \<Rightarrow> ('m, 'v) root" where
  "alloc_child this isolate p r =
     r\<lparr>scopes := (scopes r)(uid r \<mapsto> new_scope\<lparr>inherits := if isolate then None else Some this,
                                              parent := Some p, prevSibling := childTail (scope_of r p)\<rparr>),
       uid := Suc (uid r)\<rparr>"

definition link_child :: "nat \<Rightarrow> nat \<Rightarrow> ('m, 'v) root \<Rightarrow> ('m, 'v) root" where
  "link_child p child r =
     (if childHead (scope_of r p) \<noteq> None
      then upd p (\<lambda>sc. sc\<lparr>childTail := Some child\<rparr>)
             (upd_opt (childTail (scope_of r p)) (\<lambda>sc. sc\<lparr>nextSibling := Some child\<rparr>) r)
      else upd p (\<lambda>sc. sc\<lparr>childHead := Some child, childTail := Some child\<rparr>) r)"

definition scope_new :: "nat \<Rightarrow> bool \<Rightarrow> nat option \<Rightarrow> ('m, 'v) root \<Rightarrow> nat \<times> ('m, 'v) root" where
  "scope_new this isolate par r =
     (let p = (case par of None \<Rightarrow> this | Some p \<Rightarrow> p);
          child = uid r;
          r = link_child p child (alloc_child this isolate p r)
      in (child, if isolate \<or> p \<noteq> this then snd (on_scope child ''$destroy'' DestroyChildScope r) else r))"

definition cleanUpScope :: "nat \<Rightarrow> ('m, 'v) root \<Rightarrow> ('m, 'v) root" where
  "cleanUpScope s = upd s (\<lambda>sc. sc\<lparr>parent := None, nextSibling := None, prevSibling := None,
                                   childHead := None, childTail := None, watchers := None\<rparr>)"

text \<open>
  Unlinking, after the broadcast: the counts of the scope are taken off its ancestors, and off its own.
\<close>

definition unlink :: "nat \<Rightarrow> ('m, 'v) root \<Rightarrow> ('m, 'v) root" where
  "unlink s r =
     (let sc = scope_of r s;
          r = (if parent sc \<noteq> None \<and> childHead (scope_of r (the (parent sc))) = Some s
               then upd_opt (parent sc) (\<lambda>p. p\<lparr>childHead := nextSibling sc\<rparr>) r else r);
          r = (if parent sc \<noteq> None \<and> childTail (scope_of r (the (parent sc))) = Some s
               then upd_opt (parent sc) (\<lambda>p. p\<lparr>childTail := prevSibling sc\<rparr>) r else r);
          r = upd_opt (prevSibling sc) (\<lambda>p. p\<lparr>nextSibling := nextSibling sc\<rparr>) r;
          r = upd_opt (nextSibling sc) (\<lambda>n. n\<lparr>prevSibling := prevSibling sc\<rparr>) r
      in upd s (\<lambda>sc. sc\<lparr>disabled := True, listeners := Map.empty, nextSibling := None\<rparr>) r)"

definition scope_destroy ::
  "('m, 'v) env \<Rightarrow> nat \<Rightarrow> nat \<Rightarrow> ('m, 'v) root \<Rightarrow> (outcome \<times> ('m, 'v) root) option" where
  "scope_destroy e fuel s r =
     (if is_disabled r s \<or> is_destroyed r s then Some (Finished, r)
      else case broadcast e fuel s ''$destroy'' r of
             None \<Rightarrow> None
           | Some (out, ev, r) \<Rightarrow>
               if out \<noteq> Finished then Some (out, r)
               else let r = upd s (\<lambda>sc. sc\<lparr>own_destroyed := True\<rparr>) r;
                        r = incrementWatchersCount s (- watchersCount (scope_of r s)) r;
                        r = fold (\<lambda>name r. decrementListenerCount s (count_of (scope_of r s) name) name r)
                              (map fst (listenerCount (scope_of r s))) r
                    in Some (Finished, cleanUpScope s (unlink s r)))"

section \<open>Watches\<close>

text \<open>
  \<open>$watch\<close> with an expression that has no watch delegate; \<open>None\<close> is a listener that is not a
  function, which the callback number \<open>noop\<close> stands for.
\<close>

definition watcher_array :: "nat \<Rightarrow> ('m, 'v) root \<Rightarrow> nat \<times> ('m, 'v) root" where
  "watcher_array s r =
     (case watchers (scope_of r s) of
        Some a \<Rightarrow> (a, r)
      | None \<Rightarrow> (uid r, upd s (\<lambda>sc. sc\<lparr>watchers := Some (uid r)\<rparr>)
                         (r\<lparr>uid := Suc (uid r), warrays := (warrays r)(uid r := [])\<rparr>)))"

definition add_watcher :: "nat \<Rightarrow> 'v watcher \<Rightarrow> ('m, 'v) root \<Rightarrow> nat \<times> ('m, 'v) root" where
  "add_watcher a wo r =
     (uid r, r\<lparr>uid := Suc (uid r), watcher_objs := (watcher_objs r)(uid r \<mapsto> wo),
               warrays := (warrays r)(a := uid r # warrays r a)\<rparr>)"

definition scope_watch ::
  "nat \<Rightarrow> nat \<Rightarrow> nat \<Rightarrow> nat option \<Rightarrow> bool \<Rightarrow> ('m, 'v) root \<Rightarrow> (nat \<times> nat) option \<times> ('m, 'v) root" where
  "scope_watch noop s g f objectEquality r =
     (if is_disabled r s then (None, r)
      else case watcher_array s (r\<lparr>lastDirtyWatch := None\<rparr>) of
             (a, r) \<Rightarrow>
               (case add_watcher a \<lparr>get = g, fn = (case f of Some f \<Rightarrow> f | None \<Rightarrow> noop),
                                    last_value = None, eq = objectEquality\<rparr> r of
                  (w, r) \<Rightarrow> (Some (a, w), incrementWatchersCount s 1 r)))"

definition deregister_watch :: "nat \<Rightarrow> nat \<Rightarrow> nat \<Rightarrow> ('m, 'v) root \<Rightarrow> ('m, 'v) root" where
  "deregister_watch s a w r =
     (let r' = (if w \<in> set (warrays r a)
                then incrementWatchersCount s (- 1) (r\<lparr>warrays := (warrays r)(a := remove1 w (warrays r a))\<rparr>)
                else r)
      in r'\<lparr>lastDirtyWatch := None\<rparr>)"

text \<open>One watch of \<open>$digest\<close>: the result tells whether to break off, and the new \<open>dirty\<close>.\<close>

definition changed :: "('m, 'v) env \<Rightarrow> ('m, 'v) root \<Rightarrow> 'v watcher \<Rightarrow> 'v \<Rightarrow> bool" where
  "changed e r w v =
     (case last_value w of
        None \<Rightarrow> True
      | Some l \<Rightarrow> \<not> same e v l \<and> \<not> (eq w \<and> equals e r v l))"

definition check_watch ::
  "('m, 'v) env \<Rightarrow> nat \<Rightarrow> nat \<Rightarrow> bool \<Rightarrow> ('m, 'v) root \<Rightarrow> bool \<times> bool \<times> ('m, 'v) root" where
  "check_watch e s w dirty r =
     (case watcher_objs r w of
        None \<Rightarrow> (False, dirty, r)
      | Some wo \<Rightarrow>
          (case get_of e (get wo) s r of
             (None, r) \<Rightarrow> (False, dirty, exceptionHandler r)
           | (Some v, r) \<Rightarrow>
               let wo = (case watcher_objs r w of Some wo' \<Rightarrow> wo' | None \<Rightarrow> wo)
               in if changed e r wo v then
                    let (c, r) = (if eq wo then copy e v r else (v, r));
                        r = r\<lparr>lastDirtyWatch := Some w,
                              watcher_objs := (watcher_objs r)(w \<mapsto> wo\<lparr>last_value := Some c\<rparr>)\<rparr>;
                        old = (case last_value wo of None \<Rightarrow> v | Some l \<Rightarrow> l)
                    in (False, True, handle (fn_of e (fn wo) v old s r))
                  else if lastDirtyWatch r = Some w then (True, False, r)
                  else (False, dirty, r)))"

text \<open>\<open>while (length--)\<close> over the array the scope had when it was entered.\<close>

primrec check_watches ::
  "('m, 'v) env \<Rightarrow> nat \<Rightarrow> nat \<Rightarrow> nat \<Rightarrow> bool \<Rightarrow> ('m, 'v) root \<Rightarrow> bool \<times> bool \<times> ('m, 'v) root" where
  "check_watches e s a 0 dirty r = (False, dirty, r)"
| "check_watches e s a (Suc i) dirty r =
     (if i < length (warrays r a) then
        (case check_watch e s (warrays r a ! i) dirty r of
           (brk, dirty, r) \<Rightarrow> if brk then (True, dirty, r) else check_watches e s a i dirty r)
      else check_watches e s a i dirty r)"

definition check_scope ::
  "('m, 'v) env \<Rightarrow> nat \<Rightarrow> bool \<Rightarrow> ('m, 'v) root \<Rightarrow> bool \<times> bool \<times> ('m, 'v) root" where
  "check_scope e s dirty r =
     (case watchers (scope_of r s) of
        None \<Rightarrow> (False, dirty, r)
      | Some a \<Rightarrow> check_watches e s a (length (warrays r a)) dirty r)"

fun traverse ::
  "('m, 'v) env \<Rightarrow> nat \<Rightarrow> nat \<Rightarrow> nat \<Rightarrow> bool \<Rightarrow> ('m, 'v) root \<Rightarrow> (outcome \<times> bool \<times> ('m, 'v) root) option" where
  "traverse e 0 target s dirty r = None"
| "traverse e (Suc n) target s dirty r =
     (case check_scope e s dirty r of (brk, dirty, r) \<Rightarrow>
        if brk then Some (Finished, dirty, r)
        else (case next_scope r target s (watchersCount (scope_of r s) \<noteq> 0) of
                Stop \<Rightarrow> Some (Finished, dirty, r)
              | Crash \<Rightarrow> Some (NullDereference, dirty, r)
              | Visit c \<Rightarrow> traverse e n target c dirty r))"

section \<open>Digest\<close>

definition TTL :: nat where
  "TTL = 10"

definition eval_expr :: "('m, 'v) env \<Rightarrow> nat \<Rightarrow> nat \<Rightarrow> ('m, 'v) root \<Rightarrow> ('m, 'v) root" where
  "eval_expr e s x r = handle (expr_of e x s r)"

fun drain_async :: "('m, 'v) env \<Rightarrow> nat \<Rightarrow> ('m, 'v) root \<Rightarrow> ('m, 'v) root option" where
  "drain_async e 0 r = None"
| "drain_async e (Suc n) r =
     (case asyncQueue r of
        [] \<Rightarrow> Some r
      | (s, x) # q \<Rightarrow> drain_async e n ((eval_expr e s x (r\<lparr>asyncQueue := q\<rparr>))\<lparr>lastDirtyWatch := None\<rparr>))"

fun drain_apply :: "('m, 'v) env \<Rightarrow> nat \<Rightarrow> ('m, 'v) root \<Rightarrow> ('m, 'v) root option" where
  "drain_apply e 0 r = None"
| "drain_apply e (Suc n) r =
     (case applyAsyncQueue r of
        [] \<Rightarrow> Some (r\<lparr>applyAsyncId := None\<rparr>)
      | (s, x) # q \<Rightarrow> drain_apply e n (eval_expr e s x (r\<lparr>applyAsyncQueue := q\<rparr>)))"

text \<open>The post-digest callbacks are expressions of the root scope.\<close>

fun drain_post :: "('m, 'v) env \<Rightarrow> nat \<Rightarrow> nat \<Rightarrow> ('m, 'v) root \<Rightarrow> ('m, 'v) root option" where
  "drain_post e rs 0 r = None"
| "drain_post e rs (Suc n) r =
     (case postDigestQueue r of
        [] \<Rightarrow> Some r
      | x # q \<Rightarrow> drain_post e rs n (eval_expr e rs x (r\<lparr>postDigestQueue := q\<rparr>)))"

fun rounds ::
  "('m, 'v) env \<Rightarrow> nat \<Rightarrow> nat \<Rightarrow> nat \<Rightarrow> ('m, 'v) root \<Rightarrow> (outcome \<times> ('m, 'v) root) option" where
  "rounds e fuel target ttl r =
     (case drain_async e fuel r of
        None \<Rightarrow> None
      | Some r \<Rightarrow>
          (case traverse e fuel target target False r of
             None \<Rightarrow> None
           | Some (out, dirty, r) \<Rightarrow>
               if out \<noteq> Finished then Some (out, r)
               else if dirty \<or> asyncQueue r \<noteq> [] then
                 (case ttl of 0 \<Rightarrow> Some (Infdig, r\<lparr>phase := None\<rparr>) | Suc t \<Rightarrow> rounds e fuel target t r)
               else Some (Finished, r)))"

declare rounds.simps [simp del]

definition beginPhase :: "string \<Rightarrow> ('m, 'v) root \<Rightarrow> ('m, 'v) root option" where
  "beginPhase p r = (if phase r \<noteq> None then None else Some (r\<lparr>phase := Some p\<rparr>))"

definition digest :: "('m, 'v) env \<Rightarrow> nat \<Rightarrow> nat \<Rightarrow> nat \<Rightarrow> ('m, 'v) root \<Rightarrow> (outcome \<times> ('m, 'v) root) option" where
  "digest e fuel rs target r =
     (if is_disabled r target then Some (Finished, r)
      else case beginPhase ''$digest'' r of
             None \<Rightarrow> Some (InProgress, r)
           | Some r \<Rightarrow>
               let r = checkUrlChange e r
               in case (if target = rs \<and> applyAsyncId r \<noteq> None
                        then drain_apply e fuel (r\<lparr>deferrals := filter (\<lambda>d. Some (fst d) \<noteq> applyAsyncId r) (deferrals r)\<rparr>)
                        else Some r) of
                    None \<Rightarrow> None
                  | Some r \<Rightarrow>
                      (case rounds e fuel target TTL (r\<lparr>lastDirtyWatch := None\<rparr>) of
                         None \<Rightarrow> None
                       | Some (out, r) \<Rightarrow>
                           if out \<noteq> Finished then Some (out, r)
                           else map_option (Pair Finished) (drain_post e rs fuel (r\<lparr>phase := None\<rparr>))))"

section \<open>Applying and deferring\<close>

definition evalAsync :: "nat \<Rightarrow> nat \<Rightarrow> ('m, 'v) root \<Rightarrow> ('m, 'v) root" where
  "evalAsync s x r =
     (if is_disabled r s then r
      else let r = (if phase r = None \<and> asyncQueue r = []
                    then r\<lparr>uid := Suc (uid r), deferrals := deferrals r @ [(uid r, DigestAsyncQueue)]\<rparr> else r)
           in r\<lparr>asyncQueue := asyncQueue r @ [(s, x)]\<rparr>)"

definition postDigest :: "nat \<Rightarrow> ('m, 'v) root \<Rightarrow> ('m, 'v) root" where
  "postDigest x r = r\<lparr>postDigestQueue := postDigestQueue r @ [x]\<rparr>"

text \<open>
  \<open>$apply\<close>, whose error is thrown on after it was handled. When a phase is under way, the error of
  \<open>beginPhase\<close> is handled first and the digest then fails as well.
\<close>

definition apply_with ::
  "('m, 'v) env \<Rightarrow> nat \<Rightarrow> nat \<Rightarrow> (('m, 'v) root \<Rightarrow> ('m, 'v) root option) \<Rightarrow> ('m, 'v) root \<Rightarrow> (outcome \<times> ('m, 'v) root) option" where
  "apply_with e fuel rs f r =
     (case (case beginPhase ''$apply'' r of
              None \<Rightarrow> Some (exceptionHandler r)
            | Some r \<Rightarrow> map_option (\<lambda>r. r\<lparr>phase := None\<rparr>) (f r)) of
        None \<Rightarrow> None
      | Some r \<Rightarrow> map_option (\<lambda>(out, r). (out, if out = Finished then r else exceptionHandler r)) (digest e fuel rs rs r))"

definition scope_apply ::
  "('m, 'v) env \<Rightarrow> nat \<Rightarrow> nat \<Rightarrow> nat \<Rightarrow> nat \<Rightarrow> ('m, 'v) root \<Rightarrow> (outcome \<times> ('m, 'v) root) option" where
  "scope_apply e fuel rs s x r =
     (if is_disabled r s then Some (Finished, r) else apply_with e fuel rs (\<lambda>r. Some (eval_expr e s x r)) r)"

definition applyAsync :: "nat \<Rightarrow> nat option \<Rightarrow> ('m, 'v) root \<Rightarrow> ('m, 'v) root" where
  "applyAsync s x r =
     (if is_disabled r s then r
      else let r = (case x of None \<Rightarrow> r | Some x \<Rightarrow> r\<lparr>applyAsyncQueue := applyAsyncQueue r @ [(s, x)]\<rparr>)
           in if applyAsyncId r = None
              then r\<lparr>uid := Suc (uid r), applyAsyncId := Some (uid r), deferrals := deferrals r @ [(uid r, ApplyFlush)]\<rparr>
              else r)"

text \<open>The browser runs the first deferred function.\<close>

definition run_deferred :: "('m, 'v) env \<Rightarrow> nat \<Rightarrow> nat \<Rightarrow> ('m, 'v) root \<Rightarrow> (outcome \<times> ('m, 'v) root) option" where
  "run_deferred e fuel rs r =
     (case deferrals r of
        [] \<Rightarrow> Some (Finished, r)
      | (i, d) # ds \<Rightarrow>
          let r = r\<lparr>deferrals := ds\<rparr>
          in case d of
               DigestAsyncQueue \<Rightarrow> if asyncQueue r = [] then Some (Finished, r) else digest e fuel rs rs r
             | ApplyFlush \<Rightarrow> if is_disabled r rs then Some (Finished, r) else apply_with e fuel rs (drain_apply e fuel) r)"

end
