(* ===== verification/NgScopeTree.thy ===== *)
theory NgScopeTree
  imports NgScope
begin

text \<open>
  The scopes as a tree: the links of \<open>$new\<close> and \<open>$destroy\<close> represent an ordered tree, and the
  traversal that \<open>$digest\<close> and \<open>$broadcast\<close> share visits it in depth-first order.
\<close>

section \<open>Updates\<close>

lemma scope_of_upd: "scope_of (upd s f r) x = (if x = s \<and> s \<in> dom (scopes r) then f (scope_of r x) else scope_of r x)"
  by (auto simp: scope_of_def upd_def split: option.split)

lemma upd_simps [simp]:
  "dom (scopes (upd s f r)) = dom (scopes r)" "uid (upd s f r) = uid r" "larrays (upd s f r) = larrays r"
  "warrays (upd s f r) = warrays r" "watcher_objs (upd s f r) = watcher_objs r" "phase (upd s f r) = phase r"
  by (auto simp: upd_def split: if_splits)

section \<open>Trees of scopes\<close>

datatype stree = SNode (sid: nat) (kids: "stree list")

fun preorder :: "stree \<Rightarrow> nat list" where
  "preorder (SNode s ts) = s # concat (map preorder ts)"

text \<open>The scopes a traversal visits that goes down only where \<open>down\<close> holds.\<close>

fun pruned :: "(nat \<Rightarrow> bool) \<Rightarrow> stree \<Rightarrow> nat list" where
  "pruned down (SNode s ts) = s # (if down s then concat (map (pruned down) ts) else [])"

definition first_id :: "stree list \<Rightarrow> nat option" where
  "first_id ts = (case ts of [] \<Rightarrow> None | t # _ \<Rightarrow> Some (sid t))"

definition last_id :: "stree list \<Rightarrow> nat option" where
  "last_id ts = (if ts = [] then None else Some (sid (last ts)))"

text \<open>\<open>linked r p prev ts\<close>: the trees are the children of \<open>p\<close> that follow its child \<open>prev\<close>.\<close>

fun linked :: "('m, 'v) root \<Rightarrow> nat \<Rightarrow> nat option \<Rightarrow> stree list \<Rightarrow> bool" where
  "linked r p prev [] = True"
| "linked r p prev (SNode s ks # ts) =
     (s \<in> dom (scopes r) \<and> parent (scope_of r s) = Some p \<and> prevSibling (scope_of r s) = prev \<and>
      nextSibling (scope_of r s) = first_id ts \<and> childHead (scope_of r s) = first_id ks \<and>
      childTail (scope_of r s) = last_id ks \<and> linked r s None ks \<and> linked r p (Some s) ts)"

fun tree_at :: "('m, 'v) root \<Rightarrow> stree \<Rightarrow> bool" where
  "tree_at r (SNode s ks) =
     (s \<in> dom (scopes r) \<and> childHead (scope_of r s) = first_id ks \<and> childTail (scope_of r s) = last_id ks \<and>
      linked r s None ks \<and> distinct (preorder (SNode s ks)))"

text \<open>Identifiers are given out in order, and a parent is there before its children.\<close>

definition ids_ok :: "('m, 'v) root \<Rightarrow> bool" where
  "ids_ok r \<longleftrightarrow> (\<forall>s\<in>dom (scopes r). s < uid r \<and> (\<forall>p. parent (scope_of r s) = Some p \<longrightarrow> p < s \<and> p \<in> dom (scopes r)))"

section \<open>Walking\<close>

lemma climb_fuel:
  "ids_ok r \<Longrightarrow> s \<in> dom (scopes r) \<Longrightarrow> s < n \<Longrightarrow> s < m \<Longrightarrow> climb n r target s = climb m r target s"
proof (induction n arbitrary: s m)
  case (Suc n)
  then obtain k where m: "m = Suc k" by (cases m) auto
  show ?case
  proof (cases "parent (scope_of r s)")
    case (Some p)
    with Suc.prems have p: "p < s" "p \<in> dom (scopes r)" by (auto simp: ids_ok_def)
    have "climb n r target p = climb k r target p"
      using Suc.prems p m by (intro Suc.IH) auto
    with Some m show ?thesis by (simp split: option.split)
  qed (use m in \<open>auto split: option.split\<close>)
qed simp

definition climb_up :: "('m, 'v) root \<Rightarrow> nat \<Rightarrow> nat \<Rightarrow> step" where
  "climb_up r target s = climb (uid r) r target s"

lemma climb_up:
  assumes "ids_ok r" "s \<in> dom (scopes r)"
  shows "climb_up r target s =
    (if s = target then Stop
     else case nextSibling (scope_of r s) of
            Some x \<Rightarrow> Visit x
          | None \<Rightarrow> (case parent (scope_of r s) of None \<Rightarrow> Crash | Some p \<Rightarrow> climb_up r target p))"
proof -
  have "s < uid r" using assms by (auto simp: ids_ok_def)
  then obtain k where k: "uid r = Suc k" "s \<le> k" by (cases "uid r") auto
  show ?thesis
  proof (cases "parent (scope_of r s)")
    case (Some p)
    with assms have "p < s" "p \<in> dom (scopes r)" by (auto simp: ids_ok_def)
    then have "climb k r target p = climb (Suc k) r target p"
      using assms(1) k by (intro climb_fuel) auto
    with Some k show ?thesis by (simp add: climb_up_def split: option.split)
  qed (simp add: climb_up_def k split: option.split)
qed

text \<open>The scopes visited from \<open>s\<close> on.\<close>

inductive walk :: "('m, 'v) root \<Rightarrow> (nat \<Rightarrow> bool) \<Rightarrow> nat \<Rightarrow> nat \<Rightarrow> nat list \<Rightarrow> bool"
  for r down target where
  walk_stop: "next_scope r target s (down s) = Stop \<Longrightarrow> walk r down target s [s]"
| walk_visit: "next_scope r target s (down s) = Visit c \<Longrightarrow> walk r down target c ss \<Longrightarrow> walk r down target s (s # ss)"

inductive_cases walkE: "walk r down target s ss"

lemma next_scope_climb:
  "next_scope r target s d =
     (case (if d then childHead (scope_of r s) else None) of Some c \<Rightarrow> Visit c | None \<Rightarrow> climb_up r target s)"
  by (simp add: next_scope_def climb_up_def split: option.split)

lemma linked_dom: "linked r p prev ts \<Longrightarrow> t \<in> set ts \<Longrightarrow> sid t \<in> dom (scopes r)"
  by (induction r p prev ts rule: linked.induct) auto

definition continues :: "('m, 'v) root \<Rightarrow> (nat \<Rightarrow> bool) \<Rightarrow> nat \<Rightarrow> step \<Rightarrow> nat \<Rightarrow> nat list \<Rightarrow> bool" where
  "continues r down target k s xs =
     (case k of
        Stop \<Rightarrow> walk r down target s xs
      | Visit c \<Rightarrow> (\<forall>ss. walk r down target c ss \<longrightarrow> walk r down target s (xs @ ss))
      | Crash \<Rightarrow> True)"

lemma walk_forest:
  "ids_ok r \<Longrightarrow> linked r p prev ts \<Longrightarrow> ts \<noteq> [] \<Longrightarrow> target \<notin> set (concat (map preorder ts)) \<Longrightarrow>
    continues r down target (climb_up r target p) (sid (hd ts)) (concat (map (pruned down) ts))"
proof (induction r p prev ts rule: linked.induct)
  case (2 r p prev s ks ts)
  have up: "climb_up r target s = (case first_id ts of Some x \<Rightarrow> Visit x | None \<Rightarrow> climb_up r target p)"
    using 2 climb_up [of r s target] by (auto split: option.split)
  have one: "continues r down target (climb_up r target s) s (pruned down (SNode s ks))"
  proof (cases "down s \<and> ks \<noteq> []")
    case True
    then have "continues r down target (climb_up r target s) (sid (hd ks)) (concat (map (pruned down) ks))"
      using 2 by auto
    moreover have "next_scope r target s (down s) = Visit (sid (hd ks))"
      using 2 True by (cases ks) (auto simp: next_scope_climb first_id_def)
    ultimately show ?thesis
      using True by (auto simp: continues_def intro: walk_visit split: step.splits)
  next
    case False
    then have "next_scope r target s (down s) = climb_up r target s" "pruned down (SNode s ks) = [s]"
      using 2 by (auto simp: next_scope_climb first_id_def)
    then show ?thesis by (auto simp: continues_def intro: walk_stop walk_visit split: step.splits)
  qed
  show ?case
  proof (cases ts)
    case Nil
    with one up show ?thesis by (simp add: first_id_def)
  next
    case (Cons t us)
    then have "continues r down target (climb_up r target p) (sid t) (concat (map (pruned down) ts))"
      using 2 by auto
    with one up Cons show ?thesis
      by (auto simp: continues_def first_id_def split: step.splits)
  qed
qed simp

theorem walk_tree:
  assumes "ids_ok r" "tree_at r t"
  shows "walk r down (sid t) (sid t) (pruned down t)"
proof -
  obtain s ks where t: "t = SNode s ks" by (cases t)
  have stop: "climb_up r s s = Stop"
    using assms t climb_up [of r s s] by auto
  show ?thesis
  proof (cases "down s \<and> ks \<noteq> []")
    case True
    then have "continues r down s (climb_up r s s) (sid (hd ks)) (concat (map (pruned down) ks))"
      using assms t by (intro walk_forest [of _ _ None]) auto
    moreover have "next_scope r s s (down s) = Visit (sid (hd ks))"
      using assms True t by (cases ks) (auto simp: next_scope_climb first_id_def)
    ultimately show ?thesis
      using True t stop by (auto simp: continues_def intro: walk_visit)
  next
    case False
    then have "next_scope r s s (down s) = Stop" "pruned down t = [s]"
      using assms t stop by (auto simp: next_scope_climb first_id_def)
    then show ?thesis using t by (auto intro: walk_stop)
  qed
qed

end
