(* ===== verification/NgDigest.thy ===== *)
theory NgDigest
  imports NgScopeTree
begin

text \<open>
  What a digest establishes. The short cut that ends a round at the watch that was the last to change
  is sound: when a digest finishes, every watch below its scope is clean, for callbacks that change
  the data only.
\<close>

section \<open>Callbacks that change the data only\<close>

definition only_data :: "('m, 'v) root \<Rightarrow> ('m, 'v) root \<Rightarrow> bool" where
  "only_data r r' \<longleftrightarrow> (\<exists>d. r' = r\<lparr>data := d\<rparr>)"

definition well_behaved :: "('m, 'v) env \<Rightarrow> bool" where
  "well_behaved e \<longleftrightarrow>
     (\<forall>g s r. snd (get_of e g s r) = r) \<and>
     (\<forall>g s r r'. data r = data r' \<longrightarrow> fst (get_of e g s r) = fst (get_of e g s r')) \<and>
     (\<forall>r r' v l. data r = data r' \<longrightarrow> equals e r v l = equals e r' v l) \<and>
     (\<forall>v r. snd (copy e v r) = r) \<and>
     (\<forall>f v l s r. only_data r (snd (fn_of e f v l s r))) \<and>
     (\<forall>x s r. only_data r (snd (expr_of e x s r))) \<and>
     (\<forall>r. only_data r (checkUrlChange e r))"

lemma well_behavedD:
  assumes "well_behaved e"
  shows "snd (get_of e g s r) = r" "snd (copy e v r) = r" "only_data r (snd (fn_of e f v l s r))"
    "only_data r (snd (expr_of e x s r))" "only_data r (checkUrlChange e r)"
    "data r = data r' \<Longrightarrow> fst (get_of e g s r) = fst (get_of e g s r')"
    "data r = data r' \<Longrightarrow> equals e r v l = equals e r' v l"
proof -
  note w = assms [unfolded well_behaved_def]
  show "snd (get_of e g s r) = r" by (rule w [THEN conjunct1, rule_format])
  show "snd (copy e v r) = r" by (rule w [THEN conjunct2, THEN conjunct2, THEN conjunct2, THEN conjunct1, rule_format])
  show "only_data r (snd (fn_of e f v l s r))" by (rule w [THEN conjunct2, THEN conjunct2, THEN conjunct2, THEN conjunct2, THEN conjunct1, rule_format])
  show "only_data r (snd (expr_of e x s r))" by (rule w [THEN conjunct2, THEN conjunct2, THEN conjunct2, THEN conjunct2, THEN conjunct2, THEN conjunct1, rule_format])
  show "only_data r (checkUrlChange e r)" by (rule w [THEN conjunct2, THEN conjunct2, THEN conjunct2, THEN conjunct2, THEN conjunct2, THEN conjunct2, rule_format])
  show "data r = data r' \<Longrightarrow> fst (get_of e g s r) = fst (get_of e g s r')" by (rule w [THEN conjunct2, THEN conjunct1, rule_format])
  show "data r = data r' \<Longrightarrow> equals e r v l = equals e r' v l" by (rule w [THEN conjunct2, THEN conjunct2, THEN conjunct1, rule_format])
qed

text \<open>Two states with the same scopes, arrays and queues, whose watches differ in their last values only.\<close>

definition frame :: "('m, 'v) root \<Rightarrow> ('m, 'v) root \<Rightarrow> bool" where
  "frame r r' \<longleftrightarrow> scopes r' = scopes r \<and> warrays r' = warrays r \<and> uid r' = uid r \<and>
     asyncQueue r' = asyncQueue r \<and> postDigestQueue r' = postDigestQueue r"

lemma frame_refl [simp]: "frame r r"
  by (simp add: frame_def)

lemma frame_trans: "frame r r' \<Longrightarrow> frame r' r'' \<Longrightarrow> frame r r''"
  by (simp add: frame_def)

lemma only_data_refl [simp]: "only_data r r"
  unfolding only_data_def by (rule exI [of _ "data r"]) simp

lemma only_data_update [simp]: "only_data r (r\<lparr>data := d\<rparr>)"
  by (auto simp: only_data_def)

lemma only_data_frame: "only_data r r' \<Longrightarrow> frame r r'"
  by (auto simp: only_data_def frame_def)

lemma only_data_fields:
  "only_data r r' \<Longrightarrow> watcher_objs r' = watcher_objs r \<and> lastDirtyWatch r' = lastDirtyWatch r"
  by (auto simp: only_data_def)

lemma handle_fields [simp]:
  "frame r (handle res) = frame r (snd res)" "watcher_objs (handle res) = watcher_objs (snd res)"
  "lastDirtyWatch (handle res) = lastDirtyWatch (snd res)" "data (handle res) = data (snd res)"
  by (simp_all add: handle_def exceptionHandler_def frame_def)

section \<open>Clean watches\<close>

definition clean :: "('m, 'v) env \<Rightarrow> ('m, 'v) root \<Rightarrow> nat \<times> nat \<Rightarrow> bool" where
  "clean e r sw =
     (case watcher_objs r (snd sw) of
        None \<Rightarrow> True
      | Some wo \<Rightarrow> (case fst (get_of e (get wo) (fst sw) r) of None \<Rightarrow> True | Some v \<Rightarrow> \<not> changed e r wo v))"

lemma clean_cong:
  assumes "well_behaved e" "data r = data r'" "watcher_objs r (snd sw) = watcher_objs r' (snd sw)"
  shows "clean e r sw = clean e r' sw"
proof -
  have g: "fst (get_of e g s r) = fst (get_of e g s r')" for g s
    by (rule well_behavedD(6)) (fact assms)+
  have q: "equals e r v l = equals e r' v l" for v l
    by (rule well_behavedD(7)) (fact assms)+
  show ?thesis
    unfolding clean_def changed_def g q assms(3) ..
qed

text \<open>One watch, for well-behaved callbacks.\<close>

lemma check_watch_cases:
  assumes "well_behaved e" "check_watch e s w dirty r = (brk, dirty', r')"
  obtains (clean) "clean e r (s, w)" "\<not> brk" "dirty' = dirty" "frame r r'" "watcher_objs r' = watcher_objs r"
        "data r' = data r" "lastDirtyWatch r' = lastDirtyWatch r"
    | (short_cut) "clean e r (s, w)" "brk" "\<not> dirty'" "lastDirtyWatch r = Some w" "r' = r"
    | (fired) "\<not> brk" "dirty'" "lastDirtyWatch r' = Some w" "frame r r'"
        "\<And>w'. w' \<noteq> w \<Longrightarrow> watcher_objs r' w' = watcher_objs r w'" "\<not> clean e r (s, w)"
proof (cases "watcher_objs r w")
  case None
  with assms(2) have "\<not> brk" "dirty' = dirty" "r' = r" by (auto simp: check_watch_def)
  with None that(1) show thesis by (auto simp: clean_def)
next
  case (Some wo)
  have get: "snd (get_of e g s r) = r" "snd (copy e v r) = r" for g v
    using assms(1) by (simp_all add: well_behavedD(1,2))
  obtain g where g: "get_of e (get wo) s r = (g, r)"
    using get(1) by (metis prod.collapse)
  show thesis
  proof (cases "\<exists>v. g = Some v \<and> changed e r wo v")
    case True
    then obtain v where v: "g = Some v" "changed e r wo v" by auto
    obtain c where c: "(if eq wo then copy e v r else (v, r)) = (c, r)"
      using get(2) by (cases "eq wo") (auto, metis prod.collapse)
    define r1 where "r1 = r\<lparr>lastDirtyWatch := Some w, watcher_objs := (watcher_objs r)(w \<mapsto> wo\<lparr>last_value := Some c\<rparr>)\<rparr>"
    define l where "l = (case last_value wo of None \<Rightarrow> v | Some l \<Rightarrow> l)"
    have r': "r' = handle (fn_of e (fn wo) v l s r1)" and "\<not> brk" "dirty'"
      using assms(2) Some g v c by (auto simp: check_watch_def r1_def l_def)
    have od: "only_data r1 (snd (fn_of e (fn wo) v l s r1))"
      using assms(1) by (rule well_behavedD(3))
    have "frame r r1" by (simp add: frame_def r1_def)
    with od only_data_frame have "frame r r'" unfolding r' by (auto intro: frame_trans)
    moreover have "watcher_objs r' = watcher_objs r1" "lastDirtyWatch r' = Some w"
      using only_data_fields [OF od] by (auto simp: r' r1_def)
    ultimately show thesis
      using that(3) \<open>\<not> brk\<close> \<open>dirty'\<close> Some g v by (auto simp: r1_def clean_def)
  next
    case False
    then have cl: "clean e r (s, w)" by (auto simp: clean_def Some g split: option.split)
    show thesis
    proof (cases g)
      case None
      with assms(2) Some g have "\<not> brk" "dirty' = dirty" "r' = exceptionHandler r"
        by (auto simp: check_watch_def)
      with cl that(1) show thesis by (auto simp: exceptionHandler_def frame_def)
    next
      case (Some v)
      with False assms(2) \<open>watcher_objs r w = Some wo\<close> g
      have "if lastDirtyWatch r = Some w then brk \<and> \<not> dirty' \<and> r' = r else \<not> brk \<and> dirty' = dirty \<and> r' = r"
        by (auto simp: check_watch_def split: if_splits)
      with cl that(1,2) show thesis by (auto split: if_splits)
    qed
  qed
qed

section \<open>Rounds\<close>

fun scan :: "('m, 'v) env \<Rightarrow> (nat \<times> nat) list \<Rightarrow> bool \<Rightarrow> ('m, 'v) root \<Rightarrow> bool \<times> bool \<times> ('m, 'v) root" where
  "scan e [] dirty r = (False, dirty, r)"
| "scan e ((s, w) # ws) dirty r =
     (case check_watch e s w dirty r of
        (brk, dirty, r) \<Rightarrow> if brk then (True, dirty, r) else scan e ws dirty r)"

lemma scan_append:
  "scan e (xs @ ys) dirty r =
     (case scan e xs dirty r of (brk, dirty, r) \<Rightarrow> if brk then (True, dirty, r) else scan e ys dirty r)"
  by (induction xs arbitrary: dirty r) (auto split: prod.splits)

lemma check_watch_frame: "well_behaved e \<Longrightarrow> check_watch e s w dirty r = (brk, dirty', r') \<Longrightarrow> frame r r'"
  by (erule (1) check_watch_cases) auto

lemma scan_frame: "well_behaved e \<Longrightarrow> scan e ws dirty r = (brk, dirty', r') \<Longrightarrow> frame r r'"
proof (induction ws arbitrary: dirty r)
  case (Cons sw ws)
  then show ?case
    by (cases sw) (auto split: prod.splits if_splits dest!: check_watch_frame intro: frame_trans)
qed simp

lemma check_watches_scan:
  "well_behaved e \<Longrightarrow> i \<le> length (warrays r a) \<Longrightarrow>
     check_watches e s a i dirty r = scan e (map (Pair s) (rev (take i (warrays r a)))) dirty r"
proof (induction i arbitrary: dirty r)
  case (Suc i)
  then have take: "rev (take (Suc i) (warrays r a)) = warrays r a ! i # rev (take i (warrays r a))"
    by (simp add: take_Suc_conv_app_nth)
  obtain brk dirty' r' where c: "check_watch e s (warrays r a ! i) dirty r = (brk, dirty', r')"
    by (metis prod_cases3)
  have "warrays r' = warrays r"
    using check_watch_frame [OF Suc.prems(1) c] by (simp add: frame_def)
  with Suc c show ?case by (simp add: take)
qed simp

definition watches_of :: "('m, 'v) root \<Rightarrow> nat \<Rightarrow> (nat \<times> nat) list" where
  "watches_of r s = (case watchers (scope_of r s) of None \<Rightarrow> [] | Some a \<Rightarrow> map (Pair s) (rev (warrays r a)))"

lemma check_scope_scan: "well_behaved e \<Longrightarrow> check_scope e s dirty r = scan e (watches_of r s) dirty r"
  by (auto simp: check_scope_def watches_of_def check_watches_scan split: option.split)

lemma frame_next:
  assumes "frame r r'"
  shows "next_scope r' target s d = next_scope r target s d" "watches_of r' = watches_of r"
    "scope_of r' s = scope_of r s"
proof -
  have sc: "scope_of r' = scope_of r"
    using assms by (auto simp: frame_def scope_of_def fun_eq_iff)
  then show "scope_of r' s = scope_of r s" by simp
  have "climb n r' t s = climb n r t s" for n t s
    by (induction n arbitrary: s) (auto simp: sc split: option.split)
  then have n: "next_scope r' t s d = next_scope r t s d" for t s d
    using assms by (cases d) (simp_all add: next_scope_def sc frame_def split: option.split)
  then show "next_scope r' target s d = next_scope r target s d" .
  show "watches_of r' = watches_of r"
    using assms by (auto simp: watches_of_def sc frame_def fun_eq_iff split: option.split)
qed

lemma traverse_scan:
  "walk r (\<lambda>s. watchersCount (scope_of r s) \<noteq> 0) target s ss \<Longrightarrow> well_behaved e \<Longrightarrow> length ss \<le> n \<Longrightarrow> frame r r1 \<Longrightarrow>
     traverse e n target s dirty r1 =
       (case scan e (concat (map (watches_of r) ss)) dirty r1 of (brk, dirty, r) \<Rightarrow> Some (Finished, dirty, r))"
proof (induction arbitrary: n dirty r1 rule: walk.induct)
  case (walk_stop s)
  then obtain k where n: "n = Suc k" by (cases n) auto
  obtain brk dirty' r' where c: "scan e (watches_of r s) dirty r1 = (brk, dirty', r')"
    by (metis prod_cases3)
  then have "frame r r'"
    using scan_frame walk_stop frame_trans by blast
  with walk_stop n c show ?case
    by (simp add: check_scope_scan frame_next)
next
  case (walk_visit s c ss)
  then obtain k where n: "n = Suc k" "length ss \<le> k" by (cases n) auto
  obtain brk dirty' r' where c: "scan e (watches_of r s) dirty r1 = (brk, dirty', r')"
    by (metis prod_cases3)
  then have "frame r r'"
    using scan_frame walk_visit frame_trans by blast
  with walk_visit n c show ?case
    by (simp add: check_scope_scan frame_next scan_append)
qed

text \<open>
  Before a watch is checked: as long as nothing fired in this round, the watches before it are clean, and
  so are those behind the last watch that fired; once one fired, those between it and here are clean.
\<close>

fun last_fired :: "('m, 'v) env \<Rightarrow> ('m, 'v) root \<Rightarrow> (nat \<times> nat) list \<Rightarrow> bool" where
  "last_fired e r [] = False"
| "last_fired e r ((s, w) # ws) =
     (lastDirtyWatch r = Some w \<and> (\<forall>x\<in>set ws. clean e r x) \<or> last_fired e r ws)"

definition round_inv ::
  "('m, 'v) env \<Rightarrow> bool \<Rightarrow> ('m, 'v) root \<Rightarrow> (nat \<times> nat) list \<Rightarrow> (nat \<times> nat) list \<Rightarrow> bool" where
  "round_inv e dirty r before behind \<longleftrightarrow>
     (if dirty then last_fired e r before
      else (\<forall>x\<in>set before. clean e r x) \<and>
        (lastDirtyWatch r = None \<or> last_fired e r behind \<or> (\<forall>x\<in>set behind. clean e r x)))"

lemma last_fired_snoc: "last_fired e r ws \<Longrightarrow> clean e r x \<Longrightarrow> last_fired e r (ws @ [x])"
  by (induction ws) auto

lemma last_fired_last: "lastDirtyWatch r = Some w \<Longrightarrow> last_fired e r (ws @ [(s, w)])"
  by (induction ws) auto

lemma last_fired_mem: "last_fired e r ws \<Longrightarrow> lastDirtyWatch r = Some w \<Longrightarrow> w \<in> set (map snd ws)"
  by (induction ws) auto

lemma last_fired_cong:
  assumes "well_behaved e" "data r = data r'" "watcher_objs r = watcher_objs r'" "lastDirtyWatch r = lastDirtyWatch r'"
  shows "last_fired e r ws = last_fired e r' ws"
proof -
  have "clean e r = clean e r'"
    using clean_cong [OF assms(1,2)] assms(3) by (auto simp: fun_eq_iff)
  with assms(4) show ?thesis by (induction ws) auto
qed

lemma round_inv_clean:
  "round_inv e dirty r before ((s, w) # behind) \<Longrightarrow> clean e r (s, w) \<Longrightarrow> round_inv e dirty r (before @ [(s, w)]) behind"
  by (auto simp: round_inv_def last_fired_snoc last_fired_last split: if_splits)

lemma round_inv_cong:
  assumes "well_behaved e" "data r = data r'" "watcher_objs r = watcher_objs r'" "lastDirtyWatch r = lastDirtyWatch r'"
  shows "round_inv e dirty r before behind = round_inv e dirty r' before behind"
  using clean_cong [OF assms(1,2)] last_fired_cong [OF assms] assms(3,4) by (simp add: round_inv_def)

lemma short_cut_clean:
  assumes "distinct (map snd (before @ (s, w) # behind))" "round_inv e dirty r before ((s, w) # behind)"
    and "clean e r (s, w)" "lastDirtyWatch r = Some w"
  shows "\<not> dirty \<and> (\<forall>x\<in>set (before @ (s, w) # behind). clean e r x)"
proof -
  have "\<not> last_fired e r before" "\<not> last_fired e r behind"
    using assms(1,4) by (auto dest: last_fired_mem)
  with assms show ?thesis by (auto simp: round_inv_def split: if_splits)
qed

lemma scan_clean:
  assumes "well_behaved e"
  shows "distinct (map snd (before @ ws)) \<Longrightarrow> round_inv e dirty r before ws \<Longrightarrow> scan e ws dirty r = (brk, dirty', r') \<Longrightarrow>
    if brk then \<not> dirty' \<and> (\<forall>x\<in>set (before @ ws). clean e r' x) else round_inv e dirty' r' (before @ ws) []"
proof (induction ws arbitrary: before dirty r)
  case (Cons sw ws)
  obtain s w where sw: "sw = (s, w)" by (cases sw)
  obtain b d r1 where c: "check_watch e s w dirty r = (b, d, r1)" by (metis prod_cases3)
  show ?case
    using assms c
  proof (cases rule: check_watch_cases)
    case clean
    have "round_inv e dirty r (before @ [(s, w)]) ws"
      using round_inv_clean Cons.prems(2) clean(1) sw by auto
    then have "round_inv e d r1 (before @ [(s, w)]) ws"
      using round_inv_cong [OF assms, of r r1] clean by simp
    with Cons.IH [of "before @ [(s, w)]" d r1] Cons.prems c clean sw show ?thesis by (cases brk) simp_all
  next
    case short_cut
    with short_cut_clean [OF Cons.prems(1,2) [unfolded sw]] Cons.prems(3) c sw show ?thesis by auto
  next
    case fired
    then have "round_inv e d r1 (before @ [(s, w)]) ws"
      by (simp add: round_inv_def last_fired_last)
    with Cons.IH [of "before @ [(s, w)]" d r1] Cons.prems c fired sw show ?thesis by (cases brk) simp_all
  qed
qed simp

section \<open>Digests\<close>

definition has_watches :: "('m, 'v) root \<Rightarrow> nat \<Rightarrow> bool" where
  "has_watches r s \<longleftrightarrow> watchersCount (scope_of r s) \<noteq> 0"

text \<open>The watches below a scope, in the order a round checks them.\<close>

definition watches_below :: "('m, 'v) root \<Rightarrow> stree \<Rightarrow> (nat \<times> nat) list" where
  "watches_below r t = concat (map (watches_of r) (pruned (has_watches r) t))"

lemma traverse_round:
  assumes "well_behaved e" "ids_ok r0" "tree_at r0 t" "length (pruned (has_watches r0) t) \<le> n" "frame r0 r"
    and "distinct (map snd (watches_below r0 t))" "lastDirtyWatch r = None \<or> last_fired e r (watches_below r0 t)"
  obtains dirty r' where "traverse e n (sid t) (sid t) False r = Some (Finished, dirty, r')" "frame r0 r'"
    "if dirty then last_fired e r' (watches_below r0 t) else \<forall>x\<in>set (watches_below r0 t). clean e r' x"
proof -
  obtain brk dirty r' where c: "scan e (watches_below r0 t) False r = (brk, dirty, r')"
    by (metis prod_cases3)
  have "traverse e n (sid t) (sid t) False r = Some (Finished, dirty, r')"
    using traverse_scan [OF walk_tree [OF assms(2,3), of "has_watches r0", unfolded has_watches_def] assms(1) _ assms(5), of n False]
      assms(4) c by (simp add: watches_below_def has_watches_def [abs_def])
  moreover have "frame r0 r'"
    using scan_frame [OF assms(1) c] assms(5) frame_trans by blast
  moreover have "round_inv e False r [] (watches_below r0 t)"
    using assms(7) by (auto simp: round_inv_def)
  from scan_clean [OF assms(1) _ this c] assms(6)
  have "if dirty then last_fired e r' (watches_below r0 t) else \<forall>x\<in>set (watches_below r0 t). clean e r' x"
    by (auto simp: round_inv_def split: if_splits)
  ultimately show thesis by (rule that)
qed

lemma rounds_clean:
  assumes "well_behaved e" "ids_ok r0" "tree_at r0 t" "length (pruned (has_watches r0) t) \<le> n" "n > 0" "asyncQueue r0 = []"
    and "distinct (map snd (watches_below r0 t))"
  shows "frame r0 r \<Longrightarrow> lastDirtyWatch r = None \<or> last_fired e r (watches_below r0 t) \<Longrightarrow>
    \<exists>out r'. rounds e n (sid t) ttl r = Some (out, r') \<and>
      (out = Finished \<and> frame r0 r' \<and> (\<forall>x\<in>set (watches_below r0 t). clean e r' x) \<or> out = Infdig \<and> phase r' = None)"
proof (induction ttl arbitrary: r)
  case 0
  from 0 have q: "drain_async e n r = Some r"
    using assms(5,6) by (cases n) (auto simp: frame_def)
  from traverse_round [OF assms(1-4) 0(1) assms(7) 0(2)] obtain dirty r' where
    t: "traverse e n (sid t) (sid t) False r = Some (Finished, dirty, r')" "frame r0 r'"
      "if dirty then last_fired e r' (watches_below r0 t) else \<forall>x\<in>set (watches_below r0 t). clean e r' x" by metis
  then show ?case
    using assms(6) by (auto simp: rounds.simps [of e n "sid t"] q frame_def)
next
  case (Suc ttl)
  from Suc have q: "drain_async e n r = Some r"
    using assms(5,6) by (cases n) (auto simp: frame_def)
  from traverse_round [OF assms(1-4) Suc.prems(1) assms(7) Suc.prems(2)] obtain dirty r' where
    t: "traverse e n (sid t) (sid t) False r = Some (Finished, dirty, r')" "frame r0 r'"
      "if dirty then last_fired e r' (watches_below r0 t) else \<forall>x\<in>set (watches_below r0 t). clean e r' x" by metis
  then show ?case
    using assms(6) Suc.IH [of r'] by (cases dirty) (auto simp: rounds.simps [of e n "sid t" "Suc ttl"] q frame_def)
qed

section \<open>Counts\<close>

fun watch_total :: "('m, 'v) root \<Rightarrow> stree \<Rightarrow> nat" where
  "watch_total r (SNode s ks) = length (watches_of r s) + sum_list (map (watch_total r) ks)"

text \<open>\<open>$$watchersCount\<close> is the number of watches of the scope and of all scopes below it.\<close>

fun counts_ok :: "('m, 'v) root \<Rightarrow> stree \<Rightarrow> bool" where
  "counts_ok r (SNode s ks) =
     (watchersCount (scope_of r s) = int (watch_total r (SNode s ks)) \<and> list_all (counts_ok r) ks)"

definition all_watches :: "('m, 'v) root \<Rightarrow> stree \<Rightarrow> (nat \<times> nat) list" where
  "all_watches r t = concat (map (watches_of r) (preorder t))"

lemma concat_map_concat: "concat (map f (concat xss)) = concat (map (\<lambda>xs. concat (map f xs)) xss)"
  by (induction xss) auto

lemma all_watches_node:
  "all_watches r (SNode s ks) = watches_of r s @ concat (map (all_watches r) ks)"
  by (simp add: all_watches_def [abs_def] concat_map_concat comp_def)

lemma length_all_watches: "length (all_watches r t) = watch_total r t"
  by (induction t) (auto simp: all_watches_node length_concat comp_def intro!: arg_cong [of _ _ sum_list])

lemma watches_below_all: "counts_ok r t \<Longrightarrow> watches_below r t = all_watches r t"
proof (induction t)
  case (SNode s ks)
  show ?case
  proof (cases "has_watches r s")
    case True
    have "concat (map (watches_below r) ks) = concat (map (all_watches r) ks)"
      using SNode by (intro arg_cong [of _ _ concat] map_cong) (auto simp: list_all_iff)
    with True show ?thesis
      by (simp add: watches_below_def [abs_def] all_watches_node concat_map_concat comp_def)
  next
    case False
    from SNode.prems have "watchersCount (scope_of r s) = int (watch_total r (SNode s ks))" by simp
    with False have "length (all_watches r (SNode s ks)) = 0"
      by (simp only: has_watches_def length_all_watches not_not of_nat_eq_0_iff)
    then have "all_watches r (SNode s ks) = []" by simp
    with False show ?thesis by (simp add: watches_below_def all_watches_node)
  qed
qed

lemma length_pruned: "length (pruned down t) \<le> length (preorder t)"
proof (induction t)
  case (SNode s ks)
  have "length (concat (map (pruned down) ks)) \<le> length (concat (map preorder ks))"
    using SNode by (induction ks) (auto intro: add_mono)
  then show ?case by simp
qed

lemma linked_cong: "scopes r' = scopes r \<Longrightarrow> linked r' p prev ts = linked r p prev ts"
  by (induction r p prev ts rule: linked.induct) (simp_all add: scope_of_def)

lemma tree_at_cong: "scopes r' = scopes r \<Longrightarrow> tree_at r' t = tree_at r t"
  by (cases t) (simp add: scope_of_def linked_cong [of r' r])

lemma watches_cong:
  assumes "scopes r' = scopes r" "warrays r' = warrays r"
  shows "all_watches r' t = all_watches r t" "counts_ok r' t = counts_ok r t"
proof -
  have w: "watches_of r' = watches_of r"
    using assms by (simp add: watches_of_def scope_of_def fun_eq_iff split: option.split)
  then have a: "all_watches r' t = all_watches r t" for t by (simp add: all_watches_def)
  then show "all_watches r' t = all_watches r t" .
  have "watch_total r' = watch_total r"
    by (rule ext) (simp only: a flip: length_all_watches)
  then show "counts_ok r' t = counts_ok r t"
    by (induction t) (auto simp: scope_of_def assms w list_all_iff)
qed

section \<open>Properties\<close>

lemma drain_async_frame:
  assumes "well_behaved e"
  shows "length (asyncQueue r) < n \<Longrightarrow> asyncQueue r \<noteq> [] \<Longrightarrow>
    \<exists>r1. drain_async e n r = Some r1 \<and> frame (r\<lparr>asyncQueue := []\<rparr>) r1 \<and> lastDirtyWatch r1 = None"
proof (induction n arbitrary: r)
  case (Suc n)
  then obtain s x q where q: "asyncQueue r = (s, x) # q" by (cases "asyncQueue r") auto
  define r2 where "r2 = (eval_expr e s x (r\<lparr>asyncQueue := q\<rparr>))\<lparr>lastDirtyWatch := None\<rparr>"
  have f: "frame (r\<lparr>asyncQueue := q\<rparr>) r2"
    using only_data_frame [OF well_behavedD(4) [OF assms], of "r\<lparr>asyncQueue := q\<rparr>" x s]
    by (simp add: r2_def eval_expr_def handle_def exceptionHandler_def frame_def)
  show ?case
  proof (cases q)
    case Nil
    with Suc.prems q f show ?thesis
      by (cases n) (auto simp: r2_def [symmetric] frame_def, auto simp: r2_def)
  next
    case (Cons y ys)
    with Suc.prems q f obtain r1 where "drain_async e n r2 = Some r1" "frame (r2\<lparr>asyncQueue := []\<rparr>) r1" "lastDirtyWatch r1 = None"
      using Suc.IH [of r2] by (auto simp: frame_def)
    with q f show ?thesis by (auto simp: r2_def [symmetric] frame_def)
  qed
qed simp

text \<open>A root scope with one child, which has a watch and a listener.\<close>

definition demo_state :: "nat \<Rightarrow> (nat, nat) root" where
  "demo_state d =
     \<lparr>scopes = [0 \<mapsto> new_scope\<lparr>childHead := Some 1, childTail := Some 1, watchersCount := 1, listenerCount := [(''x'', 1)]\<rparr>,
                1 \<mapsto> new_scope\<lparr>parent := Some 0, inherits := Some 0, watchers := Some 2, watchersCount := 1,
                               listeners := [''x'' \<mapsto> 4], listenerCount := [(''x'', 1)]\<rparr>],
      watcher_objs = [3 \<mapsto> \<lparr>get = 0, fn = 0, last_value = None, eq = False\<rparr>],
      warrays = (\<lambda>a. if a = 2 then [3] else []), larrays = (\<lambda>a. if a = 4 then [Some (Callback 0)] else []),
      uid = 5, lastDirtyWatch = None, asyncQueue = [(1, 0)], postDigestQueue = [], applyAsyncQueue = [], applyAsyncId = None,
      deferrals = [], phase = None, exceptions = 0, data = d\<rparr>"

definition demo_env :: "(nat, nat) env" where
  "demo_env =
     \<lparr>get_of = (\<lambda>g s r. (Some (data r), r)), fn_of = (\<lambda>f v l s r. (False, r\<lparr>data := max 3 (data r)\<rparr>)),
      expr_of = (\<lambda>x s r. (False, r\<lparr>data := Suc (data r)\<rparr>)), listener_of = (\<lambda>c ev r. (False, ev, r\<lparr>data := 10 * data r\<rparr>)),
      same = (=), equals = (\<lambda>r v l. v = l), copy = Pair, checkUrlChange = (\<lambda>r. r)\<rparr>"

lemma demo_state_ok:
  "ids_ok (demo_state d)" "tree_at (demo_state d) (SNode 0 [SNode 1 []])" "counts_ok (demo_state d) (SNode 0 [SNode 1 []])"
  "all_watches (demo_state d) (SNode 0 [SNode 1 []]) = [(1, 3)]" "\<not> is_disabled (demo_state d) 0" "\<not> is_disabled (demo_state d) 1"
  by (auto simp: ids_ok_def scope_of_def demo_state_def new_scope_def first_id_def last_id_def watches_of_def
      all_watches_def is_disabled_def eval_nat_numeral split: if_splits)

text \<open>
  C20. A digest on a tree of scopes returns, and either gives up after its ten further iterations or leaves every watch
  of the scope and of all scopes below it clean: its getter returns its last value, or throws. This
  holds for all callbacks that change the data only, whatever was in the queue of asynchronous
  expressions; the short cut at the last watch that changed and the scopes left out because their
  count of watches is zero miss nothing.
\<close>

theorem digest_settles:
  assumes "well_behaved e" "ids_ok r" "tree_at r t" "counts_ok r t" "distinct (map snd (all_watches r t))"
    and "phase r = None" "applyAsyncId r = None" "postDigestQueue r = []" "\<not> is_disabled r (sid t)"
    and "length (preorder t) + length (asyncQueue r) < n"
  shows "\<exists>out r'. digest e n rs (sid t) r = Some (out, r') \<and> phase r' = None \<and>
    (out = Finished \<and> (\<forall>x\<in>set (all_watches r t). clean e r' x) \<or> out = Infdig)"
proof -
  define rA where "rA = checkUrlChange e (r\<lparr>phase := Some ''$digest''\<rparr>)"
  define rB where "rB = rA\<lparr>lastDirtyWatch := None\<rparr>"
  have od: "only_data (r\<lparr>phase := Some ''$digest''\<rparr>) rA"
    unfolding rA_def by (rule well_behavedD(5)) (fact assms(1))
  then have A: "applyAsyncId rA = None" "frame r rA" "frame r rB" "lastDirtyWatch rB = None"
    using assms(7) by (auto simp: only_data_def frame_def rB_def)
  obtain rC where C: "rounds e n (sid t) TTL rB = rounds e n (sid t) TTL rC" "frame (r\<lparr>asyncQueue := []\<rparr>) rC" "lastDirtyWatch rC = None"
  proof (cases "asyncQueue r = []")
    case True
    with A that [of rB] show thesis by (simp add: frame_def)
  next
    case False
    with A assms(10) drain_async_frame [OF assms(1), of rB n] obtain rC where
      c: "drain_async e n rB = Some rC" "frame (rB\<lparr>asyncQueue := []\<rparr>) rC" "lastDirtyWatch rC = None"
      by (auto simp: frame_def)
    then have "drain_async e n rC = Some rC"
      using assms(10) by (cases n) (auto simp: frame_def)
    with c A show thesis
      by (intro that [of rC]) (auto simp: rounds.simps [of e n "sid t" TTL] frame_def)
  qed
  have same: "ids_ok rC = ids_ok r" "scopes rC = scopes r" "warrays rC = warrays r" "asyncQueue rC = []" "postDigestQueue rC = []"
    using C(2) assms(8) by (auto simp: frame_def ids_ok_def scope_of_def)
  have below: "watches_below rC t = all_watches r t"
    using watches_below_all [of rC t] watches_cong [OF same(2,3)] assms(4) by simp
  obtain out r' where R: "rounds e n (sid t) TTL rC = Some (out, r')"
    "out = Finished \<and> frame rC r' \<and> (\<forall>x\<in>set (all_watches r t). clean e r' x) \<or> out = Infdig \<and> phase r' = None"
    using rounds_clean [OF assms(1) _ _ _ _ same(4), of t n rC TTL] same assms(2,3,5,10) C(3) below
      tree_at_cong [OF same(2)] length_pruned [of "has_watches rC" t] by (auto simp: below)
  have D: "digest e n rs (sid t) r =
      (if out \<noteq> Finished then Some (out, r') else map_option (Pair Finished) (drain_post e rs n (r'\<lparr>phase := None\<rparr>)))"
    using assms(6,9) A(1) R(1) by (simp add: digest_def beginPhase_def Let_def flip: rA_def rB_def C(1))
  show ?thesis
  proof (cases "out = Finished")
    case True
    with R(2) have F: "frame rC r'" "\<forall>x\<in>set (all_watches r t). clean e r' x" by auto
    then have "drain_post e rs n (r'\<lparr>phase := None\<rparr>) = Some (r'\<lparr>phase := None\<rparr>)"
      using same assms(10) by (cases n) (auto simp: frame_def)
    with D True F clean_cong [OF assms(1), of r' "r'\<lparr>phase := None\<rparr>"] show ?thesis by auto
  next
    case False
    with D R(2) show ?thesis by auto
  qed
qed

lemma digest_settles_witness:
  "\<exists>out r'. digest demo_env 9 0 0 (demo_state 0) = Some (out, r') \<and> phase r' = None \<and>
    (out = Finished \<and> (\<forall>x\<in>{(1, 3)}. clean demo_env r' x) \<or> out = Infdig)"
proof -
  have "well_behaved demo_env"
    by (simp add: well_behaved_def demo_env_def)
  from digest_settles [OF this, of "demo_state 0" "SNode 0 [SNode 1 []]" 9 0] demo_state_ok [of 0]
  show ?thesis by (simp add: demo_state_def)
qed

section \<open>Digests that end with an error\<close>

text \<open>
  The scopes a digest visits, step by step: the rounds that are left, the fuel that is left for this
  round, the scope, whether a watch fired in this round, and the state before the scope is checked.
\<close>

inductive visits ::
  "('m, 'v) env \<Rightarrow> nat \<Rightarrow> nat \<Rightarrow> nat \<Rightarrow> ('m, 'v) root \<Rightarrow> nat \<Rightarrow> nat \<Rightarrow> nat \<Rightarrow> bool \<Rightarrow> ('m, 'v) root \<Rightarrow> bool"
  for e fuel target ttl r0 where
  first_round: "drain_async e fuel r0 = Some r1 \<Longrightarrow> visits e fuel target ttl r0 ttl fuel target False r1"
| next_visit: "visits e fuel target ttl r0 t (Suc k) s d r1 \<Longrightarrow> check_scope e s d r1 = (False, d', r2) \<Longrightarrow>
    next_scope r2 target s (watchersCount (scope_of r2 s) \<noteq> 0) = Visit c \<Longrightarrow> visits e fuel target ttl r0 t k c d' r2"
| next_round: "visits e fuel target ttl r0 (Suc t) (Suc k) s d r1 \<Longrightarrow> check_scope e s d r1 = (brk, d', r2) \<Longrightarrow>
    brk \<or> next_scope r2 target s (watchersCount (scope_of r2 s) \<noteq> 0) = Stop \<Longrightarrow> d' \<or> asyncQueue r2 \<noteq> [] \<Longrightarrow>
    drain_async e fuel r2 = Some r3 \<Longrightarrow> visits e fuel target ttl r0 t fuel target False r3"

text \<open>What is left of the rounds at a visit.\<close>

definition resume ::
  "('m, 'v) env \<Rightarrow> nat \<Rightarrow> nat \<Rightarrow> nat \<Rightarrow> (outcome \<times> bool \<times> ('m, 'v) root) option \<Rightarrow> (outcome \<times> ('m, 'v) root) option" where
  "resume e fuel target t res =
     (case res of
        None \<Rightarrow> None
      | Some (out, dirty, r) \<Rightarrow>
          if out \<noteq> Finished then Some (out, r)
          else if dirty \<or> asyncQueue r \<noteq> [] then
            (case t of 0 \<Rightarrow> Some (Infdig, r\<lparr>phase := None\<rparr>) | Suc t \<Rightarrow> rounds e fuel target t r)
          else Some (Finished, r))"

lemma rounds_resume:
  "drain_async e fuel r = Some r1 \<Longrightarrow> rounds e fuel target t r = resume e fuel target t (traverse e fuel target target False r1)"
  by (subst rounds.simps) (simp add: resume_def)

lemma visits_rounds:
  "visits e fuel target ttl r0 t k s d r1 \<Longrightarrow>
     rounds e fuel target ttl r0 = resume e fuel target t (traverse e k target s d r1)"
proof (induction rule: visits.induct)
  case (next_round t k s d r1 brk d' r2 r3)
  then have "traverse e (Suc k) target s d r1 = Some (Finished, d', r2)" by auto
  with next_round show ?case by (auto simp: resume_def [of e fuel target "Suc t"] rounds_resume)
qed (simp_all add: rounds_resume)

text \<open>Callbacks may do what they like while a phase is under way but begin or end it: the code refuses to.\<close>

definition keeps_phase :: "('m, 'v) env \<Rightarrow> bool" where
  "keeps_phase e \<longleftrightarrow>
     (\<forall>g s r. phase (snd (get_of e g s r)) = phase r) \<and> (\<forall>v r. phase (snd (copy e v r)) = phase r) \<and>
     (\<forall>f v l s r. phase (snd (fn_of e f v l s r)) = phase r) \<and> (\<forall>x s r. phase (snd (expr_of e x s r)) = phase r) \<and>
     (\<forall>r. phase (checkUrlChange e r) = phase r)"

lemma phase_handle [simp]: "phase (handle res) = phase (snd res)"
  by (simp add: handle_def exceptionHandler_def)

lemma drain_async_phase: "keeps_phase e \<Longrightarrow> drain_async e n r = Some r' \<Longrightarrow> phase r' = phase r"
  by (induction n arbitrary: r) (auto simp: eval_expr_def keeps_phase_def split: list.splits)

lemma check_watch_phase:
  assumes "keeps_phase e" "check_watch e s w d r = (brk, d', r')"
  shows "phase r' = phase r"
proof (cases "watcher_objs r w")
  case (Some wo)
  obtain g r1 where g: "get_of e (get wo) s r = (g, r1)" by fastforce
  then have r1: "phase r1 = phase r" using assms(1) by (metis keeps_phase_def snd_conv)
  have c: "phase (snd (if b then copy e v r1 else (v, r1))) = phase r" for b v
    using assms(1) r1 by (simp add: keeps_phase_def)
  have f: "phase (snd (fn_of e f v l s r2)) = phase r2" for f v l r2
    using assms(1) by (simp add: keeps_phase_def)
  show ?thesis
  proof (cases g)
    case None
    with assms(2) Some g r1 show ?thesis by (auto simp: check_watch_def exceptionHandler_def)
  next
    case (Some v)
    define w1 where "w1 = (case watcher_objs r1 w of Some wo' \<Rightarrow> wo' | None \<Rightarrow> wo)"
    obtain x r2 where x: "(if eq w1 then copy e v r1 else (v, r1)) = (x, r2)" by fastforce
    with c [of "eq w1" v] have "phase r2 = phase r" by simp
    with assms(2) \<open>watcher_objs r w = Some wo\<close> Some g x r1 show ?thesis
      by (auto simp: check_watch_def f Let_def simp flip: w1_def split: if_splits)
  qed
qed (use assms(2) in \<open>simp add: check_watch_def\<close>)

lemma check_watches_phase:
  "keeps_phase e \<Longrightarrow> check_watches e s a i d r = (brk, d', r') \<Longrightarrow> phase r' = phase r"
  by (induction i arbitrary: d r) (auto dest: check_watch_phase split: prod.splits if_splits)

lemma check_scope_phase: "keeps_phase e \<Longrightarrow> check_scope e s d r = (brk, d', r') \<Longrightarrow> phase r' = phase r"
  by (auto simp: check_scope_def dest: check_watches_phase split: option.splits)

lemma visits_phase: "visits e fuel target ttl r0 t k s d r1 \<Longrightarrow> keeps_phase e \<Longrightarrow> phase r1 = phase r0"
proof (induction rule: visits.induct)
  case (next_round t k s d r1 brk d' r2 r3)
  then show ?case
    using check_scope_phase [OF next_round.prems next_round(2)] drain_async_phase [OF next_round.prems next_round(5)] by simp
qed (auto dest: drain_async_phase check_scope_phase)

text \<open>The scope a listener destroyed is cut off from its parent and its siblings.\<close>

lemma destroyed_crash:
  assumes "scope_destroy e j s r0 = Some (Finished, r1)" "\<not> is_disabled r0 s" "\<not> is_destroyed r0 s" "s \<noteq> target"
    and "scopes r2 s = scopes r1 s"
  shows "next_scope r2 target s down = Crash"
proof -
  from assms(1-3) obtain r where r: "r1 = cleanUpScope s r"
    by (auto simp: scope_destroy_def Let_def split: option.splits prod.splits if_splits)
  have "parent (scope_of r1 s) = None \<and> nextSibling (scope_of r1 s) = None \<and> childHead (scope_of r1 s) = None"
    by (auto simp: r cleanUpScope_def upd_def scope_of_def new_scope_def split: option.split)
  then have "parent (scope_of r2 s) = None \<and> nextSibling (scope_of r2 s) = None \<and> childHead (scope_of r2 s) = None"
    using assms(5) by (simp add: scope_of_def)
  then show ?thesis using assms(4) by (cases "uid r2") (simp_all add: next_scope_def)
qed

text \<open>Later calls of \<open>$digest\<close> and \<open>$apply\<close>, their errors left to the caller.\<close>

datatype call = DigestCall nat | ApplyCall nat nat

definition later_call :: "('m, 'v) env \<Rightarrow> nat \<Rightarrow> nat \<Rightarrow> call \<Rightarrow> ('m, 'v) root \<Rightarrow> (outcome \<times> ('m, 'v) root) option" where
  "later_call e fuel rs c r =
     (case c of DigestCall s \<Rightarrow> digest e fuel rs s r | ApplyCall s x \<Rightarrow> scope_apply e fuel rs s x r)"

fun later_calls ::
  "('m, 'v) env \<Rightarrow> nat \<Rightarrow> nat \<Rightarrow> call list \<Rightarrow> ('m, 'v) root \<Rightarrow> (outcome list \<times> ('m, 'v) root) option" where
  "later_calls e fuel rs [] r = Some ([], r)"
| "later_calls e fuel rs (c # cs) r =
     (case later_call e fuel rs c r of
        None \<Rightarrow> None
      | Some (out, r) \<Rightarrow> map_option (\<lambda>(outs, r). (out # outs, r)) (later_calls e fuel rs cs r))"

lemma disabled_exceptions [simp]: "is_disabled (r\<lparr>exceptions := k\<rparr>) s = is_disabled r s"
proof -
  have "inherited n f (r\<lparr>exceptions := k\<rparr>) s = inherited n f r s" for n f
    by (induction n arbitrary: s) (simp_all add: scope_of_def split: option.split)
  then show ?thesis by (simp add: is_disabled_def)
qed

lemma later_call_stuck:
  assumes "phase r \<noteq> None" "\<not> is_disabled r rs"
  shows "\<exists>k. later_call e fuel rs c r =
    Some (if is_disabled r (case c of DigestCall s \<Rightarrow> s | ApplyCall s x \<Rightarrow> s) then Finished else InProgress, r\<lparr>exceptions := k\<rparr>)"
proof (cases c)
  case (DigestCall s)
  then show ?thesis using assms(1)
    by (intro exI [of _ "exceptions r"]) (simp add: later_call_def digest_def beginPhase_def)
next
  case (ApplyCall s x)
  show ?thesis
  proof (cases "is_disabled r s")
    case True
    then show ?thesis using ApplyCall
      by (intro exI [of _ "exceptions r"]) (simp add: later_call_def scope_apply_def)
  next
    case False
    then show ?thesis using ApplyCall assms
      by (intro exI [of _ "Suc (Suc (exceptions r))"])
        (simp add: later_call_def scope_apply_def apply_with_def digest_def beginPhase_def exceptionHandler_def)
  qed
qed

lemma later_calls_stuck:
  "phase r \<noteq> None \<Longrightarrow> \<not> is_disabled r rs \<Longrightarrow>
    \<exists>k. later_calls e fuel rs cs r =
      Some (map (\<lambda>c. if is_disabled r (case c of DigestCall s \<Rightarrow> s | ApplyCall s x \<Rightarrow> s) then Finished else InProgress) cs,
            r\<lparr>exceptions := k\<rparr>)"
proof (induction cs arbitrary: r)
  case Nil
  then show ?case by (intro exI [of _ "exceptions r"]) simp
next
  case (Cons c cs)
  from later_call_stuck [OF Cons.prems] obtain k where k: "later_call e fuel rs c r =
    Some (if is_disabled r (case c of DigestCall s \<Rightarrow> s | ApplyCall s x \<Rightarrow> s) then Finished else InProgress, r\<lparr>exceptions := k\<rparr>)"
    by blast
  from Cons.IH [of "r\<lparr>exceptions := k\<rparr>"] Cons.prems k show ?case by auto
qed

text \<open>
  C21. A watch listener that destroys its own scope ends the digest for good. When the digest of \<open>target\<close> visits
  another scope \<open>s\<close>, in any of its rounds, and one of the listeners of its watches destroys \<open>s\<close>, the
  traversal climbs from the cleaned-up scope and dereferences null: the digest ends with that error, its
  phase is not cleared, and every later \<open>$digest\<close> or \<open>$apply\<close> of a scope that still has these methods, however
  many are called, fails because one is in progress and changes nothing but the count of reported errors.
  The callbacks are arbitrary as long as they do not begin or end a phase, which the code does not let them.
\<close>

theorem destroying_watch_stops_digests:
  assumes callbacks: "keeps_phase e"
    and start: "phase r = None" "\<not> is_disabled r target"
      "r0 = (checkUrlChange e (r\<lparr>phase := Some ''$digest''\<rparr>))\<lparr>lastDirtyWatch := None\<rparr>" "applyAsyncId r0 = None"
    and visit: "visits e fuel target TTL r0 t (Suc k) s d r1" "s \<noteq> target" "check_scope e s d r1 = (False, d', r2)"
    and destroyed: "scope_destroy e j s rx = Some (Finished, ry)" "\<not> is_disabled rx s" "\<not> is_destroyed rx s"
      "scopes r2 s = scopes ry s"
    and root_alive: "\<not> is_disabled r2 rs"
  shows "digest e fuel rs target r = Some (NullDereference, r2) \<and> phase r2 = Some ''$digest'' \<and>
    (\<exists>n. later_calls e fuel rs cs r2 =
      Some (map (\<lambda>c. if is_disabled r2 (case c of DigestCall x \<Rightarrow> x | ApplyCall x a \<Rightarrow> x) then Finished else InProgress) cs,
            r2\<lparr>exceptions := n\<rparr>))"
proof -
  have "next_scope r2 target s down = Crash" for down
    using destroyed_crash [OF destroyed(1-3) visit(2) destroyed(4)] .
  then have "traverse e (Suc k) target s d r1 = Some (NullDereference, d', r2)" using visit(3) by simp
  then have R: "rounds e fuel target TTL r0 = Some (NullDereference, r2)"
    using visits_rounds [OF visit(1)] by (simp add: resume_def)
  have "applyAsyncId (checkUrlChange e (r\<lparr>phase := Some ''$digest''\<rparr>)) = None" using start(3,4) by simp
  then have D: "digest e fuel rs target r = Some (NullDereference, r2)"
    using start(1,2) R by (simp add: digest_def beginPhase_def Let_def flip: start(3))
  have "phase r0 = Some ''$digest''" using callbacks start(3) by (simp add: keeps_phase_def)
  then have P: "phase r2 = Some ''$digest''"
    using visits_phase [OF visit(1) callbacks] check_scope_phase [OF callbacks visit(3)] by simp
  with D later_calls_stuck [of r2 rs e fuel cs] root_alive show ?thesis by simp
qed

lemma changed_None: "last_value wo = None \<Longrightarrow> changed e r wo v"
  by (simp add: changed_def)

definition destroying_env :: "(nat, nat) env" where
  "destroying_env = demo_env\<lparr>fn_of := (\<lambda>f v l s r. (False, case scope_destroy demo_env 9 s r of
     Some (out, r') \<Rightarrow> r'\<lparr>phase := phase r\<rparr> | None \<Rightarrow> r))\<rparr>"

lemma destroying_watch_stops_digests_witness:
  "\<exists>r' n. digest destroying_env 9 0 0 ((demo_state 7)\<lparr>asyncQueue := []\<rparr>) = Some (NullDereference, r') \<and>
     later_calls destroying_env 9 0 [DigestCall 0, ApplyCall 0 0] r' = Some ([InProgress, InProgress], r'\<lparr>exceptions := n\<rparr>)"
proof -
  let ?r0 = "(demo_state 7)\<lparr>phase := Some ''$digest'', asyncQueue := []\<rparr>"
  let ?fired = "?r0\<lparr>lastDirtyWatch := Some 3, watcher_objs := [3 \<mapsto> \<lparr>get = 0, fn = 0, last_value = Some 7, eq = False\<rparr>]\<rparr>"
  have dest: "scope_destroy demo_env 9 1 ?fired = scope_destroy destroying_env 9 1 ?fired"
    by (simp add: scope_destroy_def broadcast_def demo_state_def scope_of_def count_of_def new_scope_def)
  have off: "\<not> is_disabled ?fired 1" "\<not> is_destroyed ?fired 1"
    by (simp_all add: is_disabled_def is_destroyed_def demo_state_def scope_of_def new_scope_def eval_nat_numeral)
  define r1 where "r1 = incrementWatchersCount 1 (- 1) (upd 1 (\<lambda>sc. sc\<lparr>own_destroyed := True\<rparr>) ?fired)"
  define r' where "r' = cleanUpScope 1 (unlink 1 (decrementListenerCount 1 1 ''x'' r1))"
  have r': "scope_destroy destroying_env 9 1 ?fired = Some (Finished, r')"
    using off by (simp add: scope_destroy_def broadcast_def count_of_def r'_def r1_def demo_state_def scope_of_def
        new_scope_def upd_def incrementWatchersCount_def ancestors_def eval_nat_numeral)
  have dis: "\<not> is_disabled r' 0"
    by (simp_all add: r'_def r1_def cleanUpScope_def unlink_def Let_def decrementListenerCount_def count_of_def demo_state_def
        scope_of_def new_scope_def upd_def upd_opt_def incrementWatchersCount_def ancestors_def eval_nat_numeral
        is_disabled_def)
  have sel: "get_of destroying_env g x r = (Some (data r), r)" "checkUrlChange destroying_env r = r"
    "fn_of destroying_env f v l x r = (False, case scope_destroy demo_env 9 x r of
        Some (out, r') \<Rightarrow> r'\<lparr>phase := phase r\<rparr> | None \<Rightarrow> r)" for g f v l x r
    by (simp_all add: destroying_env_def demo_env_def)
  have keeps: "keeps_phase destroying_env"
    by (auto simp: keeps_phase_def destroying_env_def demo_env_def split: option.splits)
  have fields: "watcher_objs (demo_state 7) = [3 \<mapsto> \<lparr>get = 0, fn = 0, last_value = None, eq = False\<rparr>]" "data (demo_state 7) = 7"
    by (simp_all add: demo_state_def)
  have ph: "phase r' = Some ''$digest''"
    by (simp add: r'_def r1_def cleanUpScope_def unlink_def Let_def decrementListenerCount_def count_of_def demo_state_def
        scope_of_def new_scope_def upd_def upd_opt_def incrementWatchersCount_def ancestors_def eval_nat_numeral)
  then have same: "r'\<lparr>phase := Some ''$digest''\<rparr> = r'" by simp
  let ?r1 = "?r0\<lparr>lastDirtyWatch := None\<rparr>"
  have one: "check_watch destroying_env 1 3 False ?r1 = (False, True, r')"
    using r' dest same by (simp add: check_watch_def sel fields changed_None handle_def Let_def)
  moreover have "watchers (scope_of ?r1 1) = Some 2" "warrays ?r1 2 = [3]"
    by (simp_all add: demo_state_def scope_of_def)
  ultimately have chk: "check_scope destroying_env 1 False ?r1 = (False, True, r')"
    by (simp add: check_scope_def)
  have "visits destroying_env 9 0 TTL ?r1 TTL (Suc 8) 0 False ?r1"
    using first_round [of destroying_env 9 ?r1 ?r1 0 TTL] by (simp add: eval_nat_numeral)
  moreover have "check_scope destroying_env 0 False ?r1 = (False, False, ?r1)"
    "next_scope ?r1 0 0 (watchersCount (scope_of ?r1 0) \<noteq> 0) = Visit 1"
    by (simp_all add: check_scope_def next_scope_def demo_state_def scope_of_def new_scope_def)
  ultimately have "visits destroying_env 9 0 TTL ?r1 TTL 8 1 False ?r1" by (rule visits.next_visit)
  then have vis: "visits destroying_env 9 0 TTL ?r1 TTL (Suc 7) 1 False ?r1" by (simp add: eval_nat_numeral)
  have start: "phase ((demo_state 7)\<lparr>asyncQueue := []\<rparr>) = None" "\<not> is_disabled ((demo_state 7)\<lparr>asyncQueue := []\<rparr>) 0"
    "?r1 = (checkUrlChange destroying_env ((demo_state 7)\<lparr>asyncQueue := [], phase := Some ''$digest''\<rparr>))\<lparr>lastDirtyWatch := None\<rparr>"
    "applyAsyncId ?r1 = None"
    by (simp_all add: sel is_disabled_def demo_state_def scope_of_def new_scope_def eval_nat_numeral)
  from destroying_watch_stops_digests [OF keeps start vis _ chk r' off refl dis, of "[DigestCall 0, ApplyCall 0 0]"] dis
  show ?thesis by auto
qed

end
