(* ===== verification/NgEvents.thy ===== *)
theory NgEvents
  imports NgDigest
begin

text \<open>
  The events of scopes. A broadcast calls every listener of the scope and of the scopes below it once,
  in depth-first order, although it leaves out the scopes whose count of listeners is zero.
\<close>

section \<open>Delivering an event\<close>

definition listeners_at :: "('m, 'v) root \<Rightarrow> string \<Rightarrow> nat \<Rightarrow> (nat \<times> listener option) list" where
  "listeners_at r name s =
     (case listeners (scope_of r s) name of None \<Rightarrow> [] | Some a \<Rightarrow> map (Pair s) (larrays r a))"

definition deliveries :: "('m, 'v) root \<Rightarrow> string \<Rightarrow> stree \<Rightarrow> (nat \<times> listener option) list" where
  "deliveries r name t = concat (map (listeners_at r name) (preorder t))"

text \<open>Calling listeners one after the other, each with the event at its scope.\<close>

fun deliver ::
  "('m, 'v) env \<Rightarrow> (nat \<times> listener option) list \<Rightarrow> event \<Rightarrow> ('m, 'v) root \<Rightarrow> event \<times> ('m, 'v) root" where
  "deliver e [] ev r = (ev, r)"
| "deliver e ((s, None) # ls) ev r = deliver e ls ev r"
| "deliver e ((s, Some l) # ls) ev r =
     (case call_listener e l (ev\<lparr>currentScope := Some s\<rparr>) r of (ev, r) \<Rightarrow> deliver e ls ev r)"

text \<open>Listeners that change the data and the event's flags only.\<close>

definition quiet :: "('m, 'v) env \<Rightarrow> bool" where
  "quiet e \<longleftrightarrow> (\<forall>c ev r. only_data r (snd (snd (listener_of e c ev r))) \<and>
     (\<exists>p q. fst (snd (listener_of e c ev r)) = ev\<lparr>defaultPrevented := p, stopPropagation := q\<rparr>))"

definition event_frame :: "('m, 'v) root \<Rightarrow> ('m, 'v) root \<Rightarrow> bool" where
  "event_frame r r' \<longleftrightarrow> scopes r' = scopes r \<and> larrays r' = larrays r \<and> uid r' = uid r"

lemma event_frame_simps [simp]:
  "event_frame r r" "event_frame r r1 \<Longrightarrow> event_frame r1 r2 \<Longrightarrow> event_frame r r2"
  by (simp_all add: event_frame_def)

lemma call_quiet:
  assumes "quiet e"
  obtains p q r' where "call_listener e (Callback c) ev r = (ev\<lparr>defaultPrevented := p, stopPropagation := q\<rparr>, r')" "event_frame r r'"
proof -
  obtain threw ev' r' where l: "listener_of e c ev r = (threw, ev', r')" by (metis prod_cases3)
  with assms obtain p q where "ev' = ev\<lparr>defaultPrevented := p, stopPropagation := q\<rparr>" "only_data r r'"
    unfolding quiet_def by (metis fst_conv snd_conv)
  with l that show thesis
    by (auto simp: call_listener_def handle_def exceptionHandler_def only_data_def event_frame_def)
qed

definition callbacks_only :: "(nat \<times> listener option) list \<Rightarrow> bool" where
  "callbacks_only ls \<longleftrightarrow> (\<forall>l\<in>set ls. \<exists>s c. l = (s, Some (Callback c)))"

lemma fire_deliver:
  assumes "quiet e"
  shows "callbacks_only (map (Pair s) (drop i (larrays r a))) \<Longrightarrow> i \<le> length (larrays r a) \<Longrightarrow> currentScope ev = Some s \<Longrightarrow>
    fire e a i (length (larrays r a)) ev r = deliver e (map (Pair s) (drop i (larrays r a))) ev r"
proof (induction "length (larrays r a) - i" arbitrary: i ev r)
  case 0
  then show ?case by (simp add: fire.simps [of e a i])
next
  case (Suc k)
  then have i: "i < length (larrays r a)" by simp
  then have d: "drop i (larrays r a) = larrays r a ! i # drop (Suc i) (larrays r a)"
    by (simp add: Cons_nth_drop_Suc)
  with Suc.prems(1) obtain c where c: "larrays r a ! i = Some (Callback c)"
    by (auto simp: callbacks_only_def)
  obtain p q r' where l: "call_listener e (Callback c) ev r = (ev\<lparr>defaultPrevented := p, stopPropagation := q\<rparr>, r')"
    "event_frame r r'"
    using call_quiet [OF assms] .
  then have arr: "larrays r' a = larrays r a" by (simp add: event_frame_def)
  have "ev\<lparr>currentScope := Some s\<rparr> = ev" using Suc.prems(3) by simp
  moreover have "fire e a (Suc i) (length (larrays r' a)) (ev\<lparr>defaultPrevented := p, stopPropagation := q\<rparr>) r' =
      deliver e (map (Pair s) (drop (Suc i) (larrays r' a))) (ev\<lparr>defaultPrevented := p, stopPropagation := q\<rparr>) r'"
    using Suc i arr d by (intro Suc.hyps(1)) (auto simp: callbacks_only_def)
  ultimately show ?case
    using i c l(1) arr by (simp add: fire.simps [of e a i] d)
qed

lemma deliver_frame:
  "quiet e \<Longrightarrow> callbacks_only ls \<Longrightarrow>
    \<exists>p q cs r'. deliver e ls ev r = (ev\<lparr>currentScope := cs, defaultPrevented := p, stopPropagation := q\<rparr>, r') \<and> event_frame r r'"
proof (induction ls arbitrary: ev r)
  case Nil
  show ?case
    by (rule exI [of _ "defaultPrevented ev"], rule exI [of _ "stopPropagation ev"], rule exI [of _ "currentScope ev"]) simp
next
  case (Cons l ls)
  then obtain s c where l: "l = (s, Some (Callback c))" by (auto simp: callbacks_only_def)
  obtain p q r1 where c: "call_listener e (Callback c) (ev\<lparr>currentScope := Some s\<rparr>) r =
      (ev\<lparr>currentScope := Some s, defaultPrevented := p, stopPropagation := q\<rparr>, r1)" "event_frame r r1"
    using call_quiet [OF Cons.prems(1)] by metis
  from Cons.IH [of "ev\<lparr>currentScope := Some s, defaultPrevented := p, stopPropagation := q\<rparr>" r1] Cons.prems
  show ?case using l c by (fastforce simp: callbacks_only_def)
qed

lemma deliver_append: "deliver e (xs @ ys) ev r = (case deliver e xs ev r of (ev, r) \<Rightarrow> deliver e ys ev r)"
  by (induction e xs ev r rule: deliver.induct) (auto split: prod.splits)

text \<open>The scope an event is left at does not matter for what is delivered next.\<close>

lemma deliver_currentScope:
  "ls \<noteq> [] \<Longrightarrow> callbacks_only ls \<Longrightarrow> deliver e ls (ev\<lparr>currentScope := x\<rparr>) r = deliver e ls ev r"
  by (cases ls) (auto simp: callbacks_only_def)

lemma deliver_cleared:
  assumes "callbacks_only ls"
  shows "map_prod (\<lambda>ev. ev\<lparr>currentScope := None\<rparr>) id (deliver e ls (ev\<lparr>currentScope := x\<rparr>) r) =
    map_prod (\<lambda>ev. ev\<lparr>currentScope := None\<rparr>) id (deliver e ls ev r)"
  using deliver_currentScope [of ls e x ev r] assms by (cases "ls = []") simp_all

section \<open>Broadcasting\<close>

definition has_listeners :: "('m, 'v) root \<Rightarrow> string \<Rightarrow> nat \<Rightarrow> bool" where
  "has_listeners r name s \<longleftrightarrow> count_of (scope_of r s) name \<noteq> 0"

lemma event_frame_scopes:
  assumes "event_frame r r'"
  shows "scope_of r' = scope_of r" "next_scope r' = next_scope r" "listeners_at r' = listeners_at r"
proof -
  show sc: "scope_of r' = scope_of r"
    using assms by (simp add: event_frame_def scope_of_def fun_eq_iff)
  have "climb n r' t s = climb n r t s" for n t s
    by (induction n arbitrary: s) (auto simp: sc split: option.split)
  then show "next_scope r' = next_scope r"
    using assms by (simp add: fun_eq_iff next_scope_def sc event_frame_def split: option.split)
  show "listeners_at r' = listeners_at r"
    using assms by (simp add: fun_eq_iff listeners_at_def sc event_frame_def split: option.split)
qed

lemma fire_at_deliver:
  assumes "quiet e" "callbacks_only (listeners_at r (event_name ev) s)"
  shows "fire_at e s ev r = deliver e (listeners_at r (event_name ev) s) (ev\<lparr>currentScope := Some s\<rparr>) r"
  using assms fire_deliver [OF assms(1), of s 0]
  by (auto simp: fire_at_def listeners_at_def Let_def split: option.splits)

definition cleared :: "event \<times> ('m, 'v) root \<Rightarrow> event \<times> ('m, 'v) root" where
  "cleared = map_prod (\<lambda>ev. ev\<lparr>currentScope := None\<rparr>) id"

lemma broadcast_from_deliver:
  assumes "quiet e"
  shows "walk r0 (has_listeners r0 name) target s ss \<Longrightarrow> length ss \<le> n \<Longrightarrow> event_frame r0 r \<Longrightarrow> event_name ev = name \<Longrightarrow>
    callbacks_only (concat (map (listeners_at r0 name) ss)) \<Longrightarrow>
    broadcast_from e n target s ev r =
      Some (Finished, cleared (deliver e (concat (map (listeners_at r0 name) ss)) ev r))"
proof (induction arbitrary: n ev r rule: walk.induct)
  case (walk_stop s)
  then obtain k where n: "n = Suc k" by (cases n) auto
  let ?ls = "listeners_at r0 name s"
  obtain ev1 r1 where d: "deliver e ?ls (ev\<lparr>currentScope := Some s\<rparr>) r = (ev1, r1)" by (metis prod.collapse)
  with deliver_frame [OF assms, of ?ls "ev\<lparr>currentScope := Some s\<rparr>" r] walk_stop
  have f: "event_frame r0 r1" "event_name ev1 = name" by (auto intro: event_frame_simps(2))
  have c: "cleared (deliver e ?ls ev r) = cleared (ev1, r1)"
    using deliver_cleared [of ?ls e "Some s" ev r] walk_stop(5) d by (simp add: cleared_def)
  show ?case
    using fire_at_deliver [OF assms, of r ev s] walk_stop f d c n
    by (simp add: event_frame_scopes [OF walk_stop(3)] event_frame_scopes [OF f(1)] has_listeners_def cleared_def)
next
  case (walk_visit s c ss)
  then obtain k where n: "n = Suc k" "length ss \<le> k" by (cases n) auto
  let ?ls = "listeners_at r0 name s" and ?rest = "concat (map (listeners_at r0 name) ss)"
  have cb: "callbacks_only ?ls" "callbacks_only ?rest"
    using walk_visit.prems by (auto simp: callbacks_only_def)
  obtain ev1 r1 where d: "deliver e ?ls (ev\<lparr>currentScope := Some s\<rparr>) r = (ev1, r1)" by (metis prod.collapse)
  with deliver_frame [OF assms cb(1), of "ev\<lparr>currentScope := Some s\<rparr>" r] walk_visit
  have f: "event_frame r0 r1" "event_name ev1 = name" by (auto intro: event_frame_simps(2))
  have IH: "broadcast_from e k target c ev1 r1 = Some (Finished, cleared (deliver e ?rest ev1 r1))"
    using walk_visit.IH [of k r1 ev1] n f cb by simp
  have c: "cleared (deliver e (?ls @ ?rest) ev r) = cleared (deliver e ?rest ev1 r1)"
  proof (cases "?ls = []")
    case True
    with d deliver_cleared [OF cb(2), of e "Some s" ev r] show ?thesis by (auto simp: cleared_def)
  next
    case False
    then have "deliver e ?ls ev r = (ev1, r1)"
      using deliver_currentScope [OF False cb(1), of e "Some s" ev r] d by simp
    then show ?thesis by (simp add: deliver_append)
  qed
  show ?case
    using fire_at_deliver [OF assms, of r ev s] walk_visit f d c n IH cb
    by (simp add: event_frame_scopes [OF walk_visit.prems(2)] event_frame_scopes [OF f(1)] has_listeners_def)
qed

fun listener_total :: "('m, 'v) root \<Rightarrow> string \<Rightarrow> stree \<Rightarrow> nat" where
  "listener_total r name (SNode s ks) = length (listeners_at r name s) + sum_list (map (listener_total r name) ks)"

text \<open>\<open>$$listenerCount[name]\<close> is the number of listeners of the scope and of all scopes below it.\<close>

fun listener_counts_ok :: "('m, 'v) root \<Rightarrow> string \<Rightarrow> stree \<Rightarrow> bool" where
  "listener_counts_ok r name (SNode s ks) =
     (count_of (scope_of r s) name = int (listener_total r name (SNode s ks)) \<and> list_all (listener_counts_ok r name) ks)"

lemma deliveries_node:
  "deliveries r name (SNode s ks) = listeners_at r name s @ concat (map (deliveries r name) ks)"
  by (simp add: deliveries_def [abs_def] concat_map_concat comp_def)

lemma length_deliveries: "length (deliveries r name t) = listener_total r name t"
  by (induction t) (auto simp: deliveries_node length_concat comp_def intro!: arg_cong [of _ _ sum_list])

lemma pruned_deliveries:
  "listener_counts_ok r name t \<Longrightarrow> concat (map (listeners_at r name) (pruned (has_listeners r name) t)) = deliveries r name t"
proof (induction t)
  case (SNode s ks)
  show ?case
  proof (cases "has_listeners r name s")
    case True
    have "concat (map (\<lambda>t. concat (map (listeners_at r name) (pruned (has_listeners r name) t))) ks) = concat (map (deliveries r name) ks)"
      using SNode by (intro arg_cong [of _ _ concat] map_cong) (auto simp: list_all_iff)
    with True show ?thesis by (simp add: deliveries_node concat_map_concat comp_def)
  next
    case False
    from SNode.prems have "count_of (scope_of r s) name = int (listener_total r name (SNode s ks))" by simp
    with False have "length (deliveries r name (SNode s ks)) = 0"
      by (simp only: has_listeners_def length_deliveries not_not of_nat_eq_0_iff)
    then have "deliveries r name (SNode s ks) = []" by simp
    with False show ?thesis by (simp add: deliveries_node)
  qed
qed

section \<open>Properties\<close>

text \<open>
  C23. Broadcasting an event calls exactly the listeners for it of the scope and of the scopes below it,
  each once, in depth-first order and in the order of registration, and returns the event with the
  flags they set; the scopes left out because their listener count is zero have none.
\<close>

theorem broadcast_reaches_all:
  assumes "quiet e" "ids_ok r" "tree_at r t" "listener_counts_ok r name t"
    and "callbacks_only (deliveries r name t)" "length (preorder t) \<le> n"
  shows "broadcast e n (sid t) name r =
    Some (Finished, map_prod (\<lambda>ev. ev\<lparr>currentScope := None\<rparr>) id (deliver e (deliveries r name t) (new_event name (sid t)) r))"
proof (cases "count_of (scope_of r (sid t)) name = 0")
  case True
  then have "length (deliveries r name t) = 0"
    using assms(4) by (cases t) (simp only: length_deliveries listener_counts_ok.simps stree.sel of_nat_0_eq_iff of_nat_eq_0_iff)
  with True show ?thesis by (simp add: broadcast_def new_event_def)
next
  case False
  have "broadcast_from e n (sid t) (sid t) (new_event name (sid t)) r =
      Some (Finished, cleared (deliver e (concat (map (listeners_at r name) (pruned (has_listeners r name) t)))
        (new_event name (sid t)) r))"
    using assms length_pruned [of "has_listeners r name" t]
    by (intro broadcast_from_deliver walk_tree) (auto simp: pruned_deliveries new_event_def)
  with False show ?thesis
    by (simp add: broadcast_def pruned_deliveries [OF assms(4)] cleared_def)
qed

lemma broadcast_reaches_all_witness:
  "broadcast demo_env 2 0 ''x'' (demo_state 7) =
    Some (Finished, map_prod (\<lambda>ev. ev\<lparr>currentScope := None\<rparr>) id
      (deliver demo_env [(1, Some (Callback 0))] (new_event ''x'' 0) (demo_state 7)))"
proof -
  have "quiet demo_env"
    by (auto simp: quiet_def demo_env_def) (metis event.surjective event.update_convs(4,5))
  moreover have "deliveries (demo_state 7) ''x'' (SNode 0 [SNode 1 []]) = [(1, Some (Callback 0))]"
    "listener_counts_ok (demo_state 7) ''x'' (SNode 0 [SNode 1 []])"
    by (simp_all add: deliveries_def listeners_at_def demo_state_def scope_of_def new_scope_def count_of_def)
  ultimately show ?thesis
    using broadcast_reaches_all [of demo_env "demo_state 7" "SNode 0 [SNode 1 []]" "''x''" 2] demo_state_ok [of 7]
    by (simp add: callbacks_only_def)
qed

end
