(* ===== verification/NgScopeOps.thy ===== *)
theory NgScopeOps
  imports NgEvents "HOL-Library.Multiset"
begin

text \<open>
  Creating scopes as an operation on trees: \<open>$new\<close> appends a child, and keeps the identifiers in order
  and the counts of watches right.
\<close>

section \<open>What \<open>$new\<close> does to the links\<close>

fun add_child :: "nat \<Rightarrow> nat \<Rightarrow> stree \<Rightarrow> stree" where
  "add_child p c (SNode s ks) = SNode s (if s = p then ks @ [SNode c []] else map (add_child p c) ks)"

text \<open>The links after \<open>c\<close> was appended to the children of \<open>p\<close>, of which \<open>tl\<close> was the last.\<close>

definition appended :: "('m, 'v) root \<Rightarrow> nat \<Rightarrow> nat \<Rightarrow> ('m, 'v) root \<Rightarrow> bool" where
  "appended r p c r' \<longleftrightarrow>
     (let tl = childTail (scope_of r p)
      in dom (scopes r') = insert c (dom (scopes r)) \<and> parent (scope_of r' c) = Some p \<and>
         prevSibling (scope_of r' c) = tl \<and> nextSibling (scope_of r' c) = None \<and>
         childHead (scope_of r' c) = None \<and> childTail (scope_of r' c) = None \<and>
         (\<forall>x. x \<noteq> c \<longrightarrow>
            parent (scope_of r' x) = parent (scope_of r x) \<and> prevSibling (scope_of r' x) = prevSibling (scope_of r x) \<and>
            nextSibling (scope_of r' x) = (if Some x = tl then Some c else nextSibling (scope_of r x)) \<and>
            childHead (scope_of r' x) = (if x = p \<and> childHead (scope_of r p) = None then Some c else childHead (scope_of r x)) \<and>
            childTail (scope_of r' x) = (if x = p then Some c else childTail (scope_of r x))))"

definition ids :: "stree list \<Rightarrow> nat list" where
  "ids ts = concat (map preorder ts)"

lemma ids_simps [simp]:
  "ids [] = []" "ids (SNode s ks # ts) = s # ids ks @ ids ts" "ids (ts @ us) = ids ts @ ids us"
  "preorder (SNode s ks) = s # ids ks"
  by (simp_all add: ids_def)

declare preorder.simps [simp del]

lemma in_ids: "x \<in> set (ids ts) \<longleftrightarrow> (\<exists>t\<in>set ts. x \<in> set (preorder t))"
  by (auto simp: ids_def)

lemma sid_preorder [simp]: "sid t \<in> set (preorder t)"
  by (cases t) simp

lemma sid_ids: "t \<in> set ts \<Longrightarrow> sid t \<in> set (ids ts)"
  using sid_preorder in_ids by blast

lemma last_id_ids: "last_id ts = Some x \<Longrightarrow> x \<in> set (ids ts)"
  by (auto simp: last_id_def sid_ids split: if_splits)

lemma sid_add_child [simp]: "sid (add_child p c t) = sid t"
  by (cases t) simp

lemma id_map_add_child [simp]:
  "first_id (map (add_child p c) ts) = first_id ts" "last_id (map (add_child p c) ts) = last_id ts"
  by (simp_all add: first_id_def last_id_def last_map split: list.split)

lemma appended_at:
  assumes "appended r p c r'" "x \<noteq> c"
  shows "parent (scope_of r' x) = parent (scope_of r x)" "prevSibling (scope_of r' x) = prevSibling (scope_of r x)"
    "nextSibling (scope_of r' x) = (if Some x = childTail (scope_of r p) then Some c else nextSibling (scope_of r x))"
    "childHead (scope_of r' x) = (if x = p \<and> childHead (scope_of r p) = None then Some c else childHead (scope_of r x))"
    "childTail (scope_of r' x) = (if x = p then Some c else childTail (scope_of r x))"
  using assms by (simp_all add: appended_def Let_def)

lemma appended_dom: "appended r p c r' \<Longrightarrow> x \<in> dom (scopes r) \<Longrightarrow> x \<in> dom (scopes r')"
  by (simp add: appended_def Let_def)

lemma appended_frame:
  assumes "appended r p c r'"
  shows "linked r q prev ts \<Longrightarrow> p \<notin> set (ids ts) \<Longrightarrow> c \<notin> set (ids ts) \<Longrightarrow>
    (\<forall>tl. childTail (scope_of r p) = Some tl \<longrightarrow> tl \<notin> set (ids ts)) \<Longrightarrow> linked r' q prev ts"
  using assms
proof (induction r q prev ts rule: linked.induct)
  case (2 r q prev s ks ts)
  have "linked r' s None ks" "linked r' q (Some s) ts"
    using 2 by auto
  moreover have "s \<in> dom (scopes r')"
    using 2(3) by (intro appended_dom [OF 2(7)]) simp
  moreover have "s \<noteq> c" "Some s \<noteq> childTail (scope_of r p)" using 2(5,6) by (auto dest: sym)
  ultimately show ?case
    using 2(3-6) appended_at [OF 2(7), of s] by (simp del: domIff)
qed simp

lemma appended_kids:
  assumes "appended r p c r'"
  shows "linked r p prev ks \<Longrightarrow> p \<notin> set (ids ks) \<Longrightarrow> c \<notin> set (ids ks) \<Longrightarrow> distinct (ids ks) \<Longrightarrow>
    childTail (scope_of r p) = (if ks = [] then prev else last_id ks) \<Longrightarrow> linked r' p prev (ks @ [SNode c []])"
proof (induction ks arbitrary: prev)
  case Nil
  then show ?case using assms by (auto simp: appended_def Let_def first_id_def last_id_def)
next
  case (Cons t ks)
  obtain s us where t: "t = SNode s us" by (cases t)
  have tail: "childTail (scope_of r p) = (if ks = [] then Some s else last_id ks)"
    using Cons.prems(5) t by (simp add: last_id_def)
  then have notin: "\<forall>tl. childTail (scope_of r p) = Some tl \<longrightarrow> tl \<notin> set (ids us)"
    using Cons.prems(4) t last_id_ids [of ks] by (auto split: if_splits)
  have "linked r' s None us"
    using Cons.prems t by (intro appended_frame [OF assms _ _ _ notin]) auto
  moreover have "linked r' p (Some s) (ks @ [SNode c []])"
    using Cons.prems t tail by (intro Cons.IH) auto
  moreover have "Some s = childTail (scope_of r p) \<longleftrightarrow> ks = []"
    using tail Cons.prems(4) t last_id_ids [of ks s] by auto
  moreover have "first_id (ks @ [SNode c []]) = (if ks = [] then Some c else first_id ks)"
    by (simp add: first_id_def split: list.split)
  moreover have "s \<noteq> c" "s \<noteq> p" using Cons.prems t by auto
  moreover have "s \<in> dom (scopes r')"
    using Cons.prems(1) t by (intro appended_dom [OF assms]) simp
  ultimately show ?case
    using appended_at [OF assms, of s] Cons.prems t by (simp add: tail)
qed

lemma add_child_absent: "p \<notin> set (preorder t) \<Longrightarrow> add_child p c t = t"
  by (induction t) (auto simp: ids_def map_idI)

lemma appended_linked:
  assumes "appended r p c r'"
  shows "linked r q prev ts \<Longrightarrow> q \<noteq> p \<Longrightarrow> distinct (ids ts) \<Longrightarrow> c \<notin> set (ids ts) \<Longrightarrow>
    (\<forall>tl. childTail (scope_of r p) = Some tl \<longrightarrow> parent (scope_of r tl) = Some p) \<Longrightarrow>
    linked r' q prev (map (add_child p c) ts)"
  using assms
proof (induction r q prev ts rule: linked.induct)
  case (2 r q prev s ks ts)
  have s: "s \<noteq> c" "Some s \<noteq> childTail (scope_of r p)" "parent (scope_of r s) = Some q"
    using 2 by auto
  have "linked r' s None (if s = p then ks @ [SNode c []] else map (add_child p c) ks)"
  proof (cases "s = p")
    case True
    with 2 have "linked r' s None (ks @ [SNode c []])"
      by (intro appended_kids [OF 2(8) [unfolded True [symmetric]]]) (auto simp: last_id_def)
    with True show ?thesis by simp
  qed (use 2 in auto)
  moreover have "first_id (ks @ [SNode c []]) = (if ks = [] then Some c else first_id ks)"
    "last_id (ks @ [SNode c []]) = Some c"
    by (simp_all add: first_id_def last_id_def split: list.split)
  moreover have "childHead (scope_of r p) = None \<longleftrightarrow> ks = []" if "s = p"
    using 2 that by (auto simp: first_id_def split: list.splits)
  moreover have "s \<in> dom (scopes r')"
    using 2(3) by (intro appended_dom [OF 2(8)]) simp
  moreover have "linked r' q (Some s) (map (add_child p c) ts)" using 2 by simp
  ultimately show ?case
    using 2(3) s appended_at [OF 2(8) s(1)] by auto
qed simp

lemma linked_parent: "linked r p prev ts \<Longrightarrow> last_id ts = Some x \<Longrightarrow> parent (scope_of r x) = Some p"
  by (induction r p prev ts rule: linked.induct) (auto simp: last_id_def split: if_splits)

lemma linked_tails: "linked r q prev ts \<Longrightarrow> p \<in> set (ids ts) \<Longrightarrow> childTail (scope_of r p) = Some x \<Longrightarrow> parent (scope_of r x) = Some p"
  by (induction r q prev ts rule: linked.induct) (auto dest: linked_parent)

lemma tree_tails:
  "tree_at r t \<Longrightarrow> p \<in> set (preorder t) \<Longrightarrow> childTail (scope_of r p) = Some x \<Longrightarrow> parent (scope_of r x) = Some p"
  by (cases t) (auto dest: linked_parent linked_tails)

lemma mset_add_child:
  "distinct (preorder t) \<Longrightarrow> p \<in> set (preorder t) \<Longrightarrow> mset (preorder (add_child p c t)) = add_mset c (mset (preorder t))"
proof (induction t)
  case (SNode s ks)
  show ?case
  proof (cases "s = p")
    case False
    with SNode.prems obtain k ks1 ks2 where ks: "ks = ks1 @ k # ks2" "p \<in> set (preorder k)"
      by (auto simp: in_ids dest!: split_list)
    moreover have "ids (k # ks2) = preorder k @ ids ks2" by (simp add: ids_def)
    ultimately have d: "distinct (preorder k)" "p \<notin> set (ids ks1)" "p \<notin> set (ids ks2)"
      using SNode.prems(1) by auto
    then have "map (add_child p c) ks1 = ks1" "map (add_child p c) ks2 = ks2"
      by (auto simp: in_ids intro!: map_idI add_child_absent)
    with False ks SNode.IH [of k] d show ?thesis by (simp add: ids_def)
  qed (simp add: ids_def)
qed

lemma appended_tree:
  assumes "appended r p c r'" "tree_at r t" "p \<in> set (preorder t)" "c \<notin> set (preorder t)"
  shows "tree_at r' (add_child p c t)"
proof -
  obtain s ks where t: "t = SNode s ks" by (cases t)
  have tails: "\<forall>tl. childTail (scope_of r p) = Some tl \<longrightarrow> parent (scope_of r tl) = Some p"
    using tree_tails [OF assms(2,3)] by simp
  have s: "s \<in> dom (scopes r')" "s \<noteq> c"
    using assms(2,4) t by (intro appended_dom [OF assms(1)], simp_all)
  have d: "distinct (preorder (add_child p c t))"
    using mset_add_child [of t p c] assms(2-4) t by (metis distinct.simps(2) mset.simps(2) mset_eq_imp_distinct_iff tree_at.simps)
  have "linked r' s None (if s = p then ks @ [SNode c []] else map (add_child p c) ks)"
  proof (cases "s = p")
    case True
    then show ?thesis
      using assms(2,4) t by (auto intro!: appended_kids [OF assms(1)] simp: last_id_def)
  next
    case False
    then show ?thesis
      using assms(2,4) t tails by (auto intro!: appended_linked [OF assms(1)])
  qed
  moreover have "first_id (ks @ [SNode c []]) = (if ks = [] then Some c else first_id ks)"
    "last_id (ks @ [SNode c []]) = Some c"
    by (simp_all add: first_id_def last_id_def split: list.split)
  moreover have "childHead (scope_of r s) = None \<longleftrightarrow> ks = []"
    using assms(2) t by (auto simp: first_id_def split: list.splits)
  ultimately show ?thesis
    using d s appended_at(4,5) [OF assms(1) s(2)] assms(2) t by (auto simp del: domIff)
qed

section \<open>The operations\<close>

text \<open>The fields an update of the listener or watch counts leaves alone.\<close>

definition same_links :: "('m, 'v) root \<Rightarrow> ('m, 'v) root \<Rightarrow> bool" where
  "same_links r r' \<longleftrightarrow> dom (scopes r') = dom (scopes r) \<and> (\<forall>x.
     parent (scope_of r' x) = parent (scope_of r x) \<and> prevSibling (scope_of r' x) = prevSibling (scope_of r x) \<and>
     nextSibling (scope_of r' x) = nextSibling (scope_of r x) \<and> childHead (scope_of r' x) = childHead (scope_of r x) \<and>
     childTail (scope_of r' x) = childTail (scope_of r x))"

lemma same_links_refl [simp]: "same_links r r"
  by (simp add: same_links_def)

lemma same_links_trans: "same_links r r1 \<Longrightarrow> same_links r1 r2 \<Longrightarrow> same_links r r2"
  by (simp add: same_links_def)

lemma fold_same_links: "(\<And>x r. x \<in> set xs \<Longrightarrow> same_links r (f x r)) \<Longrightarrow> same_links r (fold f xs r)"
proof (induction xs arbitrary: r)
  case (Cons x xs)
  then show ?case using same_links_trans [of r "f x r"] by simp
qed simp

lemma same_links_scopes: "scopes r' = scopes r \<Longrightarrow> same_links r r'"
  by (simp add: same_links_def scope_of_def)

lemma upd_links:
  "same_links r (upd x (\<lambda>sc. sc\<lparr>listenerCount := g sc\<rparr>) r)" "same_links r (upd x (\<lambda>sc. sc\<lparr>listeners := k sc\<rparr>) r)"
  "same_links r (upd x (\<lambda>sc. sc\<lparr>watchersCount := n sc\<rparr>) r)" "same_links r (upd x (\<lambda>sc. sc\<lparr>watchers := w sc\<rparr>) r)"
  by (simp_all add: same_links_def scope_of_upd)

lemma on_scope_links: "same_links r (snd (on_scope s name l r))"
proof -
  obtain a r1 where a: "listener_array s name r = (a, r1)" by (metis prod.collapse)
  let ?r = "r\<lparr>uid := Suc (uid r), larrays := (larrays r)(uid r := [])\<rparr>"
  let ?r1 = "r1\<lparr>larrays := (larrays r1)(a := larrays r1 a @ [Some l])\<rparr>"
  have "same_links ?r (upd s (\<lambda>sc. sc\<lparr>listeners := (listeners sc)(name \<mapsto> uid r)\<rparr>) ?r)" by (rule upd_links)
  moreover have "same_links r ?r" by (rule same_links_scopes) simp
  ultimately have "same_links r r1"
    using a same_links_trans by (auto simp: listener_array_def split: option.splits)
  moreover have "same_links r1 ?r1" by (rule same_links_scopes) simp
  moreover have "same_links ?r1 (incrementListenerCount s name ?r1)"
    unfolding incrementListenerCount_def by (rule fold_same_links) (rule upd_links(1))
  ultimately have "same_links r (incrementListenerCount s name ?r1)"
    using same_links_trans by blast
  with a show ?thesis by (simp add: on_scope_def)
qed

lemma scope_of_alloc:
  "scope_of (alloc_child this isolate p r) x =
     (if x = uid r then new_scope\<lparr>inherits := if isolate then None else Some this, parent := Some p,
                                  prevSibling := childTail (scope_of r p)\<rparr> else scope_of r x)"
  by (simp add: alloc_child_def scope_of_def)

lemma dom_alloc [simp]:
  "dom (scopes (alloc_child this isolate p r)) = insert (uid r) (dom (scopes r))" "uid (alloc_child this isolate p r) = Suc (uid r)"
  by (auto simp: alloc_child_def)

text \<open>A parent's first and last child are there together.\<close>

definition ends_ok :: "('m, 'v) root \<Rightarrow> nat \<Rightarrow> bool" where
  "ends_ok r p \<longleftrightarrow> (childHead (scope_of r p) = None \<longleftrightarrow> childTail (scope_of r p) = None) \<and>
     (\<forall>tl. childTail (scope_of r p) = Some tl \<longrightarrow> tl \<in> dom (scopes r))"

lemma link_child_appended:
  assumes "p \<in> dom (scopes r)" "uid r \<notin> dom (scopes r)" "ends_ok r p"
  shows "appended r p (uid r) (link_child p (uid r) (alloc_child this isolate p r))"
proof -
  have "p \<noteq> uid r" using assms(1,2) by auto
  show ?thesis
  proof (cases "childTail (scope_of r p)")
    case None
    with assms(3) have "childHead (scope_of r p) = None" by (simp add: ends_ok_def)
    with None \<open>p \<noteq> uid r\<close> assms(1) show ?thesis
      by (simp add: appended_def link_child_def scope_of_upd scope_of_alloc new_scope_def del: domIff)
  next
    case (Some tl)
    with assms(2,3) have "childHead (scope_of r p) \<noteq> None" "tl \<in> dom (scopes r)" "tl \<noteq> uid r"
      by (auto simp: ends_ok_def)
    with Some \<open>p \<noteq> uid r\<close> assms(1) show ?thesis
      by (auto simp: appended_def link_child_def scope_of_upd scope_of_alloc upd_opt_def new_scope_def simp del: domIff)
  qed
qed

lemma scope_new_appended:
  assumes "(case par of None \<Rightarrow> this | Some p \<Rightarrow> p) = p" "p \<in> dom (scopes r)" "uid r \<notin> dom (scopes r)" "ends_ok r p"
  shows "fst (scope_new this isolate par r) = uid r \<and> appended r p (uid r) (snd (scope_new this isolate par r))"
proof -
  let ?r = "link_child p (uid r) (alloc_child this isolate p r)"
  have "same_links ?r (snd (scope_new this isolate par r))"
    using assms(1) on_scope_links [of ?r "uid r"] by (auto simp: scope_new_def Let_def)
  with link_child_appended [OF assms(2-4), of this isolate] show ?thesis
    by (simp add: appended_def same_links_def Let_def scope_new_def)
qed

section \<open>Watches and new scopes\<close>

definition same_watches :: "('m, 'v) root \<Rightarrow> ('m, 'v) root \<Rightarrow> bool" where
  "same_watches r r' \<longleftrightarrow> warrays r' = warrays r \<and>
     (\<forall>x\<in>dom (scopes r). watchers (scope_of r' x) = watchers (scope_of r x) \<and>
        watchersCount (scope_of r' x) = watchersCount (scope_of r x))"

lemma fold_upd_counts:
  assumes "\<And>sc. watchers (f sc) = watchers sc \<and> watchersCount (f sc) = watchersCount sc"
  shows "warrays (fold (\<lambda>c. upd c f) xs r) = warrays r \<and>
    (\<forall>x. watchers (scope_of (fold (\<lambda>c. upd c f) xs r) x) = watchers (scope_of r x) \<and>
      watchersCount (scope_of (fold (\<lambda>c. upd c f) xs r) x) = watchersCount (scope_of r x))"
  by (induction xs arbitrary: r) (simp_all add: scope_of_upd assms)

lemma on_scope_watches:
  "warrays (snd (on_scope s name l r)) = warrays r" "watchers (scope_of (snd (on_scope s name l r)) x) = watchers (scope_of r x)"
  "watchersCount (scope_of (snd (on_scope s name l r)) x) = watchersCount (scope_of r x)"
proof -
  obtain a r1 where a: "listener_array s name r = (a, r1)" by (metis prod.collapse)
  have r1: "warrays r1 = warrays r" "watchers (scope_of r1 x) = watchers (scope_of r x)"
    "watchersCount (scope_of r1 x) = watchersCount (scope_of r x)" for x
    using a by (auto simp: listener_array_def scope_of_upd split: option.splits) (simp_all add: scope_of_def)
  have r2: "scope_of (r1\<lparr>larrays := la\<rparr>) x = scope_of r1 x" for x la by (simp add: scope_of_def)
  note f = fold_upd_counts [of "\<lambda>sc. sc\<lparr>listenerCount := AList.update name (count_of sc name + 1) (listenerCount sc)\<rparr>", simplified]
  show "warrays (snd (on_scope s name l r)) = warrays r" "watchers (scope_of (snd (on_scope s name l r)) x) = watchers (scope_of r x)"
    "watchersCount (scope_of (snd (on_scope s name l r)) x) = watchersCount (scope_of r x)"
    by (simp_all add: on_scope_def a incrementListenerCount_def f r1 r2)
qed

lemma link_child_watches:
  "watchers (scope_of (link_child p c r) x) = watchers (scope_of r x)"
  "watchersCount (scope_of (link_child p c r) x) = watchersCount (scope_of r x)" "warrays (link_child p c r) = warrays r"
  by (simp_all add: link_child_def upd_opt_def scope_of_upd split: option.split)

lemma scope_new_watches:
  assumes "uid r \<notin> dom (scopes r)"
  shows "same_watches r (snd (scope_new this isolate par r))"
    "watchers (scope_of (snd (scope_new this isolate par r)) (uid r)) = None"
    "watchersCount (scope_of (snd (scope_new this isolate par r)) (uid r)) = 0"
proof -
  let ?p = "case par of None \<Rightarrow> this | Some p \<Rightarrow> p"
  let ?r = "alloc_child this isolate ?p r" and ?r' = "snd (scope_new this isolate par r)"
  have "watchers (scope_of ?r' x) = watchers (scope_of ?r x) \<and> watchersCount (scope_of ?r' x) = watchersCount (scope_of ?r x)"
    "warrays ?r' = warrays ?r" for x
    by (simp_all add: scope_new_def Let_def on_scope_watches link_child_watches)
  moreover have "warrays ?r = warrays r" by (simp add: alloc_child_def)
  ultimately show "same_watches r ?r'" "watchers (scope_of ?r' (uid r)) = None" "watchersCount (scope_of ?r' (uid r)) = 0"
    using assms by (auto simp: same_watches_def scope_of_alloc new_scope_def)
qed

lemma fold_uid: "(\<And>x r. uid (f x r) = uid r) \<Longrightarrow> uid (fold f xs r) = uid r"
  by (induction xs arbitrary: r) simp_all

lemma on_scope_uid: "uid r \<le> uid (snd (on_scope s name l r))"
proof -
  obtain a r1 where a: "listener_array s name r = (a, r1)" by (metis prod.collapse)
  then have "uid r \<le> uid r1" by (auto simp: listener_array_def split: option.splits)
  with a show ?thesis by (simp add: on_scope_def incrementListenerCount_def fold_uid)
qed

lemma scope_new_uid: "uid r < uid (snd (scope_new this isolate par r))"
proof -
  have u: "uid (link_child q (uid r) (alloc_child this i q r)) = Suc (uid r)" for q i
    by (simp add: link_child_def upd_opt_def split: option.split)
  then have "uid r < uid (snd (on_scope s n l (link_child q (uid r) (alloc_child this i q r))))" for q i s n l
    by (metis on_scope_uid Suc_le_eq)
  with u show ?thesis by (simp add: scope_new_def Let_def)
qed

lemma linked_ids_dom: "linked r p prev ts \<Longrightarrow> set (ids ts) \<subseteq> dom (scopes r)"
  by (induction r p prev ts rule: linked.induct) auto

lemma tree_dom: "tree_at r t \<Longrightarrow> set (preorder t) \<subseteq> dom (scopes r)"
  using linked_ids_dom [of r "sid t" None "kids t"] by (cases t) (simp del: domIff)

lemma ends_of_kids:
  "childHead (scope_of r s) = first_id ks \<Longrightarrow> childTail (scope_of r s) = last_id ks \<Longrightarrow> linked r s prev ks \<Longrightarrow> ends_ok r s"
  using linked_dom [of r s prev ks "last ks"] by (auto simp: ends_ok_def first_id_def last_id_def split: list.splits if_splits)

lemma linked_ends: "linked r q prev ts \<Longrightarrow> p \<in> set (ids ts) \<Longrightarrow> ends_ok r p"
  by (induction r q prev ts rule: linked.induct) (auto intro: ends_of_kids)

lemma tree_ends: "tree_at r t \<Longrightarrow> p \<in> set (preorder t) \<Longrightarrow> ends_ok r p"
  by (cases t) (auto intro: ends_of_kids linked_ends)

lemma watches_of_same: "same_watches r r' \<Longrightarrow> x \<in> dom (scopes r) \<Longrightarrow> watches_of r' x = watches_of r x"
  by (simp add: same_watches_def watches_of_def split: option.split)

lemma counts_same:
  assumes "same_watches r r'"
  shows "set (preorder t) \<subseteq> dom (scopes r) \<Longrightarrow> watch_total r' t = watch_total r t \<and> counts_ok r' t = counts_ok r t"
proof (induction t)
  case (SNode s ks)
  have "\<forall>k\<in>set ks. watch_total r' k = watch_total r k \<and> counts_ok r' k = counts_ok r k"
    using SNode by (auto simp: ids_def)
  moreover from this have "sum_list (map (watch_total r') ks) = sum_list (map (watch_total r) ks)"
    by (intro arg_cong [of _ _ sum_list] map_cong) auto
  moreover have "watches_of r' s = watches_of r s" "watchersCount (scope_of r' s) = watchersCount (scope_of r s)"
    using SNode.prems assms watches_of_same [OF assms] by (auto simp: same_watches_def)
  ultimately show ?case by (simp add: list_all_iff)
qed

lemma counts_add_child:
  assumes "same_watches r r'" "watchers (scope_of r' c) = None" "watchersCount (scope_of r' c) = 0"
  shows "set (preorder t) \<subseteq> dom (scopes r) \<Longrightarrow> counts_ok r t \<Longrightarrow>
    counts_ok r' (add_child p c t) \<and> watch_total r' (add_child p c t) = watch_total r t"
proof (induction t)
  case (SNode s ks)
  have c: "watches_of r' c = []" "counts_ok r' (SNode c [])" "watch_total r' (SNode c []) = 0"
    using assms(2,3) by (simp_all add: watches_of_def)
  have s: "watches_of r' s = watches_of r s" "watchersCount (scope_of r' s) = watchersCount (scope_of r s)"
    using SNode.prems(1) assms(1) watches_of_same [OF assms(1)] by (auto simp: same_watches_def)
  have k1: "\<forall>k\<in>set ks. counts_ok r' (add_child p c k) \<and> watch_total r' (add_child p c k) = watch_total r k"
    using SNode by (auto simp: list_all_iff ids_def)
  have k2: "\<forall>k\<in>set ks. counts_ok r' k \<and> watch_total r' k = watch_total r k"
    using SNode.prems counts_same [OF assms(1)] by (auto simp: list_all_iff ids_def)
  have "sum_list (map (watch_total r' \<circ> add_child p c) ks) = sum_list (map (watch_total r) ks)"
    "sum_list (map (watch_total r') ks) = sum_list (map (watch_total r) ks)"
    using k1 k2 by (auto intro!: arg_cong [of _ _ sum_list] map_cong)
  then have "sum_list (map (watch_total r') (if s = p then ks @ [SNode c []] else map (add_child p c) ks)) = sum_list (map (watch_total r) ks)"
    using c by simp
  with SNode.prems(2) s c k1 k2 show ?case by (auto simp: list_all_iff)
qed

section \<open>Properties\<close>

text \<open>
  C22. Creating a scope appends a child: when the links of the scopes represent a tree, then after \<open>$new\<close>,
  isolated or not, they represent that tree with the new scope as the last child of its parent;
  identifiers stay in order, and every scope's count of watches is still the number of watches below it.
\<close>

theorem new_scope_appends_child:
  assumes "ids_ok r" "tree_at r t" "counts_ok r t"
    and "(case par of None \<Rightarrow> this | Some p \<Rightarrow> p) = p" "p \<in> set (preorder t)"
    and "scope_new this isolate par r = (c, r')"
  shows "tree_at r' (add_child p c t) \<and> counts_ok r' (add_child p c t) \<and> ids_ok r' \<and>
    c \<notin> set (preorder t) \<and> set (preorder (add_child p c t)) = insert c (set (preorder t)) \<and>
    watch_total r' (add_child p c t) = watch_total r t"
proof -
  have fresh: "uid r \<notin> dom (scopes r)" using assms(1) by (auto simp: ids_ok_def)
  have dom: "set (preorder t) \<subseteq> dom (scopes r)" using tree_dom assms(2) .
  have c: "c = uid r" "appended r p c r'"
    using scope_new_appended [OF assms(4) _ fresh tree_ends [OF assms(2,5)], of isolate] assms(5,6) dom by auto
  have out: "c \<notin> set (preorder t)" using fresh dom c by auto
  have "tree_at r' (add_child p c t)"
    using appended_tree [OF c(2) assms(2,5) out] .
  moreover have "counts_ok r' (add_child p c t) \<and> watch_total r' (add_child p c t) = watch_total r t"
    using counts_add_child [OF scope_new_watches [OF fresh, of this isolate par], of t p] assms(3,6) dom c by simp
  moreover have "ids_ok r'"
  proof -
    have dom': "uid r < uid r'" "dom (scopes r') = insert c (dom (scopes r))"
      using scope_new_uid [of r this isolate par] assms(6) c(2) by (simp_all add: appended_def Let_def)
    have par': "parent (scope_of r' x) = (if x = c then Some p else parent (scope_of r x))" for x
      using c(2) by (simp add: appended_def Let_def)
    have p: "p < uid r" "p \<in> dom (scopes r)"
      using assms(1,5) dom by (auto simp: ids_ok_def)
    have "x < uid r' \<and> (\<forall>q. parent (scope_of r' x) = Some q \<longrightarrow> q < x \<and> q \<in> dom (scopes r'))"
      if "x \<in> dom (scopes r')" for x
    proof (cases "x = c")
      case True
      with p dom' par' c(1) show ?thesis by simp
    next
      case False
      with that dom'(2) have "x < uid r \<and> (\<forall>q. parent (scope_of r x) = Some q \<longrightarrow> q < x \<and> q \<in> dom (scopes r))"
        using assms(1) unfolding ids_ok_def by blast
      with False dom' par' show ?thesis by simp
    qed
    then show ?thesis unfolding ids_ok_def by blast
  qed
  moreover have "mset (preorder (add_child p c t)) = mset (c # preorder t)"
    using mset_add_child [of t p c] assms(2,5) by (cases t) simp
  then have "set (preorder (add_child p c t)) = insert c (set (preorder t))"
    by (metis list.simps(15) set_mset_mset)
  ultimately show ?thesis using out by simp
qed


lemma new_scope_appends_child_witness:
  "let r' = snd (scope_new 1 True (Some 0) (demo_state 7)); t' = SNode 0 [SNode 1 [], SNode 5 []]
   in tree_at r' t' \<and> counts_ok r' t' \<and> ids_ok r'"
proof -
  have "fst (scope_new 1 True (Some 0) (demo_state 7)) = 5"
    by (simp add: scope_new_def Let_def demo_state_def)
  then have n: "scope_new 1 True (Some 0) (demo_state 7) = (5, snd (scope_new 1 True (Some 0) (demo_state 7)))"
    by (metis prod.collapse)
  show ?thesis
    using new_scope_appends_child [OF demo_state_ok(1-3) _ _ n, of 0] by (simp add: Let_def)
qed

end
