(* ===== verification/NgPromise.thy ===== *)
theory NgPromise
  imports Prelude
begin

text \<open>
  Promises: \<open>qFactory\<close> in \<open>assets/public/components/angular/angular.js\<close>. A promise and its \<open>$$state\<close>
  are a number and an entry of a store; the array \<open>pending\<close> is an object of its own, because a
  notification holds on to it. What a user's callback does is data of the program: from its argument
  and the data it computes the calls it makes, its result or the value it throws, and the new data.
  Of the values with a method \<open>then\<close> only promises of this service are modelled.
\<close>

section \<open>State\<close>

datatype 'v val = Undefined | Data 'v | Prom nat | Results "'v val list" | CycleError

text \<open>
  The functions an entry of \<open>pending\<close> can hold: a user's callback, the closures of \<open>$$resolve\<close> with
  the number of their flag \<open>done\<close>, the bound \<open>notify\<close>, the closures of \<open>finally\<close>, \<open>handleCallback\<close> and \<open>all\<close>.
\<close>

datatype 'v func =
  User nat
| ResolvePromise nat nat
| RejectPromise nat nat
| NotifyPromise nat
| Finally "nat option" bool
| MakePromise "'v val" bool
| MakeRejected
| AllFulfilled nat nat
| AllRejected nat nat

record 'v pentry =
  result :: nat
  onFulfilled :: "'v func option"
  onRejected :: "'v func option"
  progressBack :: "'v func option"

record 'v promise =
  status :: int
  pvalue :: "'v val"
  pending :: "nat option"
  processScheduled :: bool

record 'v all_state =
  all_deferred :: nat
  counter :: int
  results :: "'v val option list"

datatype 'v ptick = Process nat | NotifyAll nat "'v val"

record ('m, 'v) pstate =
  promises :: "nat \<Rightarrow> 'v promise"
  arrays :: "nat \<Rightarrow> 'v pentry list"
  fulfilled_once :: "nat \<Rightarrow> bool"
  alls :: "nat \<Rightarrow> 'v all_state"
  fresh_id :: nat
  ticks :: "'v ptick list"
  handled :: "'v val list"
  pdata :: 'm

definition initial_promise :: "'v promise" where
  "initial_promise = \<lparr>status = 0, pvalue = Undefined, pending = None, processScheduled = False\<rparr>"

definition initial_pstate :: "'m \<Rightarrow> ('m, 'v) pstate" where
  "initial_pstate m = \<lparr>promises = (\<lambda>p. initial_promise), arrays = (\<lambda>a. []), fulfilled_once = (\<lambda>d. False),
     alls = (\<lambda>k. \<lparr>all_deferred = 0, counter = 0, results = []\<rparr>), fresh_id = 0, ticks = [], handled = [], pdata = m\<rparr>"

definition updp :: "nat \<Rightarrow> ('v promise \<Rightarrow> 'v promise) \<Rightarrow> ('m, 'v) pstate \<Rightarrow> ('m, 'v) pstate" where
  "updp p f st = st\<lparr>promises := (promises st)(p := f (promises st p))\<rparr>"

definition new_deferred :: "('m, 'v) pstate \<Rightarrow> nat \<times> ('m, 'v) pstate" where
  "new_deferred st = (fresh_id st, st\<lparr>fresh_id := Suc (fresh_id st)\<rparr>)"

section \<open>Registering and settling\<close>

definition scheduleProcessQueue :: "nat \<Rightarrow> ('m, 'v) pstate \<Rightarrow> ('m, 'v) pstate" where
  "scheduleProcessQueue p st =
     (if processScheduled (promises st p) \<or> pending (promises st p) = None then st
      else (updp p (\<lambda>s. s\<lparr>processScheduled := True\<rparr>) st)\<lparr>ticks := ticks st @ [Process p]\<rparr>)"

definition pending_array :: "nat \<Rightarrow> ('m, 'v) pstate \<Rightarrow> nat \<times> ('m, 'v) pstate" where
  "pending_array p st =
     (case pending (promises st p) of
        Some a \<Rightarrow> (a, st)
      | None \<Rightarrow> (fresh_id st, (updp p (\<lambda>s. s\<lparr>pending := Some (fresh_id st)\<rparr>) st)
                   \<lparr>fresh_id := Suc (fresh_id st), arrays := (arrays st)(fresh_id st := [])\<rparr>))"

definition promise_push ::
  "nat \<Rightarrow> 'v func option \<Rightarrow> 'v func option \<Rightarrow> 'v func option \<Rightarrow> ('m, 'v) pstate \<Rightarrow> nat \<times> ('m, 'v) pstate" where
  "promise_push p f g h st =
     (case new_deferred st of (d, st) \<Rightarrow>
        (case pending_array p st of (a, st) \<Rightarrow>
           let st = st\<lparr>arrays := (arrays st)(a := arrays st a @
                      [\<lparr>result = d, onFulfilled = f, onRejected = g, progressBack = h\<rparr>])\<rparr>
           in (d, if status (promises st p) > 0 then scheduleProcessQueue p st else st)))"

definition promise_then ::
  "nat \<Rightarrow> 'v func option \<Rightarrow> 'v func option \<Rightarrow> 'v func option \<Rightarrow> ('m, 'v) pstate \<Rightarrow> nat \<times> ('m, 'v) pstate" where
  "promise_then p f g h st = (if f = None \<and> g = None \<and> h = None then (p, st) else promise_push p f g h st)"

text \<open>The argument \<open>null\<close> of \<open>catch\<close> is not undefined: a new promise in any case.\<close>

definition promise_catch :: "nat \<Rightarrow> 'v func option \<Rightarrow> ('m, 'v) pstate \<Rightarrow> nat \<times> ('m, 'v) pstate" where
  "promise_catch p g st = promise_push p None g None st"

definition promise_finally ::
  "nat \<Rightarrow> nat option \<Rightarrow> 'v func option \<Rightarrow> ('m, 'v) pstate \<Rightarrow> nat \<times> ('m, 'v) pstate" where
  "promise_finally p c h st = promise_then p (Some (Finally c True)) (Some (Finally c False)) h st"

text \<open>The methods \<open>$$reject\<close> and \<open>$$resolve\<close>.\<close>

definition settle_reject :: "nat \<Rightarrow> 'v val \<Rightarrow> ('m, 'v) pstate \<Rightarrow> ('m, 'v) pstate" where
  "settle_reject p v st = scheduleProcessQueue p (updp p (\<lambda>s. s\<lparr>pvalue := v, status := 2\<rparr>) st)"

definition settle_resolve :: "nat \<Rightarrow> 'v val \<Rightarrow> ('m, 'v) pstate \<Rightarrow> ('m, 'v) pstate" where
  "settle_resolve p v st =
     (case v of
        Prom q \<Rightarrow>
          let d = fresh_id st;
              st = (updp p (\<lambda>s. s\<lparr>status := - 1\<rparr>) st)\<lparr>fresh_id := Suc d\<rparr>
          in snd (promise_then q (Some (ResolvePromise p d)) (Some (RejectPromise p d)) (Some (NotifyPromise p)) st)
      | _ \<Rightarrow> scheduleProcessQueue p (updp p (\<lambda>s. s\<lparr>pvalue := v, status := 1\<rparr>) st))"

definition resolve :: "nat \<Rightarrow> 'v val \<Rightarrow> ('m, 'v) pstate \<Rightarrow> ('m, 'v) pstate" where
  "resolve p v st =
     (if status (promises st p) \<noteq> 0 then st
      else if v = Prom p then settle_reject p CycleError st
      else settle_resolve p v st)"

definition reject :: "nat \<Rightarrow> 'v val \<Rightarrow> ('m, 'v) pstate \<Rightarrow> ('m, 'v) pstate" where
  "reject p v st = (if status (promises st p) \<noteq> 0 then st else settle_reject p v st)"

definition notify :: "nat \<Rightarrow> 'v val \<Rightarrow> ('m, 'v) pstate \<Rightarrow> ('m, 'v) pstate" where
  "notify p v st =
     (case pending (promises st p) of
        None \<Rightarrow> st
      | Some a \<Rightarrow> if status (promises st p) \<le> 0 \<and> arrays st a \<noteq> [] then st\<lparr>ticks := ticks st @ [NotifyAll a v]\<rparr> else st)"

text \<open>The closures of \<open>$$resolve\<close>, of which one runs.\<close>

definition resolvePromise :: "nat \<Rightarrow> nat \<Rightarrow> 'v val \<Rightarrow> ('m, 'v) pstate \<Rightarrow> ('m, 'v) pstate" where
  "resolvePromise p d v st =
     (if fulfilled_once st d then st else settle_resolve p v (st\<lparr>fulfilled_once := (fulfilled_once st)(d := True)\<rparr>))"

definition rejectPromise :: "nat \<Rightarrow> nat \<Rightarrow> 'v val \<Rightarrow> ('m, 'v) pstate \<Rightarrow> ('m, 'v) pstate" where
  "rejectPromise p d v st =
     (if fulfilled_once st d then st else settle_reject p v (st\<lparr>fulfilled_once := (fulfilled_once st)(d := True)\<rparr>))"

section \<open>The service\<close>

definition makePromise :: "'v val \<Rightarrow> bool \<Rightarrow> ('m, 'v) pstate \<Rightarrow> nat \<times> ('m, 'v) pstate" where
  "makePromise v resolved st =
     (case new_deferred st of (d, st) \<Rightarrow> (d, if resolved then resolve d v st else reject d v st))"

definition rejected :: "'v val \<Rightarrow> ('m, 'v) pstate \<Rightarrow> nat \<times> ('m, 'v) pstate" where
  "rejected v st = (case new_deferred st of (d, st) \<Rightarrow> (d, reject d v st))"

definition promise_when ::
  "'v val \<Rightarrow> 'v func option \<Rightarrow> 'v func option \<Rightarrow> 'v func option \<Rightarrow> ('m, 'v) pstate \<Rightarrow> nat \<times> ('m, 'v) pstate" where
  "promise_when v f g h st = (case new_deferred st of (d, st) \<Rightarrow> promise_then d f g h (resolve d v st))"

text \<open>\<open>all\<close> of an array.\<close>

fun all_loop :: "nat \<Rightarrow> nat \<Rightarrow> 'v val list \<Rightarrow> ('m, 'v) pstate \<Rightarrow> ('m, 'v) pstate" where
  "all_loop k i [] st = st"
| "all_loop k i (v # vs) st =
     (case promise_when v None None None (st\<lparr>alls := (alls st)(k := (alls st k)\<lparr>counter := counter (alls st k) + 1\<rparr>)\<rparr>) of
        (p, st) \<Rightarrow> all_loop k (Suc i) vs (snd (promise_then p (Some (AllFulfilled k i)) (Some (AllRejected k i)) None st)))"

text \<open>The array \<open>results\<close>: \<open>None\<close> is a hole.\<close>

definition has_result :: "'v all_state \<Rightarrow> nat \<Rightarrow> bool" where
  "has_result al i \<longleftrightarrow> i < length (results al) \<and> results al ! i \<noteq> None"

definition set_result :: "nat \<Rightarrow> 'v val \<Rightarrow> 'v all_state \<Rightarrow> 'v all_state" where
  "set_result i v al = al\<lparr>results := (results al @ replicate (Suc i - length (results al)) None)[i := Some v]\<rparr>"

definition all_results :: "'v all_state \<Rightarrow> 'v val" where
  "all_results al = Results (map (\<lambda>r. case r of Some v \<Rightarrow> v | None \<Rightarrow> Undefined) (results al))"

definition all_fulfilled :: "nat \<Rightarrow> nat \<Rightarrow> 'v val \<Rightarrow> ('m, 'v) pstate \<Rightarrow> ('m, 'v) pstate" where
  "all_fulfilled k i v st =
     (if has_result (alls st k) i then st
      else let al = (set_result i v (alls st k))\<lparr>counter := counter (alls st k) - 1\<rparr>;
               st = st\<lparr>alls := (alls st)(k := al)\<rparr>
           in if counter al = 0 then resolve (all_deferred al) (all_results al) st else st)"

definition all_rejected :: "nat \<Rightarrow> nat \<Rightarrow> 'v val \<Rightarrow> ('m, 'v) pstate \<Rightarrow> ('m, 'v) pstate" where
  "all_rejected k i v st =
     (if has_result (alls st k) i then st else reject (all_deferred (alls st k)) v st)"

definition promise_all :: "'v val list \<Rightarrow> ('m, 'v) pstate \<Rightarrow> nat \<times> ('m, 'v) pstate" where
  "promise_all vs st =
     (case new_deferred st of (d, st) \<Rightarrow>
        let k = fresh_id st;
            st = all_loop k 0 vs (st\<lparr>fresh_id := Suc k, alls := (alls st)(k := \<lparr>all_deferred = d, counter = 0, results = []\<rparr>)\<rparr>)
        in (d, if counter (alls st k) = 0 then resolve d (all_results (alls st k)) st else st))"

section \<open>Callbacks\<close>

datatype 'v op =
  Defer
| Then nat "nat option" "nat option" "nat option"
| Catch nat "nat option"
| FinallyDo nat "nat option" "nat option"
| Resolve nat "'v val"
| Reject nat "'v val"
| Notify nat "'v val"
| When "'v val" "nat option" "nat option" "nat option"
| All "'v val list"

definition run_op :: "'v op \<Rightarrow> ('m, 'v) pstate \<Rightarrow> ('m, 'v) pstate" where
  "run_op x st =
     (case x of
        Defer \<Rightarrow> snd (new_deferred st)
      | Then p f g h \<Rightarrow> snd (promise_then p (map_option User f) (map_option User g) (map_option User h) st)
      | Catch p g \<Rightarrow> snd (promise_catch p (map_option User g) st)
      | FinallyDo p c h \<Rightarrow> snd (promise_finally p c (map_option User h) st)
      | Resolve p v \<Rightarrow> resolve p v st
      | Reject p v \<Rightarrow> reject p v st
      | Notify p v \<Rightarrow> notify p v st
      | When v f g h \<Rightarrow> snd (promise_when v (map_option User f) (map_option User g) (map_option User h) st)
      | All vs \<Rightarrow> snd (promise_all vs st))"

type_synonym ('m, 'v) program = "nat \<Rightarrow> 'v val \<Rightarrow> 'm \<Rightarrow> 'v op list \<times> ('v val + 'v val) \<times> 'm"

definition call_user ::
  "('m, 'v) program \<Rightarrow> nat \<Rightarrow> 'v val \<Rightarrow> ('m, 'v) pstate \<Rightarrow> ('v val + 'v val) \<times> ('m, 'v) pstate" where
  "call_user pr c v st = (case pr c v (pdata st) of (xs, r, m) \<Rightarrow> (r, fold run_op xs (st\<lparr>pdata := m\<rparr>)))"

text \<open>The construct \<open>$q(resolver)\<close>; the resolver's calls name the new promise \<open>fresh_id st\<close>.\<close>

definition construct :: "('m, 'v) program \<Rightarrow> nat \<Rightarrow> ('m, 'v) pstate \<Rightarrow> ('v val + 'v val) \<times> ('m, 'v) pstate" where
  "construct pr c st =
     (case new_deferred st of (d, st) \<Rightarrow>
        (case call_user pr c (Prom d) st of (r, st) \<Rightarrow> (map_sum id (\<lambda>_. Prom d) r, st)))"

definition handleCallback ::
  "('m, 'v) program \<Rightarrow> 'v val \<Rightarrow> bool \<Rightarrow> nat option \<Rightarrow> ('m, 'v) pstate \<Rightarrow> nat \<times> ('m, 'v) pstate" where
  "handleCallback pr v isResolved c st =
     (case (case c of None \<Rightarrow> (Inr Undefined, st) | Some c \<Rightarrow> call_user pr c Undefined st) of
        (Inl err, st) \<Rightarrow> makePromise err False st
      | (Inr (Prom q), st) \<Rightarrow> promise_then q (Some (MakePromise v isResolved)) (Some MakeRejected) None st
      | (Inr _, st) \<Rightarrow> makePromise v isResolved st)"

definition call_func ::
  "('m, 'v) program \<Rightarrow> 'v func \<Rightarrow> 'v val \<Rightarrow> ('m, 'v) pstate \<Rightarrow> ('v val + 'v val) \<times> ('m, 'v) pstate" where
  "call_func pr f v st =
     (case f of
        User c \<Rightarrow> call_user pr c v st
      | ResolvePromise p d \<Rightarrow> (Inr Undefined, resolvePromise p d v st)
      | RejectPromise p d \<Rightarrow> (Inr Undefined, rejectPromise p d v st)
      | NotifyPromise p \<Rightarrow> (Inr Undefined, notify p v st)
      | Finally c isResolved \<Rightarrow> map_prod (\<lambda>q. Inr (Prom q)) id (handleCallback pr v isResolved c st)
      | MakePromise w isResolved \<Rightarrow> map_prod (\<lambda>q. Inr (Prom q)) id (makePromise w isResolved st)
      | MakeRejected \<Rightarrow> map_prod (\<lambda>q. Inr (Prom q)) id (makePromise v False st)
      | AllFulfilled k i \<Rightarrow> (Inr Undefined, all_fulfilled k i v st)
      | AllRejected k i \<Rightarrow> (Inr Undefined, all_rejected k i v st))"

section \<open>Ticks\<close>

definition handle_error :: "'v val \<Rightarrow> ('m, 'v) pstate \<Rightarrow> ('m, 'v) pstate" where
  "handle_error err st = st\<lparr>handled := handled st @ [err]\<rparr>"

definition process_entry :: "('m, 'v) program \<Rightarrow> nat \<Rightarrow> 'v pentry \<Rightarrow> ('m, 'v) pstate \<Rightarrow> ('m, 'v) pstate" where
  "process_entry pr p en st =
     (let s = promises st p
      in case (if status s = 1 then onFulfilled en else onRejected en) of
           Some f \<Rightarrow> (case call_func pr f (pvalue s) st of
                        (Inl err, st) \<Rightarrow> handle_error err (reject (result en) err st)
                      | (Inr v, st) \<Rightarrow> resolve (result en) v st)
         | None \<Rightarrow> if status s = 1 then resolve (result en) (pvalue s) st else reject (result en) (pvalue s) st)"

text \<open>\<open>None\<close>: \<open>pending\<close> is undefined, and reading its length fails.\<close>

definition processQueue :: "('m, 'v) program \<Rightarrow> nat \<Rightarrow> ('m, 'v) pstate \<Rightarrow> ('m, 'v) pstate option" where
  "processQueue pr p st =
     (case pending (promises st p) of
        None \<Rightarrow> None
      | Some a \<Rightarrow> Some (fold (process_entry pr p) (arrays st a)
                         (updp p (\<lambda>s. s\<lparr>processScheduled := False, pending := None\<rparr>) st)))"

definition notify_entry :: "('m, 'v) program \<Rightarrow> 'v val \<Rightarrow> 'v pentry \<Rightarrow> ('m, 'v) pstate \<Rightarrow> ('m, 'v) pstate" where
  "notify_entry pr v en st =
     (case progressBack en of
        None \<Rightarrow> notify (result en) v st
      | Some f \<Rightarrow> (case call_func pr f v st of
                     (Inl err, st) \<Rightarrow> handle_error err st
                   | (Inr w, st) \<Rightarrow> notify (result en) w st))"

definition run_tick :: "('m, 'v) program \<Rightarrow> ('m, 'v) pstate \<Rightarrow> ('m, 'v) pstate option" where
  "run_tick pr st =
     (case ticks st of
        [] \<Rightarrow> Some st
      | t # ts \<Rightarrow>
          let st = st\<lparr>ticks := ts\<rparr>
          in case t of
               Process p \<Rightarrow> processQueue pr p st
             | NotifyAll a v \<Rightarrow> Some (fold (notify_entry pr v) (arrays st a) st))"

text \<open>The world of a page: callers' operations and ticks in any order.\<close>

datatype 'v pevent = Call "'v op" | Tick

fun pstep :: "('m, 'v) program \<Rightarrow> ('m, 'v) pstate \<Rightarrow> 'v pevent \<Rightarrow> ('m, 'v) pstate option" where
  "pstep pr st (Call x) = Some (run_op x st)"
| "pstep pr st Tick = run_tick pr st"

fun prun :: "('m, 'v) program \<Rightarrow> ('m, 'v) pstate \<Rightarrow> 'v pevent list \<Rightarrow> ('m, 'v) pstate option" where
  "prun pr st [] = Some st"
| "prun pr st (x # xs) = (case pstep pr st x of None \<Rightarrow> None | Some st \<Rightarrow> prun pr st xs)"

end
