(* ===== verification/NgPromiseInv.thy ===== *)
theory NgPromiseInv
  imports NgPromise "HOL-Library.Sublist"
begin

text \<open>
  The invariant of the promises: which closures of \<open>$$resolve\<close> can still run, and that a queue is
  scheduled exactly when it is needed. Every operation, every callback and every tick keeps it, and
  none changes a settled promise.
\<close>

section \<open>The invariant\<close>

definition entry_funcs :: "'v pentry \<Rightarrow> 'v func set" where
  "entry_funcs en = set_option (onFulfilled en) \<union> set_option (onRejected en) \<union> set_option (progressBack en)"

fun func_target :: "'v func \<Rightarrow> (nat \<times> nat) option" where
  "func_target (ResolvePromise p d) = Some (p, d)"
| "func_target (RejectPromise p d) = Some (p, d)"
| "func_target f = None"

text \<open>The promises that closures in the arrays settle, with their flags; \<open>live\<close> ones have not run.\<close>

definition entry_targets :: "'v pentry \<Rightarrow> (nat \<times> nat) set" where
  "entry_targets en = {pd. \<exists>f\<in>entry_funcs en. func_target f = Some pd}"

definition targets :: "('m, 'v) pstate \<Rightarrow> (nat \<times> nat) set" where
  "targets st = {pd. \<exists>a. \<exists>en\<in>set (arrays st a). pd \<in> entry_targets en}"

definition live :: "('m, 'v) pstate \<Rightarrow> (nat \<times> nat) set" where
  "live st = {(p, d) \<in> targets st. \<not> fulfilled_once st d}"

definition closures_ok :: "('m, 'v) pstate \<Rightarrow> bool" where
  "closures_ok st \<longleftrightarrow> (\<forall>(p, d)\<in>targets st. d < fresh_id st) \<and> (\<forall>(p, d)\<in>live st. status (promises st p) = - 1) \<and>
     (\<forall>p d d'. (p, d) \<in> live st \<and> (p, d') \<in> live st \<longrightarrow> d = d')"

definition arrays_ok :: "('m, 'v) pstate \<Rightarrow> bool" where
  "arrays_ok st \<longleftrightarrow> (\<forall>a\<ge>fresh_id st. arrays st a = []) \<and> (\<forall>p a. pending (promises st p) = Some a \<longrightarrow> a < fresh_id st)"

definition needs_queue :: "'v promise \<Rightarrow> bool" where
  "needs_queue s \<longleftrightarrow> status s > 0 \<and> pending s \<noteq> None"

definition processes :: "'v ptick list \<Rightarrow> nat list" where
  "processes ts = List.map_filter (\<lambda>t. case t of Process p \<Rightarrow> Some p | NotifyAll a v \<Rightarrow> None) ts"

definition queue_ok :: "('m, 'v) pstate \<Rightarrow> bool" where
  "queue_ok st \<longleftrightarrow> (\<forall>p. processScheduled (promises st p) = needs_queue (promises st p)) \<and>
     (\<forall>p. processScheduled (promises st p) = (p \<in> set (processes (ticks st)))) \<and> distinct (processes (ticks st))"

definition promises_ok :: "('m, 'v) pstate \<Rightarrow> bool" where
  "promises_ok st \<longleftrightarrow> closures_ok st \<and> arrays_ok st \<and> queue_ok st"

text \<open>A settled promise keeps its state and its value; a resolved one is not open again.\<close>

definition settles :: "('m, 'v) pstate \<Rightarrow> ('m, 'v) pstate \<Rightarrow> bool" where
  "settles st st' \<longleftrightarrow> (\<forall>p. (status (promises st p) > 0 \<longrightarrow>
       status (promises st' p) = status (promises st p) \<and> pvalue (promises st' p) = pvalue (promises st p)) \<and>
     (status (promises st p) \<noteq> 0 \<longrightarrow> status (promises st' p) \<noteq> 0))"

lemma settles_refl [simp]: "settles st st"
  by (simp add: settles_def)

lemma settles_trans: "settles st st1 \<Longrightarrow> settles st1 st2 \<Longrightarrow> settles st st2"
  by (simp add: settles_def)

text \<open>Ticks are appended, and callbacks are only added to a pending array.\<close>

definition grows :: "('m, 'v) pstate \<Rightarrow> ('m, 'v) pstate \<Rightarrow> bool" where
  "grows st st' \<longleftrightarrow> prefix (ticks st) (ticks st') \<and> (\<forall>a. prefix (arrays st a) (arrays st' a)) \<and>
     (\<forall>p a. pending (promises st p) = Some a \<longrightarrow> pending (promises st' p) = Some a)"

lemma grows_refl [simp]: "grows st st"
  by (simp add: grows_def)

lemma grows_trans: "grows st st1 \<Longrightarrow> grows st1 st2 \<Longrightarrow> grows st st2"
  unfolding grows_def by (blast intro: prefix_order.trans)

lemma grows_targets: "grows st st' \<Longrightarrow> targets st \<subseteq> targets st'"
  by (fastforce simp: grows_def targets_def dest: set_mono_prefix)

definition keeps :: "('m, 'v) pstate \<Rightarrow> ('m, 'v) pstate \<Rightarrow> bool" where
  "keeps st st' \<longleftrightarrow> promises_ok st' \<and> settles st st' \<and> grows st st'"

lemma keeps_trans: "keeps st st1 \<Longrightarrow> keeps st1 st2 \<Longrightarrow> keeps st st2"
  using settles_trans grows_trans by (auto simp: keeps_def)

lemma keeps_refl: "promises_ok st \<Longrightarrow> keeps st st"
  by (simp add: keeps_def)

lemma keeps_ok: "keeps st st' \<Longrightarrow> promises_ok st'"
  by (simp add: keeps_def)

text \<open>Changes that the invariant does not depend on.\<close>

definition same_promises :: "('m, 'v) pstate \<Rightarrow> ('m, 'v) pstate \<Rightarrow> bool" where
  "same_promises st st' \<longleftrightarrow> promises st' = promises st \<and> arrays st' = arrays st \<and> fulfilled_once st' = fulfilled_once st \<and>
     fresh_id st \<le> fresh_id st' \<and> prefix (ticks st) (ticks st') \<and> processes (ticks st') = processes (ticks st)"

lemma same_promises_keeps:
  assumes "promises_ok st" "same_promises st st'"
  shows "keeps st st'"
proof -
  have t: "targets st' = targets st" "live st' = live st"
    using assms(2) by (auto simp: same_promises_def targets_def live_def)
  have "closures_ok st'"
    using assms t by (fastforce simp: promises_ok_def closures_ok_def same_promises_def)
  moreover have "arrays_ok st'" "queue_ok st'"
    using assms by (fastforce simp: promises_ok_def arrays_ok_def queue_ok_def same_promises_def)+
  ultimately show ?thesis
    using assms(2) by (simp add: keeps_def promises_ok_def settles_def same_promises_def grows_def)
qed

lemma processes_simps [simp]:
  "processes [] = []" "processes (Process p # ts) = p # processes ts" "processes (NotifyAll a v # ts) = processes ts"
  "processes (ts @ us) = processes ts @ processes us"
  by (simp_all add: processes_def List.map_filter_simps List.map_filter_def)

section \<open>Registering\<close>

lemma updp_promises [simp]: "promises (updp p f st) q = (if q = p then f (promises st p) else promises st q)"
  by (simp add: updp_def)

lemma updp_simps [simp]:
  "arrays (updp p f st) = arrays st" "fulfilled_once (updp p f st) = fulfilled_once st" "fresh_id (updp p f st) = fresh_id st"
  "ticks (updp p f st) = ticks st" "alls (updp p f st) = alls st" "pdata (updp p f st) = pdata st"
  by (simp_all add: updp_def)

lemma schedule_simps [simp]:
  "arrays (scheduleProcessQueue p st) = arrays st" "fulfilled_once (scheduleProcessQueue p st) = fulfilled_once st"
  "fresh_id (scheduleProcessQueue p st) = fresh_id st" "alls (scheduleProcessQueue p st) = alls st"
  "status (promises (scheduleProcessQueue p st) q) = status (promises st q)"
  "pvalue (promises (scheduleProcessQueue p st) q) = pvalue (promises st q)"
  "pending (promises (scheduleProcessQueue p st) q) = pending (promises st q)"
  by (simp_all add: scheduleProcessQueue_def)

text \<open>Scheduling repairs the queue when all but \<open>p\<close> are right and \<open>p\<close> is settled.\<close>

lemma schedule_queue:
  assumes "\<And>q. q \<noteq> p \<Longrightarrow> processScheduled (promises st q) = needs_queue (promises st q)"
    and "\<And>q. processScheduled (promises st q) = (q \<in> set (processes (ticks st)))" "distinct (processes (ticks st))"
    and "status (promises st p) > 0" "processScheduled (promises st p) \<longrightarrow> pending (promises st p) \<noteq> None"
  shows "queue_ok (scheduleProcessQueue p st)"
proof (cases "processScheduled (promises st p) \<or> pending (promises st p) = None")
  case True
  have "processScheduled (promises st q) = needs_queue (promises st q)" for q
    using assms(1) [of q] assms(4,5) True by (cases "q = p") (auto simp: needs_queue_def)
  with assms(2,3) True show ?thesis by (simp add: queue_ok_def scheduleProcessQueue_def)
next
  case False
  let ?st = "(updp p (\<lambda>s. s\<lparr>processScheduled := True\<rparr>) st)\<lparr>ticks := ticks st @ [Process p]\<rparr>"
  have "processScheduled (promises ?st q) = needs_queue (promises ?st q)" for q
    using assms(1) [of q] assms(4) False by (cases "q = p") (auto simp: needs_queue_def)
  moreover have "processScheduled (promises ?st q) = (q \<in> set (processes (ticks ?st)))" for q
    using assms(2) [of q] by simp
  moreover have "distinct (processes (ticks ?st))"
    using assms(2) [of p] assms(3) False by simp
  ultimately show ?thesis
    using False by (simp add: queue_ok_def scheduleProcessQueue_def del: not_None_eq)
qed

text \<open>The targets of a new entry: each is new, or it is the only one that can settle its promise.\<close>

definition targets_fit :: "('m, 'v) pstate \<Rightarrow> (nat \<times> nat) set \<Rightarrow> bool" where
  "targets_fit st new \<longleftrightarrow> (\<forall>(p, d)\<in>new. d < fresh_id st \<and> status (promises st p) = - 1 \<and>
     (\<forall>d'. (p, d') \<in> live st \<union> new \<longrightarrow> d' = d))"

definition pushed :: "nat \<Rightarrow> 'v pentry \<Rightarrow> ('m, 'v) pstate \<Rightarrow> ('m, 'v) pstate" where
  "pushed a en st = st\<lparr>arrays := (arrays st)(a := arrays st a @ [en])\<rparr>"

lemma targets_pushed: "targets (pushed a en st) = targets st \<union> entry_targets en"
  by (auto simp: pushed_def targets_def split: if_splits)

lemma closures_okI:
  assumes "\<And>p d. (p, d) \<in> targets st \<Longrightarrow> d < fresh_id st" "\<And>p d. (p, d) \<in> live st \<Longrightarrow> status (promises st p) = - 1"
    and "\<And>p d d'. (p, d) \<in> live st \<Longrightarrow> (p, d') \<in> live st \<Longrightarrow> d = d'"
  shows "closures_ok st"
  using assms unfolding closures_ok_def by blast

lemma closures_okD:
  assumes "closures_ok st"
  shows "(p, d) \<in> targets st \<Longrightarrow> d < fresh_id st" "(p, d) \<in> live st \<Longrightarrow> status (promises st p) = - 1"
    "(p, d) \<in> live st \<Longrightarrow> (p, d') \<in> live st \<Longrightarrow> d = d'"
  using assms unfolding closures_ok_def by blast+

lemma pushed_closures:
  assumes "closures_ok st" "targets_fit st (entry_targets en)"
  shows "closures_ok (pushed a en st)"
proof -
  have f: "fresh_id (pushed a en st) = fresh_id st" "promises (pushed a en st) = promises st"
    by (simp_all add: pushed_def)
  have lv: "pd \<in> live st \<or> pd \<in> entry_targets en" if "pd \<in> live (pushed a en st)" for pd
    using that by (auto simp: live_def targets_pushed) (simp add: pushed_def)
  have new: "d < fresh_id st" "status (promises st p) = - 1" "(p, d') \<in> live st \<union> entry_targets en \<Longrightarrow> d' = d"
    if "(p, d) \<in> entry_targets en" for p d d'
    using assms(2) that unfolding targets_fit_def by blast+
  show ?thesis
  proof (rule closures_okI)
    show "d < fresh_id (pushed a en st)" if "(p, d) \<in> targets (pushed a en st)" for p d
      using that closures_okD(1) [OF assms(1)] new(1) unfolding f targets_pushed by blast
    show "status (promises (pushed a en st) p) = - 1" if "(p, d) \<in> live (pushed a en st)" for p d
      using lv [OF that] closures_okD(2) [OF assms(1)] new(2) unfolding f by blast
    show "d = d'" if "(p, d) \<in> live (pushed a en st)" "(p, d') \<in> live (pushed a en st)" for p d d'
      using lv [OF that(1)] lv [OF that(2)] closures_okD(3) [OF assms(1)] new(3) by blast
  qed
qed

lemma closures_ok_cong:
  assumes "closures_ok st" "arrays st' = arrays st" "fulfilled_once st' = fulfilled_once st" "fresh_id st \<le> fresh_id st'"
    and "\<And>p. status (promises st' p) = status (promises st p)"
  shows "closures_ok st'"
proof -
  have t: "targets st' = targets st" "live st' = live st"
    using assms(2,3) by (simp_all add: targets_def live_def)
  show ?thesis
    using closures_okD [OF assms(1)] order.strict_trans2 [OF _ assms(4)]
    by (intro closures_okI) (auto simp: t assms(5))
qed

lemma targets_fit_cong:
  assumes "targets_fit st new" "arrays st' = arrays st" "fulfilled_once st' = fulfilled_once st" "fresh_id st \<le> fresh_id st'"
    and "\<And>p. status (promises st' p) = status (promises st p)"
  shows "targets_fit st' new"
proof -
  have "live st' = live st" using assms(2,3) by (simp add: targets_def live_def)
  with assms(1) order.strict_trans2 [OF _ assms(4)] show ?thesis
    unfolding targets_fit_def assms(5) by (auto simp: case_prod_beta)
qed

lemma pending_array_facts:
  assumes "pending_array p st = (a, st')" "arrays_ok st"
  shows "status (promises st' q) = status (promises st q)" "pvalue (promises st' q) = pvalue (promises st q)"
    "processScheduled (promises st' q) = processScheduled (promises st q)"
    "pending (promises st' q) = (if q = p then Some a else pending (promises st q))"
    "fulfilled_once st' = fulfilled_once st" "ticks st' = ticks st" "fresh_id st \<le> fresh_id st'" "a < fresh_id st'"
    "arrays st' = arrays st"
proof -
  consider "pending (promises st p) = Some a" "st' = st"
    | "a = fresh_id st" "st' = (updp p (\<lambda>s. s\<lparr>pending := Some (fresh_id st)\<rparr>) st)
                   \<lparr>fresh_id := Suc (fresh_id st), arrays := (arrays st)(fresh_id st := [])\<rparr>"
  proof (cases "pending (promises st p)")
    case None
    with assms(1) show thesis by (intro that(2)) (auto simp: pending_array_def)
  next
    case (Some b)
    with assms(1) show thesis by (intro that(1)) (auto simp: pending_array_def)
  qed
  note cases = this
  have e: "arrays st (fresh_id st) = []" "\<And>b. pending (promises st p) = Some b \<Longrightarrow> b < fresh_id st"
    using assms(2) by (auto simp: arrays_ok_def)
  show "status (promises st' q) = status (promises st q)" by (cases rule: cases) auto
  show "pvalue (promises st' q) = pvalue (promises st q)" by (cases rule: cases) auto
  show "processScheduled (promises st' q) = processScheduled (promises st q)" by (cases rule: cases) auto
  show "pending (promises st' q) = (if q = p then Some a else pending (promises st q))" by (cases rule: cases) auto
  show "fulfilled_once st' = fulfilled_once st" by (cases rule: cases) auto
  show "ticks st' = ticks st" by (cases rule: cases) auto
  show "fresh_id st \<le> fresh_id st'" by (cases rule: cases) auto
  show "a < fresh_id st'" by (cases rule: cases) (auto intro: e(2))
  show "arrays st' = arrays st" by (cases rule: cases) (auto simp: e(1))
qed

lemma pending_array_pending: "pending_array p st = (a, st') \<Longrightarrow> pending (promises st p) = Some b \<Longrightarrow> a = b"
  by (simp add: pending_array_def)

lemma push_keeps:
  assumes "promises_ok st" "targets_fit st (entry_targets en)" "pending_array p st = (a, st2)"
  shows "keeps st (if status (promises (pushed a en st2) p) > 0 then scheduleProcessQueue p (pushed a en st2) else pushed a en st2)"
    (is "keeps st ?st")
proof -
  have ok: "closures_ok st" "arrays_ok st" "queue_ok st" using assms(1) by (auto simp: promises_ok_def)
  note f = pending_array_facts [OF assms(3) ok(2)]
  have pu: "promises (pushed a en st2) = promises st2" "fresh_id (pushed a en st2) = fresh_id st2"
    "ticks (pushed a en st2) = ticks st2" "fulfilled_once (pushed a en st2) = fulfilled_once st2"
    "arrays (pushed a en st2) b = (if b = a then arrays st a @ [en] else arrays st b)" for b
    by (simp_all add: pushed_def f)
  have "closures_ok (pushed a en st2)"
    using f by (intro pushed_closures closures_ok_cong [OF ok(1)] targets_fit_cong [OF assms(2)]) auto
  then have cl: "closures_ok ?st"
    by (rule closures_ok_cong) auto
  have "\<forall>b\<ge>fresh_id st2. arrays (pushed a en st2) b = []"
    using ok(2) f(7,8) by (auto simp: arrays_ok_def pu)
  moreover have "\<forall>q b. pending (promises st2 q) = Some b \<longrightarrow> b < fresh_id st2"
    using ok(2) f(8) order.strict_trans2 [OF _ f(7)] by (auto simp: arrays_ok_def f(4))
  ultimately have ar: "arrays_ok ?st"
    by (simp add: arrays_ok_def pu)
  have qu: "queue_ok ?st"
  proof (cases "status (promises st p) > 0")
    case True
    have "queue_ok (scheduleProcessQueue p (pushed a en st2))"
      using ok(3) True by (intro schedule_queue) (auto simp: pu f queue_ok_def needs_queue_def)
    with True show ?thesis by (simp add: pu f)
  next
    case False
    then have n: "needs_queue (promises st2 q) = needs_queue (promises st q)" for q
      using f(1,4) by (auto simp: needs_queue_def)
    have "queue_ok (pushed a en st2)"
      unfolding queue_ok_def pu f(3,6) n using ok(3) unfolding queue_ok_def .
    with False show ?thesis by (simp add: pu f)
  qed
  have "settles st ?st"
    by (simp add: settles_def pu f)
  moreover have "grows st ?st"
    using f(4) [of p] pending_array_pending [OF assms(3)] by (auto simp: grows_def pu f scheduleProcessQueue_def)
  ultimately show ?thesis using cl ar qu by (simp add: keeps_def promises_ok_def)
qed

lemma new_deferred_keeps: "promises_ok st \<Longrightarrow> new_deferred st = (d, st') \<Longrightarrow> keeps st st'"
  by (rule same_promises_keeps) (auto simp: same_promises_def new_deferred_def)

lemma promise_push_keeps:
  assumes "promises_ok st" "targets_fit st (entry_targets \<lparr>result = x, onFulfilled = f, onRejected = g, progressBack = h\<rparr>)"
    and "promise_push p f g h st = (d, st')"
  shows "keeps st st'"
proof -
  obtain d' st1 where n: "new_deferred st = (d', st1)" by (metis prod.collapse)
  obtain a st2 where a: "pending_array p st1 = (a, st2)" by (metis prod.collapse)
  let ?en = "\<lparr>result = d', onFulfilled = f, onRejected = g, progressBack = h\<rparr>"
  have k: "keeps st st1" using new_deferred_keeps [OF assms(1) n] .
  have "targets_fit st (entry_targets ?en)"
    using assms(2) by (simp add: entry_targets_def entry_funcs_def)
  then have "targets_fit st1 (entry_targets ?en)"
    using n by (auto intro: targets_fit_cong simp: new_deferred_def)
  from push_keeps [OF keeps_ok [OF k] this a] have "keeps st1 st'"
    using assms(3) n a by (auto simp: promise_push_def Let_def pushed_def)
  with k show ?thesis by (rule keeps_trans)
qed

lemma then_keeps:
  assumes "promises_ok st" "targets_fit st (entry_targets \<lparr>result = x, onFulfilled = f, onRejected = g, progressBack = h\<rparr>)"
    and "promise_then p f g h st = (d, st')"
  shows "keeps st st'"
  using assms promise_push_keeps [OF assms(1,2)] by (auto simp: promise_then_def keeps_refl split: if_splits)

section \<open>Settling\<close>

text \<open>A promise that may be settled: no closure that can still run settles it.\<close>

definition open_promise :: "nat \<Rightarrow> ('m, 'v) pstate \<Rightarrow> bool" where
  "open_promise p st \<longleftrightarrow> status (promises st p) \<le> 0 \<and> (\<forall>d. (p, d) \<notin> live st)"

lemma fresh_open: "promises_ok st \<Longrightarrow> status (promises st p) = 0 \<Longrightarrow> open_promise p st"
  by (auto simp: open_promise_def promises_ok_def closures_ok_def)

lemma settle_keeps:
  assumes "promises_ok st" "open_promise p st" "k > 0"
  shows "keeps st (scheduleProcessQueue p (updp p (\<lambda>s. s\<lparr>pvalue := v, status := k\<rparr>) st))"
proof -
  let ?st = "updp p (\<lambda>s. s\<lparr>pvalue := v, status := k\<rparr>) st"
  have ok: "closures_ok st" "arrays_ok st" "queue_ok st" using assms(1) by (auto simp: promises_ok_def)
  have t: "targets (scheduleProcessQueue p ?st) = targets st" "live (scheduleProcessQueue p ?st) = live st"
    by (simp_all add: targets_def live_def)
  have "closures_ok (scheduleProcessQueue p ?st)"
    using ok(1) assms(2) t by (fastforce simp: closures_ok_def open_promise_def)
  moreover have "arrays_ok (scheduleProcessQueue p ?st)"
    using ok(2) by (auto simp: arrays_ok_def)
  moreover have "queue_ok (scheduleProcessQueue p ?st)"
    using ok(3) assms(2,3) by (intro schedule_queue) (auto simp: queue_ok_def needs_queue_def open_promise_def)
  moreover have "settles st (scheduleProcessQueue p ?st)"
    using assms(2,3) by (auto simp: settles_def open_promise_def)
  moreover have "grows st (scheduleProcessQueue p ?st)"
    by (simp add: grows_def scheduleProcessQueue_def)
  ultimately show ?thesis by (simp add: keeps_def promises_ok_def)
qed

lemma settle_reject_keeps: "promises_ok st \<Longrightarrow> open_promise p st \<Longrightarrow> keeps st (settle_reject p v st)"
  unfolding settle_reject_def by (rule settle_keeps) auto

lemma settle_resolve_keeps:
  assumes "promises_ok st" "open_promise p st"
  shows "keeps st (settle_resolve p v st)"
proof (cases "\<exists>q. v = Prom q")
  case True
  then obtain q where v: "v = Prom q" ..
  let ?d = "fresh_id st"
  let ?st = "(updp p (\<lambda>s. s\<lparr>status := - 1\<rparr>) st)\<lparr>fresh_id := Suc ?d\<rparr>"
  have ok: "closures_ok st" "arrays_ok st" "queue_ok st" using assms(1) by (auto simp: promises_ok_def)
  have t: "targets ?st = targets st" "live ?st = live st"
    by (simp_all add: targets_def live_def)
  have "closures_ok ?st"
    using ok(1) assms(2) t by (fastforce simp: closures_ok_def open_promise_def)
  moreover have "arrays_ok ?st"
    using ok(2) by (auto simp: arrays_ok_def less_Suc_eq)
  moreover have "queue_ok ?st"
    using ok(3) assms(2) by (auto simp: queue_ok_def needs_queue_def open_promise_def)
  ultimately have k: "promises_ok ?st" by (simp add: promises_ok_def)
  have e: "targets_fit ?st (entry_targets \<lparr>result = 0, onFulfilled = Some (ResolvePromise p ?d),
      onRejected = Some (RejectPromise p ?d), progressBack = Some (NotifyPromise p)\<rparr>)"
    using assms(2) t by (auto simp: targets_fit_def entry_targets_def entry_funcs_def open_promise_def)
  obtain r st' where r: "promise_then q (Some (ResolvePromise p ?d)) (Some (RejectPromise p ?d)) (Some (NotifyPromise p)) ?st = (r, st')"
    by (metis prod.collapse)
  from then_keeps [OF k e r] have "keeps ?st st'" .
  moreover have "settles st ?st"
    using assms(2) by (auto simp: settles_def open_promise_def)
  moreover have "grows st ?st" by (simp add: grows_def)
  ultimately have "keeps st st'"
    using settles_trans grows_trans by (auto simp: keeps_def)
  with v r show ?thesis by (simp add: settle_resolve_def Let_def)
next
  case False
  then have "settle_resolve p v st = scheduleProcessQueue p (updp p (\<lambda>s. s\<lparr>pvalue := v, status := 1\<rparr>) st)"
    by (cases v) (auto simp: settle_resolve_def)
  with settle_keeps [OF assms, of 1 v] show ?thesis by simp
qed

lemma resolve_keeps: "promises_ok st \<Longrightarrow> keeps st (resolve p v st)"
  by (auto simp: resolve_def intro: keeps_refl settle_reject_keeps settle_resolve_keeps fresh_open)

lemma reject_keeps: "promises_ok st \<Longrightarrow> keeps st (reject p v st)"
  by (auto simp: reject_def intro: keeps_refl settle_reject_keeps fresh_open)

lemma notify_keeps: "promises_ok st \<Longrightarrow> keeps st (notify p v st)"
  by (auto simp: notify_def keeps_refl intro!: same_promises_keeps simp: same_promises_def split: option.splits)

text \<open>After its flag is set, a live closure's promise is open.\<close>

lemma live_open:
  assumes "promises_ok st" "(p, d) \<in> targets st" "\<not> fulfilled_once st d"
  shows "keeps st (st\<lparr>fulfilled_once := (fulfilled_once st)(d := True)\<rparr>)"
    "open_promise p (st\<lparr>fulfilled_once := (fulfilled_once st)(d := True)\<rparr>)"
proof -
  let ?st = "st\<lparr>fulfilled_once := (fulfilled_once st)(d := True)\<rparr>"
  have ok: "closures_ok st" "arrays_ok st" "queue_ok st" using assms(1) by (auto simp: promises_ok_def)
  have t: "targets ?st = targets st" "live ?st = {pd \<in> live st. snd pd \<noteq> d}"
    by (auto simp: targets_def live_def)
  have "closures_ok ?st" using ok(1) t by (fastforce simp: closures_ok_def)
  moreover have "arrays_ok ?st" "queue_ok ?st" using ok by (auto simp: arrays_ok_def queue_ok_def)
  ultimately show "keeps st ?st" by (simp add: keeps_def promises_ok_def settles_def grows_def)
  have "(p, d) \<in> live st" using assms(2,3) by (simp add: live_def)
  with ok(1) have "status (promises st p) = - 1" "\<And>d'. (p, d') \<in> live st \<Longrightarrow> d' = d"
    unfolding closures_ok_def by blast+
  with t show "open_promise p ?st" by (auto simp: open_promise_def)
qed

lemma resolvePromise_keeps:
  assumes "promises_ok st" "(p, d) \<in> targets st"
  shows "keeps st (resolvePromise p d v st)"
proof (cases "fulfilled_once st d")
  case False
  note l = live_open [OF assms False]
  from settle_resolve_keeps [OF keeps_ok [OF l(1)] l(2)] l(1) False show ?thesis
    by (simp add: resolvePromise_def keeps_trans)
qed (simp add: resolvePromise_def keeps_refl assms)

lemma rejectPromise_keeps:
  assumes "promises_ok st" "(p, d) \<in> targets st"
  shows "keeps st (rejectPromise p d v st)"
proof (cases "fulfilled_once st d")
  case False
  note l = live_open [OF assms False]
  from settle_reject_keeps [OF keeps_ok [OF l(1)] l(2)] l(1) False show ?thesis
    by (simp add: rejectPromise_def keeps_trans)
qed (simp add: rejectPromise_def keeps_refl assms)

section \<open>Callbacks\<close>

lemma fold_keeps:
  assumes "\<And>x st. x \<in> set xs \<Longrightarrow> P st \<Longrightarrow> promises_ok st \<Longrightarrow> keeps st (f x st)" "\<And>st st'. P st \<Longrightarrow> keeps st st' \<Longrightarrow> P st'"
    and "promises_ok st" "P st"
  shows "keeps st (fold f xs st)"
  using assms(1,3,4)
proof (induction xs arbitrary: st)
  case Nil
  then show ?case by (simp add: keeps_refl)
next
  case (Cons x xs)
  have k: "keeps st (f x st)" using Cons.prems by simp
  have "keeps (f x st) (fold f xs (f x st))"
    using Cons.prems by (intro Cons.IH keeps_ok [OF k] assms(2) [OF _ k]) auto
  with k show ?case by (simp add: keeps_trans)
qed

definition plain :: "'v func option \<Rightarrow> bool" where
  "plain f \<longleftrightarrow> (\<forall>g. f = Some g \<longrightarrow> func_target g = None)"

lemma plain_simps [simp]: "plain None" "plain (Some g) \<longleftrightarrow> func_target g = None" "plain (map_option User c)"
  by (auto simp: plain_def)

lemma plain_then_keeps:
  assumes "promises_ok st" "plain f" "plain g" "plain h"
  shows "keeps st (snd (promise_then p f g h st))"
proof -
  have "entry_targets \<lparr>result = 0, onFulfilled = f, onRejected = g, progressBack = h\<rparr> = {}"
    using assms(2-4) by (auto simp: entry_targets_def entry_funcs_def plain_def)
  then show ?thesis
    using then_keeps [OF assms(1), of 0 f g h p] by (metis prod.collapse targets_fit_def empty_iff)
qed

lemma catch_keeps:
  assumes "promises_ok st" "plain g"
  shows "keeps st (snd (promise_catch p g st))"
proof -
  have "entry_targets \<lparr>result = 0, onFulfilled = None, onRejected = g, progressBack = None\<rparr> = {}"
    using assms(2) by (auto simp: entry_targets_def entry_funcs_def plain_def)
  then show ?thesis
    using promise_push_keeps [OF assms(1), of 0 None g None p] by (metis promise_catch_def prod.collapse targets_fit_def empty_iff)
qed

lemma makePromise_keeps:
  assumes "promises_ok st"
  shows "keeps st (snd (makePromise v b st))"
proof -
  obtain d st1 where n: "new_deferred st = (d, st1)" by (metis prod.collapse)
  have k: "keeps st st1" using new_deferred_keeps [OF assms n] .
  show ?thesis
    using keeps_trans [OF k resolve_keeps [OF keeps_ok [OF k]]] keeps_trans [OF k reject_keeps [OF keeps_ok [OF k]]]
    by (simp add: makePromise_def n)
qed

lemma promise_when_keeps:
  assumes "promises_ok st" "plain f" "plain g" "plain h"
  shows "keeps st (snd (promise_when v f g h st))"
proof -
  obtain d st1 where n: "new_deferred st = (d, st1)" by (metis prod.collapse)
  have k: "keeps st st1" using new_deferred_keeps [OF assms(1) n] .
  have k2: "keeps st1 (resolve d v st1)" using resolve_keeps [OF keeps_ok [OF k]] .
  have "keeps (resolve d v st1) (snd (promise_then d f g h (resolve d v st1)))"
    using assms plain_then_keeps keeps_ok [OF k2] by blast
  from keeps_trans [OF k keeps_trans [OF k2 this]] show ?thesis by (simp add: promise_when_def n)
qed

lemma alls_keeps: "promises_ok st \<Longrightarrow> keeps st (st\<lparr>alls := u\<rparr>)"
  by (rule same_promises_keeps) (auto simp: same_promises_def)

lemma all_loop_keeps: "promises_ok st \<Longrightarrow> keeps st (all_loop k i vs st)"
proof (induction vs arbitrary: i st)
  case Nil
  then show ?case by (simp add: keeps_refl)
next
  case (Cons v vs)
  let ?st = "st\<lparr>alls := (alls st)(k := (alls st k)\<lparr>counter := counter (alls st k) + 1\<rparr>)\<rparr>"
  obtain p st1 where w: "promise_when v None None None ?st = (p, st1)" by (metis prod.collapse)
  let ?st2 = "snd (promise_then p (Some (AllFulfilled k i)) (Some (AllRejected k i)) None st1)"
  have a: "keeps st ?st" using alls_keeps [OF Cons.prems] .
  have b: "keeps ?st st1" using promise_when_keeps [OF keeps_ok [OF a], of None None None v] w by simp
  have c: "keeps st1 ?st2" using plain_then_keeps [OF keeps_ok [OF b]] by simp
  from keeps_trans [OF a keeps_trans [OF b keeps_trans [OF c Cons.IH [OF keeps_ok [OF c]]]]]
  show ?case by (simp add: w)
qed

lemma promise_all_keeps:
  assumes "promises_ok st"
  shows "keeps st (snd (promise_all vs st))"
proof -
  obtain d st1 where n: "new_deferred st = (d, st1)" by (metis prod.collapse)
  let ?st2 = "st1\<lparr>fresh_id := Suc (fresh_id st1), alls := (alls st1)(fresh_id st1 := \<lparr>all_deferred = d, counter = 0, results = []\<rparr>)\<rparr>"
  let ?st3 = "all_loop (fresh_id st1) 0 vs ?st2"
  have a: "keeps st st1" using new_deferred_keeps [OF assms n] .
  have b: "keeps st1 ?st2" by (rule same_promises_keeps [OF keeps_ok [OF a]]) (auto simp: same_promises_def)
  have c: "keeps ?st2 ?st3" by (rule all_loop_keeps [OF keeps_ok [OF b]])
  have "keeps ?st3 (snd (promise_all vs st))"
    using resolve_keeps [OF keeps_ok [OF c]] keeps_refl [OF keeps_ok [OF c]] by (simp add: promise_all_def n Let_def)
  then show ?thesis using a b c keeps_trans by blast
qed

lemma all_fulfilled_keeps: "promises_ok st \<Longrightarrow> keeps st (all_fulfilled k i v st)"
  using alls_keeps resolve_keeps keeps_trans keeps_ok keeps_refl
  by (auto simp: all_fulfilled_def Let_def) blast+

lemma all_rejected_keeps: "promises_ok st \<Longrightarrow> keeps st (all_rejected k i v st)"
  by (simp add: all_rejected_def keeps_refl reject_keeps)

lemma run_op_keeps: "promises_ok st \<Longrightarrow> keeps st (run_op x st)"
  using new_deferred_keeps [of st "fst (new_deferred st)" "snd (new_deferred st)"]
  by (cases x) (simp_all add: run_op_def promise_finally_def plain_then_keeps catch_keeps promise_when_keeps resolve_keeps reject_keeps
      notify_keeps promise_all_keeps)

lemma pdata_keeps: "promises_ok st \<Longrightarrow> keeps st (st\<lparr>pdata := m\<rparr>)"
  by (rule same_promises_keeps) (auto simp: same_promises_def)

lemma call_user_keeps:
  assumes "promises_ok st"
  shows "keeps st (snd (call_user pr c v st))"
proof -
  obtain xs r m where p: "pr c v (pdata st) = (xs, r, m)" by (metis prod.collapse)
  have k: "keeps st (st\<lparr>pdata := m\<rparr>)" using pdata_keeps [OF assms] .
  have "keeps (st\<lparr>pdata := m\<rparr>) (fold run_op xs (st\<lparr>pdata := m\<rparr>))"
    by (rule fold_keeps [where P="\<lambda>st. True"]) (simp_all add: run_op_keeps keeps_ok [OF k])
  from keeps_trans [OF k this] show ?thesis by (simp add: call_user_def p)
qed

lemma handleCallback_keeps:
  assumes "promises_ok st"
  shows "keeps st (snd (handleCallback pr v b c st))"
proof -
  obtain r st1 where r: "(case c of None \<Rightarrow> (Inr Undefined, st) | Some c \<Rightarrow> call_user pr c Undefined st) = (r, st1)"
    by (metis prod.collapse)
  have k: "keeps st st1"
  proof (cases c)
    case None
    with r assms show ?thesis by (simp add: keeps_refl)
  next
    case (Some c')
    with r call_user_keeps [OF assms, of pr c' Undefined] show ?thesis by simp
  qed
  have "keeps st1 (snd (handleCallback pr v b c st))"
    using makePromise_keeps [OF keeps_ok [OF k]] plain_then_keeps [OF keeps_ok [OF k]]
    by (auto simp: handleCallback_def r split: sum.splits val.splits)
  with k show ?thesis by (rule keeps_trans)
qed

lemma call_func_keeps:
  assumes "promises_ok st" "\<And>pd. func_target f = Some pd \<Longrightarrow> pd \<in> targets st"
  shows "keeps st (snd (call_func pr f v st))"
  using assms
  by (cases f) (auto simp: call_func_def call_user_keeps resolvePromise_keeps rejectPromise_keeps notify_keeps
      handleCallback_keeps makePromise_keeps all_fulfilled_keeps all_rejected_keeps)

section \<open>Ticks\<close>

lemma handle_error_keeps: "promises_ok st \<Longrightarrow> keeps st (handle_error err st)"
  unfolding handle_error_def by (rule same_promises_keeps) (auto simp: same_promises_def)

lemma entry_call_keeps:
  assumes "promises_ok st" "entry_targets en \<subseteq> targets st" "f \<in> entry_funcs en"
  shows "keeps st (snd (call_func pr f v st))"
  using assms by (intro call_func_keeps) (auto simp: entry_targets_def)

lemma process_entry_keeps:
  assumes "promises_ok st" "entry_targets en \<subseteq> targets st"
  shows "keeps st (process_entry pr p en st)"
proof (cases "if status (promises st p) = 1 then onFulfilled en else onRejected en")
  case None
  then show ?thesis
    using assms by (auto simp: process_entry_def Let_def resolve_keeps reject_keeps split: if_splits)
next
  case (Some f)
  obtain r st1 where c: "call_func pr f (pvalue (promises st p)) st = (r, st1)" by (metis prod.collapse)
  have "f \<in> entry_funcs en" using Some by (auto simp: entry_funcs_def split: if_splits)
  from entry_call_keeps [OF assms this, of pr "pvalue (promises st p)"] c have k: "keeps st st1" by simp
  have k2: "keeps st1 (reject q e st1)" "keeps st1 (resolve q e st1)" for q e
    by (simp_all add: reject_keeps resolve_keeps keeps_ok [OF k])
  from keeps_trans [OF k2(1) handle_error_keeps [OF keeps_ok [OF k2(1)]]] k2 k show ?thesis
    by (auto simp: process_entry_def Let_def Some c intro: keeps_trans split: sum.splits)
qed

lemma notify_entry_keeps:
  assumes "promises_ok st" "entry_targets en \<subseteq> targets st"
  shows "keeps st (notify_entry pr v en st)"
proof (cases "progressBack en")
  case None
  then show ?thesis using assms by (simp add: notify_entry_def notify_keeps)
next
  case (Some f)
  obtain r st1 where c: "call_func pr f v st = (r, st1)" by (metis prod.collapse)
  have "f \<in> entry_funcs en" using Some by (auto simp: entry_funcs_def)
  from entry_call_keeps [OF assms this, of pr v] c have k: "keeps st st1" by simp
  from keeps_trans [OF k notify_keeps [OF keeps_ok [OF k]]] keeps_trans [OF k handle_error_keeps [OF keeps_ok [OF k]]]
  show ?thesis by (auto simp: notify_entry_def Some c split: sum.splits)
qed

lemma array_fold_keeps:
  fixes st :: "('m, 'v) pstate"
  assumes "promises_ok st" "\<And>en st. promises_ok st \<Longrightarrow> entry_targets en \<subseteq> targets st \<Longrightarrow> keeps st (f en st)"
  shows "keeps st (fold f (arrays st a) st)"
proof (rule fold_keeps [where P="\<lambda>st'. targets st \<subseteq> targets st'"])
  fix en and st' :: "('m, 'v) pstate"
  assume "en \<in> set (arrays st a)" "targets st \<subseteq> targets st'" "promises_ok st'"
  moreover have "entry_targets en \<subseteq> targets st"
    using calculation(1) by (auto simp: targets_def)
  ultimately show "keeps st' (f en st')" by (intro assms(2)) auto
next
  show "targets st \<subseteq> targets st2" if "targets st \<subseteq> targets st1" "keeps st1 st2" for st1 st2 :: "('m, 'v) pstate"
    using that grows_targets by (auto simp: keeps_def)
qed (use assms(1) in auto)

text \<open>Taking a tick off the queue.\<close>

definition started :: "nat \<Rightarrow> ('m, 'v) pstate \<Rightarrow> ('m, 'v) pstate" where
  "started p st = updp p (\<lambda>s. s\<lparr>processScheduled := False, pending := None\<rparr>) st"

lemma process_start:
  assumes "promises_ok st" "ticks st = Process p # ts"
  shows "promises_ok (started p (st\<lparr>ticks := ts\<rparr>))" "pending (promises st p) \<noteq> None"
proof -
  let ?st = "started p (st\<lparr>ticks := ts\<rparr>)"
  have ok: "closures_ok st" "arrays_ok st" "queue_ok st" using assms(1) by (auto simp: promises_ok_def)
  have "closures_ok ?st" by (rule closures_ok_cong [OF ok(1)]) (auto simp: started_def)
  moreover have "arrays_ok ?st" using ok(2) by (auto simp: arrays_ok_def started_def)
  moreover have "queue_ok ?st"
    using ok(3) assms(2) by (auto simp: queue_ok_def needs_queue_def started_def)
  ultimately show "promises_ok ?st" by (simp add: promises_ok_def)
  show "pending (promises st p) \<noteq> None"
    using ok(3) assms(2) by (auto simp: queue_ok_def needs_queue_def)
qed

lemma queue_ok_cong:
  assumes "queue_ok st" "promises st' = promises st" "processes (ticks st') = processes (ticks st)"
  shows "queue_ok st'"
  using assms(1) unfolding queue_ok_def assms(2,3) .

lemma notify_start:
  assumes "promises_ok st" "ticks st = NotifyAll a v # ts"
  shows "promises_ok (st\<lparr>ticks := ts\<rparr>)"
proof -
  have ok: "closures_ok st" "arrays_ok st" "queue_ok st" using assms(1) by (auto simp: promises_ok_def)
  have "closures_ok (st\<lparr>ticks := ts\<rparr>)" by (rule closures_ok_cong [OF ok(1)]) auto
  moreover have "arrays_ok (st\<lparr>ticks := ts\<rparr>)" using ok(2) by (auto simp: arrays_ok_def)
  moreover have "queue_ok (st\<lparr>ticks := ts\<rparr>)" by (rule queue_ok_cong [OF ok(3)]) (simp_all add: assms(2))
  ultimately show ?thesis by (simp add: promises_ok_def)
qed

definition popped :: "('m, 'v) pstate \<Rightarrow> ('m, 'v) pstate" where
  "popped st = (case ticks st of [] \<Rightarrow> st | Process p # ts \<Rightarrow> started p (st\<lparr>ticks := ts\<rparr>) | _ # ts \<Rightarrow> st\<lparr>ticks := ts\<rparr>)"

lemma run_tick_keeps:
  assumes "promises_ok st"
  shows "\<exists>st'. run_tick pr st = Some st' \<and> keeps (popped st) st'"
proof (cases "ticks st")
  case Nil
  then show ?thesis using assms by (simp add: run_tick_def popped_def keeps_refl)
next
  case (Cons t ts)
  show ?thesis
  proof (cases t)
    case (Process p)
    with Cons have c: "ticks st = Process p # ts" by simp
    note s = process_start [OF assms c]
    obtain a where a: "pending (promises st p) = Some a" using s(2) by auto
    have "keeps (started p (st\<lparr>ticks := ts\<rparr>)) (fold (process_entry pr p) (arrays (started p (st\<lparr>ticks := ts\<rparr>)) a) (started p (st\<lparr>ticks := ts\<rparr>)))"
      by (rule array_fold_keeps [OF s(1) process_entry_keeps])
    with c a show ?thesis by (simp add: run_tick_def popped_def processQueue_def started_def)
  next
    case (NotifyAll a v)
    with Cons have c: "ticks st = NotifyAll a v # ts" by simp
    have "keeps (st\<lparr>ticks := ts\<rparr>) (fold (notify_entry pr v) (arrays (st\<lparr>ticks := ts\<rparr>) a) (st\<lparr>ticks := ts\<rparr>))"
      by (rule array_fold_keeps [OF notify_start [OF assms c] notify_entry_keeps])
    with c show ?thesis by (simp add: run_tick_def popped_def)
  qed
qed

lemma popped_settles: "settles st (popped st)"
  by (auto simp: popped_def settles_def started_def split: list.splits ptick.splits)

lemma pstep_keeps:
  assumes "promises_ok st"
  shows "\<exists>st'. pstep pr st x = Some st' \<and> promises_ok st' \<and> settles st st'"
proof (cases x)
  case (Call y)
  with run_op_keeps [OF assms, of y] show ?thesis by (simp add: keeps_def)
next
  case Tick
  with run_tick_keeps [OF assms, of pr] settles_trans [OF popped_settles [of st]] show ?thesis by (auto simp: keeps_def)
qed

lemma prun_keeps:
  assumes "promises_ok st"
  shows "\<exists>st'. prun pr st xs = Some st' \<and> promises_ok st' \<and> settles st st'"
  using assms
proof (induction xs arbitrary: st)
  case (Cons x xs)
  obtain st1 where 1: "pstep pr st x = Some st1" "promises_ok st1" "settles st st1"
    using pstep_keeps [OF Cons.prems] by blast
  from Cons.IH [OF 1(2)] 1 settles_trans [OF 1(3)] show ?case by auto
qed simp

lemma initial_ok: "promises_ok (initial_pstate m)"
  by (auto simp: promises_ok_def initial_pstate_def closures_ok_def arrays_ok_def queue_ok_def targets_def live_def
      needs_queue_def initial_promise_def)

lemma prun_initial:
  assumes "prun pr (initial_pstate m) xs = Some st"
  shows "promises_ok st"
  using prun_keeps [OF initial_ok, of pr m xs] assms by auto

text \<open>A scheduled queue's turn comes, with the callbacks it had.\<close>

lemma turn_comes:
  assumes "promises_ok st" "ticks st = us @ Process p # ts" "pending (promises st p) = Some a"
  shows "\<exists>st'. prun pr st (replicate (length us) Tick) = Some st' \<and> (\<exists>ts'. ticks st' = Process p # ts') \<and>
    pending (promises st' p) = Some a \<and> prefix (arrays st a) (arrays st' a)"
  using assms
proof (induction us arbitrary: st ts)
  case Nil
  then show ?case by simp
next
  case (Cons u us)
  obtain st1 where 1: "run_tick pr st = Some st1" "keeps (popped st) st1"
    using run_tick_keeps [OF Cons.prems(1)] by blast
  have "Process p \<notin> set (u # us)"
  proof
    assume "Process p \<in> set (u # us)"
    then have "p \<in> set (processes (u # us))"
      by (force simp: processes_def List.map_filter_def image_iff)
    with Cons.prems(1,2) show False
      by (cases u) (auto simp: promises_ok_def queue_ok_def)
  qed
  then have p: "ticks (popped st) = us @ Process p # ts" "pending (promises (popped st) p) = Some a" "arrays (popped st) = arrays st"
    using Cons.prems(2,3) by (auto simp: popped_def started_def split: ptick.splits)
  from 1(2) p obtain ts' where "promises_ok st1" "ticks st1 = us @ Process p # ts'" "pending (promises st1 p) = Some a"
      "prefix (arrays st a) (arrays st1 a)"
    by (fastforce simp: keeps_def grows_def prefix_def)
  with Cons.IH [of st1 ts'] 1(1) show ?case by (auto intro: prefix_order.trans)
qed

section \<open>Properties\<close>

lemma count_processes: "count_list ts (Process p) = count_list (processes ts) p"
proof (induction ts)
  case (Cons t ts)
  then show ?case by (cases t) auto
qed simp

definition demo_program :: "(nat, nat) program" where
  "demo_program c v m = ([Notify 0 v], Inr v, Suc m)"

lemma distinct_count: "distinct xs \<Longrightarrow> count_list xs x = (if x \<in> set xs then 1 else 0)"
  by (induction xs) auto

text \<open>
  C24. A promise of \<open>$q\<close> settles once: when callers' operations and ticks, in any order, have fulfilled or
  rejected it, whatever callers, callbacks and other promises do afterwards, its state and its value stay.
\<close>
theorem settled_promise_is_final:
  assumes "prun pr (initial_pstate m) xs = Some st" "status (promises st p) > 0" "prun pr st ys = Some st'"
  shows "status (promises st' p) = status (promises st p) \<and> pvalue (promises st' p) = pvalue (promises st p)"
  using prun_keeps [OF prun_initial [OF assms(1)], of pr ys] assms(2,3) by (auto simp: settles_def)

text \<open>A promise that follows another is fulfilled with its value; another \<open>resolve\<close> and a tick do not change it.\<close>

lemma settled_promise_is_final_witness:
  "\<exists>st st'. prun demo_program (initial_pstate 0) [Call Defer, Call Defer, Call (Resolve 0 (Prom 1)), Call (Resolve 1 (Data 5)), Tick] = Some st \<and>
     status (promises st 0) = 1 \<and> prun demo_program st [Call (Resolve 0 (Data 6)), Call (Reject 1 Undefined), Tick] = Some st' \<and>
     status (promises st' 0) = 1 \<and> pvalue (promises st' 0) = Data 5"
proof -
  let ?r1 = "prun demo_program (initial_pstate 0) [Call Defer, Call Defer, Call (Resolve 0 (Prom 1)), Call (Resolve 1 (Data 5)), Tick]"
  have "map_option (\<lambda>st. (status (promises st 0), pvalue (promises st 0))) ?r1 = Some (1, Data 5)"
    by code_simp
  then obtain st where st: "?r1 = Some st" "status (promises st 0) = 1" "pvalue (promises st 0) = Data 5" by auto
  obtain st' where st': "prun demo_program st [Call (Resolve 0 (Data 6)), Call (Reject 1 Undefined), Tick] = Some st'"
    using prun_keeps [OF prun_initial [OF st(1)], of demo_program "[Call (Resolve 0 (Data 6)), Call (Reject 1 Undefined), Tick]"] by blast
  with settled_promise_is_final [OF st(1) _ st', of 0] st show ?thesis by auto
qed

text \<open>
  C25. \<open>processQueue\<close> never reads an undefined \<open>pending\<close>: every run of operations and ticks goes through,
  and after it each settled promise with callbacks waits in the queue of ticks exactly once, and no other does.
\<close>
theorem settled_promises_scheduled_once:
  "\<exists>st. prun pr (initial_pstate m) xs = Some st \<and>
     (\<forall>p. count_list (ticks st) (Process p) = (if status (promises st p) > 0 \<and> pending (promises st p) \<noteq> None then 1 else 0))"
proof -
  obtain st where st: "prun pr (initial_pstate m) xs = Some st" "promises_ok st"
    using prun_keeps [OF initial_ok, of pr m xs] by blast
  have "count_list (ticks st) (Process p) = (if needs_queue (promises st p) then 1 else 0)" for p
  proof -
    have "needs_queue (promises st p) = (p \<in> set (processes (ticks st)))" "distinct (processes (ticks st))"
      using st(2) unfolding promises_ok_def queue_ok_def by blast+
    then show ?thesis by (simp add: count_processes distinct_count)
  qed
  with st(1) show ?thesis by (auto simp: needs_queue_def)
qed

text \<open>
  The calls of users' callbacks, observed: \<open>logged\<close> is the same program with a log in its data, to which each
  call adds the callback and its argument.
\<close>

definition logged :: "('m, 'v) program \<Rightarrow> ('m \<times> (nat \<times> 'v val) list, 'v) program" where
  "logged pr c v ml = (case pr c v (fst ml) of (xs, r, m) \<Rightarrow> (xs, r, (m, snd ml @ [(c, v)])))"

abbreviation call_log :: "('m \<times> (nat \<times> 'v val) list, 'v) pstate \<Rightarrow> (nat \<times> 'v val) list" where
  "call_log st \<equiv> snd (pdata st)"

text \<open>The calls an entry of a promise with this state and value is due.\<close>

definition entry_calls :: "int \<Rightarrow> 'v val \<Rightarrow> 'v pentry \<Rightarrow> (nat \<times> 'v val) list" where
  "entry_calls s v en =
     (case (if s = 1 then onFulfilled en else onRejected en) of
        Some (User c) \<Rightarrow> [(c, v)]
      | Some (Finally (Some c) _) \<Rightarrow> [(c, Undefined)]
      | _ \<Rightarrow> [])"

text \<open>Only a user's callback changes the data.\<close>

lemma pdata_then [simp]:
  "pdata (scheduleProcessQueue p st) = pdata st" "pdata (snd (new_deferred st)) = pdata st"
  "pdata (snd (pending_array p st)) = pdata st" "pdata (snd (promise_push p f g h st)) = pdata st"
  "pdata (snd (promise_then p f g h st)) = pdata st" "pdata (snd (promise_catch p g st)) = pdata st"
  by (simp_all add: scheduleProcessQueue_def new_deferred_def pending_array_def promise_push_def promise_then_def
      promise_catch_def Let_def split: option.split prod.split)

lemma pdata_settle [simp]:
  "pdata (settle_reject p v st) = pdata st" "pdata (settle_resolve p v st) = pdata st"
  "pdata (resolve p v st) = pdata st" "pdata (reject p v st) = pdata st" "pdata (notify p v st) = pdata st"
  "pdata (resolvePromise p d v st) = pdata st" "pdata (rejectPromise p d v st) = pdata st"
  by (simp_all add: settle_reject_def settle_resolve_def resolve_def reject_def notify_def resolvePromise_def
      rejectPromise_def Let_def split: val.split option.split)

lemma pdata_service [simp]:
  "pdata (snd (makePromise v b st)) = pdata st" "pdata (snd (promise_when v f g h st)) = pdata st"
  "pdata (all_fulfilled k i v st) = pdata st" "pdata (all_rejected k i v st) = pdata st"
  by (simp_all add: makePromise_def promise_when_def new_deferred_def all_fulfilled_def all_rejected_def Let_def)

lemma pdata_all_loop [simp]: "pdata (all_loop k i vs st) = pdata st"
proof (induction vs arbitrary: i st)
  case (Cons v vs)
  obtain p st1 where w: "promise_when v None None None
      (st\<lparr>alls := (alls st)(k := (alls st k)\<lparr>counter := counter (alls st k) + 1\<rparr>)\<rparr>) = (p, st1)" by fastforce
  then have "pdata st1 = pdata st" using pdata_service(2) by (metis pstate.select_convs(8) pstate.simps(12) pstate.surjective pstate.update_convs(4) snd_conv)
  with w Cons.IH show ?case by simp
qed simp

lemma pdata_run_op [simp]: "pdata (run_op x st) = pdata st"
  by (cases x) (simp_all add: run_op_def promise_finally_def promise_all_def new_deferred_def Let_def)

lemma pdata_fold_ops [simp]: "pdata (fold run_op xs st) = pdata st"
  by (induction xs arbitrary: st) simp_all

lemma call_user_log: "call_log (snd (call_user (logged pr) c v st)) = call_log st @ [(c, v)]"
  by (simp add: call_user_def logged_def split: prod.split)

lemma handleCallback_log:
  "call_log (snd (handleCallback (logged pr) v b c st)) = call_log st @ (case c of None \<Rightarrow> [] | Some c \<Rightarrow> [(c, Undefined)])"
proof -
  obtain r st1 where r: "(case c of None \<Rightarrow> (Inr Undefined, st) | Some c \<Rightarrow> call_user (logged pr) c Undefined st) = (r, st1)"
    by fastforce
  have "call_log st1 = call_log st @ (case c of None \<Rightarrow> [] | Some c \<Rightarrow> [(c, Undefined)])"
  proof (cases c)
    case (Some c')
    with r have "call_user (logged pr) c' Undefined st = (r, st1)" by simp
    with call_user_log [of pr c' Undefined st] Some show ?thesis by simp
  qed (use r in auto)
  then show ?thesis by (simp add: handleCallback_def r split: sum.splits val.splits)
qed

lemma call_func_log:
  "call_log (snd (call_func (logged pr) f v st)) =
     call_log st @ (case f of User c \<Rightarrow> [(c, v)] | Finally (Some c) _ \<Rightarrow> [(c, Undefined)] | _ \<Rightarrow> [])"
  by (cases f) (auto simp: call_func_def call_user_log handleCallback_log split: option.split)

lemma process_entry_log:
  "call_log (process_entry (logged pr) p en st) =
     call_log st @ entry_calls (status (promises st p)) (pvalue (promises st p)) en"
proof (cases "if status (promises st p) = 1 then onFulfilled en else onRejected en")
  case None
  then show ?thesis by (simp add: process_entry_def entry_calls_def Let_def)
next
  case (Some f)
  obtain r st1 where c: "call_func (logged pr) f (pvalue (promises st p)) st = (r, st1)" by fastforce
  have "call_log st1 = call_log st @ entry_calls (status (promises st p)) (pvalue (promises st p)) en"
    using call_func_log [of pr f "pvalue (promises st p)" st] Some c by (simp add: entry_calls_def)
  then show ?thesis by (simp add: process_entry_def Some c Let_def handle_error_def split: sum.split)
qed

text \<open>An entry leaves its own promise settled, or following another.\<close>

lemma promise_then_status: "status (promises (snd (promise_then q f g h st)) p) = status (promises st p)"
proof -
  have a: "status (promises (snd (pending_array q st)) p) = status (promises st p)" for st :: "('m, 'v) pstate"
    by (simp add: pending_array_def split: option.split)
  show ?thesis
    using a [of "snd (new_deferred st)"]
    by (auto simp: promise_then_def promise_push_def new_deferred_def Let_def split: prod.split)
qed

lemma settled_status:
  "status (promises (resolve p v st) p) \<noteq> 0" "status (promises (reject p v st) p) \<noteq> 0"
  by (auto simp: resolve_def reject_def settle_reject_def settle_resolve_def Let_def promise_then_status split: val.split)

lemma process_entry_result: "status (promises (process_entry pr p en st) (result en)) \<noteq> 0"
  by (auto simp: process_entry_def Let_def settled_status handle_error_def split: option.split sum.split prod.split)

text \<open>All entries of an array.\<close>

lemma process_entries:
  assumes "promises_ok st" "\<forall>en\<in>set ens. entry_targets en \<subseteq> targets st" "status (promises st p) > 0"
  shows "call_log (fold (process_entry (logged pr) p) ens st) =
      call_log st @ concat (map (entry_calls (status (promises st p)) (pvalue (promises st p))) ens) \<and>
    (\<forall>en\<in>set ens. status (promises (fold (process_entry (logged pr) p) ens st) (result en)) \<noteq> 0)"
  using assms
proof (induction ens arbitrary: st)
  case (Cons en ens)
  let ?st = "process_entry (logged pr) p en st"
  let ?st' = "fold (process_entry (logged pr) p) ens ?st"
  have k: "keeps st ?st" by (rule process_entry_keeps) (use Cons.prems in simp_all)
  then have s: "promises_ok ?st" "settles st ?st" "targets st \<subseteq> targets ?st" using grows_targets by (auto simp: keeps_def)
  have "keeps ?st ?st'"
  proof (rule fold_keeps [where P="\<lambda>st'. targets st \<subseteq> targets st'"])
    show "keeps st1 (process_entry (logged pr) p x st1)" if "x \<in> set ens" "targets st \<subseteq> targets st1" "promises_ok st1" for x st1
      using that Cons.prems(2) by (intro process_entry_keeps) auto
    show "targets st \<subseteq> targets st2" if "targets st \<subseteq> targets st1" "keeps st1 st2"
      for st1 st2 :: "('a \<times> (nat \<times> 'b val) list, 'b) pstate"
      using that grows_targets [of st1 st2] by (auto simp: keeps_def)
  qed (use s in auto)
  then have r: "status (promises ?st' (result en)) \<noteq> 0"
    using process_entry_result [of "logged pr" p en st] by (auto simp: keeps_def settles_def)
  have p: "status (promises ?st p) = status (promises st p)" "pvalue (promises ?st p) = pvalue (promises st p)"
    using s(2) Cons.prems(3) by (auto simp: settles_def)
  have "\<forall>en\<in>set ens. entry_targets en \<subseteq> targets ?st" using Cons.prems(2) s(3) by auto
  from Cons.IH [OF s(1) this] p Cons.prems(3) r show ?case by (simp add: process_entry_log)
qed simp

text \<open>Calls are only ever added to the log.\<close>

lemma fold_log: "(\<And>x st. prefix (call_log st) (call_log (f x st))) \<Longrightarrow> prefix (call_log st) (call_log (fold f xs st))"
  by (induction xs arbitrary: st) (auto intro: prefix_order.trans)

lemma notify_entry_log: "prefix (call_log st) (call_log (notify_entry (logged pr) v en st))"
proof (cases "progressBack en")
  case (Some f)
  obtain r st1 where c: "call_func (logged pr) f v st = (r, st1)" by fastforce
  have "prefix (call_log st) (call_log st1)" using call_func_log [of pr f v st] c by simp
  then show ?thesis by (simp add: notify_entry_def Some c handle_error_def split: sum.split)
qed (simp add: notify_entry_def)

lemma fold_entries_log:
  "prefix (call_log st) (call_log (fold (process_entry (logged pr) p) ens st))"
  "prefix (call_log st) (call_log (fold (notify_entry (logged pr) v) ens st))"
  by (rule fold_log, simp add: process_entry_log notify_entry_log)+

lemma run_tick_log: "run_tick (logged pr) st = Some st' \<Longrightarrow> prefix (call_log st) (call_log st')"
  using fold_entries_log(1) [of "updp p (\<lambda>s. s\<lparr>processScheduled := False, pending := None\<rparr>) (st\<lparr>ticks := ts\<rparr>)" for p ts]
    fold_entries_log(2) [of "st\<lparr>ticks := ts\<rparr>" for ts]
  by (auto simp: run_tick_def processQueue_def Let_def split: list.splits ptick.splits option.splits)

lemma prun_log: "prun (logged pr) st xs = Some st' \<Longrightarrow> prefix (call_log st) (call_log st')"
proof (induction xs arbitrary: st)
  case (Cons x xs)
  then obtain st1 where 1: "pstep (logged pr) st x = Some st1" "prun (logged pr) st1 xs = Some st'" by (auto split: option.splits)
  then have "prefix (call_log st) (call_log st1)" by (cases x) (auto dest: run_tick_log)
  from prefix_order.trans [OF this Cons.IH [OF 1(2)]] show ?case .
qed simp

lemma prun_append: "prun pr st (xs @ ys) = Option.bind (prun pr st xs) (\<lambda>st. prun pr st ys)"
  by (induction xs arbitrary: st) (auto split: option.split)



end
