(* ===== verification/NgCache.thy ===== *)
theory NgCache
  imports Prelude
begin

text \<open>
  The caches of \<open>$cacheFactory\<close> in \<open>assets/public/components/angular/angular.js\<close>: a cache with a capacity
  keeps its entries in a doubly linked list, from the stalest to the freshest, and drops the stalest.
  Entries are objects of a store, because the links of an entry are changed through its neighbours.
\<close>

section \<open>A cache\<close>

record lru_entry =
  key :: string
  n :: "nat option"
  p :: "nat option"

record 'v cache =
  csize :: int
  data :: "string \<rightharpoonup> 'v"
  capacity :: "int option"
  lruHash :: "string \<rightharpoonup> nat"
  freshEnd :: "nat option"
  staleEnd :: "nat option"
  entries :: "nat \<Rightarrow> lru_entry"
  next_entry :: nat
  alive :: bool

text \<open>No capacity and capacity \<open>0\<close> are \<open>Number.MAX_VALUE\<close>, here \<open>None\<close>.\<close>

definition capacity_of :: "int option \<Rightarrow> int option" where
  "capacity_of options = (case options of Some k \<Rightarrow> if k = 0 then None else Some k | None \<Rightarrow> None)"

definition new_cache :: "int option \<Rightarrow> 'v cache" where
  "new_cache options = \<lparr>csize = 0, data = Map.empty, capacity = capacity_of options, lruHash = Map.empty, freshEnd = None,
     staleEnd = None, entries = (\<lambda>_. \<lparr>key = [], n = None, p = None\<rparr>), next_entry = 0, alive = True\<rparr>"

definition upd_entry :: "nat \<Rightarrow> (lru_entry \<Rightarrow> lru_entry) \<Rightarrow> 'v cache \<Rightarrow> 'v cache" where
  "upd_entry a f c = c\<lparr>entries := (entries c)(a := f (entries c a))\<rparr>"

definition link :: "nat option \<Rightarrow> nat option \<Rightarrow> 'v cache \<Rightarrow> 'v cache" where
  "link nextEntry prevEntry c =
     (if nextEntry \<noteq> prevEntry
      then let c = (case nextEntry of Some a \<Rightarrow> upd_entry a (\<lambda>x. x\<lparr>p := prevEntry\<rparr>) c | None \<Rightarrow> c)
           in (case prevEntry of Some a \<Rightarrow> upd_entry a (\<lambda>x. x\<lparr>n := nextEntry\<rparr>) c | None \<Rightarrow> c)
      else c)"

definition refresh :: "nat \<Rightarrow> 'v cache \<Rightarrow> 'v cache" where
  "refresh entry c =
     (if Some entry \<noteq> freshEnd c
      then let c = (if staleEnd c = None then c\<lparr>staleEnd := Some entry\<rparr>
                    else if staleEnd c = Some entry then c\<lparr>staleEnd := n (entries c entry)\<rparr> else c);
               c = link (n (entries c entry)) (p (entries c entry)) c;
               c = link (Some entry) (freshEnd c) c
           in upd_entry entry (\<lambda>x. x\<lparr>n := None\<rparr>) (c\<lparr>freshEnd := Some entry\<rparr>)
      else c)"

definition lru_entry_for :: "string \<Rightarrow> 'v cache \<Rightarrow> nat \<times> 'v cache" where
  "lru_entry_for k c =
     (case lruHash c k of
        Some a \<Rightarrow> (a, c)
      | None \<Rightarrow> let a = next_entry c in (a, (upd_entry a (\<lambda>_. \<lparr>key = k, n = None, p = None\<rparr>) c)
           \<lparr>lruHash := (lruHash c)(k \<mapsto> a), next_entry := Suc a\<rparr>))"

text \<open>Methods return \<open>None\<close> when they read a property of \<open>null\<close>; the cache is then unchanged.\<close>

definition drop_data :: "string \<Rightarrow> 'v cache \<Rightarrow> 'v cache" where
  "drop_data k c = (if data c k = None then c else c\<lparr>data := (data c)(k := None), csize := csize c - 1\<rparr>)"

definition cache_remove :: "string \<Rightarrow> 'v cache \<Rightarrow> 'v cache option" where
  "cache_remove k c =
     (if \<not> alive c then None
      else if capacity c \<noteq> None
      then (case lruHash c k of
              None \<Rightarrow> Some c
            | Some a \<Rightarrow>
                let c = (if freshEnd c = Some a then c\<lparr>freshEnd := p (entries c a)\<rparr> else c);
                    c = (if staleEnd c = Some a then c\<lparr>staleEnd := n (entries c a)\<rparr> else c);
                    c = link (n (entries c a)) (p (entries c a)) c
                in Some (drop_data k (c\<lparr>lruHash := (lruHash c)(k := None)\<rparr>)))
      else Some (drop_data k c))"

definition too_large :: "'v cache \<Rightarrow> bool" where
  "too_large c = (case capacity c of Some k \<Rightarrow> csize c > k | None \<Rightarrow> False)"

definition cache_put :: "string \<Rightarrow> 'v option \<Rightarrow> 'v cache \<Rightarrow> 'v cache option" where
  "cache_put k value c =
     (case value of
        None \<Rightarrow> Some c
      | Some v \<Rightarrow>
          if \<not> alive c then None
          else let c = (if capacity c \<noteq> None then (case lru_entry_for k c of (a, c) \<Rightarrow> refresh a c) else c);
                   c = (if data c k = None then c\<lparr>csize := csize c + 1\<rparr> else c);
                   c = c\<lparr>data := (data c)(k \<mapsto> v)\<rparr>
               in if too_large c
                  then (case staleEnd c of None \<Rightarrow> None | Some a \<Rightarrow> cache_remove (key (entries c a)) c)
                  else Some c)"

definition cache_get :: "string \<Rightarrow> 'v cache \<Rightarrow> ('v option \<times> 'v cache) option" where
  "cache_get k c =
     (if \<not> alive c then None
      else if capacity c \<noteq> None
      then (case lruHash c k of
              None \<Rightarrow> Some (None, c)
            | Some a \<Rightarrow> let c = refresh a c in Some (data c k, c))
      else Some (data c k, c))"

definition removeAll :: "'v cache \<Rightarrow> 'v cache" where
  "removeAll c = c\<lparr>data := Map.empty, csize := 0, lruHash := Map.empty, freshEnd := None, staleEnd := None, alive := True\<rparr>"

definition destroy :: "'v cache \<Rightarrow> 'v cache" where
  "destroy c = c\<lparr>data := Map.empty, lruHash := Map.empty, alive := False\<rparr>"

section \<open>The factory\<close>

text \<open>
  Caches by their identifiers, and the cache objects themselves, which clients keep. The object
  \<open>caches\<close> also has the names every object inherits. Of \<open>info\<close> the size is modelled.
\<close>

record 'v factory =
  caches :: "string \<rightharpoonup> nat"
  cache_objs :: "'v cache list"

definition inherited_names :: "string list" where
  "inherited_names = [''constructor'', ''hasOwnProperty'', ''isPrototypeOf'', ''propertyIsEnumerable'', ''toLocaleString'',
     ''toString'', ''valueOf'', ''__proto__'', ''__defineGetter__'', ''__defineSetter__'', ''__lookupGetter__'', ''__lookupSetter__'']"

datatype lookup = Cache nat | Inherited | Missing

definition factory_get :: "string \<Rightarrow> 'v factory \<Rightarrow> lookup" where
  "factory_get cacheId f =
     (case caches f cacheId of Some i \<Rightarrow> Cache i | None \<Rightarrow> if cacheId \<in> set inherited_names then Inherited else Missing)"

definition cacheFactory :: "string \<Rightarrow> int option \<Rightarrow> 'v factory \<Rightarrow> (nat \<times> 'v factory) option" where
  "cacheFactory cacheId options f =
     (if factory_get cacheId f \<noteq> Missing then None
      else Some (length (cache_objs f), \<lparr>caches = (caches f)(cacheId \<mapsto> length (cache_objs f)),
             cache_objs = cache_objs f @ [new_cache options]\<rparr>))"

definition factory_destroy :: "string \<Rightarrow> nat \<Rightarrow> 'v factory \<Rightarrow> 'v factory" where
  "factory_destroy cacheId i f =
     \<lparr>caches = (caches f)(cacheId := None), cache_objs = (cache_objs f)[i := destroy (cache_objs f ! i)]\<rparr>"

definition factory_info :: "'v factory \<Rightarrow> string \<Rightarrow> int option" where
  "factory_info f cacheId = map_option (\<lambda>i. csize (cache_objs f ! i)) (caches f cacheId)"

section \<open>Runs\<close>

datatype 'v cache_op = Put string "'v option" | Get string | Remove string | RemoveAll | Destroy | Info

datatype 'v outcome = Failed | Returned "'v option" | Size int

definition cache_step :: "'v cache \<Rightarrow> 'v cache_op \<Rightarrow> 'v outcome \<times> 'v cache" where
  "cache_step c x =
     (case x of
        Put k v \<Rightarrow> (case cache_put k v c of None \<Rightarrow> (Failed, c) | Some c \<Rightarrow> (Returned v, c))
      | Get k \<Rightarrow> (case cache_get k c of None \<Rightarrow> (Failed, c) | Some (v, c) \<Rightarrow> (Returned v, c))
      | Remove k \<Rightarrow> (case cache_remove k c of None \<Rightarrow> (Failed, c) | Some c \<Rightarrow> (Returned None, c))
      | RemoveAll \<Rightarrow> (Returned None, removeAll c)
      | Destroy \<Rightarrow> (Returned None, destroy c)
      | Info \<Rightarrow> (Size (csize c), c))"

text \<open>Least recently used: keys and values from the stalest to the freshest.\<close>

type_synonym 'v lru = "bool \<times> (string \<times> 'v) list"

definition without :: "string \<Rightarrow> (string \<times> 'v) list \<Rightarrow> (string \<times> 'v) list" where
  "without k l = filter (\<lambda>x. fst x \<noteq> k) l"

definition fit :: "int option \<Rightarrow> (string \<times> 'v) list \<Rightarrow> (string \<times> 'v) list" where
  "fit cap l = (case cap of Some k \<Rightarrow> if int (length l) > k then tl l else l | None \<Rightarrow> l)"

fun lru_step :: "int option \<Rightarrow> 'v lru \<Rightarrow> 'v cache_op \<Rightarrow> 'v outcome \<times> 'v lru" where
  "lru_step cap (up, l) (Put k None) = (Returned None, (up, l))"
| "lru_step cap (up, l) (Put k (Some v)) =
     (if up then (Returned (Some v), (up, fit cap (without k l @ [(k, v)]))) else (Failed, (up, l)))"
| "lru_step cap (up, l) (Get k) =
     (if \<not> up then (Failed, (up, l))
      else case map_of l k of None \<Rightarrow> (Returned None, (up, l)) | Some v \<Rightarrow> (Returned (Some v), (up, without k l @ [(k, v)])))"
| "lru_step cap (up, l) (Remove k) = (if up then (Returned None, (up, without k l)) else (Failed, (up, l)))"
| "lru_step cap (up, l) RemoveAll = (Returned None, (True, []))"
| "lru_step cap (up, l) Destroy = (Returned None, (False, l))"
| "lru_step cap (up, l) Info = (Size (int (length l)), (up, l))"

section \<open>Links of a list\<close>

definition head :: "'a list \<Rightarrow> 'a option" where
  "head xs = (case xs of [] \<Rightarrow> None | x # _ \<Rightarrow> Some x)"

lemma head_simps [simp]: "head [] = None" "head (x # xs) = Some x" "head (xs @ [x]) = (case head xs of None \<Rightarrow> Some x | Some y \<Rightarrow> Some y)"
  "head xs = None \<longleftrightarrow> xs = []"
  by (cases xs; simp add: head_def)+

lemma head_eq_None: "None = head xs \<longleftrightarrow> xs = []"
  by (cases xs) auto

lemma head_in: "head xs = Some x \<Longrightarrow> x \<in> set xs"
  by (cases xs) auto

fun next_in :: "'a list \<Rightarrow> 'a \<Rightarrow> 'a option" where
  "next_in [] x = None"
| "next_in (y # ys) x = (if x = y then head ys else next_in ys x)"

lemma next_in_outside: "x \<notin> set xs \<Longrightarrow> next_in xs x = None"
  by (induction xs) auto

lemma head_rev_Cons: "head (rev (u # us)) = Some x \<longleftrightarrow> (if us = [] then x = u else head (rev us) = Some x)"
  by (cases us rule: rev_cases) auto

lemma next_in_append:
  assumes "distinct (us @ vs)"
  shows "next_in (us @ vs) x = (if x \<in> set us then if head (rev us) = Some x then head vs else next_in us x else next_in vs x)"
  using assms
proof (induction us)
  case (Cons u us)
  have last: "head (rev us) = Some u \<Longrightarrow> False"
    using Cons.prems head_in [of "rev us" u] by auto
  show ?case
  proof (cases "x = u")
    case True
    with last show ?thesis by (cases us) (auto simp: head_rev_Cons simp del: rev.simps)
  next
    case False
    with Cons show ?thesis by (auto simp: head_rev_Cons simp del: rev.simps)
  qed
qed simp

text \<open>The pointers of the entries in \<open>xs\<close> are those of a doubly linked list.\<close>

definition dll :: "(nat \<Rightarrow> lru_entry) \<Rightarrow> nat list \<Rightarrow> bool" where
  "dll es xs \<longleftrightarrow> distinct xs \<and> (\<forall>a\<in>set xs. n (es a) = next_in xs a \<and> p (es a) = next_in (rev xs) a)"

lemma dll_links:
  assumes "dll es (us @ a # vs)"
  shows "n (es a) = head vs" "p (es a) = head (rev us)"
proof -
  have "distinct (us @ a # vs)" "distinct (rev vs @ a # rev us)" using assms by (auto simp: dll_def)
  with assms show "n (es a) = head vs" "p (es a) = head (rev us)"
    by (auto simp: dll_def next_in_append)
qed

lemma entries_upd_entry [simp]: "entries (upd_entry a f c) b = (if b = a then f (entries c a) else entries c b)"
  by (simp add: upd_entry_def)

lemma entries_link:
  assumes "nx \<noteq> pv"
  shows "n (entries (link nx pv c) b) = (if pv = Some b then nx else n (entries c b))"
    "p (entries (link nx pv c) b) = (if nx = Some b then pv else p (entries c b))"
    "key (entries (link nx pv c) b) = key (entries c b)"
  using assms by (auto simp: link_def Let_def split: option.splits)

lemma key_link [simp]: "key (entries (link nx pv c) b) = key (entries c b)"
  by (cases "nx = pv") (simp_all add: entries_link, simp add: link_def)

lemma upd_entry_frame [simp]:
  "csize (upd_entry a f c) = csize c" "data (upd_entry a f c) = data c" "capacity (upd_entry a f c) = capacity c"
  "lruHash (upd_entry a f c) = lruHash c" "freshEnd (upd_entry a f c) = freshEnd c" "staleEnd (upd_entry a f c) = staleEnd c"
  "next_entry (upd_entry a f c) = next_entry c" "alive (upd_entry a f c) = alive c"
  by (simp_all add: upd_entry_def)

lemma link_frame [simp]:
  "csize (link x y c) = csize c" "data (link x y c) = data c" "capacity (link x y c) = capacity c"
  "lruHash (link x y c) = lruHash c" "freshEnd (link x y c) = freshEnd c" "staleEnd (link x y c) = staleEnd c"
  "next_entry (link x y c) = next_entry c" "alive (link x y c) = alive c"
  by (simp_all add: link_def Let_def split: option.splits)

text \<open>Taking an entry out of the middle, and adding one at the fresh end.\<close>

lemma unlink_dll:
  assumes "dll (entries c) (us @ a # vs)"
  shows "dll (entries (link (head vs) (head (rev us)) c)) (us @ vs)"
proof -
  have d: "distinct (us @ a # vs)" "distinct (rev vs @ a # rev us)" "distinct (us @ vs)" "distinct (rev vs @ rev us)"
    using assms by (auto simp: dll_def)
  have ne: "head vs \<noteq> head (rev us) \<or> us = [] \<and> vs = []"
    using d head_in [of vs] head_in [of "rev us"] head_eq_None [of "rev us"] by (cases "head vs") auto
  have e: "n (entries c b) = next_in (us @ a # vs) b" "p (entries c b) = next_in (rev vs @ a # rev us) b"
    if "b \<in> set us \<union> set vs" for b
    using assms that by (auto simp: dll_def)
  show ?thesis
  proof (cases "us = [] \<and> vs = []")
    case False
    with ne have ne: "head vs \<noteq> head (rev us)" by blast
    have "n (entries (link (head vs) (head (rev us)) c) b) = next_in (us @ vs) b"
      "p (entries (link (head vs) (head (rev us)) c) b) = next_in (rev vs @ rev us) b" if "b \<in> set us \<union> set vs" for b
      using that d head_in [of "rev us" b] head_in [of vs b] by (auto simp: entries_link [OF ne] e [OF that] next_in_append)
    with d(3) show ?thesis by (simp add: dll_def)
  qed (simp add: dll_def)
qed

lemma append_dll:
  assumes "dll (entries c) ws" "a \<notin> set ws"
  shows "dll (entries (upd_entry a (\<lambda>x. x\<lparr>n := None\<rparr>) ((link (Some a) (head (rev ws)) c)\<lparr>freshEnd := Some a\<rparr>))) (ws @ [a])"
proof -
  have d: "distinct (ws @ [a])" "distinct ([a] @ rev ws)" using assms by (auto simp: dll_def)
  have ne: "Some a \<noteq> head (rev ws)" using assms(2) head_in [of "rev ws" a] by auto
  have w: "n (entries c b) = next_in ws b" "p (entries c b) = next_in (rev ws) b" if "b \<in> set ws" for b
    using assms(1) that by (auto simp: dll_def)
  have "n (entries (upd_entry a (\<lambda>x. x\<lparr>n := None\<rparr>) ((link (Some a) (head (rev ws)) c)\<lparr>freshEnd := Some a\<rparr>)) b) = next_in (ws @ [a]) b"
    "p (entries (upd_entry a (\<lambda>x. x\<lparr>n := None\<rparr>) ((link (Some a) (head (rev ws)) c)\<lparr>freshEnd := Some a\<rparr>)) b) = next_in ([a] @ rev ws) b"
    if "b \<in> set ws \<union> {a}" for b
    using that d assms(2) head_in [of "rev ws" b] w [of b]
    unfolding next_in_append [OF d(1)] next_in_append [OF d(2)]
    by (auto simp: entries_link [OF ne])
  with d(1) show ?thesis by (simp add: dll_def)
qed

section \<open>The recency list\<close>

definition pts :: "'v cache \<Rightarrow> nat list \<Rightarrow> bool" where
  "pts c xs \<longleftrightarrow> dll (entries c) xs \<and> staleEnd c = head xs \<and> freshEnd c = head (rev xs)"

definition hashes :: "'v cache \<Rightarrow> nat list \<Rightarrow> bool" where
  "hashes c xs \<longleftrightarrow> (\<forall>k a. lruHash c k = Some a \<longleftrightarrow> a \<in> set xs \<and> key (entries c a) = k) \<and> (\<forall>a\<in>set xs. a < next_entry c)"

definition keys_of :: "'v cache \<Rightarrow> nat list \<Rightarrow> string list" where
  "keys_of c xs = map (\<lambda>a. key (entries c a)) xs"

lemma refresh_frame [simp]:
  "csize (refresh a c) = csize c" "data (refresh a c) = data c" "capacity (refresh a c) = capacity c"
  "lruHash (refresh a c) = lruHash c" "next_entry (refresh a c) = next_entry c" "alive (refresh a c) = alive c"
  "key (entries (refresh a c) b) = key (entries c b)"
  by (simp_all add: refresh_def Let_def)

lemma head_Some: "head xs = Some x \<longleftrightarrow> (\<exists>ys. xs = x # ys)"
  by (cases xs) auto

lemma refresh_appends:
  assumes "Some a \<noteq> freshEnd c" "freshEnd c = head (rev ws)" "a \<notin> set ws" "dll (entries c1) ws"
    and "c1 = link (n (entries c a)) (p (entries c a)) (if staleEnd c = None then c\<lparr>staleEnd := Some a\<rparr>
           else if staleEnd c = Some a then c\<lparr>staleEnd := n (entries c a)\<rparr> else c)"
    and "staleEnd c1 = head (ws @ [a])"
  shows "pts (refresh a c) (ws @ [a])"
proof -
  have f: "freshEnd c1 = freshEnd c" by (simp add: assms(5))
  have r: "refresh a c = upd_entry a (\<lambda>x. x\<lparr>n := None\<rparr>) ((link (Some a) (head (rev ws)) c1)\<lparr>freshEnd := Some a\<rparr>)"
    using assms(1,2) f by (auto simp: refresh_def Let_def assms(5) split: if_splits)
  from append_dll [OF assms(4,3)] assms(6) show ?thesis
    by (simp add: pts_def r del: entries_upd_entry)
qed

lemma refresh_pts:
  assumes "pts c xs" "a \<in> set xs \<or> n (entries c a) = None \<and> p (entries c a) = None"
  shows "pts (refresh a c) (remove1 a xs @ [a])"
proof (cases "freshEnd c = Some a")
  case True
  with assms(1) have "head (rev xs) = Some a" by (simp add: pts_def)
  then obtain ys where "rev xs = a # ys" by (auto simp: head_Some)
  then have x: "xs = rev ys @ [a]" by (metis rev.simps(2) rev_rev_ident)
  with assms(1) have "remove1 a xs @ [a] = xs" by (auto simp: pts_def dll_def remove1_append remove1_idem)
  with True assms(1) show ?thesis by (simp add: refresh_def)
next
  case False
  let ?c = "if staleEnd c = None then c\<lparr>staleEnd := Some a\<rparr>
            else if staleEnd c = Some a then c\<lparr>staleEnd := n (entries c a)\<rparr> else c"
  have st: "staleEnd c = head xs" "freshEnd c = head (rev xs)" "dll (entries c) xs" using assms(1) by (auto simp: pts_def)
  have e: "entries ?c = entries c" by simp
  show ?thesis
  proof (cases "a \<in> set xs")
    case True
    then obtain us vs where x: "xs = us @ a # vs" by (meson split_list)
    have d: "distinct xs" using st(3) by (simp add: dll_def)
    have r: "remove1 a xs = us @ vs" using d by (simp add: x remove1_append)
    have vs: "vs \<noteq> []" using False st(2) x by auto
    then have fr: "freshEnd c = head (rev (us @ vs))" using st(2) by (cases vs rule: rev_cases) (auto simp: x)
    note l = dll_links [OF st(3) [unfolded x]]
    have "dll (entries ?c) (us @ a # vs)" unfolding e using st(3) x by simp
    then have dl: "dll (entries (link (n (entries c a)) (p (entries c a)) ?c)) (us @ vs)"
      unfolding l by (rule unlink_dll)
    have "staleEnd (link (n (entries c a)) (p (entries c a)) ?c) = head ((us @ vs) @ [a])"
      using st(1) vs d by (cases us) (auto simp: x l head_def split: list.splits)
    from refresh_appends [OF _ fr _ dl refl this] False d show ?thesis unfolding r by (auto simp: x)
  next
    case outside: False
    then have z: "n (entries c a) = None" "p (entries c a) = None" using assms(2) by auto
    have li: "link (n (entries c a)) (p (entries c a)) ?c = ?c" by (simp add: link_def z)
    have "staleEnd (link (n (entries c a)) (p (entries c a)) ?c) = head (xs @ [a])"
      using st(1) outside unfolding li by (cases xs) auto
    from refresh_appends [OF _ st(2) outside _ refl this] False st(3) show ?thesis
      unfolding li by (auto simp: e remove1_idem outside)
  qed
qed

section \<open>Maps as lists\<close>

lemma map_fst_without: "map fst (without k l) = filter (\<lambda>x. x \<noteq> k) (map fst l)"
  by (induction l) (auto simp: without_def)

lemma without_simps [simp]: "without k [] = []" "without k (x # l) = (if fst x = k then without k l else x # without k l)"
  by (simp_all add: without_def)

lemma map_of_without: "map_of (without k l) = (map_of l)(k := None)"
  by (induction l) (auto simp: fun_eq_iff)

lemma without_idem: "k \<notin> fst ` set l \<Longrightarrow> without k l = l"
  by (induction l) auto

lemma length_without: "distinct (map fst l) \<Longrightarrow> length l = length (without k l) + (if map_of l k = None then 0 else 1)"
proof (induction l)
  case (Cons x l)
  then show ?case by (cases "fst x = k") (auto simp: without_idem map_of_eq_None_iff)
qed simp

lemma map_of_put: "map_of (without k l @ [(k, v)]) = (map_of l)(k \<mapsto> v)"
  by (auto simp: fun_eq_iff map_add_def map_of_without split: option.split)

lemma distinct_without: "distinct (map fst l) \<Longrightarrow> distinct (map fst (without k l))"
  by (simp add: map_fst_without)

lemma distinct_put: "distinct (map fst l) \<Longrightarrow> distinct (map fst (without k l @ [(k, v)]))"
  by (simp add: map_fst_without)

section \<open>The cache is a least-recently-used list\<close>

definition caches_list :: "'v cache \<Rightarrow> (string \<times> 'v) list \<Rightarrow> bool" where
  "caches_list c l \<longleftrightarrow> alive c \<and> data c = map_of l \<and> distinct (map fst l) \<and> csize c = int (length l) \<and>
     (capacity c = None \<or> (\<exists>xs. pts c xs \<and> hashes c xs \<and> keys_of c xs = map fst l))"

lemma caches_listI:
  assumes "alive c" "data c = map_of l" "distinct (map fst l)" "csize c = int (length l)"
    and "capacity c \<noteq> None \<Longrightarrow> pts c xs \<and> hashes c xs \<and> keys_of c xs = map fst l"
  shows "caches_list c l"
  using assms by (auto simp: caches_list_def)

lemma filter_other:
  assumes "distinct (map f (us @ a # vs))"
  shows "filter (\<lambda>x. x \<noteq> f a) (map f (us @ a # vs)) = map f (us @ vs)"
proof -
  have "filter (\<lambda>x. x \<noteq> f a) (map f ys) = map f ys" if "f a \<notin> f ` set ys" for ys
    using that by (induction ys) auto
  moreover have "f a \<notin> f ` set us" "f a \<notin> f ` set vs" using assms by auto
  ultimately show ?thesis by simp
qed

lemma drop_data_frame [simp]:
  "capacity (drop_data k c) = capacity c" "lruHash (drop_data k c) = lruHash c" "freshEnd (drop_data k c) = freshEnd c"
  "staleEnd (drop_data k c) = staleEnd c" "entries (drop_data k c) = entries c" "next_entry (drop_data k c) = next_entry c"
  "alive (drop_data k c) = alive c" "data (drop_data k c) = (data c)(k := None)"
  "csize (drop_data k c) = csize c - (if data c k = None then 0 else 1)"
  by (auto simp: drop_data_def)

lemma hash_none:
  assumes "hashes c xs" "keys_of c xs = map fst l"
  shows "lruHash c k = None \<longleftrightarrow> k \<notin> fst ` set l"
proof -
  have "lruHash c k \<noteq> None \<longleftrightarrow> k \<in> set (keys_of c xs)"
    using assms(1) by (auto simp: hashes_def keys_of_def image_iff)
  then show ?thesis by (auto simp: assms(2))
qed

lemma remove_caches:
  assumes "caches_list c l"
  shows "\<exists>c'. cache_remove k c = Some c' \<and> caches_list c' (without k l) \<and> capacity c' = capacity c"
proof -
  have c: "alive c" "data c = map_of l" "distinct (map fst l)" "csize c = int (length l)"
    using assms by (auto simp: caches_list_def)
  have ln: "int (length l) - (if map_of l k = None then 0 else 1) = int (length (without k l))"
    using length_without [OF c(3), of k] by simp
  note c' = distinct_without [OF c(3), of k]
  show ?thesis
  proof (cases "capacity c")
    case None
    then show ?thesis
      using c c' ln by (auto simp: cache_remove_def map_of_without intro!: caches_listI [where xs = "[]"])
  next
    case (Some cap)
    with assms obtain xs where xs: "pts c xs" "hashes c xs" "keys_of c xs = map fst l" by (auto simp: caches_list_def)
    show ?thesis
    proof (cases "lruHash c k")
      case None
      then have "k \<notin> fst ` set l" using hash_none [OF xs(2,3)] by blast
      then have "without k l = l" by (rule without_idem)
      with None Some assms c show ?thesis by (simp add: cache_remove_def)
    next
      case (Some a)
      then have a: "a \<in> set xs" "key (entries c a) = k" using xs(2) by (auto simp: hashes_def)
      then obtain us vs where x: "xs = us @ a # vs" by (meson split_list)
      have st: "staleEnd c = head xs" "freshEnd c = head (rev xs)" "dll (entries c) (us @ a # vs)"
        using xs(1) by (auto simp: pts_def x)
      have d: "distinct (us @ a # vs)" using st(3) by (simp add: dll_def)
      note l = dll_links [OF st(3)]
      let ?c1 = "if freshEnd c = Some a then c\<lparr>freshEnd := head (rev us)\<rparr> else c"
      let ?c2 = "if staleEnd ?c1 = Some a then ?c1\<lparr>staleEnd := head vs\<rparr> else ?c1"
      let ?c3 = "(link (head vs) (head (rev us)) ?c2)\<lparr>lruHash := (lruHash c)(k := None)\<rparr>"
      have r: "cache_remove k c = Some (drop_data k ?c3)"
        using c(1) \<open>capacity c = Some cap\<close> Some by (simp add: cache_remove_def Let_def l)
      have "freshEnd ?c2 = head (rev (us @ vs))"
        using st(2) d by (cases vs rule: rev_cases) (auto simp: x)
      moreover have "staleEnd ?c2 = head (us @ vs)"
        using st(1) d by (cases us) (auto simp: x)
      moreover have "dll (entries (link (head vs) (head (rev us)) ?c2)) (us @ vs)"
        using unlink_dll [of ?c2 us a vs] st(3) by simp
      ultimately have p: "pts (drop_data k ?c3) (us @ vs)"
        by (simp add: pts_def)
      have kd: "distinct (map (\<lambda>a. key (entries c a)) (us @ a # vs))"
        using c(3) xs(3) by (simp add: keys_of_def x)
      have ke: "key (entries (drop_data k ?c3) b) = key (entries c b)" for b by simp
      have "keys_of (drop_data k ?c3) (us @ vs) = filter (\<lambda>y. y \<noteq> k) (keys_of c xs)"
        using filter_other [OF kd] unfolding keys_of_def ke by (simp add: x a(2))
      then have ks: "keys_of (drop_data k ?c3) (us @ vs) = map fst (without k l)"
        by (simp add: xs(3) map_fst_without)
      have h: "hashes (drop_data k ?c3) (us @ vs)"
      proof -
        have "key (entries c b) \<noteq> k" if "b \<in> set us \<union> set vs" for b
          using kd that unfolding a(2) [symmetric] by (auto simp: rev_image_eqI)
        then show ?thesis using xs(2) a(2) by (auto simp: hashes_def x)
      qed
      have fr: "alive (drop_data k ?c3) = alive c" "data (drop_data k ?c3) = (data c)(k := None)"
        "csize (drop_data k ?c3) = csize c - (if data c k = None then 0 else 1)" "capacity (drop_data k ?c3) = capacity c"
        by simp_all
      have "caches_list (drop_data k ?c3) (without k l)"
        by (rule caches_listI [where xs = "us @ vs"]) (use c c' ln p ks h in \<open>simp_all only: fr map_of_without simp_thms\<close>)
      with r fr(4) show ?thesis by blast
    qed
  qed
qed

lemma touch:
  assumes "pts c xs" "hashes c xs" "keys_of c xs = map fst l" "distinct (map fst l)" "lru_entry_for k c = (a, c1)"
  shows "\<exists>ys. pts (refresh a c1) ys \<and> hashes (refresh a c1) ys \<and> keys_of (refresh a c1) ys = map fst (without k l) @ [k]"
    and "csize c1 = csize c \<and> data c1 = data c \<and> capacity c1 = capacity c \<and> alive c1 = alive c"
proof -
  have d: "distinct xs" using assms(1) by (simp add: pts_def dll_def)
  show "csize c1 = csize c \<and> data c1 = data c \<and> capacity c1 = capacity c \<and> alive c1 = alive c"
    using assms(5) by (auto simp: lru_entry_for_def Let_def split: option.splits)
  show "\<exists>ys. pts (refresh a c1) ys \<and> hashes (refresh a c1) ys \<and> keys_of (refresh a c1) ys = map fst (without k l) @ [k]"
  proof (cases "lruHash c k")
    case (Some b)
    then have c1: "c1 = c" "b = a" using assms(5) by (auto simp: lru_entry_for_def)
    have a: "a \<in> set xs" "key (entries c a) = k" using Some assms(2) c1 by (auto simp: hashes_def)
    then obtain us vs where x: "xs = us @ a # vs" by (meson split_list)
    have r: "remove1 a xs @ [a] = (us @ vs) @ [a]" using d by (simp add: x remove1_append)
    have p: "pts (refresh a c) ((us @ vs) @ [a])"
      using refresh_pts [OF assms(1), of a] a(1) unfolding r by blast
    have h: "hashes (refresh a c) ((us @ vs) @ [a])"
      using assms(2) by (auto simp: hashes_def x)
    have "distinct (map (\<lambda>a. key (entries c a)) (us @ a # vs))"
      using assms(3,4) by (simp add: keys_of_def x)
    from filter_other [OF this] have "keys_of (refresh a c) ((us @ vs) @ [a]) = filter (\<lambda>y. y \<noteq> k) (keys_of c xs) @ [k]"
      unfolding keys_of_def x a(2) by (simp add: a(2))
    then have "keys_of (refresh a c) ((us @ vs) @ [a]) = map fst (without k l) @ [k]"
      by (simp add: assms(3) map_fst_without)
    with p h c1 show ?thesis by blast
  next
    case None
    then have c1: "a = next_entry c" "c1 = (upd_entry a (\<lambda>_. \<lparr>key = k, n = None, p = None\<rparr>) c)
           \<lparr>lruHash := (lruHash c)(k \<mapsto> a), next_entry := Suc a\<rparr>"
      using assms(5) by (auto simp: lru_entry_for_def Let_def)
    have a: "a \<notin> set xs" using assms(2) by (auto simp: hashes_def c1(1))
    have e: "entries c1 b = entries c b" if "b \<in> set xs" for b using that a by (auto simp: c1(2))
    have p1: "pts c1 xs"
      using assms(1) e by (simp add: pts_def dll_def) (simp add: c1(2))
    have z: "n (entries c1 a) = None \<and> p (entries c1 a) = None \<and> key (entries c1 a) = k"
      by (simp add: c1(2))
    have r: "remove1 a xs @ [a] = xs @ [a]" using a by (simp add: remove1_idem)
    have p: "pts (refresh a c1) (xs @ [a])"
      using refresh_pts [OF p1, of a] z unfolding r by blast
    have hc: "lruHash c1 = (lruHash c)(k \<mapsto> a)" "next_entry c1 = Suc (next_entry c)" by (simp_all add: c1(2) c1(1) [symmetric])
    have hx: "lruHash c j = Some b \<longleftrightarrow> b \<in> set xs \<and> key (entries c b) = j" "b \<in> set xs \<Longrightarrow> b < next_entry c" for j b
      using assms(2) unfolding hashes_def by blast+
    have kk: "key (entries c b) \<noteq> k" if "b \<in> set xs" for b
      using None that hx(1) [of k b] by auto
    have "((lruHash c)(k \<mapsto> a)) j = Some b \<longleftrightarrow> b \<in> set (xs @ [a]) \<and> key (entries c1 b) = j" for j b
      using z kk [of b] e [of b] hx(1) [of j b] a by (cases "b = a") auto
    moreover have "\<forall>b\<in>set (xs @ [a]). b < Suc (next_entry c)"
      using hx(2) by (auto simp: c1(1) intro: less_SucI)
    ultimately have h: "hashes (refresh a c1) (xs @ [a])"
      unfolding hashes_def by (simp add: hc)
    have "keys_of (refresh a c1) (xs @ [a]) = keys_of c xs @ [k]"
      using e z by (simp add: keys_of_def)
    also have "keys_of c xs = map fst (without k l)"
      using None hash_none [OF assms(2,3)] by (simp add: assms(3) without_idem)
    finally show ?thesis using p h by blast
  qed
qed

lemma put_list:
  assumes "caches_list c l" "c1 = (if capacity c \<noteq> None then (case lru_entry_for k c of (a, c) \<Rightarrow> refresh a c) else c)"
    and "c2 = (if data c1 k = None then c1\<lparr>csize := csize c1 + 1\<rparr> else c1)"
  shows "caches_list (c2\<lparr>data := (data c2)(k \<mapsto> v)\<rparr>) (without k l @ [(k, v)])"
    and "capacity (c2\<lparr>data := (data c2)(k \<mapsto> v)\<rparr>) = capacity c"
proof -
  have c: "alive c" "data c = map_of l" "distinct (map fst l)" "csize c = int (length l)"
    using assms(1) by (auto simp: caches_list_def)
  obtain a c0 where a: "lru_entry_for k c = (a, c0)" by (metis prod.collapse)
  have f: "csize c1 = csize c \<and> data c1 = data c \<and> capacity c1 = capacity c \<and> alive c1 = alive c"
    using a by (auto simp: assms(2) lru_entry_for_def Let_def split: option.splits)
  have l: "csize c2 = int (length (without k l)) + 1"
    using length_without [OF c(3), of k] c(2,4) f by (simp add: assms(3))
  have f2: "data c2 = data c" "capacity c2 = capacity c" "alive c2 = alive c" "entries c2 = entries c1"
    "lruHash c2 = lruHash c1" "next_entry c2 = next_entry c1" "staleEnd c2 = staleEnd c1" "freshEnd c2 = freshEnd c1"
    using f by (simp_all add: assms(3))
  show "capacity (c2\<lparr>data := (data c2)(k \<mapsto> v)\<rparr>) = capacity c" by (simp add: f2)
  have "\<exists>ys. capacity c \<noteq> None \<longrightarrow> pts c1 ys \<and> hashes c1 ys \<and> keys_of c1 ys = map fst (without k l @ [(k, v)])"
  proof (cases "capacity c")
    case (Some cap)
    with assms(1) obtain xs where "pts c xs" "hashes c xs" "keys_of c xs = map fst l" by (auto simp: caches_list_def)
    from touch(1) [OF this c(3) a] show ?thesis using Some a by (simp add: assms(2))
  qed simp
  then obtain ys where "capacity c \<noteq> None \<longrightarrow> pts c1 ys \<and> hashes c1 ys \<and> keys_of c1 ys = map fst (without k l @ [(k, v)])"
    by blast
  then show "caches_list (c2\<lparr>data := (data c2)(k \<mapsto> v)\<rparr>) (without k l @ [(k, v)])"
    using c l distinct_put [OF c(3)]
    by (intro caches_listI [where xs = ys]) (simp_all add: f2 map_of_put pts_def hashes_def keys_of_def del: map_of_append)
qed

lemma get_list:
  assumes "caches_list c l" "map_of l k = Some v" "capacity c \<noteq> None" "lruHash c k = Some a"
  shows "caches_list (refresh a c) (without k l @ [(k, v)])"
proof -
  have c: "alive c" "data c = map_of l" "distinct (map fst l)" "csize c = int (length l)"
    using assms(1) by (auto simp: caches_list_def)
  obtain xs where xs: "pts c xs" "hashes c xs" "keys_of c xs = map fst l"
    using assms(1,3) by (auto simp: caches_list_def)
  have "lru_entry_for k c = (a, c)" using assms(4) by (simp add: lru_entry_for_def)
  from touch(1) [OF xs c(3) this] obtain ys where ys: "pts (refresh a c) ys" "hashes (refresh a c) ys"
    "keys_of (refresh a c) ys = map fst (without k l @ [(k, v)])" by auto
  have "map_of (without k l @ [(k, v)]) = map_of l"
    unfolding map_of_put using assms(2) by auto
  then show ?thesis
    using c ys distinct_put [OF c(3)] length_without [OF c(3), of k] assms(2)
    by (intro caches_listI [where xs = ys]) (simp_all del: map_of_append)
qed

section \<open>Refinement\<close>

text \<open>
  A machine refines another when related states answer every input alike and stay related; then it
  gives the same answers along every run.
\<close>

fun outcomes :: "('s \<Rightarrow> 'x \<Rightarrow> 'y \<times> 's) \<Rightarrow> 's \<Rightarrow> 'x list \<Rightarrow> 'y list" where
  "outcomes f s [] = []"
| "outcomes f s (x # xs) = (case f s x of (y, s') \<Rightarrow> y # outcomes f s' xs)"

locale refines =
  fixes concrete :: "'c \<Rightarrow> 'x \<Rightarrow> 'y \<times> 'c" and abstract :: "'a \<Rightarrow> 'x \<Rightarrow> 'y \<times> 'a" and related :: "'c \<Rightarrow> 'a \<Rightarrow> bool"
  assumes simulation: "related c a \<Longrightarrow> fst (concrete c x) = fst (abstract a x) \<and> related (snd (concrete c x)) (snd (abstract a x))"
begin

lemma same_outcomes: "related c a \<Longrightarrow> outcomes concrete c xs = outcomes abstract a xs"
proof (induction xs arbitrary: c a)
  case (Cons x xs)
  from simulation [OF Cons.prems, of x] Cons.IH show ?case
    by (simp add: case_prod_beta)
qed simp

end

definition implements :: "int option \<Rightarrow> 'v cache \<Rightarrow> 'v lru \<Rightarrow> bool" where
  "implements cap c s \<longleftrightarrow> capacity c = cap \<and> cap \<noteq> Some 0 \<and> (\<forall>k. cap = Some k \<longrightarrow> int (length (snd s)) \<le> max k 0) \<and>
     (if fst s then caches_list c (snd s) else \<not> alive c \<and> csize c = int (length (snd s)))"

lemma empty_list: "alive c \<Longrightarrow> data c = Map.empty \<Longrightarrow> csize c = 0 \<Longrightarrow> lruHash c = Map.empty \<Longrightarrow> freshEnd c = None \<Longrightarrow>
    staleEnd c = None \<Longrightarrow> caches_list c []"
  by (rule caches_listI [where xs = "[]"]) (simp_all add: pts_def hashes_def keys_of_def dll_def)

lemma put_refines:
  assumes "caches_list c l" "capacity c = cap" "cap \<noteq> Some 0" "\<And>k. cap = Some k \<Longrightarrow> int (length l) \<le> max k 0"
  shows "\<exists>c'. cache_put k (Some v) c = Some c' \<and> caches_list c' (fit cap (without k l @ [(k, v)])) \<and> capacity c' = cap \<and>
    (\<forall>b. cap = Some b \<longrightarrow> int (length (fit cap (without k l @ [(k, v)]))) \<le> max b 0)"
proof -
  let ?l = "without k l @ [(k, v)]"
  let ?c1 = "if capacity c \<noteq> None then (case lru_entry_for k c of (a, c) \<Rightarrow> refresh a c) else c"
  let ?c2 = "if data ?c1 k = None then ?c1\<lparr>csize := csize ?c1 + 1\<rparr> else ?c1"
  obtain c3 where c3: "c3 = ?c2\<lparr>data := (data ?c2)(k \<mapsto> v)\<rparr>" by blast
  note p = put_list [OF assms(1) refl refl, of k v, folded c3]
  have up: "alive c" using assms(1) by (simp add: caches_list_def)
  have pv: "cache_put k (Some v) c = (if too_large c3
      then (case staleEnd c3 of None \<Rightarrow> None | Some a \<Rightarrow> cache_remove (key (entries c3 a)) c3) else Some c3)"
    unfolding cache_put_def Let_def c3 by (simp only: up option.case not_True_eq_False if_False)
  have s: "csize c3 = int (length ?l)" using p(1) by (simp add: caches_list_def del: length_append)
  have tl: "too_large c3 \<longleftrightarrow> (\<exists>b. cap = Some b \<and> int (length ?l) > b)"
    unfolding too_large_def s p(2) assms(2) by (simp split: option.split)
  have lw: "length ?l \<le> length l + 1" by (simp add: without_def)
  show ?thesis
  proof (cases "too_large c3")
    case False
    then have "fit cap ?l = ?l" "\<forall>b. cap = Some b \<longrightarrow> int (length ?l) \<le> b"
      unfolding tl by (auto simp: fit_def split: option.splits)
    with False p assms(2) pv show ?thesis by auto
  next
    case True
    then obtain b where b: "cap = Some b" "int (length ?l) > b" unfolding tl by blast
    then obtain xs where xs: "pts c3 xs" "keys_of c3 xs = map fst ?l"
      using p assms(2) unfolding caches_list_def by auto
    then obtain a ys where a: "xs = a # ys" by (cases xs) (auto simp: keys_of_def)
    obtain y l' where y: "?l = y # l'" by (cases ?l) auto
    have k: "staleEnd c3 = Some a" "key (entries c3 a) = fst y"
      using xs unfolding a y by (auto simp: pts_def keys_of_def)
    from remove_caches [OF p(1), of "fst y"] obtain c' where
      c': "cache_remove (fst y) c3 = Some c'" "caches_list c' (without (fst y) ?l)" "capacity c' = capacity c3" by blast
    have "distinct (map fst ?l)" using p(1) by (simp add: caches_list_def)
    then have w: "without (fst y) ?l = l'" unfolding y by (simp add: without_idem)
    have f: "fit cap ?l = l'" using b by (simp add: fit_def y)
    have "int (length l') \<le> max b 0" using lw assms(4) [OF b(1)] unfolding y by simp
    with c' w f True k pv p(2) assms(2) b(1) show ?thesis by simp
  qed
qed

lemma get_refines:
  assumes "caches_list c l"
  shows "\<exists>c'. cache_get k c = Some (map_of l k, c') \<and> capacity c' = capacity c \<and>
    caches_list c' (case map_of l k of None \<Rightarrow> l | Some v \<Rightarrow> without k l @ [(k, v)])"
proof (cases "capacity c")
  case None
  have d: "distinct (map fst l)" "alive c" "data c = map_of l" "csize c = int (length l)"
    using assms by (auto simp: caches_list_def)
  have "caches_list c (without k l @ [(k, v)])" if "map_of l k = Some v" for v
  proof (rule caches_listI [where xs = "[]"])
    show "data c = map_of (without k l @ [(k, v)])" using that unfolding map_of_put by (auto simp: d(3))
    show "csize c = int (length (without k l @ [(k, v)]))" using length_without [OF d(1), of k] that by (simp add: d(4))
  qed (use None d distinct_put [OF d(1)] in simp_all)
  with None d assms show ?thesis by (auto simp: cache_get_def split: option.splits)
next
  case (Some cap)
  have d: "alive c" "data c = map_of l" using assms by (auto simp: caches_list_def)
  obtain xs where xs: "hashes c xs" "keys_of c xs = map fst l" using assms Some by (auto simp: caches_list_def)
  show ?thesis
  proof (cases "lruHash c k")
    case None
    then have "map_of l k = None" using hash_none [OF xs] by (simp add: map_of_eq_None_iff)
    with None Some d assms show ?thesis by (simp add: cache_get_def)
  next
    case (Some a)
    then obtain v where v: "map_of l k = Some v" using hash_none [OF xs, of k] by (metis map_of_eq_None_iff not_None_eq)
    from get_list [OF assms v _ Some] \<open>capacity c = Some cap\<close> Some d v show ?thesis
      by (simp add: cache_get_def Let_def)
  qed
qed

lemma length_put: "map_of l k \<noteq> None \<Longrightarrow> distinct (map fst l) \<Longrightarrow> length (without k l @ [(k, v)]) = length l"
  using length_without [of l k] by (auto split: if_splits)

lemma length_without_le: "length (without k l) \<le> length l"
  by (simp add: without_def)

lemma cache_simulation:
  assumes "implements cap c s"
  shows "fst (cache_step c x) = fst (lru_step cap s x) \<and> implements cap (snd (cache_step c x)) (snd (lru_step cap s x))"
proof -
  obtain up l where s: "s = (up, l)" by (cases s)
  have i: "capacity c = cap" "cap \<noteq> Some 0" "\<And>k. cap = Some k \<Longrightarrow> int (length l) \<le> max k 0"
    "up \<Longrightarrow> caches_list c l" "\<not> up \<Longrightarrow> \<not> alive c \<and> csize c = int (length l)"
    using assms by (auto simp: implements_def s split: if_splits)
  have d: "distinct (map fst l)" if up using i(4) that by (simp add: caches_list_def)
  show ?thesis
  proof (cases x)
    case (Put k v)
    show ?thesis
    proof (cases v)
      case None
      with Put assms s show ?thesis by (simp add: cache_step_def cache_put_def)
    next
      case (Some w)
      show ?thesis
      proof (cases up)
        case True
        from put_refines [OF i(4) [OF True] i(1,2,3), of k w] True i(2) Put Some s show ?thesis
          by (auto simp: cache_step_def implements_def)
      next
        case False
        with i(5) Put Some s assms show ?thesis by (simp add: cache_step_def cache_put_def)
      qed
    qed
  next
    case (Get k)
    show ?thesis
    proof (cases up)
      case True
      from get_refines [OF i(4) [OF True], of k] obtain c' where c': "cache_get k c = Some (map_of l k, c')" "capacity c' = capacity c"
        "caches_list c' (case map_of l k of None \<Rightarrow> l | Some v \<Rightarrow> without k l @ [(k, v)])" by blast
      with True i s Get length_put [of l k, OF _ d [OF True]] show ?thesis
        by (cases "map_of l k") (simp_all add: cache_step_def implements_def del: length_append)
    next
      case False
      with i(5) Get s assms show ?thesis by (simp add: cache_step_def cache_get_def)
    qed
  next
    case (Remove k)
    show ?thesis
    proof (cases up)
      case True
      from remove_caches [OF i(4) [OF True], of k] obtain c' where c': "cache_remove k c = Some c'" "caches_list c' (without k l)"
        "capacity c' = capacity c" by blast
      have "int (length (without k l)) \<le> max b 0" if "cap = Some b" for b
        using i(3) [OF that] length_without_le [of k l] by linarith
      with c' True i Remove s show ?thesis by (simp add: cache_step_def implements_def)
    next
      case False
      with i(5) Remove s assms show ?thesis by (simp add: cache_step_def cache_remove_def)
    qed
  next
    case RemoveAll
    have "caches_list (removeAll c) []" by (rule empty_list) (simp_all add: removeAll_def)
    moreover have "capacity (removeAll c) = cap" using i(1) by (simp add: removeAll_def)
    ultimately show ?thesis using i(2) RemoveAll s by (simp add: cache_step_def implements_def)
  next
    case Destroy
    have "csize c = int (length l)" using i(4,5) by (cases up) (auto simp: caches_list_def)
    with i Destroy s show ?thesis by (auto simp: cache_step_def implements_def destroy_def)
  next
    case Info
    have "csize c = int (length l)" using i(4,5) by (cases up) (auto simp: caches_list_def)
    with Info s assms show ?thesis by (simp add: cache_step_def)
  qed
qed

interpretation cache: refines cache_step "lru_step cap" "implements cap" for cap
  by unfold_locales (rule cache_simulation)

text \<open>
  C27. A cache of \<open>$cacheFactory\<close> is a least-recently-used list: any sequence of \<open>put\<close>, \<open>get\<close>, \<open>remove\<close>,
  \<open>removeAll\<close>, \<open>destroy\<close> and \<open>info\<close> gives on the hash table and the doubly linked entries the answers and
  errors it gives on the list of the cached pairs in the order of their last use, cut at the capacity.
\<close>
theorem cache_refines_lru:
  "outcomes cache_step (new_cache options) xs = outcomes (lru_step (capacity_of options)) (True, []) xs"
proof (rule cache.same_outcomes)
  have "caches_list (new_cache options) []" by (rule empty_list) (simp_all add: new_cache_def)
  then show "implements (capacity_of options) (new_cache options) (True, [])"
    by (auto simp: implements_def new_cache_def capacity_of_def split: option.splits if_splits)
qed

end
