(* ===== verification/UiTimepicker.thy ===== *)
theory UiTimepicker
  imports JsValues
begin

text \<open>
  The time picker: \<open>UibTimepickerController\<close> in \<open>assets/public/components/angular-bootstrap/ui-bootstrap.js\<close>.
  A date is its local time in milliseconds, in a zone whose offset does not change; steps are whole
  numbers. The model behind the input is updated at once and has no other parsers. Texts of numbers
  come from \<open>to_string\<close> and numbers of texts from \<open>to_number\<close>.
\<close>

section \<open>Dates\<close>

definition getHours :: "int \<Rightarrow> int" where
  "getHours t = t div 3600000 mod 24"

definition getMinutes :: "int \<Rightarrow> int" where
  "getMinutes t = t div 60000 mod 60"

definition getSeconds :: "int \<Rightarrow> int" where
  "getSeconds t = t div 1000 mod 60"

definition setTime :: "int \<Rightarrow> int \<Rightarrow> int \<Rightarrow> int \<Rightarrow> int" where
  "setTime t h m s = t div 86400000 * 86400000 + h * 3600000 + m * 60000 + s * 1000 + t mod 1000"

definition addSeconds :: "int \<Rightarrow> int \<Rightarrow> int" where
  "addSeconds date s = (let dt = date + s * 1000 in setTime date (getHours dt) (getMinutes dt) (getSeconds dt))"

definition addMinutes :: "int \<Rightarrow> int \<Rightarrow> int" where
  "addMinutes date m = addSeconds date (m * 60)"

section \<open>State\<close>

text \<open>What an input shows: nothing, a value that is no date, or a date.\<close>

datatype view = NoDate | Invalid | Date int

record picker =
  selected :: int
  hourStep :: int
  minuteStep :: int
  secondStep :: int
  tmin :: "int option"
  tmax :: "int option"
  disabled :: bool
  showSeconds :: bool
  showMeridian :: bool
  readonlyInput :: bool
  padHours :: bool
  meridians :: "jstring \<times> jstring"
  hours :: prim
  minutes :: prim
  seconds :: prim
  meridian :: prim
  invalidHours :: bool
  invalidMinutes :: bool
  invalidSeconds :: bool
  viewValue :: view
  modelValue :: view
  error_time :: bool
  dirty :: bool
  touched :: bool

definition initial_picker :: "int \<Rightarrow> jstring \<times> jstring \<Rightarrow> picker" where
  "initial_picker now ampm =
     \<lparr>selected = now, hourStep = 1, minuteStep = 1, secondStep = 1, tmin = None, tmax = None, disabled = False,
      showSeconds = False, showMeridian = True, readonlyInput = False, padHours = True, meridians = ampm,
      hours = Undefined, minutes = Undefined, seconds = Undefined, meridian = Undefined,
      invalidHours = False, invalidMinutes = False, invalidSeconds = False,
      viewValue = Invalid, modelValue = Invalid, error_time = False, dirty = False, touched = False\<rparr>"

text \<open>Comparisons with an undefined bound are false.\<close>

definition below_min :: "int \<Rightarrow> picker \<Rightarrow> bool" where
  "below_min t s = (case tmin s of Some b \<Rightarrow> t < b | None \<Rightarrow> False)"

definition above_max :: "int \<Rightarrow> picker \<Rightarrow> bool" where
  "above_max t s = (case tmax s of Some b \<Rightarrow> t > b | None \<Rightarrow> False)"

definition out_of_range :: "picker \<Rightarrow> bool" where
  "out_of_range s \<longleftrightarrow> below_min (selected s) s \<or> above_max (selected s) s"

section \<open>Which buttons are off\<close>

definition noIncrement :: "int \<Rightarrow> picker \<Rightarrow> bool" where
  "noIncrement incremented s \<longleftrightarrow>
     disabled s \<or> above_max incremented s \<or> incremented < selected s \<and> below_min incremented s"

definition noDecrement :: "int \<Rightarrow> picker \<Rightarrow> bool" where
  "noDecrement decremented s \<longleftrightarrow>
     disabled s \<or> below_min decremented s \<or> decremented > selected s \<and> above_max decremented s"

definition noIncrementHours :: "picker \<Rightarrow> bool" where
  "noIncrementHours s = noIncrement (addMinutes (selected s) (hourStep s * 60)) s"

definition noDecrementHours :: "picker \<Rightarrow> bool" where
  "noDecrementHours s = noDecrement (addMinutes (selected s) (- hourStep s * 60)) s"

definition noIncrementMinutes :: "picker \<Rightarrow> bool" where
  "noIncrementMinutes s = noIncrement (addMinutes (selected s) (minuteStep s)) s"

definition noDecrementMinutes :: "picker \<Rightarrow> bool" where
  "noDecrementMinutes s = noDecrement (addMinutes (selected s) (- minuteStep s)) s"

definition noIncrementSeconds :: "picker \<Rightarrow> bool" where
  "noIncrementSeconds s = noIncrement (addSeconds (selected s) (secondStep s)) s"

definition noDecrementSeconds :: "picker \<Rightarrow> bool" where
  "noDecrementSeconds s = noDecrement (addSeconds (selected s) (- secondStep s)) s"

definition noToggleMeridian :: "picker \<Rightarrow> bool" where
  "noToggleMeridian s =
     (if getHours (selected s) < 12 then disabled s \<or> above_max (addMinutes (selected s) (12 * 60)) s
      else disabled s \<or> below_min (addMinutes (selected s) (- 12 * 60)) s)"

section \<open>From the template and to it\<close>

definition number_in :: "rat \<Rightarrow> rat \<Rightarrow> prim \<Rightarrow> rat option" where
  "number_in lo hi v = (case to_number v of Num q \<Rightarrow> if lo \<le> q \<and> q < hi then Some q else None | _ \<Rightarrow> None)"

definition getHoursFromTemplate :: "picker \<Rightarrow> rat option" where
  "getHoursFromTemplate s =
     (if showMeridian s
      then (case to_number (hours s) of
              Num h \<Rightarrow>
                if 0 < h \<and> h < 13
                then let h = (if h = 12 then 0 else h)
                     in Some (if meridian s = Str (snd (meridians s)) then h + 12 else h)
                else None
            | _ \<Rightarrow> None)
      else number_in 0 24 (hours s))"

definition getMinutesFromTemplate :: "picker \<Rightarrow> rat option" where
  "getMinutesFromTemplate s = number_in 0 60 (minutes s)"

definition getSecondsFromTemplate :: "picker \<Rightarrow> rat option" where
  "getSecondsFromTemplate s = number_in 0 60 (seconds s)"

text \<open>Never called with an undefined value.\<close>

definition pad :: "engine \<Rightarrow> prim \<Rightarrow> bool \<Rightarrow> prim" where
  "pad en v noPad =
     (if v = Null then Str []
      else let t = to_string en v in Str (if length t < 2 \<and> \<not> noPad then 48 # t else t))"

definition num :: "int \<Rightarrow> prim" where
  "num i = Number (Num (of_int i))"

datatype key = KeyH | KeyM | KeyS

definition updateTemplate :: "engine \<Rightarrow> key option \<Rightarrow> picker \<Rightarrow> picker" where
  "updateTemplate en keyboardChange s =
     (case modelValue s of
        Date _ \<Rightarrow>
          let h = getHours (selected s);
              h12 = (if showMeridian s then if h = 0 \<or> h = 12 then 12 else h mod 12 else h);
              s = s\<lparr>hours := if keyboardChange = Some KeyH then num h12 else pad en (num h12) (\<not> padHours s)\<rparr>;
              s = (if keyboardChange \<noteq> Some KeyM then s\<lparr>minutes := pad en (num (getMinutes (selected s))) False\<rparr> else s);
              s = (if keyboardChange \<noteq> Some KeyS then s\<lparr>seconds := pad en (num (getSeconds (selected s))) False\<rparr> else s)
          in s\<lparr>meridian := Str (if getHours (selected s) < 12 then fst (meridians s) else snd (meridians s))\<rparr>
      | _ \<Rightarrow> s\<lparr>hours := Null, minutes := Null, seconds := Null, meridian := Str (fst (meridians s))\<rparr>)"

definition makeValid :: "picker \<Rightarrow> picker" where
  "makeValid s = s\<lparr>error_time := False, invalidHours := False, invalidMinutes := False, invalidSeconds := False\<rparr>"

definition setViewValue :: "view \<Rightarrow> picker \<Rightarrow> picker" where
  "setViewValue v s = s\<lparr>viewValue := v, modelValue := v, dirty := True\<rparr>"

definition picker_refresh :: "engine \<Rightarrow> key option \<Rightarrow> picker \<Rightarrow> picker" where
  "picker_refresh en keyboardChange s =
     (let s = makeValid s; s = setViewValue (Date (selected s)) s in updateTemplate en keyboardChange s)"

definition addSecondsToSelected :: "engine \<Rightarrow> int \<Rightarrow> picker \<Rightarrow> picker" where
  "addSecondsToSelected en d s = picker_refresh en None (s\<lparr>selected := addSeconds (selected s) d\<rparr>)"

section \<open>Buttons, wheel and arrow keys\<close>

definition incrementHours :: "engine \<Rightarrow> picker \<Rightarrow> picker" where
  "incrementHours en s = (if \<not> noIncrementHours s then addSecondsToSelected en (hourStep s * 60 * 60) s else s)"

definition decrementHours :: "engine \<Rightarrow> picker \<Rightarrow> picker" where
  "decrementHours en s = (if \<not> noDecrementHours s then addSecondsToSelected en (- hourStep s * 60 * 60) s else s)"

definition incrementMinutes :: "engine \<Rightarrow> picker \<Rightarrow> picker" where
  "incrementMinutes en s = (if \<not> noIncrementMinutes s then addSecondsToSelected en (minuteStep s * 60) s else s)"

definition decrementMinutes :: "engine \<Rightarrow> picker \<Rightarrow> picker" where
  "decrementMinutes en s = (if \<not> noDecrementMinutes s then addSecondsToSelected en (- minuteStep s * 60) s else s)"

definition incrementSeconds :: "engine \<Rightarrow> picker \<Rightarrow> picker" where
  "incrementSeconds en s = (if \<not> noIncrementSeconds s then addSecondsToSelected en (secondStep s) s else s)"

definition decrementSeconds :: "engine \<Rightarrow> picker \<Rightarrow> picker" where
  "decrementSeconds en s = (if \<not> noDecrementSeconds s then addSecondsToSelected en (- secondStep s) s else s)"

definition toggleMeridian :: "engine \<Rightarrow> picker \<Rightarrow> picker" where
  "toggleMeridian en s =
     (if \<not> noToggleMeridian s
      then if getMinutesFromTemplate s \<noteq> None \<and> getHoursFromTemplate s \<noteq> None
           then addSecondsToSelected en (12 * 60 * (if getHours (selected s) < 12 then 60 else - 60)) s
           else s\<lparr>meridian := Str (if meridian s = Str (fst (meridians s)) then snd (meridians s) else fst (meridians s))\<rparr>
      else s)"

definition picker_blur :: "picker \<Rightarrow> picker" where
  "picker_blur s = s\<lparr>touched := True\<rparr>"

datatype part = Hours | Minutes | Seconds

fun increment :: "engine \<Rightarrow> part \<Rightarrow> picker \<Rightarrow> picker" where
  "increment en Hours s = incrementHours en s"
| "increment en Minutes s = incrementMinutes en s"
| "increment en Seconds s = incrementSeconds en s"

fun decrement :: "engine \<Rightarrow> part \<Rightarrow> picker \<Rightarrow> picker" where
  "decrement en Hours s = decrementHours en s"
| "decrement en Minutes s = decrementMinutes en s"
| "decrement en Seconds s = decrementSeconds en s"

record wheel =
  wheelDelta :: int
  deltaY :: int
  detail :: int

definition isScrollingUp :: "wheel \<Rightarrow> bool" where
  "isScrollingUp e = (let delta = (if wheelDelta e \<noteq> 0 then wheelDelta e else - deltaY e) in detail e \<noteq> 0 \<or> delta > 0)"

definition on_wheel :: "engine \<Rightarrow> part \<Rightarrow> wheel \<Rightarrow> picker \<Rightarrow> picker" where
  "on_wheel en x e s = (if \<not> disabled s then if isScrollingUp e then increment en x s else decrement en x s else s)"

definition on_keydown :: "engine \<Rightarrow> part \<Rightarrow> int \<Rightarrow> picker \<Rightarrow> picker" where
  "on_keydown en x which s =
     (if \<not> disabled s then if which = 38 then increment en x s else if which = 40 then decrement en x s else s else s)"

section \<open>Typed input\<close>

definition invalidate :: "bool \<Rightarrow> bool \<Rightarrow> bool \<Rightarrow> picker \<Rightarrow> picker" where
  "invalidate invHours invMinutes invSeconds s =
     (let s = (setViewValue NoDate s)\<lparr>error_time := True\<rparr>;
          s = (if invHours then s\<lparr>invalidHours := True\<rparr> else s);
          s = (if invMinutes then s\<lparr>invalidMinutes := True\<rparr> else s)
      in if invSeconds then s\<lparr>invalidSeconds := True\<rparr> else s)"

definition integer_part :: "rat \<Rightarrow> int" where
  "integer_part q = (if q \<ge> 0 then \<lfloor>q\<rfloor> else \<lceil>q\<rceil>)"

definition set_clock :: "rat \<Rightarrow> rat \<Rightarrow> int \<Rightarrow> int" where
  "set_clock h m t = setTime t (integer_part h) (integer_part m) (getSeconds t)"

definition updateHours :: "engine \<Rightarrow> picker \<Rightarrow> picker" where
  "updateHours en s =
     (if readonlyInput s then s
      else let s = s\<lparr>dirty := True\<rparr>
           in case (getHoursFromTemplate s, getMinutesFromTemplate s) of
                (Some h, Some m) \<Rightarrow>
                  let s = s\<lparr>selected := set_clock h m (selected s)\<rparr>
                  in if out_of_range s then invalidate True False False s else picker_refresh en (Some KeyH) s
              | _ \<Rightarrow> invalidate True False False s)"

definition updateMinutes :: "engine \<Rightarrow> picker \<Rightarrow> picker" where
  "updateMinutes en s =
     (if readonlyInput s then s
      else let s = s\<lparr>dirty := True\<rparr>
           in case (getMinutesFromTemplate s, getHoursFromTemplate s) of
                (Some m, Some h) \<Rightarrow>
                  let s = s\<lparr>selected := set_clock h m (selected s)\<rparr>
                  in if out_of_range s then invalidate False True False s else picker_refresh en (Some KeyM) s
              | _ \<Rightarrow> invalidate False True False s)"

definition updateSeconds :: "engine \<Rightarrow> picker \<Rightarrow> picker" where
  "updateSeconds en s =
     (if readonlyInput s then s
      else let s = s\<lparr>dirty := True\<rparr>
           in case getSecondsFromTemplate s of
                Some x \<Rightarrow> picker_refresh en (Some KeyS)
                  (s\<lparr>selected := setTime (selected s) (getHours (selected s)) (getMinutes (selected s)) (integer_part x)\<rparr>)
              | None \<Rightarrow> invalidate False False True s)"

definition under_ten :: "prim \<Rightarrow> bool" where
  "under_ten v \<longleftrightarrow> prim_less v (num 10) = Some True"

definition blur_hours :: "engine \<Rightarrow> picker \<Rightarrow> picker" where
  "blur_hours en s =
     (if readonlyInput s then s
      else let s = s\<lparr>touched := True\<rparr>
           in if hours s = Null \<or> hours s = Str [] then invalidate True False False s
              else if \<not> invalidHours s \<and> under_ten (hours s) then s\<lparr>hours := pad en (hours s) (\<not> padHours s)\<rparr>
              else s)"

definition blur_minutes :: "engine \<Rightarrow> picker \<Rightarrow> picker" where
  "blur_minutes en s =
     (if readonlyInput s then s
      else let s = s\<lparr>touched := True\<rparr>
           in if minutes s = Null then invalidate False True False s
              else if \<not> invalidMinutes s \<and> under_ten (minutes s) then s\<lparr>minutes := pad en (minutes s) False\<rparr>
              else s)"

definition blur_seconds :: "engine \<Rightarrow> picker \<Rightarrow> picker" where
  "blur_seconds en s =
     (if readonlyInput s then s
      else if \<not> invalidSeconds s \<and> under_ten (seconds s) then s\<lparr>seconds := pad en (seconds s) False\<rparr>
      else s)"

section \<open>The model's side\<close>

definition picker_render :: "engine \<Rightarrow> picker \<Rightarrow> picker" where
  "picker_render en s =
     (case viewValue s of
        Invalid \<Rightarrow> s\<lparr>error_time := True\<rparr>
      | v \<Rightarrow>
          let s = (case v of Date t \<Rightarrow> s\<lparr>selected := t\<rparr> | _ \<Rightarrow> s);
              s = (if out_of_range s then s\<lparr>error_time := True, invalidHours := True, invalidMinutes := True\<rparr> else makeValid s)
          in updateTemplate en None s)"

definition watch_showMeridian :: "engine \<Rightarrow> bool \<Rightarrow> picker \<Rightarrow> picker" where
  "watch_showMeridian en v s =
     (let s = s\<lparr>showMeridian := v\<rparr>
      in if error_time s
         then (case (getHoursFromTemplate s, getMinutesFromTemplate s) of
                 (Some h, Some m) \<Rightarrow>
                   picker_refresh en None (s\<lparr>selected := setTime (selected s) (integer_part h) (getMinutes (selected s)) (getSeconds (selected s))\<rparr>)
               | _ \<Rightarrow> s)
         else updateTemplate en None s)"

text \<open>The formatter: no date stays no date. A bound that is no date is no bound; \<open>null\<close> is the epoch.\<close>

definition model_change :: "engine \<Rightarrow> view \<Rightarrow> picker \<Rightarrow> picker" where
  "model_change en v s = picker_render en (s\<lparr>modelValue := v, viewValue := v\<rparr>)"

definition watch_bound :: "view \<Rightarrow> int option" where
  "watch_bound v = (case v of Date t \<Rightarrow> Some t | NoDate \<Rightarrow> Some 0 | Invalid \<Rightarrow> None)"

section \<open>Events\<close>

datatype picker_event =
  Wheel part wheel
| Keydown part int
| Up part
| Down part
| Toggle
| Blur
| Typed part prim
| LeaveField part
| ModelChange view
| MinChange view
| MaxChange view
| StepChange part int
| DisabledChange bool
| MeridianChange bool
| SecondsChange bool

fun picker_step :: "engine \<Rightarrow> picker \<Rightarrow> picker_event \<Rightarrow> picker" where
  "picker_step en s (Wheel x e) = on_wheel en x e s"
| "picker_step en s (Keydown x which) = on_keydown en x which s"
| "picker_step en s (Up x) = increment en x s"
| "picker_step en s (Down x) = decrement en x s"
| "picker_step en s Toggle = toggleMeridian en s"
| "picker_step en s Blur = picker_blur s"
| "picker_step en s (Typed Hours v) = updateHours en (s\<lparr>hours := v\<rparr>)"
| "picker_step en s (Typed Minutes v) = updateMinutes en (s\<lparr>minutes := v\<rparr>)"
| "picker_step en s (Typed Seconds v) = updateSeconds en (s\<lparr>seconds := v\<rparr>)"
| "picker_step en s (LeaveField Hours) = blur_hours en s"
| "picker_step en s (LeaveField Minutes) = blur_minutes en s"
| "picker_step en s (LeaveField Seconds) = blur_seconds en s"
| "picker_step en s (ModelChange v) = model_change en v s"
| "picker_step en s (MinChange v) = s\<lparr>tmin := watch_bound v\<rparr>"
| "picker_step en s (MaxChange v) = s\<lparr>tmax := watch_bound v\<rparr>"
| "picker_step en s (StepChange Hours k) = s\<lparr>hourStep := k\<rparr>"
| "picker_step en s (StepChange Minutes k) = s\<lparr>minuteStep := k\<rparr>"
| "picker_step en s (StepChange Seconds k) = s\<lparr>secondStep := k\<rparr>"
| "picker_step en s (DisabledChange b) = s\<lparr>disabled := b\<rparr>"
| "picker_step en s (MeridianChange b) = watch_showMeridian en b s"
| "picker_step en s (SecondsChange b) = s\<lparr>showSeconds := b\<rparr>"

section \<open>Dates\<close>

lemma setTime_same_day:
  assumes "0 \<le> h" "h < 24" "0 \<le> m" "m < 60" "0 \<le> x" "x < 60"
  shows "setTime t h m x div 86400000 = t div 86400000" "setTime t h m x mod 1000 = t mod 1000"
    "getHours (setTime t h m x) = h" "getMinutes (setTime t h m x) = m" "getSeconds (setTime t h m x) = x"
proof -
  let ?t = "setTime t h m x" and ?d = "t div 86400000"
  have r: "0 \<le> t mod 1000" "t mod 1000 < 1000" by simp_all
  have "?t div 86400000 = ?d"
    by (rule int_div_pos_eq [of _ _ _ "h * 3600000 + m * 60000 + x * 1000 + t mod 1000"])
      (use assms r in \<open>simp_all add: setTime_def\<close>)
  moreover have "?t div 3600000 = ?d * 24 + h"
    by (rule int_div_pos_eq [of _ _ _ "m * 60000 + x * 1000 + t mod 1000"]) (use assms r in \<open>simp_all add: setTime_def\<close>)
  moreover have "?t div 60000 = (?d * 24 + h) * 60 + m"
    by (rule int_div_pos_eq [of _ _ _ "x * 1000 + t mod 1000"]) (use assms r in \<open>simp_all add: setTime_def\<close>)
  moreover have x: "?t = 1000 * (((?d * 24 + h) * 60 + m) * 60 + x) + t mod 1000"
    by (simp add: setTime_def)
  then have "?t div 1000 = ((?d * 24 + h) * 60 + m) * 60 + x"
    by (rule int_div_pos_eq) (use r in simp_all)
  moreover have "?t mod 1000 = t mod 1000" unfolding x mod_mult_self4 by simp
  ultimately show "setTime t h m x div 86400000 = t div 86400000" "setTime t h m x mod 1000 = t mod 1000"
    "getHours (setTime t h m x) = h" "getMinutes (setTime t h m x) = m" "getSeconds (setTime t h m x) = x"
    unfolding getHours_def getMinutes_def getSeconds_def
    by (simp_all only: mod_mult_self3 mod_pos_pos_trivial assms)
qed

lemma clock_ranges [simp]:
  "0 \<le> getHours t" "getHours t < 24" "0 \<le> getMinutes t" "getMinutes t < 60" "0 \<le> getSeconds t" "getSeconds t < 60"
  by (simp_all add: getHours_def getMinutes_def getSeconds_def)

lemma addSeconds_day:
  "addSeconds t d div 86400000 = t div 86400000" "addSeconds t d mod 1000 = t mod 1000"
  by (simp_all add: addSeconds_def Let_def setTime_same_day)

lemma setTime_own [simp]: "setTime t (getHours t) (getMinutes t) (getSeconds t) = t"
proof -
  have "t div 60000 = t div 1000 div 60" "t div 3600000 = t div 60000 div 60" "t div 86400000 = t div 3600000 div 24"
    by simp_all
  then show ?thesis
    using div_mult_mod_eq [of t 1000] div_mult_mod_eq [of "t div 1000" 60] div_mult_mod_eq [of "t div 60000" 60]
      div_mult_mod_eq [of "t div 3600000" 24]
    unfolding setTime_def getHours_def getMinutes_def getSeconds_def by linarith
qed

section \<open>The template\<close>

lemma string_number_digits:
  assumes "ds \<noteq> []" "\<forall>c\<in>set ds. isNumber (Some c)"
  shows "string_number ds = Num (of_nat (digits_value ds))"
proof -
  have sp: "\<not> js_space c" "lower c = c" "c \<noteq> 73" if "c \<in> set ds" for c
    using assms(2) that by (auto simp: js_space_def isNumber_def lower_def)
  have dw: "dropWhile js_space xs = xs" if "set xs \<subseteq> set ds" for xs
    using that sp(1) by (cases xs) auto
  have tr: "trim ds = ds" by (simp add: trim_def dw)
  have lo: "map lower ds = ds" using sp(2) by (simp add: map_idI)
  obtain c cs where ds: "ds = c # cs" using assms(1) by (cases ds) auto
  have c: "c \<noteq> 45" "c \<noteq> 43" "ds \<noteq> js ''Infinity''" using assms(2) sp(3) [of c] by (auto simp: ds isNumber_def js_def)
  have n1: "lower (ds ! 1) \<noteq> 120 \<and> lower (ds ! 1) \<noteq> 111 \<and> lower (ds ! 1) \<noteq> 98" if "length ds > 2"
  proof -
    have "ds ! 1 \<in> set ds" using that by simp
    then show ?thesis using assms(2) sp(2) by (auto simp: isNumber_def)
  qed
  have tw: "takeWhile (\<lambda>d. isNumber (Some d)) ds = ds" using assms(2) by simp
  have "js_Number ds = Fin (of_nat (digits_value ds))" using assms(1) by (simp add: js_Number_def Let_def tw)
  then have u: "unsigned_number ds = Num (of_nat (digits_value ds))" using c(3) by (simp add: unsigned_number_def lo of_jnum_def)
  have "string_number ds = unsigned_number ds"
    unfolding string_number_def tr Let_def using c(1,2) n1 by (auto simp: ds)
  with u show ?thesis by simp
qed

lemma digits_value_show: "digits_value (js (show_nat n)) = n" "digits_value (48 # js (show_nat n)) = n"
  by (simp_all add: digits_value_def js_def foldl_map flip: read_nat.simps)

lemma to_number_pad:
  assumes "0 \<le> v" "v < 60"
  shows "to_number (pad en (num v) b) = Num (of_int v)"
proof -
  have "to_string en (num v) = js (show_nat (nat v))"
    using assms by (simp add: num_def number_string_def)
  moreover have "string_number (js (show_nat (nat v))) = Num (of_int v)" "string_number (48 # js (show_nat (nat v))) = Num (of_int v)"
  proof -
    have d: "js (show_nat (nat v)) \<noteq> []" "\<forall>c\<in>set (js (show_nat (nat v))). isNumber (Some c)"
      using js_digits show_nat_nonempty [of "nat v"] by (simp_all add: js_def)
    then have d0: "\<forall>c\<in>set (48 # js (show_nat (nat v))). isNumber (Some c)" by (simp add: isNumber_def)
    show "string_number (js (show_nat (nat v))) = Num (of_int v)"
      using string_number_digits [OF d] assms(1) by (simp add: digits_value_show)
    show "string_number (48 # js (show_nat (nat v))) = Num (of_int v)"
      using string_number_digits [OF _ d0] assms(1) by (simp add: digits_value_show)
  qed
  ultimately show ?thesis
    by (simp add: pad_def num_def Let_def)
qed

lemma number_in_pad: "0 \<le> v \<Longrightarrow> v < 60 \<Longrightarrow> v < hi \<Longrightarrow> number_in 0 (of_int hi) (pad en (num v) b) = Some (of_int v)"
  by (simp add: number_in_def to_number_pad)

lemma integer_part_of_int [simp]: "integer_part (of_int i) = i"
  by (simp add: integer_part_def)

lemma shown_frame [simp]:
  "selected (updateTemplate en k s) = selected s" "tmin (updateTemplate en k s) = tmin s" "tmax (updateTemplate en k s) = tmax s"
  "showMeridian (updateTemplate en k s) = showMeridian s" "meridians (updateTemplate en k s) = meridians s"
  "readonlyInput (updateTemplate en k s) = readonlyInput s" "modelValue (updateTemplate en k s) = modelValue s"
  "error_time (updateTemplate en k s) = error_time s"
  by (simp_all add: updateTemplate_def Let_def split: view.split)

lemma refreshed_frame [simp]:
  "selected (picker_refresh en k s) = selected s" "tmin (picker_refresh en k s) = tmin s" "tmax (picker_refresh en k s) = tmax s"
  "showMeridian (picker_refresh en k s) = showMeridian s" "meridians (picker_refresh en k s) = meridians s"
  "readonlyInput (picker_refresh en k s) = readonlyInput s" "modelValue (picker_refresh en k s) = Date (selected s)"
  "error_time (picker_refresh en k s) = False"
  by (simp_all add: picker_refresh_def makeValid_def setViewValue_def)

lemma refreshed_minutes:
  "getMinutesFromTemplate (picker_refresh en None s) = Some (of_int (getMinutes (selected s)))"
  "getSecondsFromTemplate (picker_refresh en None s) = Some (of_int (getSeconds (selected s)))"
  using number_in_pad [of "getMinutes (selected s)" 60 en False] number_in_pad [of "getSeconds (selected s)" 60 en False]
  by (simp_all add: getMinutesFromTemplate_def getSecondsFromTemplate_def picker_refresh_def updateTemplate_def Let_def makeValid_def
      setViewValue_def)

lemma hours_12:
  assumes "0 \<le> (h :: int)" "h < 24"
  shows "0 < (if h = 0 \<or> h = 12 then 12 else h mod 12)" "(if h = 0 \<or> h = 12 then 12 else h mod 12) < 13"
    "(if (if h = 0 \<or> h = 12 then 12 else h mod 12) = 12 then 0 else (if h = 0 \<or> h = 12 then 12 else h mod 12)) +
       (if h < 12 then 0 else 12) = h"
  using assms by presburger+

lemma refreshed_hours:
  assumes "fst (meridians s) \<noteq> snd (meridians s)"
  shows "getHoursFromTemplate (picker_refresh en None s) = Some (of_int (getHours (selected s)))"
proof (cases "showMeridian s")
  case True
  define h where "h = getHours (selected s)"
  define g where "g = (if h = 0 \<or> h = 12 then 12 else h mod 12)"
  have r: "0 \<le> h" "h < 24" by (simp_all add: h_def)
  note g = hours_12 [OF r, folded g_def]
  have t: "to_number (hours (picker_refresh en None s)) = Num (of_int g)"
    using True g by (simp add: picker_refresh_def updateTemplate_def Let_def makeValid_def setViewValue_def h_def [symmetric] to_number_pad)
      (auto simp: g_def)
  have m: "meridian (picker_refresh en None s) = Str (if h < 12 then fst (meridians s) else snd (meridians s))"
    by (simp add: picker_refresh_def updateTemplate_def Let_def makeValid_def setViewValue_def h_def)
  have e: "(if (of_int g :: rat) = 12 then 0 else of_int g) = of_int (if g = 12 then 0 else g)" by simp
  have "getHoursFromTemplate (picker_refresh en None s) = Some (if h < 12 then of_int (if g = 12 then 0 else g) else of_int (if g = 12 then 0 else g) + 12)"
    using True g(1,2) assms by (simp add: getHoursFromTemplate_def t m Let_def)
  also have "\<dots> = Some (of_int ((if g = 12 then 0 else g) + (if h < 12 then 0 else 12)))" by simp
  finally show ?thesis unfolding g(3) by (simp add: h_def)
next
  case False
  then show ?thesis
    using number_in_pad [of "getHours (selected s)" 24 en "\<not> padHours s"] clock_ranges [of "selected s"]
    by (simp add: getHoursFromTemplate_def picker_refresh_def updateTemplate_def Let_def makeValid_def setViewValue_def)
qed

section \<open>Spinning\<close>

text \<open>The buttons, the wheel and the arrow keys only.\<close>

fun spins :: "picker_event \<Rightarrow> bool" where
  "spins (Wheel x e) = True"
| "spins (Keydown x which) = True"
| "spins (Up x) = True"
| "spins (Down x) = True"
| "spins Toggle = True"
| "spins Blur = True"
| "spins e = False"

definition stays :: "picker \<Rightarrow> picker \<Rightarrow> bool" where
  "stays s s' \<longleftrightarrow> tmin s' = tmin s \<and> tmax s' = tmax s \<and> (\<not> out_of_range s \<longrightarrow> \<not> out_of_range s') \<and>
     selected s' div 86400000 = selected s div 86400000 \<and> selected s' mod 1000 = selected s mod 1000"

lemma stays_refl: "stays s s"
  by (simp add: stays_def)

lemma stays_trans: "stays s s1 \<Longrightarrow> stays s1 s2 \<Longrightarrow> stays s s2"
  by (auto simp: stays_def)

lemma add_stays:
  assumes "\<not> noIncrement (addSeconds (selected s) d) s \<or> \<not> noDecrement (addSeconds (selected s) d) s"
  shows "stays s (addSecondsToSelected en d s)"
proof -
  have "\<not> out_of_range s \<Longrightarrow> \<not> out_of_range (addSecondsToSelected en d s)"
    using assms by (auto simp: out_of_range_def noIncrement_def noDecrement_def below_min_def above_max_def addSecondsToSelected_def
        split: option.splits)
  then show ?thesis by (simp add: stays_def addSecondsToSelected_def addSeconds_day)
qed

lemma increment_stays: "stays s (increment en x s)" "stays s (decrement en x s)"
  by (cases x; simp add: incrementHours_def incrementMinutes_def incrementSeconds_def decrementHours_def decrementMinutes_def
      decrementSeconds_def noIncrementHours_def noIncrementMinutes_def noIncrementSeconds_def noDecrementHours_def
      noDecrementMinutes_def noDecrementSeconds_def addMinutes_def add_stays stays_refl mult.assoc)+

lemma half_turn:
  fixes q :: int
  shows "(q + 12) mod 24 = (if q mod 24 < 12 then q mod 24 + 12 else q mod 24 - 12)" (is ?up)
    and "(q - 12) mod 24 = (if q mod 24 < 12 then q mod 24 + 12 else q mod 24 - 12)"
proof -
  have r: "0 \<le> q mod 24" "q mod 24 < 24" by simp_all
  have "(q + 12) mod 24 = (q mod 24 + 12) mod 24" by (rule mod_add_left_eq [symmetric])
  also have "(q mod 24 + 12) mod 24 = (if q mod 24 < 12 then q mod 24 + 12 else q mod 24 - 12)"
  proof (cases "q mod 24 < 12")
    case False
    have "q mod 24 + 12 = q mod 24 - 12 + 24" by simp
    then have "(q mod 24 + 12) mod 24 = (q mod 24 - 12 + 24) mod 24" by (rule arg_cong)
    also have "\<dots> = (q mod 24 - 12) mod 24" by (rule mod_add_self2)
    also have "\<dots> = q mod 24 - 12" using False r by (intro mod_pos_pos_trivial) auto
    finally show ?thesis unfolding if_not_P [OF False] .
  next
    case True
    then have "(q mod 24 + 12) mod 24 = q mod 24 + 12" using r by (intro mod_pos_pos_trivial) auto
    then show ?thesis unfolding if_P [OF True] .
  qed
  finally show up: ?up .
  have "(q - 12) mod 24 = (q - 12 + 24) mod 24" by (rule mod_add_self2 [symmetric])
  also have "q - 12 + 24 = q + 12" by simp
  finally show "(q - 12) mod 24 = (if q mod 24 < 12 then q mod 24 + 12 else q mod 24 - 12)" unfolding up .
qed

lemma full_turns: "(q + 720) mod 60 = q mod 60" "(q - 720) mod 60 = q mod 60" "(q + 43200) mod 60 = q mod 60"
  "(q - 43200) mod 60 = q mod 60" for q :: int
  using mod_mult_self1 [of q 12 60] mod_mult_self1 [of q "- 12" 60] mod_mult_self1 [of q 720 60] mod_mult_self1 [of q "- 720" 60]
  by simp_all

lemma setTime_add: "setTime t (h + k) m s = setTime t h m s + k * 3600000"
  by (simp only: setTime_def distrib_right add_ac)

lemma half_day:
  assumes "d = 43200 \<or> d = - 43200"
  shows "addSeconds t d = t + (if getHours t < 12 then 43200000 else - 43200000)"
proof -
  have "(t + 43200000) div 3600000 = t div 3600000 + 12" "(t - 43200000) div 3600000 = t div 3600000 - 12" by simp_all
  then have h: "getHours (t + d * 1000) = (if getHours t < 12 then getHours t + 12 else getHours t - 12)"
    using assms half_turn [of "t div 3600000"] unfolding getHours_def by auto
  have "(t + 43200000) div 60000 = t div 60000 + 720" "(t - 43200000) div 60000 = t div 60000 - 720" by simp_all
  then have m: "getMinutes (t + d * 1000) = getMinutes t"
    using assms unfolding getMinutes_def by (auto simp: full_turns)
  have "(t + d * 1000) div 1000 = t div 1000 + d" by simp
  then have "getSeconds (t + d * 1000) = (t div 1000 + d) mod 60" by (simp only: getSeconds_def)
  then have s: "getSeconds (t + d * 1000) = getSeconds t"
    using full_turns(3,4) [of "t div 1000"] assms by (elim disjE) (simp_all only: getSeconds_def diff_conv_add_uminus)
  have set: "setTime t (getHours t + k) (getMinutes t) (getSeconds t) = t + k * 3600000" for k
    by (simp only: setTime_add setTime_own)
  have plus: "setTime t (getHours t + 12) (getMinutes t) (getSeconds t) = t + 43200000"
    by (simp only: set)
  have minus: "setTime t (getHours t - 12) (getMinutes t) (getSeconds t) = t + - 43200000"
    by (simp only: diff_conv_add_uminus set)
  show ?thesis
    unfolding addSeconds_def Let_def h m s by (cases "getHours t < 12") (simp_all only: plus minus if_True if_False)
qed

lemma toggle_stays: "stays s (toggleMeridian en s)"
proof (cases "noToggleMeridian s \<or> getMinutesFromTemplate s = None \<or> getHoursFromTemplate s = None")
  case True
  then have "toggleMeridian en s = s \<or> (\<exists>m. toggleMeridian en s = s\<lparr>meridian := m\<rparr>)"
    by (auto simp: toggleMeridian_def)
  moreover have "stays s (s\<lparr>meridian := m\<rparr>)" for m
    by (simp add: stays_def out_of_range_def below_min_def above_max_def)
  ultimately show ?thesis using stays_refl [of s] by auto
next
  case False
  let ?d = "12 * 60 * (if getHours (selected s) < 12 then 60 else - 60)"
  have "stays s (addSecondsToSelected en ?d s)"
  proof -
    have up: "addSeconds t 43200 > t" if "getHours t < 12" for t
      using that half_day by simp
    have down: "addSeconds t (- 43200) < t" if "\<not> getHours t < 12" for t
      using that half_day by simp
    have "\<not> out_of_range s \<Longrightarrow> \<not> out_of_range (addSecondsToSelected en ?d s)"
      using False up [of "selected s"] down [of "selected s"]
      by (auto simp: noToggleMeridian_def addMinutes_def out_of_range_def below_min_def above_max_def addSecondsToSelected_def
          split: option.splits if_splits)
    then show ?thesis by (simp add: stays_def addSecondsToSelected_def addSeconds_day)
  qed
  with False show ?thesis by (simp add: toggleMeridian_def)
qed

lemma spin_stays: "spins e \<Longrightarrow> stays s (picker_step en s e)"
  by (cases e) (simp_all add: on_wheel_def on_keydown_def increment_stays toggle_stays stays_refl picker_blur_def,
    simp add: stays_def out_of_range_def below_min_def above_max_def)

lemma spins_stay: "list_all spins es \<Longrightarrow> stays s (run_steps (picker_step en) s es)"
proof (induction es arbitrary: s)
  case (Cons e es)
  from spin_stays [of e s en] Cons stays_trans show ?case by fastforce
qed (simp add: stays_refl)

text \<open>
  C28. The buttons, the wheel, the arrow keys and the AM/PM switch keep a time that is between \<open>min\<close> and
  \<open>max\<close> between them, whatever the steps are, and never change its day or its milliseconds.
\<close>
theorem spinning_keeps_range:
  assumes "list_all spins es" "\<not> out_of_range s"
  shows "\<not> out_of_range (run_steps (picker_step en) s es) \<and>
    selected (run_steps (picker_step en) s es) div 86400000 = selected s div 86400000 \<and>
    selected (run_steps (picker_step en) s es) mod 1000 = selected s mod 1000"
  using spins_stay [OF assms(1), of s en] assms(2) by (simp add: stays_def)

definition demo_engine :: engine where
  "demo_engine = \<lparr>to_prim = (\<lambda>_. retc Undefined), num_text = (\<lambda>_. [])\<rparr>"

definition demo_picker :: picker where
  "demo_picker = (initial_picker 39600000 (js ''AM'', js ''PM''))\<lparr>tmin := Some 36000000, tmax := Some 46800000\<rparr>"

text \<open>From 11:00 with the bounds 10:00 and 13:00: up twice, a third time without effect, and the wheel down.\<close>

lemma spinning_keeps_range_witness:
  "let es = [Up Hours, Keydown Hours 38, Up Hours, Toggle, Wheel Minutes \<lparr>wheelDelta = 0, deltaY = 1, detail = 0\<rparr>]
   in \<not> out_of_range (run_steps (picker_step demo_engine) demo_picker es) \<and>
    selected (run_steps (picker_step demo_engine) demo_picker es) div 86400000 = selected demo_picker div 86400000 \<and>
    selected (run_steps (picker_step demo_engine) demo_picker es) mod 1000 = selected demo_picker mod 1000"
  unfolding Let_def
  by (rule spinning_keeps_range) (simp_all add: demo_picker_def initial_picker_def out_of_range_def below_min_def above_max_def)

text \<open>
  What the fields show is what they are read as: after a refresh the hours, in the 12 and in the 24 hour
  form, the minutes and the seconds are those of the selected time, padded or not, and typing the shown hours
  again leaves the time as it is.
\<close>
lemma fields_show_time:
  assumes "fst (meridians s) \<noteq> snd (meridians s)"
  shows "getHoursFromTemplate (picker_refresh en None s) = Some (of_int (getHours (selected s))) \<and>
    getMinutesFromTemplate (picker_refresh en None s) = Some (of_int (getMinutes (selected s))) \<and>
    getSecondsFromTemplate (picker_refresh en None s) = Some (of_int (getSeconds (selected s))) \<and>
    selected (updateHours en (picker_refresh en None s)) = selected s"
proof -
  let ?s = "picker_refresh en None s"
  note h = refreshed_hours [OF assms, of en] refreshed_minutes [of en s]
  have d: "getHoursFromTemplate (?s\<lparr>dirty := True\<rparr>) = getHoursFromTemplate ?s"
    "getMinutesFromTemplate (?s\<lparr>dirty := True\<rparr>) = getMinutesFromTemplate ?s"
    by (simp_all add: getHoursFromTemplate_def getMinutesFromTemplate_def cong: if_cong jnumber.case_cong)
  have "selected (updateHours en ?s) = selected s"
    by (simp add: updateHours_def Let_def d h set_clock_def invalidate_def setViewValue_def)
  with h show ?thesis by simp
qed

lemma fields_show_time_witness:
  "getHoursFromTemplate (picker_refresh demo_engine None (demo_picker\<lparr>selected := 300000\<rparr>)) = Some 0 \<and>
   selected (updateHours demo_engine (picker_refresh demo_engine None (demo_picker\<lparr>selected := 300000\<rparr>))) = 300000"
  using fields_show_time [of "demo_picker\<lparr>selected := 300000\<rparr>" demo_engine]
  by (simp add: demo_picker_def initial_picker_def js_def getHours_def)

text \<open>Typed seconds are not held against the bounds: a valid time after \<open>max\<close>.\<close>

lemma typed_seconds_leave_range:
  "let s = picker_step en (demo_picker\<lparr>selected := 46800000\<rparr>) (Typed Seconds (num 30))
   in out_of_range s \<and> \<not> error_time s \<and> modelValue s = Date (selected s)"
  by (simp add: demo_picker_def initial_picker_def updateSeconds_def getSecondsFromTemplate_def number_in_def num_def Let_def
      out_of_range_def below_min_def above_max_def setTime_def getHours_def getMinutes_def integer_part_def)

end
