(* ===== verification/NgRoute.thy ===== *)
theory NgRoute
  imports NgLexer
begin

text \<open>
  Routes: \<open>$route\<close> of \<open>assets/public/components/angular-route/angular-route.js\<close>, with the part of
  \<open>$location\<close> in \<open>angular.js\<close> that drives it, and the routes of \<open>assets/public/scripts/app.js\<close>. Texts are
  lists of code units. A location is a path and the parameters of its query. What listeners of
  \<open>$routeChangeStart\<close> decide, what redirection functions return, the folding of case and the outcome of
  loading a template are parameters.
\<close>

section \<open>Patterns\<close>

type_synonym params = "(jstring \<times> jstring) list"

text \<open>The regular expressions \<open>pathRegExp\<close> builds: characters, and groups for the keys of the path.\<close>

record key_item =
  key_name :: jstring
  key_slash :: bool
  key_star :: bool
  key_optional :: bool

datatype path_item = Lit nat | Key key_item

definition word_char :: "nat \<Rightarrow> bool" where
  "word_char c \<longleftrightarrow> 48 \<le> c \<and> c \<le> 57 \<or> 65 \<le> c \<and> c \<le> 90 \<or> c = 95 \<or> 97 \<le> c \<and> c \<le> 122"

text \<open>Characters that are not escaped and have a meaning of their own in a regular expression: \<open>^ + ? [ ] { } |\<close> and the backslash.\<close>

definition meta_char :: "nat \<Rightarrow> bool" where
  "meta_char c \<longleftrightarrow> c \<in> {94, 43, 63, 91, 93, 123, 125, 124, 92}"

definition key_option :: "jstring \<Rightarrow> (bool \<times> bool) \<times> jstring" where
  "key_option s =
     (case s of
        c # cs \<Rightarrow>
          if c = 42 then (case cs of d # ds \<Rightarrow> if d = 63 then ((True, True), ds) else ((True, False), cs)
                          | [] \<Rightarrow> ((True, False), cs))
          else if c = 63 then ((False, True), cs) else ((False, False), s)
      | [] \<Rightarrow> ((False, False), s))"

definition key_at :: "bool \<Rightarrow> jstring \<Rightarrow> (path_item \<times> jstring) option" where
  "key_at slash s =
     (let name = takeWhile word_char s
      in if name = [] then None
         else case key_option (dropWhile word_char s) of
                ((star, optional), rest) \<Rightarrow>
                  Some (Key \<lparr>key_name = name, key_slash = slash, key_star = star, key_optional = optional\<rparr>, rest))"

text \<open>\<open>None\<close>: the path uses other syntax of regular expressions.\<close>

definition next_item :: "nat \<Rightarrow> jstring \<Rightarrow> (path_item \<times> jstring) option" where
  "next_item c cs =
     (let lit = (if meta_char c then None else Some (Lit c, cs))
      in if c = 47
         then (case cs of
                 d # ds \<Rightarrow> if d = 58 then (case key_at True ds of Some r \<Rightarrow> Some r | None \<Rightarrow> lit) else lit
               | [] \<Rightarrow> lit)
         else if c = 58 then (case key_at False cs of Some r \<Rightarrow> Some r | None \<Rightarrow> lit)
         else lit)"

lemma key_at_shorter: "key_at b s = Some (x, r) \<Longrightarrow> length r < length s"
proof -
  assume a: "key_at b s = Some (x, r)"
  have o: "length (snd (key_option u)) \<le> length u" for u
    by (auto simp: key_option_def split: list.splits)
  have "length (dropWhile word_char s) < length s" if "takeWhile word_char s \<noteq> []"
    using that by (cases s) (auto simp: length_dropWhile_le_Suc split: if_splits)
  with a o [of "dropWhile word_char s"] show ?thesis
    by (auto simp: key_at_def Let_def split: if_splits prod.splits)
qed

lemma next_item_shorter: "next_item c cs = Some (x, r) \<Longrightarrow> length r \<le> length cs"
  by (auto simp: next_item_def Let_def split: if_splits list.splits option.splits dest!: key_at_shorter)

function path_items :: "jstring \<Rightarrow> path_item list option" where
  "path_items [] = Some []"
| "path_items (c # cs) =
     (case next_item c cs of
        None \<Rightarrow> None
      | Some (x, rest) \<Rightarrow> map_option (Cons x) (path_items rest))"
  by pat_completeness auto
termination
  by (relation "measure length") (auto dest: next_item_shorter simp: less_Suc_eq_le)

record regexp =
  items :: "path_item list"
  insensitive :: bool

definition keys_of_items :: "path_item list \<Rightarrow> jstring list" where
  "keys_of_items xs = List.map_filter (\<lambda>x. case x of Key k \<Rightarrow> Some (key_name k) | Lit c \<Rightarrow> None) xs"

definition pathRegExp :: "jstring \<Rightarrow> bool \<Rightarrow> regexp option" where
  "pathRegExp path insens = map_option (\<lambda>xs. \<lparr>items = xs, insensitive = insens\<rparr>) (path_items path)"

section \<open>Matching\<close>

text \<open>
  Matching with backtracking, from \<open>^\<close> to \<open>$\<close>: a plain key takes as many characters other than a slash as it
  can, a starred one as few characters other than line ends as it can, and an optional group is tried first
  with its key, then with its slash only, then not at all. The result lists what the keys matched.
\<close>

definition line_end :: "nat \<Rightarrow> bool" where
  "line_end c \<longleftrightarrow> c \<in> {10, 13, 8232, 8233}"

definition capture_lengths :: "bool \<Rightarrow> jstring \<Rightarrow> nat list" where
  "capture_lengths star s =
     (if star then [1..<Suc (length (takeWhile (\<lambda>c. \<not> line_end c) s))]
      else rev [1..<Suc (length (takeWhile (\<lambda>c. c \<noteq> 47) s))])"

fun first_some :: "('a \<Rightarrow> 'b option) \<Rightarrow> 'a list \<Rightarrow> 'b option" where
  "first_some f [] = None"
| "first_some f (x # xs) = (case f x of Some y \<Rightarrow> Some y | None \<Rightarrow> first_some f xs)"

definition or_else :: "'a option \<Rightarrow> 'a option \<Rightarrow> 'a option" where
  "or_else a b = (case a of Some x \<Rightarrow> Some x | None \<Rightarrow> b)"

primrec exec :: "(nat \<Rightarrow> nat) \<Rightarrow> path_item list \<Rightarrow> jstring \<Rightarrow> jstring option list option" where
  "exec canon [] s = (if s = [] then Some [] else None)"
| "exec canon (x # xs) s =
     (case x of
        Lit c \<Rightarrow> (case s of d # ds \<Rightarrow> if canon c = canon d then exec canon xs ds else None | [] \<Rightarrow> None)
      | Key k \<Rightarrow>
          let capture = (\<lambda>s. first_some (\<lambda>m. map_option (Cons (Some (take m s))) (exec canon xs (drop m s)))
                            (capture_lengths (key_star k) s));
              after_slash = (if key_slash k then (case s of d # ds \<Rightarrow> if d = 47 then Some ds else None | [] \<Rightarrow> None) else Some s);
              skipped = map_option (Cons None) (exec canon xs s)
          in (case after_slash of
                None \<Rightarrow> if key_optional k then skipped else None
              | Some ds \<Rightarrow>
                  if key_optional k
                  then or_else (capture ds) (or_else (if key_slash k then map_option (Cons None) (exec canon xs ds) else None) skipped)
                  else capture ds))"

definition regexp_exec :: "(nat \<Rightarrow> nat) \<Rightarrow> regexp \<Rightarrow> jstring \<Rightarrow> jstring option list option" where
  "regexp_exec fold_case r s = exec (if insensitive r then fold_case else (\<lambda>c. c)) (items r) s"

section \<open>Routes\<close>

datatype redirect = RedirectPath jstring | RedirectFunction nat

record route =
  originalPath :: "jstring option"
  regexp_of :: "regexp option"
  redirectTo :: "redirect option"
  reloadOnSearch :: bool
  template :: "jstring option"
  templateUrl :: "jstring option"
  resolves :: "jstring list"

record route_config =
  cfg_redirectTo :: "redirect option"
  cfg_reloadOnSearch :: "bool option"
  cfg_caseInsensitive :: "bool option"
  cfg_template :: "jstring option"
  cfg_templateUrl :: "jstring option"
  cfg_resolve :: "jstring list"

type_synonym routes = "(jstring \<times> route) list"

definition put_route :: "jstring \<Rightarrow> route \<Rightarrow> routes \<Rightarrow> routes" where
  "put_route k r rs = (if map_of rs k = None then rs @ [(k, r)] else map (\<lambda>(j, x). (j, if j = k then r else x)) rs)"

definition redirect_path :: "jstring \<Rightarrow> jstring" where
  "redirect_path path = (if last path = 47 then butlast path else path @ [47])"

text \<open>The path of \<open>otherwise\<close> is \<open>null\<close>, here \<open>None\<close>; its key is the text of \<open>null\<close>.\<close>

definition route_key :: "jstring option \<Rightarrow> jstring" where
  "route_key path = (case path of Some p \<Rightarrow> p | None \<Rightarrow> js ''null'')"

definition route_when :: "bool \<Rightarrow> jstring option \<Rightarrow> route_config \<Rightarrow> routes \<Rightarrow> routes" where
  "route_when insens_default path cfg rs =
     (let insens = (case cfg_caseInsensitive cfg of Some b \<Rightarrow> b | None \<Rightarrow> insens_default);
          route = \<lparr>originalPath = None, regexp_of = None, redirectTo = cfg_redirectTo cfg,
                   reloadOnSearch = (case cfg_reloadOnSearch cfg of Some b \<Rightarrow> b | None \<Rightarrow> True),
                   template = cfg_template cfg, templateUrl = cfg_templateUrl cfg, resolves = cfg_resolve cfg\<rparr>
      in (case path of
            None \<Rightarrow> put_route (route_key None) route rs
          | Some p \<Rightarrow>
              if p = [] then put_route p route rs
              else let rs = put_route p (route\<lparr>originalPath := Some p, regexp_of := pathRegExp p insens\<rparr>) rs;
                       rp = redirect_path p
                   in put_route rp \<lparr>originalPath = Some rp, regexp_of = pathRegExp rp insens, redirectTo = Some (RedirectPath p),
                        reloadOnSearch = False, template = None, templateUrl = None, resolves = []\<rparr> rs))"

definition otherwise :: "bool \<Rightarrow> route_config \<Rightarrow> routes \<Rightarrow> routes" where
  "otherwise insens_default cfg rs = route_when insens_default None cfg rs"

definition otherwise_path :: "bool \<Rightarrow> jstring \<Rightarrow> routes \<Rightarrow> routes" where
  "otherwise_path insens_default p rs =
     otherwise insens_default \<lparr>cfg_redirectTo = Some (RedirectPath p), cfg_reloadOnSearch = None, cfg_caseInsensitive = None,
       cfg_template = None, cfg_templateUrl = None, cfg_resolve = []\<rparr> rs"

section \<open>Finding the route\<close>

definition set_param :: "jstring \<Rightarrow> jstring \<Rightarrow> params \<Rightarrow> params" where
  "set_param k v ps = (if map_of ps k = None then ps @ [(k, v)] else map (\<lambda>(j, x). (j, if j = k then v else x)) ps)"

definition extend_params :: "params \<Rightarrow> params \<Rightarrow> params" where
  "extend_params base extra = fold (\<lambda>(k, v). set_param k v) extra base"

definition same_params :: "params \<Rightarrow> params \<Rightarrow> bool" where
  "same_params a b \<longleftrightarrow> list_all (\<lambda>k. map_of a k = map_of b k) (map fst a @ map fst b)"

definition switchRouteMatcher :: "(nat \<Rightarrow> nat) \<Rightarrow> jstring \<Rightarrow> route \<Rightarrow> params option" where
  "switchRouteMatcher fold_case on r =
     (case regexp_of r of
        None \<Rightarrow> None
      | Some re \<Rightarrow>
          (case regexp_exec fold_case re on of
             None \<Rightarrow> None
           | Some m \<Rightarrow>
               Some (fold (\<lambda>(k, v) ps. case v of Some (c # cs) \<Rightarrow> set_param k (c # cs) ps | _ \<Rightarrow> ps)
                       (zip (keys_of_items (items re)) m) [])))"

text \<open>
  A route that was found, an object of its own: \<open>number\<close> is its identity, \<open>dollar_route\<close> the key of its
  \<open>$$route\<close>, which the route of \<open>otherwise\<close> does not have.
\<close>

record found =
  number :: nat
  dollar_route :: "jstring option"
  the_route :: route
  params :: params
  pathParams :: params

fun find_route :: "(nat \<Rightarrow> nat) \<Rightarrow> jstring \<Rightarrow> routes \<Rightarrow> (jstring \<times> route \<times> params) option" where
  "find_route fold_case on [] = None"
| "find_route fold_case on ((k, r) # rs) =
     (case switchRouteMatcher fold_case on r of Some ps \<Rightarrow> Some (k, r, ps) | None \<Rightarrow> find_route fold_case on rs)"

definition parseRoute :: "(nat \<Rightarrow> nat) \<Rightarrow> nat \<Rightarrow> jstring \<Rightarrow> params \<Rightarrow> routes \<Rightarrow> found option" where
  "parseRoute fold_case i on search rs =
     (case find_route fold_case on rs of
        Some (k, r, ps) \<Rightarrow>
          Some \<lparr>number = i, dollar_route = Some k, the_route = r, params = extend_params (extend_params [] search) ps, pathParams = ps\<rparr>
      | None \<Rightarrow>
          map_option (\<lambda>r. \<lparr>number = i, dollar_route = None, the_route = r, params = [], pathParams = []\<rparr>)
            (map_of rs (route_key None)))"

section \<open>Paths from patterns\<close>

fun split_on :: "nat \<Rightarrow> jstring \<Rightarrow> jstring list" where
  "split_on c [] = [[]]"
| "split_on c (d # ds) = (if d = c then [] # split_on c ds
     else case split_on c ds of seg # segs \<Rightarrow> (d # seg) # segs | [] \<Rightarrow> [[d]])"

definition param_text :: "jstring \<Rightarrow> params \<Rightarrow> jstring" where
  "param_text k ps = (case map_of ps k of Some v \<Rightarrow> v | None \<Rightarrow> [])"

definition delete_param :: "jstring \<Rightarrow> params \<Rightarrow> params" where
  "delete_param k ps = filter (\<lambda>x. fst x \<noteq> k) ps"

text \<open>\<open>None\<close>: a segment without a name, whose match is \<open>null\<close>.\<close>

fun interpolate_segments :: "jstring list \<Rightarrow> params \<Rightarrow> (jstring \<times> params) option" where
  "interpolate_segments [] ps = Some ([], ps)"
| "interpolate_segments (seg # segs) ps =
     (let s = dropWhile (\<lambda>c. \<not> word_char c) seg; key = takeWhile word_char s; rest = dropWhile word_char s;
          rest = (case rest of c # cs \<Rightarrow> if c = 63 \<or> c = 42 then cs else rest | [] \<Rightarrow> rest);
          rest = takeWhile (\<lambda>c. \<not> line_end c) rest
      in if key = [] then None
         else map_option (\<lambda>(txt, qs). (param_text key ps @ rest @ txt, qs)) (interpolate_segments segs (delete_param key ps)))"

definition interpolate :: "jstring \<Rightarrow> params \<Rightarrow> (jstring \<times> params) option" where
  "interpolate pattern ps =
     (case split_on 58 pattern of
        seg # segs \<Rightarrow> map_option (\<lambda>(txt, qs). (seg @ txt, qs)) (interpolate_segments segs ps)
      | [] \<Rightarrow> Some ([], ps))"

section \<open>Changing the route\<close>

datatype request = Inline jstring | Fetch jstring | Nothing

record load =
  ld_next :: "nat option"
  ld_last :: "nat option"
  ld_request :: request
  ld_resolves :: "jstring list"

datatype route_event =
  RouteChangeStart "nat option" "nat option"
| RouteUpdate nat
| RouteChangeSuccess "nat option" "nat option"
| RouteChangeError "nat option" "nat option"
| ListenerFailed

record nav =
  the_routes :: routes
  current :: "found option"
  preparedRoute :: "found option"
  preparedRouteIsUpdateOnly :: bool
  forceReload :: bool
  routeParams :: params
  loc_path :: jstring
  loc_search :: params
  browser_path :: jstring
  browser_search :: params
  initializing :: bool
  next_number :: nat
  loads :: "load list"
  events :: "route_event list"

record world =
  fold_case :: "nat \<Rightarrow> nat"
  prevents :: "found option \<Rightarrow> found option \<Rightarrow> bool"
  redirect_url :: "nat \<Rightarrow> params \<Rightarrow> jstring \<Rightarrow> params \<Rightarrow> jstring \<times> params"

definition norm_path :: "jstring \<Rightarrow> jstring" where
  "norm_path s = (case s of c # cs \<Rightarrow> if c = 47 then s else 47 # s | [] \<Rightarrow> [47])"

definition set_path :: "jstring \<Rightarrow> nav \<Rightarrow> nav" where
  "set_path s st = st\<lparr>loc_path := norm_path s\<rparr>"

definition set_search :: "params \<Rightarrow> nav \<Rightarrow> nav" where
  "set_search q st = st\<lparr>loc_search := q\<rparr>"

text \<open>The second result: the change is prevented.\<close>

definition prepareRoute :: "world \<Rightarrow> nav \<Rightarrow> nav \<times> bool" where
  "prepareRoute w st =
     (let lastRoute = current st;
          nxt = parseRoute (fold_case w) (next_number st) (loc_path st) (loc_search st) (the_routes st);
          update_only = (case (nxt, lastRoute) of
             (Some n, Some l) \<Rightarrow> dollar_route n = dollar_route l \<and> same_params (pathParams n) (pathParams l) \<and>
                                \<not> reloadOnSearch (the_route n) \<and> \<not> forceReload st
           | _ \<Rightarrow> False);
          st = st\<lparr>preparedRoute := nxt, preparedRouteIsUpdateOnly := update_only, next_number := Suc (next_number st)\<rparr>
      in if \<not> update_only \<and> (lastRoute \<noteq> None \<or> nxt \<noteq> None)
         then (st\<lparr>events := events st @ [RouteChangeStart (map_option number nxt) (map_option number lastRoute)]\<rparr>, prevents w nxt lastRoute)
         else (st, False))"

definition load_of :: "found option \<Rightarrow> found option \<Rightarrow> load" where
  "load_of nxt lastRoute =
     \<lparr>ld_next = map_option number nxt, ld_last = map_option number lastRoute,
      ld_request = (case nxt of
         None \<Rightarrow> Nothing
       | Some n \<Rightarrow> (case template (the_route n) of Some t \<Rightarrow> Inline t
                   | None \<Rightarrow> (case templateUrl (the_route n) of Some u \<Rightarrow> Fetch u | None \<Rightarrow> Nothing))),
      ld_resolves = (case nxt of None \<Rightarrow> [] | Some n \<Rightarrow> resolves (the_route n))\<rparr>"

definition follow_redirect :: "world \<Rightarrow> found \<Rightarrow> nav \<Rightarrow> nav option" where
  "follow_redirect w n st =
     (case redirectTo (the_route n) of
        None \<Rightarrow> Some st
      | Some (RedirectPath t) \<Rightarrow>
          (case interpolate t (params n) of
             None \<Rightarrow> None
           | Some (t', qs) \<Rightarrow> Some (set_search qs (set_path t' (st\<lparr>current := Some (n\<lparr>params := qs\<rparr>)\<rparr>))))
      | Some (RedirectFunction f) \<Rightarrow>
          (case redirect_url w f (pathParams n) (loc_path st) (loc_search st) of (t, q) \<Rightarrow> Some (set_search q (set_path t st))))"

definition commitRoute :: "world \<Rightarrow> nav \<Rightarrow> nav" where
  "commitRoute w st =
     (let lastRoute = current st; nxt = preparedRoute st
      in if preparedRouteIsUpdateOnly st
         then (case (lastRoute, nxt) of
                 (Some l, Some n) \<Rightarrow>
                   st\<lparr>current := Some (l\<lparr>params := params n\<rparr>), routeParams := params n,
                     events := events st @ [RouteUpdate (number l)]\<rparr>
               | _ \<Rightarrow> st)
         else if nxt \<noteq> None \<or> lastRoute \<noteq> None
         then let st = st\<lparr>forceReload := False, current := nxt\<rparr>
              in (case (case nxt of None \<Rightarrow> Some st | Some n \<Rightarrow> follow_redirect w n st) of
                    None \<Rightarrow> st\<lparr>events := events st @ [ListenerFailed]\<rparr>
                  | Some st \<Rightarrow> st\<lparr>loads := loads st @ [load_of nxt lastRoute]\<rparr>)
         else st)"

text \<open>The promise of a load: its outcome comes from the templates and the values to resolve.\<close>

definition loaded :: "nat \<Rightarrow> bool \<Rightarrow> nav \<Rightarrow> nav" where
  "loaded i ok st =
     (if i < length (loads st)
      then let l = loads st ! i;
               st = st\<lparr>loads := take i (loads st) @ drop (Suc i) (loads st)\<rparr>
           in if ld_next l = map_option number (current st)
              then if ok
                   then st\<lparr>routeParams := (case current st of Some n \<Rightarrow> params n | None \<Rightarrow> routeParams st),
                          events := events st @ [RouteChangeSuccess (ld_next l) (ld_last l)]\<rparr>
                   else st\<lparr>events := events st @ [RouteChangeError (ld_next l) (ld_last l)]\<rparr>
              else st
      else st)"

definition reload :: "world \<Rightarrow> nav \<Rightarrow> nav" where
  "reload w st =
     (case prepareRoute w (st\<lparr>forceReload := True\<rparr>) of
        (st, prevented) \<Rightarrow> if prevented then st\<lparr>forceReload := False\<rparr> else commitRoute w st)"

text \<open>\<open>None\<close>: the error \<open>norout\<close>, or a pattern that cannot be interpolated.\<close>

definition updateParams :: "params \<Rightarrow> nav \<Rightarrow> nav option" where
  "updateParams newParams st =
     (case current st of
        Some n \<Rightarrow>
          if dollar_route n = None then None
          else (case interpolate (case originalPath (the_route n) of Some t \<Rightarrow> t | None \<Rightarrow> []) (extend_params (params n) newParams) of
                  None \<Rightarrow> None
                | Some (t, qs) \<Rightarrow> Some (set_search qs (set_path t st)))
      | None \<Rightarrow> None)"

section \<open>The location\<close>

definition url_changed :: "nav \<Rightarrow> bool" where
  "url_changed st \<longleftrightarrow> loc_path st \<noteq> browser_path st \<or> \<not> same_params (loc_search st) (browser_search st)"

definition locationWatch :: "world \<Rightarrow> nav \<Rightarrow> nav" where
  "locationWatch w st =
     (let changed = url_changed st
      in if initializing st \<or> changed
         then (case prepareRoute w (st\<lparr>initializing := False\<rparr>) of
                 (st, prevented) \<Rightarrow>
                   if prevented then st\<lparr>loc_path := browser_path st, loc_search := browser_search st\<rparr>
                   else commitRoute w (if changed then st\<lparr>browser_path := loc_path st, browser_search := loc_search st\<rparr> else st))
         else st)"

definition onUrlChange :: "world \<Rightarrow> jstring \<Rightarrow> params \<Rightarrow> nav \<Rightarrow> nav" where
  "onUrlChange w t q st0 =
     (case prepareRoute w (st0\<lparr>loc_path := norm_path t, loc_search := q\<rparr>) of
        (st, prevented) \<Rightarrow>
          if prevented
          then st\<lparr>loc_path := loc_path st0, loc_search := loc_search st0, browser_path := loc_path st0, browser_search := loc_search st0\<rparr>
          else commitRoute w (st\<lparr>initializing := False, browser_path := norm_path t, browser_search := q\<rparr>))"

text \<open>A digest runs the watch until nothing changes; \<open>None\<close>: more rounds than its limit.\<close>

fun settle :: "world \<Rightarrow> nat \<Rightarrow> nav \<Rightarrow> nav option" where
  "settle w ttl st =
     (if initializing st \<or> url_changed st
      then (case ttl of 0 \<Rightarrow> None | Suc k \<Rightarrow> settle w k (locationWatch w st))
      else Some st)"

declare settle.simps [simp del]

datatype nav_event =
  Go jstring params
| UrlChange jstring params
| Reload
| UpdateParams params
| Loaded nat bool
| JustDigest

definition nav_step :: "world \<Rightarrow> nat \<Rightarrow> nav \<Rightarrow> nav_event \<Rightarrow> nav option" where
  "nav_step w ttl st x =
     settle w ttl
       (case x of
          Go t q \<Rightarrow> set_search q (set_path t st)
        | UrlChange t q \<Rightarrow> onUrlChange w t q st
        | Reload \<Rightarrow> reload w st
        | UpdateParams q \<Rightarrow> (case updateParams q st of Some st \<Rightarrow> st | None \<Rightarrow> st)
        | Loaded i ok \<Rightarrow> loaded i ok st
        | JustDigest \<Rightarrow> st)"

fun nav_run :: "world \<Rightarrow> nat \<Rightarrow> nav \<Rightarrow> nav_event list \<Rightarrow> nav option" where
  "nav_run w ttl st [] = Some st"
| "nav_run w ttl st (x # xs) = (case nav_step w ttl st x of None \<Rightarrow> None | Some st \<Rightarrow> nav_run w ttl st xs)"

section \<open>The routes of the application\<close>

definition page_config :: "jstring \<Rightarrow> route_config" where
  "page_config url = \<lparr>cfg_redirectTo = None, cfg_reloadOnSearch = None, cfg_caseInsensitive = None, cfg_template = None,
     cfg_templateUrl = Some url, cfg_resolve = []\<rparr>"

definition app_routes :: "jstring \<Rightarrow> routes" where
  "app_routes DEFAULT_ROUTE =
     otherwise False (page_config (js ''404.html''))
       (route_when False (Some (js ''/wifi'')) (page_config (js ''views/wifi.html''))
       (route_when False (Some (js ''/status'')) (page_config (js ''views/status.html''))
       (route_when False (Some (js ''/'')) (page_config (js ''views/'' @ DEFAULT_ROUTE)) [])))"

definition app_start :: "jstring \<Rightarrow> jstring \<Rightarrow> params \<Rightarrow> nav" where
  "app_start DEFAULT_ROUTE t q =
     \<lparr>the_routes = app_routes DEFAULT_ROUTE, current = None, preparedRoute = None, preparedRouteIsUpdateOnly = False,
      forceReload = False, routeParams = [], loc_path = norm_path t, loc_search = q, browser_path = norm_path t,
      browser_search = q, initializing = True, next_number = 0, loads = [], events = []\<rparr>"

end
