(* ===== verification/NgRouteApp.thy ===== *)
theory NgRouteApp
  imports NgRoute
begin

text \<open>
  The application's routes: how its patterns match, what one change of the route does, and that every
  run of the page ends each digest on the template of its path.
\<close>

section \<open>Patterns without keys\<close>

lemma exec_literals: "exec (\<lambda>c. c) (map Lit cs) s = (if s = cs then Some [] else None)"
  by (induction cs arbitrary: s) (auto split: list.splits)

lemma no_keys: "keys_of_items (map Lit cs) = []"
  by (simp add: keys_of_items_def List.map_filter_def)

definition page_route :: "jstring \<Rightarrow> jstring \<Rightarrow> route" where
  "page_route p url = \<lparr>originalPath = Some p, regexp_of = Some \<lparr>items = map Lit p, insensitive = False\<rparr>, redirectTo = None,
     reloadOnSearch = True, template = None, templateUrl = Some url, resolves = []\<rparr>"

definition slash_route :: "jstring \<Rightarrow> jstring \<Rightarrow> route" where
  "slash_route p target = \<lparr>originalPath = Some p, regexp_of = Some \<lparr>items = map Lit p, insensitive = False\<rparr>,
     redirectTo = Some (RedirectPath target), reloadOnSearch = False, template = None, templateUrl = None, resolves = []\<rparr>"

definition other_route :: "jstring \<Rightarrow> route" where
  "other_route url = \<lparr>originalPath = None, regexp_of = None, redirectTo = None, reloadOnSearch = True, template = None,
     templateUrl = Some url, resolves = []\<rparr>"

lemma match_literals [simp]:
  "switchRouteMatcher fc on (page_route p url) = (if on = p then Some [] else None)"
  "switchRouteMatcher fc on (slash_route p t) = (if on = p then Some [] else None)"
  "switchRouteMatcher fc on (other_route url) = None"
  by (simp_all add: switchRouteMatcher_def page_route_def slash_route_def other_route_def regexp_exec_def exec_literals no_keys)

definition root :: jstring where "root = js ''/''"
definition status :: jstring where "status = js ''/status''"
definition status_slash :: jstring where "status_slash = js ''/status/''"
definition wifi :: jstring where "wifi = js ''/wifi''"
definition wifi_slash :: jstring where "wifi_slash = js ''/wifi/''"

lemmas paths = root_def status_def status_slash_def wifi_def wifi_slash_def

lemma items_of_paths:
  "path_items root = Some (map Lit root)" "path_items [] = Some (map Lit [])"
  "path_items status = Some (map Lit status)" "path_items status_slash = Some (map Lit status_slash)"
  "path_items wifi = Some (map Lit wifi)" "path_items wifi_slash = Some (map Lit wifi_slash)"
  by (simp_all add: paths js_def next_item_def meta_char_def Let_def)

lemma redirect_paths:
  "redirect_path root = []" "redirect_path status = status_slash" "redirect_path wifi = wifi_slash"
  by (simp_all add: paths js_def redirect_path_def)

lemma paths_differ:
  "root \<noteq> []" "status \<noteq> []" "wifi \<noteq> []" "status \<noteq> root" "status_slash \<noteq> root" "wifi \<noteq> root" "wifi_slash \<noteq> root"
  "status_slash \<noteq> []" "wifi_slash \<noteq> []" "status_slash \<noteq> status" "wifi \<noteq> status" "wifi_slash \<noteq> status"
  "wifi \<noteq> status_slash" "wifi_slash \<noteq> status_slash" "wifi_slash \<noteq> wifi" "js ''null'' \<noteq> []" "js ''null'' \<noteq> root" "js ''null'' \<noteq> status"
  "js ''null'' \<noteq> status_slash" "js ''null'' \<noteq> wifi" "js ''null'' \<noteq> wifi_slash"
  by (simp_all add: paths js_def)

lemma app_routes_are:
  "app_routes d =
     [(root, page_route root (js ''views/'' @ d)), ([], slash_route [] root),
      (status, page_route status (js ''views/status.html'')), (status_slash, slash_route status_slash status),
      (wifi, page_route wifi (js ''views/wifi.html'')), (wifi_slash, slash_route wifi_slash wifi),
      (js ''null'', other_route (js ''404.html''))]"
  unfolding app_routes_def root_def [symmetric] status_def [symmetric] wifi_def [symmetric]
  by (simp add: otherwise_def route_when_def Let_def page_config_def pathRegExp_def items_of_paths redirect_paths
      put_route_def route_key_def page_route_def slash_route_def other_route_def paths_differ paths_differ [symmetric])

section \<open>One change of the route\<close>

definition app_page :: "jstring \<Rightarrow> jstring \<Rightarrow> jstring" where
  "app_page d p = (if p = root then js ''views/'' @ d else if p = status then js ''views/status.html''
     else if p = wifi then js ''views/wifi.html'' else js ''404.html'')"

definition redirect_of :: "jstring \<Rightarrow> jstring option" where
  "redirect_of p = (if p = status_slash then Some status else if p = wifi_slash then Some wifi else None)"

definition on_slash :: "found \<Rightarrow> bool" where
  "on_slash n \<longleftrightarrow> dollar_route n = Some status_slash \<or> dollar_route n = Some wifi_slash"

definition shows_page :: "jstring \<Rightarrow> jstring \<Rightarrow> found \<Rightarrow> bool" where
  "shows_page d p n \<longleftrightarrow> redirectTo (the_route n) = None \<and> templateUrl (the_route n) = Some (app_page d p) \<and> \<not> on_slash n"

lemma route_fields [simp]:
  "redirectTo (page_route p u) = None" "templateUrl (page_route p u) = Some u" "reloadOnSearch (page_route p u)"
  "redirectTo (slash_route p t) = Some (RedirectPath t)"
  "redirectTo (other_route u) = None" "templateUrl (other_route u) = Some u" "reloadOnSearch (other_route u)"
  by (simp_all add: page_route_def slash_route_def other_route_def)

lemma find_app:
  "find_route fc p (app_routes d) =
     (if p = root then Some (root, page_route root (js ''views/'' @ d), [])
      else if p = [] then Some ([], slash_route [] root, [])
      else if p = status then Some (status, page_route status (js ''views/status.html''), [])
      else if p = status_slash then Some (status_slash, slash_route status_slash status, [])
      else if p = wifi then Some (wifi, page_route wifi (js ''views/wifi.html''), [])
      else if p = wifi_slash then Some (wifi_slash, slash_route wifi_slash wifi, [])
      else None)"
  by (simp add: app_routes_are)

lemma app_otherwise: "map_of (app_routes d) (route_key None) = Some (other_route (js ''404.html''))"
  using paths_differ by (simp add: app_routes_are route_key_def)

lemma parse_app:
  "parseRoute fc i p q (app_routes d) =
     (case find_route fc p (app_routes d) of
        Some (k, r, ps) \<Rightarrow>
          Some \<lparr>number = i, dollar_route = Some k, the_route = r, params = extend_params (extend_params [] q) ps, pathParams = ps\<rparr>
      | None \<Rightarrow> Some \<lparr>number = i, dollar_route = None, the_route = other_route (js ''404.html''), params = [], pathParams = []\<rparr>)"
  unfolding parseRoute_def app_otherwise option.map ..

lemma found_page:
  assumes "p \<noteq> []" "redirect_of p = None"
  shows "\<exists>n. parseRoute fc i p q (app_routes d) = Some n \<and> shows_page d p n \<and> reloadOnSearch (the_route n)"
proof -
  have p: "p \<noteq> status_slash" "p \<noteq> wifi_slash" using assms(2) by (auto simp: redirect_of_def split: if_splits)
  consider "p = root" | "p = status" | "p = wifi" | "p \<noteq> root" "p \<noteq> status" "p \<noteq> wifi" by blast
  then show ?thesis
    by cases (use assms(1) p paths_differ in \<open>simp_all add: parse_app find_app shows_page_def on_slash_def app_page_def\<close>)
qed

lemma found_slash:
  assumes "redirect_of p = Some t"
  shows "\<exists>n. parseRoute fc i p q (app_routes d) = Some n \<and> redirectTo (the_route n) = Some (RedirectPath t) \<and>
    dollar_route n = Some p \<and> on_slash n"
proof -
  consider "p = status_slash" "t = status" | "p = wifi_slash" "t = wifi"
    using assms by (auto simp: redirect_of_def split: if_splits)
  then show ?thesis
    by cases (use paths_differ in \<open>simp_all add: parse_app find_app on_slash_def\<close>)
qed

lemma redirect_targets:
  assumes "redirect_of p = Some t"
  shows "interpolate t ps = Some (t, ps)" "norm_path t = t" "redirect_of t = None" "t \<noteq> []" "t \<noteq> p"
  using assms by (auto simp: redirect_of_def paths js_def interpolate_def norm_path_def split: if_splits)

lemma same_params_refl [simp]: "same_params q q"
  by (simp add: same_params_def list_all_iff)

lemma prepare_found:
  assumes "parseRoute (fold_case w) (next_number st) (loc_path st) (loc_search st) (the_routes st) = Some n"
    and "reloadOnSearch (the_route n) \<or> (\<forall>l. current st = Some l \<longrightarrow> dollar_route l \<noteq> dollar_route n)"
    and "prevents w = (\<lambda>_ _. False)"
  shows "\<exists>ev. prepareRoute w st = (st\<lparr>preparedRoute := Some n, preparedRouteIsUpdateOnly := False,
    next_number := Suc (next_number st), events := ev\<rparr>, False)"
proof -
  have uo: "(case (Some n, current st) of
             (Some n, Some l) \<Rightarrow> dollar_route n = dollar_route l \<and> same_params (pathParams n) (pathParams l) \<and>
                                \<not> reloadOnSearch (the_route n) \<and> \<not> forceReload st
           | _ \<Rightarrow> False) = False"
    using assms(2) by (cases "current st") auto
  show ?thesis
    unfolding prepareRoute_def Let_def assms(1) uo by (auto simp: assms(3))
qed

lemma commit_page:
  assumes "preparedRoute st = Some n" "\<not> preparedRouteIsUpdateOnly st" "redirectTo (the_route n) = None"
  shows "commitRoute w st = st\<lparr>forceReload := False, current := Some n, loads := loads st @ [load_of (Some n) (current st)]\<rparr>"
  using assms by (simp add: commitRoute_def follow_redirect_def Let_def)

lemma commit_slash:
  assumes "preparedRoute st = Some n" "\<not> preparedRouteIsUpdateOnly st" "redirectTo (the_route n) = Some (RedirectPath t)"
    and "interpolate t (params n) = Some (t, params n)" "norm_path t = t"
  shows "\<exists>l. commitRoute w st = st\<lparr>forceReload := False, current := Some (n\<lparr>params := params n\<rparr>), loc_path := t,
    loc_search := params n, loads := l\<rparr>"
  using assms by (auto simp: commitRoute_def follow_redirect_def Let_def set_path_def set_search_def)

section \<open>Settling\<close>

definition quiet :: "jstring \<Rightarrow> nav \<Rightarrow> bool" where
  "quiet d st \<longleftrightarrow> the_routes st = app_routes d \<and> \<not> initializing st \<and> \<not> url_changed st \<and> loc_path st \<noteq> [] \<and>
     redirect_of (loc_path st) = None \<and> (\<exists>n. current st = Some n \<and> shows_page d (loc_path st) n)"

text \<open>A state from which a digest ends well.\<close>

definition ready :: "jstring \<Rightarrow> nav \<Rightarrow> bool" where
  "ready d st \<longleftrightarrow> the_routes st = app_routes d \<and> loc_path st \<noteq> [] \<and>
     (redirect_of (loc_path st) = None \<or> (\<forall>n. current st = Some n \<longrightarrow> \<not> on_slash n)) \<and>
     (initializing st \<or> url_changed st \<or> quiet d st)"

lemma change_page:
  assumes "the_routes st = app_routes d" "loc_path st \<noteq> []" "redirect_of (loc_path st) = None" "prevents w = (\<lambda>_ _. False)"
  shows "\<exists>st1 n. prepareRoute w st = (st1, False) \<and> preparedRoute st1 = Some n \<and> \<not> preparedRouteIsUpdateOnly st1 \<and>
    shows_page d (loc_path st) n \<and> the_routes st1 = app_routes d \<and> loc_path st1 = loc_path st \<and> loc_search st1 = loc_search st \<and>
    initializing st1 = initializing st \<and> browser_path st1 = browser_path st \<and> browser_search st1 = browser_search st"
proof -
  obtain n where n: "parseRoute (fold_case w) (next_number st) (loc_path st) (loc_search st) (app_routes d) = Some n"
      "shows_page d (loc_path st) n" "reloadOnSearch (the_route n)"
    using found_page [OF assms(2,3)] by blast
  from prepare_found [of w st n] n assms show ?thesis by auto
qed

lemma change_slash:
  assumes "the_routes st = app_routes d" "redirect_of (loc_path st) = Some t" "prevents w = (\<lambda>_ _. False)"
    and "\<forall>n. current st = Some n \<longrightarrow> \<not> on_slash n"
  shows "\<exists>st1 n. prepareRoute w st = (st1, False) \<and> preparedRoute st1 = Some n \<and> \<not> preparedRouteIsUpdateOnly st1 \<and>
    redirectTo (the_route n) = Some (RedirectPath t) \<and> the_routes st1 = app_routes d \<and>
    initializing st1 = initializing st \<and> browser_path st1 = browser_path st \<and> loc_path st1 = loc_path st"
proof -
  obtain n where n: "parseRoute (fold_case w) (next_number st) (loc_path st) (loc_search st) (app_routes d) = Some n"
      "redirectTo (the_route n) = Some (RedirectPath t)" "dollar_route n = Some (loc_path st)" "on_slash n"
    using found_slash [OF assms(2)] by blast
  have "\<forall>l. current st = Some l \<longrightarrow> dollar_route l \<noteq> dollar_route n"
    using assms(4) n(4) by (auto simp: on_slash_def)
  from prepare_found [of w st n] this n assms show ?thesis by auto
qed

lemma watch_page:
  assumes "the_routes st = app_routes d" "loc_path st \<noteq> []" "redirect_of (loc_path st) = None" "prevents w = (\<lambda>_ _. False)"
    and "initializing st \<or> url_changed st"
  shows "quiet d (locationWatch w st)"
proof -
  obtain st1 n where c: "prepareRoute w (st\<lparr>initializing := False\<rparr>) = (st1, False)" "preparedRoute st1 = Some n"
      "\<not> preparedRouteIsUpdateOnly st1" "shows_page d (loc_path st) n" "the_routes st1 = app_routes d" "loc_path st1 = loc_path st"
      "loc_search st1 = loc_search st" "\<not> initializing st1" "browser_path st1 = browser_path st" "browser_search st1 = browser_search st"
    using change_page [of "st\<lparr>initializing := False\<rparr>" d w] assms(1-4) by auto
  obtain st2 where st2: "st2 = (if url_changed st then st1\<lparr>browser_path := loc_path st1, browser_search := loc_search st1\<rparr> else st1)"
    by blast
  then have f: "preparedRoute st2 = Some n" "\<not> preparedRouteIsUpdateOnly st2" "the_routes st2 = app_routes d"
      "loc_path st2 = loc_path st" "\<not> initializing st2" "\<not> url_changed st2"
    using c by (auto simp: url_changed_def)
  have e: "locationWatch w st = commitRoute w st2"
    using c(1) assms(5) by (simp add: locationWatch_def st2)
  have "commitRoute w st2 = st2\<lparr>forceReload := False, current := Some n, loads := loads st2 @ [load_of (Some n) (current st2)]\<rparr>"
    using f c(4) by (intro commit_page) (auto simp: shows_page_def)
  then show ?thesis
    using f c(4) assms(2,3) unfolding e by (simp add: quiet_def url_changed_def)
qed

lemma watch_slash:
  assumes "the_routes st = app_routes d" "redirect_of (loc_path st) = Some t" "prevents w = (\<lambda>_ _. False)"
    and "\<forall>n. current st = Some n \<longrightarrow> \<not> on_slash n" "initializing st \<or> url_changed st"
  shows "the_routes (locationWatch w st) = app_routes d \<and> loc_path (locationWatch w st) = t \<and> url_changed (locationWatch w st)"
proof -
  obtain st1 n where c: "prepareRoute w (st\<lparr>initializing := False\<rparr>) = (st1, False)" "preparedRoute st1 = Some n"
      "\<not> preparedRouteIsUpdateOnly st1" "redirectTo (the_route n) = Some (RedirectPath t)" "the_routes st1 = app_routes d"
      "browser_path st1 = browser_path st" "loc_path st1 = loc_path st"
    using change_slash [of "st\<lparr>initializing := False\<rparr>" d t w] assms(1-4) by auto
  note t = redirect_targets [OF assms(2)]
  obtain st2 where st2: "st2 = (if url_changed st then st1\<lparr>browser_path := loc_path st1, browser_search := loc_search st1\<rparr> else st1)"
    by blast
  then have f: "preparedRoute st2 = Some n" "\<not> preparedRouteIsUpdateOnly st2" "the_routes st2 = app_routes d"
      "browser_path st2 = loc_path st"
    using c by (auto simp: url_changed_def)
  have e: "locationWatch w st = commitRoute w st2"
    using c(1) assms(5) by (simp add: locationWatch_def st2)
  obtain l where "commitRoute w st2 = st2\<lparr>forceReload := False, current := Some (n\<lparr>params := params n\<rparr>), loc_path := t,
      loc_search := params n, loads := l\<rparr>"
    using commit_slash [OF f(1,2) c(4) t(1,2)] by blast
  then show ?thesis
    using f(3,4) t(5) unfolding e by (simp add: url_changed_def)
qed

lemma settle_ready:
  assumes "ready d st" "prevents w = (\<lambda>_ _. False)" "2 \<le> ttl"
  shows "\<exists>st'. settle w ttl st = Some st' \<and> quiet d st'"
proof -
  obtain k where k: "ttl = Suc (Suc k)" using assms(3) by (auto simp: le_Suc_ex numeral_2_eq_2 dest!: le_Suc_ex)
  have q: "settle w j st' = Some st'" if "quiet d st'" for st' j
    using that by (subst settle.simps) (simp add: quiet_def)
  have one: "settle w (Suc j) st' = Some (locationWatch w st') \<and> quiet d (locationWatch w st')"
    if "the_routes st' = app_routes d" "loc_path st' \<noteq> []" "redirect_of (loc_path st') = None" "initializing st' \<or> url_changed st'" for st' j
    using that watch_page [OF that(1-3) assms(2) that(4)] q by (subst settle.simps) simp
  show ?thesis
  proof (cases "initializing st \<or> url_changed st")
    case False
    with assms(1) q show ?thesis by (auto simp: ready_def)
  next
    case True
    show ?thesis
    proof (cases "redirect_of (loc_path st)")
      case None
      with one [of st "Suc k"] True assms(1) show ?thesis by (auto simp: ready_def k)
    next
      case (Some t)
      note w = watch_slash [OF _ Some assms(2) _ True]
      have "the_routes (locationWatch w st) = app_routes d \<and> loc_path (locationWatch w st) = t \<and> url_changed (locationWatch w st)"
        using assms(1) Some by (intro watch_slash [OF _ Some assms(2) _ True]) (auto simp: ready_def)
      then have "\<exists>st'. settle w (Suc k) (locationWatch w st) = Some st' \<and> quiet d st'"
        using one [of "locationWatch w st" k] redirect_targets [OF Some] by auto
      with True show ?thesis unfolding k by (subst settle.simps) simp
    qed
  qed
qed

section \<open>Every step ends well\<close>

lemma norm_path_nonempty [simp]: "norm_path t \<noteq> []"
  by (cases t) (simp_all add: norm_path_def)

lemma quiet_ready: "quiet d st \<Longrightarrow> ready d st"
  by (auto simp: ready_def quiet_def)

lemma quiet_current: "quiet d st \<Longrightarrow> current st = Some n \<Longrightarrow> \<not> on_slash n"
  by (auto simp: quiet_def shows_page_def)

text \<open>A change of the location alone.\<close>

lemma moved_ready:
  assumes "quiet d st"
  shows "ready d (set_search q (set_path t st))"
proof -
  let ?st = "set_search q (set_path t st)"
  have f: "the_routes ?st = the_routes st" "current ?st = current st" "initializing ?st = initializing st"
      "browser_path ?st = browser_path st" "loc_path ?st \<noteq> []"
    by (simp_all add: set_search_def set_path_def)
  have "quiet d ?st" if "\<not> url_changed ?st"
  proof -
    have "loc_path ?st = loc_path st"
      using that assms f(4) by (auto simp: url_changed_def quiet_def)
    with that assms f show ?thesis by (auto simp: quiet_def)
  qed
  with assms f show ?thesis
    using quiet_current [OF assms] by (auto simp: ready_def quiet_def)
qed

lemma reload_quiet:
  assumes "quiet d st" "prevents w = (\<lambda>_ _. False)"
  shows "quiet d (reload w st)"
proof -
  obtain st1 n where c: "prepareRoute w (st\<lparr>forceReload := True\<rparr>) = (st1, False)" "preparedRoute st1 = Some n"
      "\<not> preparedRouteIsUpdateOnly st1" "shows_page d (loc_path st) n" "the_routes st1 = app_routes d" "loc_path st1 = loc_path st"
      "loc_search st1 = loc_search st" "\<not> initializing st1" "browser_path st1 = browser_path st" "browser_search st1 = browser_search st"
    using change_page [of "st\<lparr>forceReload := True\<rparr>" d w] assms by (auto simp: quiet_def)
  have "commitRoute w st1 = st1\<lparr>forceReload := False, current := Some n, loads := loads st1 @ [load_of (Some n) (current st1)]\<rparr>"
    using c by (intro commit_page) (auto simp: shows_page_def)
  then show ?thesis
    using c assms(1) by (auto simp: reload_def quiet_def url_changed_def)
qed

lemma onUrlChange_ready:
  assumes "quiet d st" "prevents w = (\<lambda>_ _. False)"
  shows "ready d (onUrlChange w t q st)"
proof -
  let ?p = "norm_path t" and ?st = "st\<lparr>loc_path := norm_path t, loc_search := q\<rparr>"
  show ?thesis
  proof (cases "redirect_of ?p")
    case None
    obtain st1 n where c: "prepareRoute w ?st = (st1, False)" "preparedRoute st1 = Some n"
        "\<not> preparedRouteIsUpdateOnly st1" "shows_page d ?p n" "the_routes st1 = app_routes d" "loc_path st1 = ?p" "loc_search st1 = q"
      using change_page [of ?st d w] None assms by (auto simp: quiet_def)
    let ?st2 = "st1\<lparr>initializing := False, browser_path := ?p, browser_search := q\<rparr>"
    have "commitRoute w ?st2 = ?st2\<lparr>forceReload := False, current := Some n, loads := loads ?st2 @ [load_of (Some n) (current ?st2)]\<rparr>"
      using c by (intro commit_page) (auto simp: shows_page_def)
    then have "quiet d (onUrlChange w t q st)"
      using c None by (simp add: onUrlChange_def quiet_def url_changed_def)
    then show ?thesis by (rule quiet_ready)
  next
    case (Some u)
    obtain st1 n where c: "prepareRoute w ?st = (st1, False)" "preparedRoute st1 = Some n" "\<not> preparedRouteIsUpdateOnly st1"
        "redirectTo (the_route n) = Some (RedirectPath u)" "the_routes st1 = app_routes d"
      using change_slash [of ?st d u w] Some assms quiet_current [OF assms(1)] by (auto simp: quiet_def)
    note t = redirect_targets [OF Some]
    let ?st2 = "st1\<lparr>initializing := False, browser_path := ?p, browser_search := q\<rparr>"
    obtain l where "commitRoute w ?st2 = ?st2\<lparr>forceReload := False, current := Some (n\<lparr>params := params n\<rparr>), loc_path := u,
        loc_search := params n, loads := l\<rparr>"
      using commit_slash [of ?st2 n u w] c t by auto
    then show ?thesis
      using c t by (simp add: onUrlChange_def ready_def url_changed_def)
  qed
qed

lemma loaded_quiet: "quiet d st \<Longrightarrow> quiet d (loaded i ok st)"
  by (auto simp: loaded_def Let_def quiet_def url_changed_def)

lemma step_quiet:
  assumes "quiet d st" "prevents w = (\<lambda>_ _. False)" "2 \<le> ttl"
  shows "\<exists>st'. nav_step w ttl st x = Some st' \<and> quiet d st'"
proof -
  have "ready d (case x of
        Go t q \<Rightarrow> set_search q (set_path t st)
      | UrlChange t q \<Rightarrow> onUrlChange w t q st
      | Reload \<Rightarrow> reload w st
      | UpdateParams q \<Rightarrow> (case updateParams q st of Some st \<Rightarrow> st | None \<Rightarrow> st)
      | Loaded i ok \<Rightarrow> loaded i ok st
      | JustDigest \<Rightarrow> st)"
  proof (cases x)
    case (UpdateParams q)
    have "ready d st'" if "updateParams q st = Some st'" for st'
      using that moved_ready [OF assms(1)] by (auto simp: updateParams_def split: option.splits if_splits prod.splits)
    with UpdateParams quiet_ready [OF assms(1)] show ?thesis by (auto split: option.splits)
  qed (use moved_ready [OF assms(1)] onUrlChange_ready [OF assms(1,2)] quiet_ready [OF reload_quiet [OF assms(1,2)]]
        quiet_ready [OF loaded_quiet [OF assms(1)]] quiet_ready [OF assms(1)] in simp_all)
  from settle_ready [OF this assms(2,3)] show ?thesis by (simp add: nav_step_def)
qed

lemma run_quiet:
  assumes "quiet d st" "prevents w = (\<lambda>_ _. False)" "2 \<le> ttl"
  shows "\<exists>st'. nav_run w ttl st xs = Some st' \<and> quiet d st'"
  using assms(1)
proof (induction xs arbitrary: st)
  case (Cons x xs)
  obtain st1 where "nav_step w ttl st x = Some st1" "quiet d st1" using step_quiet [OF Cons.prems assms(2,3)] by blast
  with Cons.IH show ?case by simp
qed simp

lemma start_ready: "ready d (app_start d t q)"
  by (simp add: ready_def app_start_def)

text \<open>
  C29. With the routes of the application, whatever the page's URL is at the start and whatever the user, the
  history, reloads, new parameters and templates then do, no digest exceeds its limit, and after each the current
  route has no redirection and its template is the one of the path: the configured start page, the status page,
  the wifi page, or the page for unknown paths; a path with a trailing slash ends at the page without it.
\<close>
theorem app_shows_page:
  assumes "prevents w = (\<lambda>_ _. False)" "2 \<le> ttl"
  shows "\<exists>st n. nav_run w ttl (app_start d t q) (JustDigest # xs) = Some st \<and> current st = Some n \<and>
    redirectTo (the_route n) = None \<and> templateUrl (the_route n) = Some (app_page d (loc_path st)) \<and>
    redirect_of (loc_path st) = None"
proof -
  obtain st1 where st1: "settle w ttl (app_start d t q) = Some st1" "quiet d st1"
    using settle_ready [OF start_ready assms] by blast
  obtain st where "nav_run w ttl st1 xs = Some st" "quiet d st"
    using run_quiet [OF st1(2) assms] by blast
  with st1 show ?thesis by (auto simp: nav_step_def quiet_def shows_page_def)
qed

definition demo_world :: world where
  "demo_world = \<lparr>fold_case = (\<lambda>c. c), prevents = (\<lambda>_ _. False), redirect_url = (\<lambda>_ _ p q. (p, q))\<rparr>"

lemma app_shows_page_witness:
  "\<exists>st n. nav_run demo_world 10 (app_start (js ''status.html'') (js ''/nowhere'') []) [JustDigest, Go (js ''/wifi/'') []] = Some st \<and>
    current st = Some n \<and> redirectTo (the_route n) = None \<and>
    templateUrl (the_route n) = Some (app_page (js ''status.html'') (loc_path st)) \<and> redirect_of (loc_path st) = None"
  by (rule app_shows_page) (simp_all add: demo_world_def)

end
