(* ===== verification/NgNumber.thy ===== *)
theory NgNumber
  imports NgLexer
begin

text \<open>
  The number and currency filters of \<open>assets/public/components/angular/angular.js\<close>: \<open>parse\<close>, \<open>roundNumber\<close>
  and \<open>formatNumber\<close>. A finite number is its sign, its shortest decimal digits and the position of the
  point before them, as ECMAScript chooses them; the text that \<open>Math.abs(number) + ''\<close> has is written out
  in \<open>ecma_text\<close>. Fraction sizes are integers.
\<close>

section \<open>Numbers and their texts\<close>

text \<open>\<open>Finite neg ds n\<close> is the number \<open>0.ds\<close> times ten to the \<open>n\<close>; zero has the digit 0 and \<open>n = 1\<close>.\<close>

datatype js_number = NotANumber | Infinite bool | Finite bool "nat list" int

definition digit_text :: "nat list \<Rightarrow> jstring" where
  "digit_text ds = map ((+) 48) ds"

text \<open>Number::toString of ECMAScript for a positive number, or zero.\<close>

definition ecma_text :: "nat list \<Rightarrow> int \<Rightarrow> jstring" where
  "ecma_text ds n =
     (let k = int (length ds) in
      if k \<le> n \<and> n \<le> 21 then digit_text ds @ replicate (nat (n - k)) 48
      else if 0 < n \<and> n \<le> 21 then digit_text (take (nat n) ds) @ [46] @ digit_text (drop (nat n) ds)
      else if - 6 < n \<and> n \<le> 0 then [48, 46] @ replicate (nat (- n)) 48 @ digit_text ds
      else digit_text (take 1 ds) @ (if k > 1 then 46 # digit_text (drop 1 ds) else []) @ [101] @
        (if n - 1 < 0 then [45] else [43]) @ js (show_nat (nat \<bar>n - 1\<bar>)))"

section \<open>Reading the text\<close>

text \<open>\<open>{ d: digits, e: exponent, i: numberOfIntegerDigits }\<close>\<close>

record parsed =
  pdigits :: "nat list"
  pexponent :: int
  pinteger :: int

definition MAX_DIGITS :: int where
  "MAX_DIGITS = 22"

text \<open>The index of the first code unit with a property, or -1.\<close>

definition search_index :: "(nat \<Rightarrow> bool) \<Rightarrow> jstring \<Rightarrow> int" where
  "search_index P s = (if \<exists>c\<in>set s. P c then int (length (takeWhile (\<lambda>c. \<not> P c) s)) else - 1)"

text \<open>The part of \<open>parse\<close> that counts the zeros and collects the digits.\<close>

definition significant_digits :: "jstring \<Rightarrow> int \<Rightarrow> nat list \<times> int" where
  "significant_digits numStr numberOfIntegerDigits =
     (let i = length (takeWhile ((=) 48) numStr) in
      if i = length numStr then ([0], 1)
      else (map (\<lambda>c. c - 48) (rev (dropWhile ((=) 48) (rev (drop i numStr)))), numberOfIntegerDigits - int i))"

text \<open>\<open>None\<close> where the code goes on with \<open>NaN\<close>, since the text behind the \<open>e\<close> is not a numeral.\<close>

definition parse_number :: "jstring \<Rightarrow> parsed option" where
  "parse_number numStr =
     (let point = search_index ((=) 46) numStr;
          numStr = (if point > - 1 then remove1 46 numStr else numStr);
          i = search_index (\<lambda>c. c = 101 \<or> c = 69) numStr
      in case (if i > 0 then map_option (\<lambda>x. ((if point < 0 then i else point) + x, take (nat i) numStr))
                               (exponent_value (drop (nat i + 1) numStr))
               else Some (if point < 0 then int (length numStr) else point, numStr)) of
           None \<Rightarrow> None
         | Some (numberOfIntegerDigits, numStr) \<Rightarrow>
             (case significant_digits numStr numberOfIntegerDigits of (digits, numberOfIntegerDigits) \<Rightarrow>
                Some (if numberOfIntegerDigits > MAX_DIGITS
                      then \<lparr>pdigits = take (nat (MAX_DIGITS - 1)) digits, pexponent = numberOfIntegerDigits - 1, pinteger = 1\<rparr>
                      else \<lparr>pdigits = digits, pexponent = 0, pinteger = numberOfIntegerDigits\<rparr>)))"

section \<open>Rounding\<close>

text \<open>\<open>digits[k]\<close>, undefined outside the array.\<close>

definition digit_at :: "nat list \<Rightarrow> int \<Rightarrow> nat option" where
  "digit_at ds k = (if 0 \<le> k \<and> k < int (length ds) then Some (ds ! nat k) else None)"

text \<open>\<open>digits.reduceRight\<close> with the function that carries.\<close>

fun carry_digits :: "nat list \<Rightarrow> nat \<times> nat list" where
  "carry_digits [] = (0, [])"
| "carry_digits (d # ds) = (case carry_digits ds of (carry, ds) \<Rightarrow> ((d + carry) div 10, (d + carry) mod 10 # ds))"

definition fraction_size :: "int option \<Rightarrow> int \<Rightarrow> int \<Rightarrow> int \<Rightarrow> int" where
  "fraction_size fractionSize minFrac maxFrac fractionLen =
     (case fractionSize of None \<Rightarrow> min (max minFrac fractionLen) maxFrac | Some f \<Rightarrow> f)"

text \<open>What both branches do with the digits behind \<open>roundAt\<close>: the digits, \<open>i\<close>, \<open>fractionLen\<close> and \<open>roundAt\<close>.\<close>

definition drop_digits :: "nat list \<Rightarrow> int \<Rightarrow> int \<Rightarrow> int \<Rightarrow> nat list \<times> int \<times> int \<times> int" where
  "drop_digits digits i fractionLen fractionSize =
     (let roundAt = fractionSize + i in
      if roundAt > 0
      then (let digits = take (nat (max i roundAt)) digits
            in (take (nat roundAt) digits @ replicate (length digits - nat roundAt) 0, i, fractionLen, roundAt))
      else (replicate (nat (max 1 (fractionSize + 1))) 0, 1, max 0 fractionLen, fractionSize + 1))"

definition round_up :: "int \<Rightarrow> nat list \<Rightarrow> int \<Rightarrow> nat list \<times> int" where
  "round_up roundAt digits i =
     (if roundAt - 1 < 0 then (1 # replicate (nat (- roundAt)) 0 @ digits, i + int (nat (- roundAt)) + 1)
      else (digits[nat (roundAt - 1) := digits ! nat (roundAt - 1) + 1], i))"

definition round_digits :: "int \<Rightarrow> parsed \<Rightarrow> nat list \<times> int" where
  "round_digits fractionSize p =
     (let fractionLen = int (length (pdigits p)) - pinteger p;
          digit = digit_at (pdigits p) (fractionSize + pinteger p);
          (digits, i, fractionLen, roundAt) = drop_digits (pdigits p) (pinteger p) fractionLen fractionSize;
          (digits, i) = (if (case digit of None \<Rightarrow> False | Some x \<Rightarrow> x \<ge> 5) then round_up roundAt digits i else (digits, i))
      in (digits @ replicate (nat (max 0 fractionSize - fractionLen)) 0, i))"

definition roundNumber :: "int option \<Rightarrow> int \<Rightarrow> int \<Rightarrow> parsed \<Rightarrow> parsed" where
  "roundNumber fractionSize minFrac maxFrac p =
     (let fractionSize = fraction_size fractionSize minFrac maxFrac (int (length (pdigits p)) - pinteger p);
          (digits, i) = round_digits fractionSize p;
          (carry, digits) = carry_digits digits
      in if carry \<noteq> 0 then p\<lparr>pdigits := carry # digits, pinteger := i + 1\<rparr> else p\<lparr>pdigits := digits, pinteger := i\<rparr>)"

section \<open>Formatting\<close>

record pattern =
  gSize :: nat
  lgSize :: nat
  maxFrac :: int
  minFrac :: int
  negPre :: jstring
  negSuf :: jstring
  posPre :: jstring
  posSuf :: jstring

text \<open>\<open>digits.splice(-k)\<close>: what stays and what is taken off; \<open>-0\<close> is the start.\<close>

definition splice_last :: "nat \<Rightarrow> 'a list \<Rightarrow> 'a list \<times> 'a list" where
  "splice_last k xs = (if k = 0 then ([], xs) else (take (length xs - k) xs, drop (length xs - k) xs))"

function group_loop :: "nat \<Rightarrow> nat list \<Rightarrow> jstring list \<Rightarrow> nat list \<times> jstring list" where
  "group_loop g digits groups =
     (if g < length digits then group_loop g (fst (splice_last g digits)) (digit_text (snd (splice_last g digits)) # groups)
      else (digits, groups))"
  by auto
termination by (relation "measure (\<lambda>(g, digits, groups). length digits)") (auto simp: splice_last_def)

declare group_loop.simps [simp del]

definition group_digits :: "pattern \<Rightarrow> nat list \<Rightarrow> jstring list" where
  "group_digits pat digits =
     (let (digits, groups) = (if length digits > lgSize pat
            then (fst (splice_last (lgSize pat) digits), [digit_text (snd (splice_last (lgSize pat) digits))]) else (digits, []));
          (digits, groups) = group_loop (gSize pat) digits groups
      in if digits \<noteq> [] then digit_text digits # groups else groups)"

text \<open>\<open>groups.join(groupSep)\<close>\<close>

fun join :: "jstring \<Rightarrow> jstring list \<Rightarrow> jstring" where
  "join sep [] = []"
| "join sep [x] = x"
| "join sep (x # xs) = x @ sep @ join sep xs"

text \<open>The digits front and behind the point, with the zeros of a small number.\<close>

definition split_digits :: "nat list \<Rightarrow> int \<Rightarrow> nat list \<times> nat list" where
  "split_digits digits integerLen =
     (let digits = replicate (nat (- integerLen)) 0 @ digits; integerLen = max 0 integerLen
      in if integerLen > 0 then (take (nat integerLen) digits, drop (nat integerLen) digits) else ([0], digits))"

definition int_text :: "int \<Rightarrow> jstring" where
  "int_text k = (if k < 0 then [45] else []) @ js (show_nat (nat \<bar>k\<bar>))"

text \<open>The text without prefix and suffix, and whether it is zero.\<close>

definition format_parsed :: "parsed \<Rightarrow> pattern \<Rightarrow> jstring \<Rightarrow> jstring \<Rightarrow> int option \<Rightarrow> jstring \<times> bool" where
  "format_parsed p pat groupSep decimalSep fractionSize =
     (let p = roundNumber fractionSize (minFrac pat) (maxFrac pat) p;
          isZero = list_all ((=) 0) (pdigits p);
          (digits, decimals) = split_digits (pdigits p) (pinteger p)
      in (join groupSep (group_digits pat digits) @ (if decimals \<noteq> [] then decimalSep @ digit_text decimals else []) @
          (if pexponent p \<noteq> 0 then js ''e+'' @ int_text (pexponent p) else []), isZero))"

definition affix :: "bool \<Rightarrow> pattern \<Rightarrow> jstring \<Rightarrow> jstring" where
  "affix neg pat s = (if neg then negPre pat @ s @ negSuf pat else posPre pat @ s @ posSuf pat)"

definition formatNumber :: "js_number \<Rightarrow> pattern \<Rightarrow> jstring \<Rightarrow> jstring \<Rightarrow> int option \<Rightarrow> jstring option" where
  "formatNumber number pat groupSep decimalSep fractionSize =
     (case number of
        NotANumber \<Rightarrow> Some []
      | Infinite neg \<Rightarrow> Some (affix neg pat [8734])
      | Finite neg ds n \<Rightarrow>
          map_option (\<lambda>p. case format_parsed p pat groupSep decimalSep fractionSize of
              (formattedText, isZero) \<Rightarrow> affix (neg \<and> \<not> isZero) pat formattedText)
            (parse_number (ecma_text ds n)))"

section \<open>The filters\<close>

record number_formats =
  CURRENCY_SYM :: jstring
  DECIMAL_SEP :: jstring
  GROUP_SEP :: jstring
  NUMBER_PATTERN :: pattern
  CURRENCY_PATTERN :: pattern

text \<open>The locale \<open>en-us\<close>.\<close>

definition en_us :: number_formats where
  "en_us = \<lparr>CURRENCY_SYM = js ''$'', DECIMAL_SEP = js ''.'', GROUP_SEP = js '','',
     NUMBER_PATTERN = \<lparr>gSize = 3, lgSize = 3, maxFrac = 3, minFrac = 0, negPre = js ''-'', negSuf = [], posPre = [], posSuf = []\<rparr>,
     CURRENCY_PATTERN = \<lparr>gSize = 3, lgSize = 3, maxFrac = 2, minFrac = 2, negPre = [45, 164], negSuf = [], posPre = [164], posSuf = []\<rparr>\<rparr>"

text \<open>\<open>None\<close> as an argument is null or undefined, which is passed through.\<close>

definition numberFilter :: "number_formats \<Rightarrow> js_number option \<Rightarrow> int option \<Rightarrow> jstring option" where
  "numberFilter formats number fractionSize =
     (case number of None \<Rightarrow> None
      | Some x \<Rightarrow> formatNumber x (NUMBER_PATTERN formats) (GROUP_SEP formats) (DECIMAL_SEP formats) fractionSize)"

text \<open>
  What the replacement \<open>rest\<close> of a match of one code unit stands for, when \<open>front\<close> and \<open>after\<close> are the
  text around the match: the patterns \<open>$$\<close>, \<open>$&\<close>, \<open>$`\<close> and \<open>$'\<close> of \<open>String.prototype.replace\<close>.
\<close>

fun replacement :: "jstring \<Rightarrow> nat \<Rightarrow> jstring \<Rightarrow> jstring \<Rightarrow> jstring" where
  "replacement front c after [] = []"
| "replacement front c after [a] = [a]"
| "replacement front c after (a # b # rest) =
     (if a = 36 \<and> b = 36 then 36 # replacement front c after rest
      else if a = 36 \<and> b = 38 then c # replacement front c after rest
      else if a = 36 \<and> b = 96 then front @ replacement front c after rest
      else if a = 36 \<and> b = 39 then after @ replacement front c after rest
      else a # replacement front c after (b # rest))"

fun replace_all :: "jstring \<Rightarrow> nat \<Rightarrow> jstring \<Rightarrow> jstring \<Rightarrow> jstring" where
  "replace_all front c symbol [] = []"
| "replace_all front c symbol (a # s) =
     (if a = c then replacement front c s symbol else [a]) @ replace_all (front @ [a]) c symbol s"

definition currencyFilter :: "number_formats \<Rightarrow> js_number option \<Rightarrow> jstring option \<Rightarrow> int option \<Rightarrow> jstring option" where
  "currencyFilter formats amount currencySymbol fractionSize =
     (let currencySymbol = (case currencySymbol of None \<Rightarrow> CURRENCY_SYM formats | Some s \<Rightarrow> s);
          fractionSize = (case fractionSize of None \<Rightarrow> maxFrac (CURRENCY_PATTERN formats) | Some f \<Rightarrow> f)
      in case amount of None \<Rightarrow> None
         | Some x \<Rightarrow> map_option (replace_all [] 164 currencySymbol)
             (formatNumber x (CURRENCY_PATTERN formats) (GROUP_SEP formats) (DECIMAL_SEP formats) (Some fractionSize)))"

section \<open>Values of digits\<close>

definition digits_val :: "nat list \<Rightarrow> nat" where
  "digits_val ds = foldl (\<lambda>n d. 10 * n + d) 0 ds"

lemma digits_val_from: "foldl (\<lambda>n d. 10 * n + d) a ds = a * 10 ^ length ds + digits_val ds"
proof (induction ds arbitrary: a)
  case (Cons d ds)
  have "digits_val (d # ds) = foldl (\<lambda>n d. 10 * n + d) d ds" by (simp add: digits_val_def)
  then show ?case using Cons [of "10 * a + d"] Cons [of d] by (simp add: algebra_simps del: foldl_Cons) simp
qed (simp add: digits_val_def)

lemma digits_val_append: "digits_val (xs @ ys) = digits_val xs * 10 ^ length ys + digits_val ys"
  using digits_val_from [of "digits_val xs" ys] by (simp add: digits_val_def)

lemma digits_val_simps [simp]:
  "digits_val [] = 0" "digits_val (d # ds) = d * 10 ^ length ds + digits_val ds"
  using digits_val_append [of "[d]" ds] by (simp_all add: digits_val_def)

lemma digits_val_zeros [simp]: "digits_val (replicate k 0) = 0"
  by (induction k) auto

lemma digits_val_less: "\<forall>d\<in>set ds. d < 10 \<Longrightarrow> digits_val ds < 10 ^ length ds"
proof (induction ds)
  case (Cons d ds)
  then have "d * 10 ^ length ds + digits_val ds < d * 10 ^ length ds + 10 ^ length ds" by simp
  also have "\<dots> = (d + 1) * 10 ^ length ds" by simp
  also have "\<dots> \<le> 10 * 10 ^ length ds" using Cons.prems by (intro mult_le_mono1) auto
  finally show ?case by simp
qed simp

lemma digits_val_bump: "k < length ds \<Longrightarrow> digits_val (ds[k := ds ! k + 1]) = digits_val ds + 10 ^ (length ds - 1 - k)"
proof (induction ds arbitrary: k)
  case (Cons d ds)
  then show ?case by (cases k) auto
qed simp

lemma carry_digits_value:
  "carry_digits ds = (c, ds') \<Longrightarrow> length ds' = length ds \<and> c * 10 ^ length ds + digits_val ds' = digits_val ds \<and>
     (\<forall>d\<in>set ds'. d < 10)"
proof (induction ds arbitrary: c ds')
  case (Cons d ds)
  obtain c1 ds1 where 1: "carry_digits ds = (c1, ds1)" by fastforce
  with Cons.prems have e: "c = (d + c1) div 10" "ds' = (d + c1) mod 10 # ds1" by auto
  note IH = Cons.IH [OF 1]
  have "(c * 10 + (d + c1) mod 10) * 10 ^ length ds = (d + c1) * 10 ^ length ds"
    using e(1) by (metis div_mult_mod_eq)
  then have "c * 10 ^ length (d # ds) + (d + c1) mod 10 * 10 ^ length ds = d * 10 ^ length ds + c1 * 10 ^ length ds"
    by (simp add: algebra_simps)
  with e(2) IH show ?case by simp
qed simp

lemma carry_digits_bound: "\<forall>d\<in>set ds. d \<le> 10 \<Longrightarrow> fst (carry_digits ds) \<le> 1"
  by (induction ds) (auto split: prod.splits)

section \<open>Rounding to the nearest\<close>

text \<open>The number that the digits and the place of the point stand for, and the nearest multiple of a power of ten.\<close>

definition number_at :: "nat list \<Rightarrow> int \<Rightarrow> rat" where
  "number_at ds i = of_nat (digits_val ds) * 10 powi (i - int (length ds))"

definition nearest :: "rat \<Rightarrow> int" where
  "nearest q = \<lfloor>q + 1 / 2\<rfloor>"

lemma number_at_divide: "r = int (length ds) - int m \<Longrightarrow> number_at ds r = of_nat (digits_val ds) / 10 ^ m"
  by (simp add: number_at_def power_int_minus divide_inverse)

lemma smaller_quotient: "0 \<le> (x :: rat) \<Longrightarrow> x < 1 \<Longrightarrow> 2 \<le> y \<Longrightarrow> x / y < 1 / 2"
  by (simp add: divide_less_eq)

lemma nearest_of_int [simp]: "nearest (of_int k) = k"
  unfolding nearest_def by (rule floor_unique) simp_all

lemma digits_split:
  assumes "k < length ds"
  shows "digits_val ds = digits_val (take k ds) * 10 ^ (length ds - k) + ds ! k * 10 ^ (length ds - k - 1) + digits_val (drop (Suc k) ds)"
proof -
  have "ds = take k ds @ ds ! k # drop (Suc k) ds" using assms by (simp add: id_take_nth_drop)
  then have "digits_val ds = digits_val (take k ds @ ds ! k # drop (Suc k) ds)" by simp
  also have "\<dots> = digits_val (take k ds) * 10 ^ (length ds - k) + ds ! k * 10 ^ (length ds - k - 1) + digits_val (drop (Suc k) ds)"
    using assms by (simp add: digits_val_append Suc_diff_Suc)
  finally show ?thesis .
qed

lemma nearest_below:
  fixes a b :: nat and d :: nat
  assumes "b < 10 ^ m" "d < 10"
  shows "nearest (of_nat (a * 10 ^ Suc m + d * 10 ^ m + b) / 10 ^ Suc m) = int a + (if d \<ge> 5 then 1 else 0)"
proof -
  have eq: "(of_nat (a * 10 ^ Suc m + d * 10 ^ m + b) / 10 ^ Suc m :: rat) = of_nat a + (of_nat d + of_nat b / 10 ^ m) / 10"
    by (simp add: field_simps)
  have "(of_nat b :: rat) < of_nat (10 ^ m)" using assms(1) by (simp only: of_nat_less_iff)
  then have b: "0 \<le> (of_nat b / 10 ^ m :: rat)" "(of_nat b / 10 ^ m :: rat) < 1" by simp_all
  obtain x y :: rat where xy: "x = of_nat b / 10 ^ m" "y = of_nat d" by blast
  have d: "if d \<ge> 5 then 5 \<le> y \<and> y \<le> 9 else 0 \<le> y \<and> y \<le> 4"
    using assms(2) of_nat_le_iff [of 5 d, where 'a = rat] of_nat_le_iff [of d 4, where 'a = rat] of_nat_le_iff [of d 9, where 'a = rat]
    unfolding xy by auto
  show ?thesis
    unfolding nearest_def eq xy [symmetric]
  proof (rule floor_unique)
    show "of_int (int a + (if d \<ge> 5 then 1 else 0)) \<le> of_nat a + (y + x) / 10 + (1 / 2 :: rat)"
      using b(1) [folded xy] d by (cases "d \<ge> 5") (simp_all add: add_divide_distrib)
    show "of_nat a + (y + x) / 10 + (1 / 2 :: rat) < of_int (int a + (if d \<ge> 5 then 1 else 0)) + 1"
      using b(2) [folded xy] d by (cases "d \<ge> 5") (simp_all add: add_divide_distrib)
  qed
qed

text \<open>
  The nearest integer to the digits with the point at \<open>r\<close>: all digits before \<open>r\<close>, and one more when the
  digit there is at least five.
\<close>

definition rounds_up :: "nat list \<Rightarrow> int \<Rightarrow> bool" where
  "rounds_up ds r \<longleftrightarrow> (case digit_at ds r of None \<Rightarrow> False | Some x \<Rightarrow> x \<ge> 5)"

lemma nearest_digits:
  assumes "\<forall>d\<in>set ds. d < 10"
  shows "nearest (number_at ds r) =
    int (digits_val (take (nat r) ds)) * 10 ^ nat (r - int (length ds)) + (if rounds_up ds r then 1 else 0)"
proof -
  let ?L = "int (length ds)"
  consider "?L \<le> r" | "0 \<le> r" "r < ?L" | "r < 0" by linarith
  then show ?thesis
  proof cases
    case 1
    then have "number_at ds r = of_int (int (digits_val ds) * 10 ^ nat (r - ?L))"
      by (simp add: number_at_def power_int_def)
    then have "nearest (number_at ds r) = int (digits_val ds) * 10 ^ nat (r - ?L)" by (simp only: nearest_of_int)
    moreover have "\<not> rounds_up ds r" "take (nat r) ds = ds" using 1 by (simp_all add: rounds_up_def digit_at_def)
    ultimately show ?thesis by simp
  next
    case 2
    define k where "k = nat r"
    define m where "m = length ds - Suc k"
    have k: "k < length ds" "r = int k" using 2 by (auto simp: k_def)
    have b: "digits_val (drop (Suc k) ds) < 10 ^ m"
      using digits_val_less [of "drop (Suc k) ds"] assms by (auto simp: m_def dest: in_set_dropD)
    have v: "digits_val ds = digits_val (take k ds) * 10 ^ Suc m + ds ! k * 10 ^ m + digits_val (drop (Suc k) ds)"
      using digits_split [OF k(1)] k(1) by (simp add: m_def Suc_diff_Suc)
    have "number_at ds r = of_nat (digits_val ds) / 10 ^ Suc m"
      using k by (intro number_at_divide) (simp add: m_def)
    then have "nearest (number_at ds r) = int (digits_val (take k ds)) + (if ds ! k \<ge> 5 then 1 else 0)"
      using nearest_below [OF b, of "ds ! k" "digits_val (take k ds)"] v k(1) assms by simp
    moreover have "rounds_up ds r \<longleftrightarrow> ds ! k \<ge> 5" "nat (r - ?L) = 0" "nat r = k"
      using k by (simp_all add: rounds_up_def digit_at_def)
    ultimately show ?thesis by simp
  next
    case 3
    have "digits_val ds < 10 ^ length ds" by (rule digits_val_less) (use assms in blast)
    then have "(of_nat (digits_val ds) :: rat) < of_nat (10 ^ length ds)" by (simp only: of_nat_less_iff)
    then have less: "(of_nat (digits_val ds) :: rat) < 10 ^ length ds" by simp
    have "number_at ds r = of_nat (digits_val ds) / 10 ^ (length ds + Suc (nat (- r - 1)))"
      using 3 by (intro number_at_divide) simp
    also have "\<dots> = of_nat (digits_val ds) / 10 ^ length ds / 10 ^ Suc (nat (- r - 1))"
      by (simp only: power_add divide_divide_eq_left)
    finally have eq: "number_at ds r = of_nat (digits_val ds) / 10 ^ length ds / 10 ^ Suc (nat (- r - 1))" .
    have "of_nat (digits_val ds) / 10 ^ length ds < (1 :: rat)" using less by simp
    moreover have "(2 :: rat) \<le> 10 ^ Suc (nat (- r - 1))"
      using one_le_power [of "10 :: rat" "nat (- r - 1)"] unfolding power_Suc by linarith
    ultimately have "number_at ds r < 1 / 2" unfolding eq by (intro smaller_quotient) simp_all
    moreover have "0 \<le> number_at ds r" unfolding eq by simp
    ultimately have "nearest (number_at ds r) = 0" unfolding nearest_def by (intro floor_unique) simp_all
    moreover have "\<not> rounds_up ds r" "take (nat r) ds = []" using 3 by (simp_all add: rounds_up_def digit_at_def)
    ultimately show ?thesis by (simp only: digits_val_simps) simp
  qed
qed

section \<open>The rounded digits\<close>

lemma drop_digits_up:
  assumes "drop_digits ds i (int (length ds) - i) f = (ds1, i1, l1, r1)" "ds \<noteq> []" "f + i > 0"
  shows "i1 = i" "l1 = int (length ds) - i" "r1 = f + i"
    "ds1 @ replicate (nat (max 0 f - l1)) 0 = take (nat (f + i)) ds @ replicate (nat (max i (f + i)) - min (nat (f + i)) (length ds)) 0"
    "length ds1 + nat (max 0 f - l1) = nat (max i (f + i))" "min (nat (f + i)) (length ds) \<le> length ds1"
proof -
  have d: "ds1 = take (nat (f + i)) (take (nat (max i (f + i))) ds) @ replicate (length (take (nat (max i (f + i))) ds) - nat (f + i)) 0"
    and r: "i1 = i" "l1 = int (length ds) - i" "r1 = f + i"
    using assms(1,3) by (auto simp: drop_digits_def Let_def)
  show "i1 = i" "l1 = int (length ds) - i" "r1 = f + i" by (fact r)+
  have len: "length (take (nat (max i (f + i))) ds) - nat (f + i) + nat (max 0 f - l1) = nat (max i (f + i)) - min (nat (f + i)) (length ds)"
    using assms(2,3) r by (auto simp: min_def max_def)
  have "take (nat (f + i)) (take (nat (max i (f + i))) ds) = take (nat (f + i)) ds"
    by (simp add: min_def)
  then show "ds1 @ replicate (nat (max 0 f - l1)) 0 = take (nat (f + i)) ds @ replicate (nat (max i (f + i)) - min (nat (f + i)) (length ds)) 0"
    unfolding d append_assoc replicate_add [symmetric] len by simp
  then have "length (ds1 @ replicate (nat (max 0 f - l1)) (0::nat)) = nat (max i (f + i))"
    by (simp only: length_append length_replicate length_take)
  then show "length ds1 + nat (max 0 f - l1) = nat (max i (f + i))" by simp
  show "min (nat (f + i)) (length ds) \<le> length ds1" unfolding d by auto
qed

lemma round_digits_value:
  assumes "round_digits f p = (ds', i')" "pdigits p \<noteq> []" "\<forall>d\<in>set (pdigits p). d < 10"
  shows "int (length ds') - i' = max 0 f \<and>
    int (digits_val ds') = nearest (number_at (pdigits p) (f + pinteger p)) * 10 ^ nat (max 0 f - f) \<and>
    (\<forall>d\<in>set ds'. d \<le> 10) \<and> ds' \<noteq> []"
proof -
  define ds i r where "ds = pdigits p" and "i = pinteger p" and "r = f + pinteger p"
  note defs = ds_def i_def r_def
  obtain ds1 i1 l1 r1 where d: "drop_digits ds i (int (length ds) - i) f = (ds1, i1, l1, r1)"
    using prod_cases4 by blast
  obtain ds2 where final: "(ds2, i') = (if rounds_up ds r then round_up r1 ds1 i1 else (ds1, i1))"
      "ds' = ds2 @ replicate (nat (max 0 f - l1)) 0"
    using assms(1) d by (auto simp: round_digits_def rounds_up_def defs Let_def split: prod.splits if_splits)
  have ne: "ds \<noteq> []" and small: "\<forall>d\<in>set ds. d < 10" using assms(2,3) by (simp_all add: defs)
  have near: "nearest (number_at ds r) = int (digits_val (take (nat r) ds)) * 10 ^ nat (r - int (length ds)) + (if rounds_up ds r then 1 else 0)"
    by (rule nearest_digits [OF small])
  have "int (length ds') - i' = max 0 f \<and> int (digits_val ds') = nearest (number_at ds r) * 10 ^ nat (max 0 f - f) \<and>
    (\<forall>d\<in>set ds'. d \<le> 10) \<and> ds' \<noteq> []"
  proof (cases "r > 0")
    case True
    then have pos: "f + i > 0" by (simp add: defs)
    have ri: "r = f + i" by (simp add: defs)
    note dd = drop_digits_up [OF d ne pos, folded ri]
    define z where "z = nat (max 0 f - l1)"
    define D where "D = ds1 @ replicate z 0"
    have D: "D = take (nat r) ds @ replicate (nat (max i r) - min (nat r) (length ds)) 0"
      using dd(4) by (simp add: D_def z_def)
    have lenD: "length D = nat (max i r)"
      using dd(5) by (simp add: D_def z_def)
    have val: "digits_val D * 1 = digits_val (take (nat r) ds) * 10 ^ (nat (r - int (length ds)) + nat (max 0 f - f))"
    proof -
      have "nat (max i r) - min (nat r) (length ds) = nat (r - int (length ds)) + nat (max 0 f - f)"
        using True ri by (auto simp: min_def max_def)
      then show ?thesis unfolding D by (simp add: digits_val_append)
    qed
    have smallD: "\<forall>d\<in>set D. d < 10" using small unfolding D by (auto dest: in_set_takeD)
    show ?thesis
    proof (cases "rounds_up ds r")
      case False
      with final dd have e: "ds' = D" "i' = i" by (auto simp: D_def z_def)
      have "int (digits_val D) = nearest (number_at ds r) * 10 ^ nat (max 0 f - f)"
        using val near False by (simp add: power_add algebra_simps)
      moreover have "D \<noteq> []" using lenD True by (cases D) auto
      ultimately show ?thesis using e lenD smallD True ri by (auto simp: max_def)
    next
      case up: True
      define k where "k = nat (r - 1)"
      have "r < int (length ds)" using up by (auto simp: rounds_up_def digit_at_def split: if_splits)
      then have k: "k < length ds1" using dd(6) True by (simp add: k_def)
      have "ds2 = ds1[k := ds1 ! k + 1]" "i' = i"
        using final(1) up True dd(1,3) by (simp_all add: round_up_def k_def)
      then have ds': "ds' = D[k := D ! k + 1]"
        using final(2) k by (simp add: D_def z_def list_update_append1 nth_append)
      have kD: "k < length D" using k by (simp add: D_def)
      have "length D - 1 - k = nat (max 0 f - f)" using True ri lenD by (auto simp: k_def max_def)
      then have "digits_val ds' = digits_val D + 10 ^ nat (max 0 f - f)"
        using digits_val_bump [OF kD] ds' by simp
      then have "int (digits_val ds') = nearest (number_at ds r) * 10 ^ nat (max 0 f - f)"
        using val near up by (simp add: power_add algebra_simps)
      moreover have "\<forall>d\<in>set ds'. d \<le> 10"
      proof
        fix d
        assume "d \<in> set ds'"
        then have "d \<in> set D \<or> d = D ! k + 1" unfolding ds' using set_update_subset_insert [of D k "D ! k + 1"] by blast
        then show "d \<le> 10" using smallD kD nth_mem [OF kD] by fastforce
      qed
      moreover have "length ds' = nat (max i r)" using ds' lenD by simp
      moreover have "ds' \<noteq> []" using \<open>length ds' = nat (max i r)\<close> True by (cases ds') auto
      ultimately show ?thesis using \<open>i' = i\<close> True ri by (auto simp: max_def)
    qed
  next
    case False
    then have r: "r \<le> 0" "f \<le> - i" by (simp_all add: defs)
    have fl: "max 0 f \<le> max 0 (int (length ds) - i)" using r(2) ne by (auto simp: max_def)
    have e: "ds1 = replicate (nat (max 1 (f + 1))) 0" "i1 = 1" "l1 = max 0 (int (length ds) - i)" "r1 = f + 1"
      using d False by (auto simp: drop_digits_def Let_def defs)
    with fl final(2) have ds': "ds' = ds2" by simp
    have near0: "nearest (number_at ds r) = (if rounds_up ds r then 1 else 0)"
      using near r(1) ne by (simp add: rounds_up_def)
    show ?thesis
    proof (cases "rounds_up ds r")
      case False
      with final ds' e have "ds' = replicate (nat (max 1 (f + 1))) 0" "i' = 1" by simp_all
      then show ?thesis using near0 False by (auto simp: max_def)
    next
      case up: True
      then have "r = 0" using r(1) by (auto simp: rounds_up_def digit_at_def split: if_splits)
      have u: "(ds', i') = round_up (f + 1) (replicate (nat (max 1 (f + 1))) 0) 1" using final up ds' e by simp
      show ?thesis
      proof (cases "f < 0")
        case True
        with u have "ds' = 1 # replicate (nat (- (f + 1))) 0 @ [0]" "i' = 1 - f"
          by (auto simp: round_up_def max_def)
        then show ?thesis using near0 up True by (auto simp: digits_val_append max_def power_Suc [symmetric] nat_add_distrib Suc_nat_eq_nat_zadd1)
      next
        case False
        then have "nat (f + 1) = Suc (nat f)" by simp
        moreover have "replicate (Suc (nat f)) (0 :: nat) = replicate (nat f) 0 @ [0]"
          by (simp add: replicate_append_same)
        ultimately have "ds' = (replicate (nat f) 0 @ [0])[nat f := 1]" "i' = 1"
          using u False by (simp_all add: round_up_def max_def nth_append del: replicate_Suc)
        then have "ds' = replicate (nat f) 0 @ [1]" "i' = 1" by (simp_all add: list_update_append)
        then show ?thesis using near0 up False by (auto simp: max_def digits_val_append)
      qed
    qed
  qed
  then show ?thesis by (simp add: defs)
qed


text \<open>What \<open>roundNumber\<close> leaves: digits, as many behind the point as asked for, and the nearest number.\<close>

lemma roundNumber_rounds:
  assumes "pdigits p \<noteq> []" "\<forall>d\<in>set (pdigits p). d < 10"
    and f: "f = fraction_size fs a b (int (length (pdigits p)) - pinteger p)"
    and q: "q = roundNumber fs a b p"
  shows "\<forall>d\<in>set (pdigits q). d < 10" "pdigits q \<noteq> []" "pexponent q = pexponent p"
    "int (length (pdigits q)) - pinteger q = max 0 f"
    "int (digits_val (pdigits q)) = nearest (number_at (pdigits p) (f + pinteger p)) * 10 ^ nat (max 0 f - f)"
proof -
  obtain ds i where 1: "round_digits f p = (ds, i)" by fastforce
  obtain c ds' where 2: "carry_digits ds = (c, ds')" by fastforce
  note vals = round_digits_value [OF 1 assms(1,2)] carry_digits_value [OF 2]
  have "c \<le> 1" using vals(1) 2 carry_digits_bound [of ds] by simp
  moreover have "q = (if c \<noteq> 0 then p\<lparr>pdigits := c # ds', pinteger := i + 1\<rparr> else p\<lparr>pdigits := ds', pinteger := i\<rparr>)"
    using 1 2 q f by (simp add: roundNumber_def)
  ultimately show "\<forall>d\<in>set (pdigits q). d < 10" "pdigits q \<noteq> []" "pexponent q = pexponent p"
    "int (length (pdigits q)) - pinteger q = max 0 f"
    "int (digits_val (pdigits q)) = nearest (number_at (pdigits p) (f + pinteger p)) * 10 ^ nat (max 0 f - f)"
    using vals by (auto split: if_splits)
qed

text \<open>A number of more than one integer digit does not start with a zero.\<close>

lemma round_digits_lead:
  assumes "round_digits f p = (ds', i')" "pdigits p \<noteq> []" "hd (pdigits p) \<noteq> 0 \<or> pinteger p \<le> 1" "i' > 1"
  shows "ds' \<noteq> [] \<and> hd ds' \<noteq> 0"
proof -
  define ds i where "ds = pdigits p" and "i = pinteger p"
  obtain ds1 i1 l1 r1 where d: "drop_digits ds i (int (length ds) - i) f = (ds1, i1, l1, r1)"
    using prod_cases4 by blast
  obtain ds2 where final: "(ds2, i') = (if rounds_up ds (f + i) then round_up r1 ds1 i1 else (ds1, i1))"
      "ds' = ds2 @ replicate (nat (max 0 f - l1)) 0"
    using assms(1) d by (auto simp: round_digits_def rounds_up_def ds_def i_def Let_def split: prod.splits if_splits)
  have "ds2 \<noteq> [] \<and> hd ds2 \<noteq> 0"
  proof (cases "f + i > 0")
    case True
    have e: "i1 = i" "r1 = f + i" "ds1 = take (nat (f + i)) (take (nat (max i (f + i))) ds) @
        replicate (length (take (nat (max i (f + i))) ds) - nat (f + i)) 0"
      using d True by (auto simp: drop_digits_def Let_def)
    have "i' = i" using final(1) e True by (auto simp: round_up_def split: if_splits)
    then have h: "hd ds \<noteq> 0" "ds \<noteq> []" using assms(2-4) by (auto simp: ds_def i_def)
    then have ds1: "ds1 \<noteq> [] \<and> hd ds1 = hd ds" using True unfolding e by (cases ds) (auto simp: max_def take_Cons')
    have "ds2 = (if rounds_up ds (f + i) then ds1[nat (r1 - 1) := ds1 ! nat (r1 - 1) + 1] else ds1)"
      using final(1) e(2) True by (auto simp: round_up_def split: if_splits)
    with ds1 h(1) show ?thesis by (cases ds1; cases "nat (r1 - 1)") auto
  next
    case False
    then have "i1 = 1" "r1 = f + 1" using d by (auto simp: drop_digits_def Let_def)
    with final(1) assms(4) show ?thesis by (auto simp: round_up_def split: if_splits)
  qed
  with final(2) show ?thesis by auto
qed

lemma roundNumber_lead:
  assumes "pdigits p \<noteq> []" "hd (pdigits p) \<noteq> 0 \<or> pinteger p \<le> 1" "q = roundNumber fs a b p" "pinteger q > 1"
  shows "hd (pdigits q) \<noteq> 0"
proof -
  define f where "f = fraction_size fs a b (int (length (pdigits p)) - pinteger p)"
  obtain ds i where 1: "round_digits f p = (ds, i)" by fastforce
  obtain c ds' where 2: "carry_digits ds = (c, ds')" by fastforce
  have q: "q = (if c \<noteq> 0 then p\<lparr>pdigits := c # ds', pinteger := i + 1\<rparr> else p\<lparr>pdigits := ds', pinteger := i\<rparr>)"
    using 1 2 assms(3) by (simp add: roundNumber_def f_def)
  show ?thesis
  proof (cases "c = 0")
    case True
    then have "i > 1" using q assms(4) by simp
    from round_digits_lead [OF 1 assms(1,2) this] obtain x xs where x: "ds = x # xs" "x \<noteq> 0" by (cases ds) auto
    obtain c1 ys where y: "carry_digits xs = (c1, ys)" by fastforce
    with 2 x True have "ds' = (x + c1) mod 10 # ys" "(x + c1) div 10 = 0" by auto
    then have "hd ds' = x + c1" by (metis list.sel(1) mod_div_trivial mod_eq_self_iff_div_eq_0)
    with x(2) q True show ?thesis by simp
  qed (simp add: q)
qed

section \<open>Reading the text of a number\<close>

definition is_decimal :: "nat list \<Rightarrow> int \<Rightarrow> bool" where
  "is_decimal ds n \<longleftrightarrow> ds \<noteq> [] \<and> (\<forall>d\<in>set ds. d < 10) \<and> (ds = [0] \<and> n = 1 \<or> hd ds \<noteq> 0 \<and> last ds \<noteq> 0)"

lemma digit_text_simps [simp]:
  "digit_text [] = []" "digit_text (d # ds) = (48 + d) # digit_text ds" "digit_text (xs @ ys) = digit_text xs @ digit_text ys"
  "digit_text (replicate k 0) = replicate k 48" "length (digit_text ds) = length ds" "rev (digit_text ds) = digit_text (rev ds)"
  "digit_text ds = [] \<longleftrightarrow> ds = []"
  by (simp_all add: digit_text_def rev_map)

lemma search_index_absent: "\<forall>c\<in>set s. \<not> P c \<Longrightarrow> search_index P s = - 1"
  by (auto simp: search_index_def)

lemma search_index_at: "\<forall>c\<in>set s. \<not> P c \<Longrightarrow> P c \<Longrightarrow> search_index P (s @ c # t) = int (length s)"
  by (auto simp: search_index_def takeWhile_append)

lemma search_point:
  "46 \<notin> set s \<Longrightarrow> search_index ((=) 46) s = - 1"
  "46 \<notin> set s \<Longrightarrow> search_index ((=) 46) (s @ 46 # t) = int (length s)"
  by (auto intro!: search_index_absent search_index_at)

lemma not_in_digits: "\<forall>d\<in>set ds. d < 10 \<Longrightarrow> \<not> (48 \<le> x \<and> x < 58) \<Longrightarrow> x \<notin> set (digit_text ds)"
  by (auto simp: digit_text_def)

lemma significant_digits_text:
  assumes "hd ds \<noteq> 0" "last ds \<noteq> 0" "ds \<noteq> []"
  shows "significant_digits (replicate a 48 @ digit_text ds @ replicate b 48) n = (ds, n - int a)"
proof -
  obtain x xs where x: "ds = x # xs" "x \<noteq> 0" using assms by (cases ds) auto
  obtain y ys where y: "ds = ys @ [y]" "y \<noteq> 0" using assms by (cases ds rule: rev_cases) auto
  let ?s = "replicate a 48 @ digit_text ds @ replicate b 48"
  have 1: "takeWhile ((=) 48) ?s = replicate a 48"
    using x by (subst takeWhile_append2) auto
  have 2: "dropWhile ((=) 48) (rev (drop a ?s)) = digit_text (rev ds)"
  proof -
    have "rev (drop a ?s) = replicate b 48 @ digit_text (rev ds)" by simp
    moreover have "dropWhile ((=) 48) (replicate b 48 @ digit_text (rev ds)) = dropWhile ((=) 48) (digit_text (rev ds))"
      by (rule dropWhile_append2) auto
    ultimately show ?thesis using y by simp
  qed
  have "map (\<lambda>c. c - 48) (digit_text ds) = ds" by (simp add: digit_text_def o_def)
  with 1 2 x show ?thesis by (simp add: significant_digits_def Let_def)
qed


lemma exponent_value_signed:
  "exponent_value ((if n < 0 then [45] else [43]) @ js (show_nat (nat \<bar>n\<bar>))) = Some n"
proof -
  have "list_all (\<lambda>d. isNumber (Some d)) (js (show_nat k))" "js (show_nat k) \<noteq> []" "digits_value (js (show_nat k)) = k" for k
    using js_digits [of k] show_nat_nonempty [of k] read_show_nat [of k]
    by (simp_all add: list_all_iff js_def digits_value_def read_nat.simps foldl_map del: read_show_nat)
  then show ?thesis by (auto simp: exponent_value_def Let_def)
qed

text \<open>\<open>parse\<close> on a text without exponent, and on one with it.\<close>

lemma parse_plain:
  assumes "46 \<notin> set u" "46 \<notin> set v" "\<forall>c\<in>set (u @ v). c \<noteq> 101 \<and> c \<noteq> 69" "s = u @ v \<and> v = [] \<or> s = u @ 46 # v"
    and "significant_digits (u @ v) (int (length u)) = (ds, n)" "n \<le> MAX_DIGITS"
  shows "parse_number s = Some \<lparr>pdigits = ds, pexponent = 0, pinteger = n\<rparr>"
proof -
  have e: "search_index (\<lambda>c. c = 101 \<or> c = 69) (u @ v) = - 1" using assms(3) by (intro search_index_absent) blast
  have "search_index ((=) 46) s = (if s = u @ 46 # v then int (length u) else - 1)"
    using assms(1,2,4) by (auto simp: search_point)
  moreover have "remove1 46 (u @ 46 # v) = u @ v" using assms(1) by (simp add: remove1_append)
  ultimately show ?thesis using assms(4,5,6) e by (auto simp: parse_number_def Let_def)
qed

lemma parse_exponent:
  assumes "46 \<notin> set u" "46 \<notin> set v" "46 \<notin> set x" "\<forall>c\<in>set (u @ v). c \<noteq> 101 \<and> c \<noteq> 69" "u \<noteq> []"
    and "s = u @ v @ 101 # x \<and> v = [] \<or> s = u @ 46 # v @ 101 # x" "exponent_value x = Some e"
    and "significant_digits (u @ v) (int (length u) + e) = (ds, n)"
  shows "parse_number s = Some (if n > MAX_DIGITS then \<lparr>pdigits = take 21 ds, pexponent = n - 1, pinteger = 1\<rparr>
    else \<lparr>pdigits = ds, pexponent = 0, pinteger = n\<rparr>)"
proof -
  let ?t = "u @ v @ 101 # x"
  have e: "search_index (\<lambda>c. c = 101 \<or> c = 69) ?t = int (length (u @ v))"
    using search_index_at [of "u @ v" "\<lambda>c. c = 101 \<or> c = 69" 101 x] assms(4) by simp
  have "search_index ((=) 46) s = (if s = u @ 46 # v @ 101 # x then int (length u) else - 1)"
    using assms(1,2,3,6) by (auto simp: search_point)
  moreover have "remove1 46 (u @ 46 # v @ 101 # x) = ?t" using assms(1) by (simp add: remove1_append)
  moreover have "nat (int (length (u @ v))) = length u + length v" "take (length u + length v) ?t = u @ v"
    "drop (length u + length v + 1) ?t = x" by simp_all
  ultimately show ?thesis using assms(5,6,7,8) e by (auto simp: parse_number_def Let_def MAX_DIGITS_def)
qed


text \<open>
  \<open>parse\<close> finds the digits and the point of every number again; of a number of more than 22 integer digits
  it keeps 21 digits and an exponent.
\<close>

definition parsed_number :: "nat list \<Rightarrow> int \<Rightarrow> parsed" where
  "parsed_number ds n =
     (if n > MAX_DIGITS then \<lparr>pdigits = take 21 ds, pexponent = n - 1, pinteger = 1\<rparr>
      else \<lparr>pdigits = ds, pexponent = 0, pinteger = n\<rparr>)"

lemma parse_ecma_text:
  assumes "is_decimal ds n"
  shows "parse_number (ecma_text ds n) = Some (parsed_number ds n)"
proof (cases "ds = [0] \<and> n = 1")
  case True
  have "significant_digits [48] 1 = ([0], 1)" by (simp add: significant_digits_def)
  with parse_plain [of "[48]" "[]" "[48]" "[0]" 1] True show ?thesis
    by (simp add: ecma_text_def parsed_number_def MAX_DIGITS_def)
next
  case False
  with assms have ds: "ds \<noteq> []" "hd ds \<noteq> 0" "last ds \<noteq> 0" "\<forall>d\<in>set ds. d < 10" by (auto simp: is_decimal_def)
  note sig = significant_digits_text [OF ds(2,3,1)]
  have chars: "46 \<notin> set (digit_text xs)" "\<forall>c\<in>set (digit_text xs). c \<noteq> 101 \<and> c \<noteq> 69" if "set xs \<subseteq> set ds" for xs
    using ds(4) that not_in_digits [of xs 46] not_in_digits [of xs 101] not_in_digits [of xs 69] by fastforce+
  note sub = set_take_subset [of _ ds] set_drop_subset [of _ ds]
  consider "int (length ds) \<le> n" "n \<le> 21" | "0 < n" "n \<le> 21" "n < int (length ds)" | "- 6 < n" "n \<le> 0"
    | "n > 21 \<or> n \<le> - 6"
    by linarith
  then show ?thesis
  proof cases
    case 1
    let ?u = "digit_text ds @ replicate (nat (n - int (length ds))) 48"
    have "significant_digits (?u @ []) (int (length ?u)) = (ds, n)"
      using sig [of 0 "nat (n - int (length ds))" n] 1 by simp
    from parse_plain [OF _ _ _ _ this] 1 chars [of ds] show ?thesis
      by (auto simp: ecma_text_def parsed_number_def MAX_DIGITS_def ball_Un)
  next
    case 2
    let ?u = "digit_text (take (nat n) ds)" and ?v = "digit_text (drop (nat n) ds)"
    have "?u @ ?v = digit_text ds" by (simp flip: digit_text_simps(3))
    then have "significant_digits (?u @ ?v) (int (length ?u)) = (ds, n)"
      using sig [of 0 0 n] 2 by simp
    then have "parse_number (?u @ 46 # ?v) = Some \<lparr>pdigits = ds, pexponent = 0, pinteger = n\<rparr>"
      using 2 chars [OF sub(1), of "nat n"] chars [OF sub(2), of "nat n"]
      by (intro parse_plain [of ?u ?v]) (simp_all add: ball_Un MAX_DIGITS_def del: digit_text_simps(3))
    with 2 show ?thesis by (simp add: ecma_text_def parsed_number_def MAX_DIGITS_def)
  next
    case 3
    let ?v = "replicate (nat (- n)) 48 @ digit_text ds"
    have "significant_digits ([48] @ ?v) (int (length [48::nat])) = (ds, n)"
      using sig [of "Suc (nat (- n))" 0 1] 3 by simp
    then have "parse_number ([48] @ 46 # ?v) = Some \<lparr>pdigits = ds, pexponent = 0, pinteger = n\<rparr>"
      using 3 chars [of ds] by (intro parse_plain [of "[48]" ?v]) (auto simp: MAX_DIGITS_def)
    moreover have "\<not> int (length ds) \<le> n" using 3 ds(1) by (cases ds) auto
    ultimately show ?thesis using 3 by (simp add: ecma_text_def parsed_number_def MAX_DIGITS_def)
  next
    case 4
    let ?u = "digit_text (take 1 ds)" and ?v = "digit_text (drop 1 ds)"
      and ?x = "(if n - 1 < 0 then [45] else [43]) @ js (show_nat (nat \<bar>n - 1\<bar>))"
    have uv: "?u @ ?v = digit_text ds" by (simp flip: digit_text_simps(3))
    have "length ?u = 1" using ds(1) by (cases ds) auto
    with uv have s: "significant_digits (?u @ ?v) (int (length ?u) + (n - 1)) = (ds, n)"
      using sig [of 0 0 n] by simp
    have x: "46 \<notin> set ?x" using js_digits [of "nat \<bar>n - 1\<bar>"] by (auto simp: isNumber_def dest!: bspec [where x = 46])
    have t: "ecma_text ds n = ?u @ (if length ds > 1 then 46 # ?v else []) @ [101] @ ?x"
      using 4 by (auto simp: ecma_text_def Let_def)
    have "ecma_text ds n = ?u @ ?v @ 101 # ?x \<and> ?v = [] \<or> ecma_text ds n = ?u @ 46 # ?v @ 101 # ?x"
      unfolding t by (cases "length ds > 1") auto
    from parse_exponent [OF chars(1) [OF sub(1)] chars(1) [OF sub(2)] x _ _ this exponent_value_signed s] chars(2) [OF sub(1)] chars(2) [OF sub(2)] ds(1)
    show ?thesis by (simp add: parsed_number_def ball_Un)
  qed
qed

section \<open>Groups of digits\<close>

lemma group_loop_groups:
  "0 < g \<Longrightarrow> \<exists>r gs. group_loop g ds groups = (r, map digit_text gs @ groups) \<and> r @ concat gs = ds \<and>
     (\<forall>x\<in>set gs. length x = g) \<and> length r \<le> g \<and> (ds \<noteq> [] \<longrightarrow> r \<noteq> [])"
proof (induction g ds groups rule: group_loop.induct)
  case (1 g ds groups)
  show ?case
  proof (cases "g < length ds")
    case True
    let ?k = "length ds - g"
    have sp: "splice_last g ds = (take ?k ds, drop ?k ds)" using 1(2) by (simp add: splice_last_def)
    from 1(1) [OF True 1(2)] sp obtain r gs where r: "group_loop g (take ?k ds) (digit_text (drop ?k ds) # groups) =
        (r, map digit_text gs @ digit_text (drop ?k ds) # groups)" "r @ concat gs = take ?k ds"
        "\<forall>x\<in>set gs. length x = g" "length r \<le> g" "take ?k ds \<noteq> [] \<longrightarrow> r \<noteq> []"
      by auto
    have ne: "ds \<noteq> []" using True by auto
    have "group_loop g ds groups = (r, map digit_text (gs @ [drop ?k ds]) @ groups)"
      using True sp r(1) by (simp add: group_loop.simps [of g ds])
    moreover have "r @ concat (gs @ [drop ?k ds]) = ds" using r(2) by (simp flip: append_assoc)
    moreover have "length (drop ?k ds) = g" using True by simp
    ultimately show ?thesis using r(3,4,5) True ne by (intro exI [of _ r] exI [of _ "gs @ [drop ?k ds]"]) auto
  next
    case False
    then show ?thesis by (intro exI [of _ ds] exI [of _ "[]"]) (auto simp: group_loop.simps [of g ds])
  qed
qed


text \<open>The groups: all full but the first, and the last of its own size.\<close>

definition grouped :: "nat \<Rightarrow> nat \<Rightarrow> nat list list \<Rightarrow> bool" where
  "grouped g lg gss \<longleftrightarrow> gss \<noteq> [] \<and> hd gss \<noteq> [] \<and>
     (if tl gss = [] then length (hd gss) \<le> lg
      else length (hd gss) \<le> g \<and> (\<forall>x\<in>set (butlast (tl gss)). length x = g) \<and> length (last gss) = lg)"

lemma group_digits_grouped:
  assumes "0 < lgSize pat" "lgSize pat \<le> gSize pat" "ds \<noteq> []"
  shows "\<exists>gss. group_digits pat ds = map digit_text gss \<and> concat gss = ds \<and> grouped (gSize pat) (lgSize pat) gss"
proof (cases "length ds > lgSize pat")
  case False
  then have "group_digits pat ds = [digit_text ds]"
    using assms by (simp add: group_digits_def group_loop.simps)
  then show ?thesis using False assms(3) by (intro exI [of _ "[ds]"]) (simp add: grouped_def)
next
  case True
  let ?k = "length ds - lgSize pat"
  obtain r gs where r: "group_loop (gSize pat) (take ?k ds) [digit_text (drop ?k ds)] = (r, map digit_text gs @ [digit_text (drop ?k ds)])"
      "r @ concat gs = take ?k ds" "\<forall>x\<in>set gs. length x = gSize pat" "length r \<le> gSize pat" "take ?k ds \<noteq> [] \<longrightarrow> r \<noteq> []"
    using group_loop_groups [of "gSize pat" "take ?k ds" "[digit_text (drop ?k ds)]"] assms by auto
  have ne: "r \<noteq> []" using r(5) True by auto
  have "group_digits pat ds = map digit_text (r # gs @ [drop ?k ds])"
    using True assms(1) r(1) ne by (simp add: group_digits_def splice_last_def)
  moreover have "concat (r # gs @ [drop ?k ds]) = ds" using r(2) by (simp flip: append_assoc)
  moreover have "grouped (gSize pat) (lgSize pat) (r # gs @ [drop ?k ds])"
    using ne r(3,4) True by (simp add: grouped_def butlast_append)
  ultimately show ?thesis by blast
qed

section \<open>Properties\<close>

lemma split_digits_join:
  assumes "split_digits ds i = (whole, decimals)" "int (length ds) - i = max 0 f" "ds \<noteq> []"
  shows "whole \<noteq> []" "int (length decimals) = max 0 f" "digits_val (whole @ decimals) = digits_val ds"
proof -
  have "whole \<noteq> [] \<and> int (length decimals) = max 0 f \<and> digits_val (whole @ decimals) = digits_val ds"
  proof (cases "i > 0")
    case True
    then have "whole = take (nat i) ds" "decimals = drop (nat i) ds" using assms(1) by (auto simp: split_digits_def Let_def)
    with assms True show ?thesis by (auto simp: max_def split: if_splits)
  next
    case False
    then have "whole = [0]" "decimals = replicate (nat (- i)) 0 @ ds" using assms(1) by (auto simp: split_digits_def Let_def)
    with assms False show ?thesis by (simp add: digits_val_append)
  qed
  then show "whole \<noteq> []" "int (length decimals) = max 0 f" "digits_val (whole @ decimals) = digits_val ds" by blast+
qed

lemma digits_val_zero: "digits_val ds = 0 \<longleftrightarrow> list_all ((=) 0) ds"
  by (induction ds) auto

text \<open>The digits of a shown number: decimal, and without a leading zero in front of another integer digit.\<close>

definition canonical :: "nat list \<Rightarrow> nat list \<Rightarrow> bool" where
  "canonical whole decimals \<longleftrightarrow> (\<forall>d\<in>set (whole @ decimals). d < 10) \<and> (length whole > 1 \<longrightarrow> hd whole \<noteq> 0)"

lemma split_digits_canonical:
  assumes "split_digits ds i = (whole, decimals)" "\<forall>d\<in>set ds. d < 10" "i > 1 \<longrightarrow> hd ds \<noteq> 0"
  shows "canonical whole decimals"
proof (cases "i > 0")
  case True
  then have w: "whole = take (nat i) ds" "decimals = drop (nat i) ds" using assms(1) by (auto simp: split_digits_def Let_def)
  have "hd whole \<noteq> 0" if "length whole > 1"
  proof -
    have "i > 1" "ds \<noteq> []" using that by (auto simp: w)
    then show ?thesis using assms(3) True by (simp add: w)
  qed
  moreover have "set (whole @ decimals) = set ds" by (simp add: w flip: set_append)
  ultimately show ?thesis using assms(2) by (simp add: canonical_def)
next
  case False
  then have "whole = [0]" "decimals = replicate (nat (- i)) 0 @ ds" using assms(1) by (auto simp: split_digits_def Let_def)
  then show ?thesis using assms(2) by (auto simp: canonical_def)
qed

text \<open>
  C30. The number filters show the nearest decimal number. For a number of at most 22 integer digits and a
  pattern whose last group is not longer than the others: the integer digits of the text, without the
  separators, and its decimals are digits from 0 to 9 with no leading zero but a single one, and stand for
  the number rounded half up to the fraction size, with exactly as many decimals (none, and zeros in front
  of the point, for a negative fraction size); the integer part is cut into groups of the pattern's sizes;
  and the prefix and suffix are the negative ones exactly for a negative number that is not shown as zero.
\<close>

theorem format_shows_nearest:
  assumes "is_decimal ds n" "n \<le> 22" "0 < lgSize pat" "lgSize pat \<le> gSize pat"
    and f: "f = fraction_size fs (minFrac pat) (maxFrac pat) (int (length ds) - n)"
  shows "\<exists>gss decimals. formatNumber (Finite neg ds n) pat groupSep decimalSep fs =
      Some (affix (neg \<and> nearest (number_at ds (f + n)) \<noteq> 0) pat
        (join groupSep (map digit_text gss) @ (if decimals \<noteq> [] then decimalSep @ digit_text decimals else []))) \<and>
    grouped (gSize pat) (lgSize pat) gss \<and> canonical (concat gss) decimals \<and> length decimals = nat f \<and>
    int (digits_val (concat gss @ decimals)) = nearest (number_at ds (f + n)) * 10 ^ nat (max 0 f - f)"
proof -
  let ?p = "\<lparr>pdigits = ds, pexponent = 0, pinteger = n\<rparr>"
  have parsed: "parse_number (ecma_text ds n) = Some ?p"
    using parse_ecma_text [OF assms(1)] assms(2) by (simp add: parsed_number_def MAX_DIGITS_def)
  obtain q where q: "q = roundNumber fs (minFrac pat) (maxFrac pat) ?p" by simp
  have "pdigits ?p \<noteq> []" "\<forall>d\<in>set (pdigits ?p). d < 10"
    "f = fraction_size fs (minFrac pat) (maxFrac pat) (int (length (pdigits ?p)) - pinteger ?p)"
    using assms(1) f by (auto simp: is_decimal_def)
  note rounded = roundNumber_rounds [OF this q]
  obtain whole decimals where split: "split_digits (pdigits q) (pinteger q) = (whole, decimals)" by fastforce
  note parts = split_digits_join [OF split rounded(4,2)]
  from group_digits_grouped [OF assms(3,4) parts(1)] obtain gss where
    gss: "group_digits pat whole = map digit_text gss" "concat gss = whole" "grouped (gSize pat) (lgSize pat) gss" by blast
  have "list_all ((=) 0) (pdigits q) \<longleftrightarrow> nearest (number_at ds (f + n)) = 0"
    using digits_val_zero [of "pdigits q"] rounded(5) by fastforce
  then have "formatNumber (Finite neg ds n) pat groupSep decimalSep fs =
      Some (affix (neg \<and> nearest (number_at ds (f + n)) \<noteq> 0) pat
        (join groupSep (map digit_text gss) @ (if decimals \<noteq> [] then decimalSep @ digit_text decimals else [])))"
    using parsed split gss(1) rounded(3) by (simp add: formatNumber_def format_parsed_def q [symmetric])
  moreover have "length decimals = nat f" using parts(2) by linarith
  moreover have "canonical whole decimals"
    using roundNumber_lead [OF _ _ q] assms(1) by (intro split_digits_canonical [OF split rounded(1)]) (auto simp: is_decimal_def)
  ultimately show ?thesis using gss(2,3) parts(3) rounded(5)
    by (intro exI [of _ gss] exI [of _ decimals]) simp
qed

text \<open>-1234.5678 with two decimals is shown as \<open>-1,234.57\<close>.\<close>

lemma format_shows_nearest_witness:
  "formatNumber (Finite True [1, 2, 3, 4, 5, 6, 7, 8] 4) (NUMBER_PATTERN en_us) (js '','') (js ''.'') (Some 2) = Some (js ''-1,234.57'') \<and>
   (\<exists>gss decimals. formatNumber (Finite True [1, 2, 3, 4, 5, 6, 7, 8] 4) (NUMBER_PATTERN en_us) (js '','') (js ''.'') (Some 2) =
      Some (affix (True \<and> nearest (number_at [1, 2, 3, 4, 5, 6, 7, 8] (2 + 4)) \<noteq> 0) (NUMBER_PATTERN en_us)
        (join (js '','') (map digit_text gss) @ (if decimals \<noteq> [] then js ''.'' @ digit_text decimals else []))) \<and>
    grouped (gSize (NUMBER_PATTERN en_us)) (lgSize (NUMBER_PATTERN en_us)) gss \<and>
    canonical (concat gss) decimals \<and> length decimals = nat 2 \<and>
    int (digits_val (concat gss @ decimals)) = nearest (number_at [1, 2, 3, 4, 5, 6, 7, 8] (2 + 4)) * 10 ^ nat (max 0 2 - 2))"
proof (rule conjI)
  show "formatNumber (Finite True [1, 2, 3, 4, 5, 6, 7, 8] 4) (NUMBER_PATTERN en_us) (js '','') (js ''.'') (Some 2) = Some (js ''-1,234.57'')"
    by code_simp
qed (rule format_shows_nearest, simp_all add: is_decimal_def en_us_def fraction_size_def)

text \<open>
  Where the last group is longer than the others, as in the Indian locales, a number with exactly as many
  digits as the last group is cut in two: 123 becomes \<open>1,23\<close>.
\<close>

lemma last_group_is_cut:
  "formatNumber (Finite False [1, 2, 3] 3) ((NUMBER_PATTERN en_us)\<lparr>gSize := 2\<rparr>) (js '','') (js ''.'') None = Some (js ''1,23'')"
  by code_simp

end
