(* ===== verification/NgForms.thy ===== *)
theory NgForms
  imports Prelude
begin

text \<open>
  Forms and the validity of their controls: \<open>FormController\<close>, \<open>addSetValidityMethod\<close> and the flags of
  \<open>NgModelController\<close> in \<open>assets/public/components/angular/angular.js\<close>. Controls are numbered in the order
  they are made; \<open>$$parentForm\<close> is \<open>None\<close> for \<open>nullFormCtrl\<close>. Objects that map keys to values are the lists
  of their entries in the order of insertion. A call that would recurse for ever is a \<open>StackOverflow\<close>.
  What a form publishes under the names of its controls is kept apart from the controller's own members, so a
  control whose name begins with a dollar sign does not overwrite \<open>$setDirty\<close> or \<open>$error\<close> here, and the
  objects of keys do not inherit the members of \<open>Object.prototype\<close>.
\<close>

section \<open>Controls\<close>

text \<open>A value of \<open>$error\<close>, \<open>$$success\<close> or \<open>$pending\<close>: \<open>true\<close> in a model's, the controls in a form's.\<close>

datatype entry = Present | By "nat list"

type_synonym entries = "(string \<times> entry) list"

text \<open>What \<open>$setValidity\<close> may get as a state; \<open>Other False\<close> is \<open>null\<close>.\<close>

datatype vstate = Undefined | Boolean bool | Other bool

record control =
  is_form :: bool
  ctrl_name :: string
  error_keys :: entries
  success_keys :: entries
  pending_keys :: "entries option"
  valid :: "bool option"
  invalid :: "bool option"
  dirty :: bool
  pristine :: bool
  submitted :: bool
  touched :: bool
  untouched :: bool
  parentForm :: "nat option"
  controls :: "nat list"
  published :: "(string \<times> nat) list"
  classCache :: "string \<Rightarrow> bool"
  classes :: "string \<Rightarrow> bool"

record forms =
  ctrl :: "nat \<Rightarrow> control"
  made :: nat

datatype form_error = BadName | StackOverflow

definition put_ctrl :: "nat \<Rightarrow> control \<Rightarrow> forms \<Rightarrow> forms" where
  "put_ctrl c x st = st\<lparr>ctrl := (ctrl st)(c := x)\<rparr>"

definition VALID_CLASS :: string where "VALID_CLASS = ''ng-valid''"
definition INVALID_CLASS :: string where "INVALID_CLASS = ''ng-invalid''"
definition PENDING_CLASS :: string where "PENDING_CLASS = ''ng-pending''"
definition PRISTINE_CLASS :: string where "PRISTINE_CLASS = ''ng-pristine''"
definition DIRTY_CLASS :: string where "DIRTY_CLASS = ''ng-dirty''"
definition UNTOUCHED_CLASS :: string where "UNTOUCHED_CLASS = ''ng-untouched''"
definition TOUCHED_CLASS :: string where "TOUCHED_CLASS = ''ng-touched''"
definition SUBMITTED_CLASS :: string where "SUBMITTED_CLASS = ''ng-submitted''"
definition EMPTY_CLASS :: string where "EMPTY_CLASS = ''ng-empty''"
definition NOT_EMPTY_CLASS :: string where "NOT_EMPTY_CLASS = ''ng-not-empty''"

section \<open>Entries\<close>

definition key_delete :: "string \<Rightarrow> (string \<times> 'a) list \<Rightarrow> (string \<times> 'a) list" where
  "key_delete k es = filter (\<lambda>(j, _). j \<noteq> k) es"

fun key_put :: "string \<Rightarrow> 'a \<Rightarrow> (string \<times> 'a) list \<Rightarrow> (string \<times> 'a) list" where
  "key_put k e [] = [(k, e)]"
| "key_put k e ((j, d) # es) = (if j = k then (k, e) # es else (j, d) # key_put k e es)"

text \<open>\<open>set\<close> and \<open>unset\<close> of a model and of a form.\<close>

definition model_set :: "entries \<Rightarrow> string \<Rightarrow> nat \<Rightarrow> entries" where
  "model_set obj k c = key_put k Present obj"

definition model_unset :: "entries \<Rightarrow> string \<Rightarrow> nat \<Rightarrow> entries" where
  "model_unset obj k c = key_delete k obj"

definition form_set :: "entries \<Rightarrow> string \<Rightarrow> nat \<Rightarrow> entries" where
  "form_set obj k c =
     (case map_of obj k of
        Some (By l) \<Rightarrow> if c \<in> set l then obj else key_put k (By (l @ [c])) obj
      | _ \<Rightarrow> key_put k (By [c]) obj)"

definition form_unset :: "entries \<Rightarrow> string \<Rightarrow> nat \<Rightarrow> entries" where
  "form_unset obj k c =
     (case map_of obj k of
        Some (By l) \<Rightarrow> if remove1 c l = [] then key_delete k obj else key_put k (By (remove1 c l)) obj
      | _ \<Rightarrow> obj)"

definition set_entry :: "bool \<Rightarrow> entries \<Rightarrow> string \<Rightarrow> nat \<Rightarrow> entries" where
  "set_entry form = (if form then form_set else model_set)"

definition unset_entry :: "bool \<Rightarrow> entries \<Rightarrow> string \<Rightarrow> nat \<Rightarrow> entries" where
  "unset_entry form = (if form then form_unset else model_unset)"

definition isObjectEmpty :: "entries option \<Rightarrow> bool" where
  "isObjectEmpty obj \<longleftrightarrow> (case obj of None \<Rightarrow> True | Some es \<Rightarrow> es = [])"

section \<open>Classes\<close>

definition snake_case :: "string \<Rightarrow> string \<Rightarrow> string" where
  "snake_case nm separator =
     concat (map (\<lambda>(i, c). if 65 \<le> (of_char c :: nat) \<and> (of_char c :: nat) \<le> 90
                           then (if i \<noteq> (0::nat) then separator else []) @ [char_of (of_char c + 32 :: nat)] else [c])
                 (zip [0..<length nm] nm))"

definition cachedToggleClass :: "string \<Rightarrow> bool \<Rightarrow> control \<Rightarrow> control" where
  "cachedToggleClass className switchValue x =
     (if switchValue \<and> \<not> classCache x className
      then x\<lparr>classes := (classes x)(className := True), classCache := (classCache x)(className := True)\<rparr>
      else if \<not> switchValue \<and> classCache x className
      then x\<lparr>classes := (classes x)(className := False), classCache := (classCache x)(className := False)\<rparr>
      else x)"

definition toggleValidationCss :: "string \<Rightarrow> vstate \<Rightarrow> control \<Rightarrow> control" where
  "toggleValidationCss key isValid x =
     (let suffix = (if key \<noteq> [] then ''-'' @ snake_case key ''-'' else [])
      in cachedToggleClass (INVALID_CLASS @ suffix) (isValid = Boolean False)
           (cachedToggleClass (VALID_CLASS @ suffix) (isValid = Boolean True) x))"

section \<open>Validity\<close>

definition createAndSet :: "string \<Rightarrow> nat \<Rightarrow> control \<Rightarrow> control" where
  "createAndSet key by x = x\<lparr>pending_keys := Some (set_entry (is_form x) (case pending_keys x of None \<Rightarrow> [] | Some es \<Rightarrow> es) key by)\<rparr>"

definition unsetAndCleanup :: "string \<Rightarrow> nat \<Rightarrow> control \<Rightarrow> control" where
  "unsetAndCleanup key by x =
     (let es = map_option (\<lambda>es. unset_entry (is_form x) es key by) (pending_keys x)
      in x\<lparr>pending_keys := (if isObjectEmpty es then None else es)\<rparr>)"

definition record_state :: "string \<Rightarrow> vstate \<Rightarrow> nat \<Rightarrow> control \<Rightarrow> control" where
  "record_state key state by x =
     (let x = (if state = Undefined then createAndSet key by x else unsetAndCleanup key by x) in
      case state of
        Boolean True \<Rightarrow> x\<lparr>error_keys := unset_entry (is_form x) (error_keys x) key by,
                          success_keys := set_entry (is_form x) (success_keys x) key by\<rparr>
      | Boolean False \<Rightarrow> x\<lparr>error_keys := set_entry (is_form x) (error_keys x) key by,
                           success_keys := unset_entry (is_form x) (success_keys x) key by\<rparr>
      | _ \<Rightarrow> x\<lparr>error_keys := unset_entry (is_form x) (error_keys x) key by,
               success_keys := unset_entry (is_form x) (success_keys x) key by\<rparr>)"

definition show_state :: "control \<Rightarrow> control" where
  "show_state x =
     (if pending_keys x \<noteq> None
      then toggleValidationCss [] (Other False)
        ((cachedToggleClass PENDING_CLASS True x)\<lparr>valid := None, invalid := None\<rparr>)
      else (let ok = isObjectEmpty (Some (error_keys x)) in
        toggleValidationCss [] (Boolean ok)
          ((cachedToggleClass PENDING_CLASS False x)\<lparr>valid := Some ok, invalid := Some (\<not> ok)\<rparr>)))"

definition combinedState :: "string \<Rightarrow> control \<Rightarrow> vstate" where
  "combinedState key x =
     (if (case pending_keys x of None \<Rightarrow> False | Some es \<Rightarrow> map_of es key \<noteq> None) then Undefined
      else if map_of (error_keys x) key \<noteq> None then Boolean False
      else if map_of (success_keys x) key \<noteq> None then Boolean True
      else Other False)"

definition validate_here :: "string \<Rightarrow> vstate \<Rightarrow> nat \<Rightarrow> control \<Rightarrow> control" where
  "validate_here key state by x =
     (let x = show_state (record_state key state by x) in toggleValidationCss key (combinedState key x) x)"

text \<open>\<open>$setValidity\<close> of the control \<open>c\<close>; the last argument is the controller, which a model ignores.\<close>

fun setValidity :: "nat \<Rightarrow> nat \<Rightarrow> string \<Rightarrow> vstate \<Rightarrow> nat \<Rightarrow> forms \<Rightarrow> form_error + forms" where
  "setValidity 0 c key state by st = Inl StackOverflow"
| "setValidity (Suc n) c key state by st =
     (let x = validate_here key state by (ctrl st c); st = put_ctrl c x st
      in case parentForm x of None \<Rightarrow> Inr st | Some p \<Rightarrow> setValidity n p key (combinedState key x) c st)"

section \<open>The controls of a form\<close>

definition addControl :: "nat \<Rightarrow> nat \<Rightarrow> forms \<Rightarrow> form_error + forms" where
  "addControl form c st =
     (let nm = ctrl_name (ctrl st c) in
      if nm = ''hasOwnProperty'' then Inl BadName
      else let f = (ctrl st form)\<lparr>controls := controls (ctrl st form) @ [c]\<rparr>;
               f = (if nm \<noteq> [] then f\<lparr>published := key_put nm c (published f)\<rparr> else f);
               st = put_ctrl form f st
           in Inr (put_ctrl c ((ctrl st c)\<lparr>parentForm := Some form\<rparr>) st))"

text \<open>\<open>delete form[name]\<close> when it is the control.\<close>

definition unpublish :: "string \<Rightarrow> nat \<Rightarrow> control \<Rightarrow> control" where
  "unpublish nm c f = (if map_of (published f) nm = Some c then f\<lparr>published := key_delete nm (published f)\<rparr> else f)"

definition renameControl :: "nat option \<Rightarrow> nat \<Rightarrow> string \<Rightarrow> forms \<Rightarrow> forms" where
  "renameControl form c newName st =
     (case form of
        None \<Rightarrow> put_ctrl c ((ctrl st c)\<lparr>ctrl_name := newName\<rparr>) st
      | Some f \<Rightarrow>
          let x = unpublish (ctrl_name (ctrl st c)) c (ctrl st f);
              st = put_ctrl f (x\<lparr>published := key_put newName c (published x)\<rparr>) st
          in put_ctrl c ((ctrl st c)\<lparr>ctrl_name := newName\<rparr>) st)"

fun clear_keys :: "nat \<Rightarrow> nat \<Rightarrow> string list \<Rightarrow> nat \<Rightarrow> forms \<Rightarrow> form_error + forms" where
  "clear_keys n form [] c st = Inr st"
| "clear_keys n form (k # ks) c st =
     (case setValidity n form k (Other False) c st of Inl e \<Rightarrow> Inl e | Inr st \<Rightarrow> clear_keys n form ks c st)"

definition keys_of :: "entries option \<Rightarrow> string list" where
  "keys_of es = (case es of None \<Rightarrow> [] | Some es \<Rightarrow> map fst es)"

definition bind_sum :: "'e + 'a \<Rightarrow> ('a \<Rightarrow> 'e + 'b) \<Rightarrow> 'e + 'b" where
  "bind_sum m f = (case m of Inl e \<Rightarrow> Inl e | Inr x \<Rightarrow> f x)"

definition detach :: "nat \<Rightarrow> nat \<Rightarrow> forms \<Rightarrow> forms" where
  "detach form c st =
     (let st = put_ctrl form ((ctrl st form)\<lparr>controls := remove1 c (controls (ctrl st form))\<rparr>) st
      in put_ctrl c ((ctrl st c)\<lparr>parentForm := None\<rparr>) st)"

definition removeControl :: "nat \<Rightarrow> nat \<Rightarrow> nat \<Rightarrow> forms \<Rightarrow> form_error + forms" where
  "removeControl n form c st =
     (let nm = ctrl_name (ctrl st c);
          st = (if nm \<noteq> [] then put_ctrl form (unpublish nm c (ctrl st form)) st else st)
      in bind_sum (clear_keys n form (keys_of (pending_keys (ctrl st form))) c st) (\<lambda>st.
         bind_sum (clear_keys n form (keys_of (Some (error_keys (ctrl st form)))) c st) (\<lambda>st.
         bind_sum (clear_keys n form (keys_of (Some (success_keys (ctrl st form)))) c st) (\<lambda>st.
         Inr (detach form c st)))))"

section \<open>Flags\<close>

definition switch_classes :: "string list \<Rightarrow> string list \<Rightarrow> control \<Rightarrow> control" where
  "switch_classes add remove x = x\<lparr>classes := (\<lambda>k. k \<in> set add \<or> classes x k \<and> k \<notin> set remove)\<rparr>"

fun setDirty :: "nat \<Rightarrow> nat \<Rightarrow> forms \<Rightarrow> form_error + forms" where
  "setDirty 0 c st = Inl StackOverflow"
| "setDirty (Suc n) c st =
     (let x = (switch_classes [DIRTY_CLASS] [PRISTINE_CLASS] (ctrl st c))\<lparr>dirty := True, pristine := False\<rparr>;
          st = put_ctrl c x st
      in case parentForm x of None \<Rightarrow> Inr st | Some p \<Rightarrow> setDirty n p st)"

fun setSubmitted :: "nat \<Rightarrow> nat \<Rightarrow> forms \<Rightarrow> form_error + forms" where
  "setSubmitted 0 c st = Inl StackOverflow"
| "setSubmitted (Suc n) c st =
     (let x = (switch_classes [SUBMITTED_CLASS] [] (ctrl st c))\<lparr>submitted := True\<rparr>;
          st = put_ctrl c x st
      in case parentForm x of None \<Rightarrow> Inr st | Some p \<Rightarrow> setSubmitted n p st)"

text \<open>\<open>forEach(controls, ..)\<close> with a call that may fail.\<close>

fun each_control :: "(nat \<Rightarrow> forms \<Rightarrow> form_error + forms) \<Rightarrow> nat list \<Rightarrow> forms \<Rightarrow> form_error + forms" where
  "each_control f [] st = Inr st"
| "each_control f (c # cs) st = bind_sum (f c st) (each_control f cs)"

fun setPristine :: "nat \<Rightarrow> nat \<Rightarrow> forms \<Rightarrow> form_error + forms" where
  "setPristine 0 c st = Inl StackOverflow"
| "setPristine (Suc n) c st =
     (let x = ctrl st c in
      if is_form x
      then each_control (setPristine n) (controls x)
        (put_ctrl c ((switch_classes [PRISTINE_CLASS] [DIRTY_CLASS, SUBMITTED_CLASS] x)\<lparr>dirty := False, pristine := True, submitted := False\<rparr>) st)
      else Inr (put_ctrl c ((switch_classes [PRISTINE_CLASS] [DIRTY_CLASS] x)\<lparr>dirty := False, pristine := True\<rparr>) st))"

fun setUntouched :: "nat \<Rightarrow> nat \<Rightarrow> forms \<Rightarrow> form_error + forms" where
  "setUntouched 0 c st = Inl StackOverflow"
| "setUntouched (Suc n) c st =
     (let x = ctrl st c in
      if is_form x then each_control (setUntouched n) (controls x) st
      else Inr (put_ctrl c ((switch_classes [UNTOUCHED_CLASS] [TOUCHED_CLASS] x)\<lparr>touched := False, untouched := True\<rparr>) st))"

definition setTouched :: "nat \<Rightarrow> forms \<Rightarrow> forms" where
  "setTouched c st =
     put_ctrl c ((switch_classes [TOUCHED_CLASS] [UNTOUCHED_CLASS] (ctrl st c))\<lparr>touched := True, untouched := False\<rparr>) st"

text \<open>\<open>$$updateEmptyClasses\<close> of a model, given what \<open>$isEmpty\<close> says of the value.\<close>

definition updateEmptyClasses :: "nat \<Rightarrow> bool \<Rightarrow> forms \<Rightarrow> forms" where
  "updateEmptyClasses c isEmpty st =
     put_ctrl c (if isEmpty then switch_classes [EMPTY_CLASS] [NOT_EMPTY_CLASS] (ctrl st c)
                 else switch_classes [NOT_EMPTY_CLASS] [EMPTY_CLASS] (ctrl st c)) st"

section \<open>Making controls\<close>

text \<open>
  A new controller and its element, with the classes that the directives add when they compile it;
  \<open>addSetValidityMethod\<close> reads the class cache from the element.
\<close>

definition new_control :: "bool \<Rightarrow> string \<Rightarrow> control" where
  "new_control form nm =
     (let cs = (if form then [PRISTINE_CLASS, VALID_CLASS] else [PRISTINE_CLASS, UNTOUCHED_CLASS, VALID_CLASS]) in
      \<lparr>is_form = form, ctrl_name = nm, error_keys = [], success_keys = [], pending_keys = None,
       valid = Some True, invalid = Some False, dirty = False, pristine = True, submitted = False, touched = False,
       untouched = True, parentForm = None, controls = [], published = [],
       classCache = (\<lambda>_. False)(VALID_CLASS := VALID_CLASS \<in> set cs, INVALID_CLASS := VALID_CLASS \<notin> set cs),
       classes = (\<lambda>k. k \<in> set cs)\<rparr>)"

definition make_control :: "bool \<Rightarrow> string \<Rightarrow> forms \<Rightarrow> forms" where
  "make_control form nm st = (put_ctrl (made st) (new_control form nm) st)\<lparr>made := made st + 1\<rparr>"

definition no_forms :: forms where
  "no_forms = \<lparr>ctrl = (\<lambda>_. new_control False []), made = 0\<rparr>"

end
