(* ===== verification/NgFormsInv.thy ===== *)
theory NgFormsInv
  imports NgForms
begin

text \<open>
  The invariant of forms: what a form records about the controls in it, key by key, is what each of
  them shows, and so a form is valid exactly when everything below it is.
\<close>

section \<open>The interface of \<open>addSetValidityMethod\<close>\<close>

text \<open>
  The method gets its \<open>set\<close> and \<open>unset\<close> from the controller. It relies on these laws: \<open>holds\<close> says that
  an object holds a controller under a key, and \<open>same\<close> which controllers it does not tell apart.
\<close>

locale key_store =
  fixes ins :: "entries \<Rightarrow> string \<Rightarrow> nat \<Rightarrow> entries"
    and del :: "entries \<Rightarrow> string \<Rightarrow> nat \<Rightarrow> entries"
    and holds :: "entries \<Rightarrow> string \<Rightarrow> nat \<Rightarrow> bool"
    and fit :: "entries \<Rightarrow> bool"
    and same :: "nat \<Rightarrow> nat \<Rightarrow> bool"
  assumes fit_empty: "fit []"
    and ins_fit: "fit obj \<Longrightarrow> fit (ins obj k c)"
    and del_fit: "fit obj \<Longrightarrow> fit (del obj k c)"
    and holds_ins: "fit obj \<Longrightarrow> holds (ins obj k c) j d \<longleftrightarrow> (j = k \<and> same c d) \<or> holds obj j d"
    and holds_del: "fit obj \<Longrightarrow> holds (del obj k c) j d \<longleftrightarrow> holds obj j d \<and> \<not> (j = k \<and> same c d)"
    and holds_present: "fit obj \<Longrightarrow> map_of obj k \<noteq> None \<longleftrightarrow> (\<exists>d. holds obj k d)"
begin

lemma holds_empty [simp]: "\<not> holds [] k d"
  using holds_present [OF fit_empty, of k] by simp

lemma empty_iff:
  assumes "fit obj"
  shows "obj = [] \<longleftrightarrow> (\<forall>k d. \<not> holds obj k d)"
proof
  assume none: "\<forall>k d. \<not> holds obj k d"
  show "obj = []"
  proof (cases obj)
    case (Cons e es)
    then have "map_of obj (fst e) \<noteq> None" by (cases e) simp
    with holds_present [OF assms] none show ?thesis by blast
  qed
qed simp

text \<open>Recording a state in three objects, of which one gets the controller and the others lose it.\<close>

lemma recorded:
  assumes "fit obj"
  shows "fit (if b then ins obj k c else del obj k c)"
    "holds (if b then ins obj k c else del obj k c) j d \<longleftrightarrow> (if j = k \<and> same c d then b else holds obj j d)"
  using assms by (auto simp: ins_fit del_fit holds_ins holds_del)

end

text \<open>Lists of entries with distinct keys.\<close>

lemma map_of_key_put [simp]: "map_of (key_put k e es) j = (if j = k then Some e else map_of es j)"
  by (induction k e es rule: key_put.induct) auto

lemma keys_key_put: "fst ` set (key_put k e es) = insert k (fst ` set es)"
  by (induction k e es rule: key_put.induct) auto

lemma distinct_key_put: "distinct (map fst es) \<Longrightarrow> distinct (map fst (key_put k e es))"
  by (induction k e es rule: key_put.induct) (auto simp: keys_key_put)

lemma map_of_key_delete [simp]: "map_of (key_delete k es) j = (if j = k then None else map_of es j)"
  by (induction es) (auto simp: key_delete_def)

lemma distinct_key_delete: "distinct (map fst es) \<Longrightarrow> distinct (map fst (key_delete k es))"
  by (simp add: key_delete_def distinct_map_filter)

definition form_holds :: "entries \<Rightarrow> string \<Rightarrow> nat \<Rightarrow> bool" where
  "form_holds obj k c \<longleftrightarrow> (case map_of obj k of Some (By l) \<Rightarrow> c \<in> set l | _ \<Rightarrow> False)"

definition form_entry :: "entry option \<Rightarrow> bool" where
  "form_entry e = (case e of None \<Rightarrow> True | Some Present \<Rightarrow> False | Some (By l) \<Rightarrow> l \<noteq> [] \<and> distinct l)"

lemma form_entry_simps [simp]: "form_entry None" "\<not> form_entry (Some Present)" "form_entry (Some (By l)) \<longleftrightarrow> l \<noteq> [] \<and> distinct l"
  by (simp_all add: form_entry_def)

definition form_fit :: "entries \<Rightarrow> bool" where
  "form_fit obj \<longleftrightarrow> distinct (map fst obj) \<and> (\<forall>k. form_entry (map_of obj k))"

lemma form_fit_cases:
  assumes "form_fit obj"
  obtains "map_of obj k = None" | l where "map_of obj k = Some (By l)" "l \<noteq> []" "distinct l"
proof (cases "map_of obj k")
  case (Some e)
  from assms have "form_entry (map_of obj k)" by (simp add: form_fit_def)
  with Some that show ?thesis by (cases e) auto
qed (use that in blast)

interpretation form_store: key_store form_set form_unset form_holds form_fit "(=)"
proof
  fix obj :: entries and k c j d
  assume fit: "form_fit obj"
  then have d: "distinct (map fst obj)" "\<And>k. form_entry (map_of obj k)" by (auto simp: form_fit_def)
  show "form_fit (form_set obj k c)"
    by (rule form_fit_cases [OF fit, of k]) (auto simp: form_set_def form_fit_def d distinct_key_put)
  show "form_fit (form_unset obj k c)"
    by (rule form_fit_cases [OF fit, of k]) (auto simp: form_unset_def form_fit_def d distinct_key_put distinct_key_delete)
  show "form_holds (form_set obj k c) j d \<longleftrightarrow> j = k \<and> c = d \<or> form_holds obj j d"
    by (rule form_fit_cases [OF fit, of k]) (auto simp: form_set_def form_holds_def)
  show "form_holds (form_unset obj k c) j d \<longleftrightarrow> form_holds obj j d \<and> \<not> (j = k \<and> c = d)"
  proof (rule form_fit_cases [OF fit, of k])
    fix l
    assume l: "map_of obj k = Some (By l)" "l \<noteq> []" "distinct l"
    then have "set (remove1 c l) = set l - {c}" by simp
    then have "remove1 c l = [] \<longleftrightarrow> set l \<subseteq> {c}" by (metis Diff_eq_empty_iff set_empty)
    with l \<open>set (remove1 c l) = set l - {c}\<close> show ?thesis by (auto simp: form_unset_def form_holds_def)
  qed (auto simp: form_unset_def form_holds_def)
  show "map_of obj k \<noteq> None \<longleftrightarrow> (\<exists>d. form_holds obj k d)"
    by (rule form_fit_cases [OF fit, of k]) (auto simp: form_holds_def neq_Nil_conv)
qed (simp add: form_fit_def)

definition model_holds :: "entries \<Rightarrow> string \<Rightarrow> nat \<Rightarrow> bool" where
  "model_holds obj k c \<longleftrightarrow> map_of obj k \<noteq> None"

interpretation model_store: key_store model_set model_unset model_holds "\<lambda>obj. distinct (map fst obj)" "\<lambda>_ _. True"
  by unfold_locales (auto simp: model_set_def model_unset_def model_holds_def distinct_key_put distinct_key_delete)

definition entry_holds :: "bool \<Rightarrow> entries \<Rightarrow> string \<Rightarrow> nat \<Rightarrow> bool" where
  "entry_holds form = (if form then form_holds else model_holds)"

definition entry_fit :: "bool \<Rightarrow> entries \<Rightarrow> bool" where
  "entry_fit form = (if form then form_fit else (\<lambda>obj. distinct (map fst obj)))"

definition same_ctrl :: "bool \<Rightarrow> nat \<Rightarrow> nat \<Rightarrow> bool" where
  "same_ctrl form c d \<longleftrightarrow> (form \<longrightarrow> c = d)"

interpretation store: key_store "set_entry form" "unset_entry form" "entry_holds form" "entry_fit form" "same_ctrl form" for form
proof (cases form)
  case True
  then show "key_store (set_entry form) (unset_entry form) (entry_holds form) (entry_fit form) (same_ctrl form)"
    using form_store.key_store_axioms
    by (simp add: set_entry_def unset_entry_def entry_holds_def entry_fit_def same_ctrl_def [abs_def])
next
  case False
  then show "key_store (set_entry form) (unset_entry form) (entry_holds form) (entry_fit form) (same_ctrl form)"
    using model_store.key_store_axioms
    by (simp add: set_entry_def unset_entry_def entry_holds_def entry_fit_def same_ctrl_def [abs_def])
qed

section \<open>One control\<close>

definition pending_of :: "control \<Rightarrow> entries" where
  "pending_of x = (case pending_keys x of None \<Rightarrow> [] | Some es \<Rightarrow> es)"

text \<open>What a control has recorded about the controller \<open>d\<close> under a key.\<close>

definition recorded_as :: "control \<Rightarrow> string \<Rightarrow> nat \<Rightarrow> vstate \<Rightarrow> bool" where
  "recorded_as x k d s =
     (case s of Undefined \<Rightarrow> entry_holds (is_form x) (pending_of x) k d
      | Boolean b \<Rightarrow> entry_holds (is_form x) (if b then success_keys x else error_keys x) k d
      | Other b \<Rightarrow> False)"

definition entries_ok :: "control \<Rightarrow> bool" where
  "entries_ok x \<longleftrightarrow> entry_fit (is_form x) (error_keys x) \<and> entry_fit (is_form x) (success_keys x) \<and>
     entry_fit (is_form x) (pending_of x) \<and> pending_keys x \<noteq> Some []"

text \<open>The flags and the classes of the element show the entries.\<close>

definition shown_ok :: "control \<Rightarrow> bool" where
  "shown_ok x \<longleftrightarrow> valid x = (if pending_keys x \<noteq> None then None else Some (error_keys x = [])) \<and>
     invalid x = map_option Not (valid x) \<and>
     (\<forall>k. k \<in> {VALID_CLASS, INVALID_CLASS, PENDING_CLASS} \<longrightarrow> classCache x k = classes x k) \<and>
     classes x VALID_CLASS = (valid x = Some True) \<and> classes x INVALID_CLASS = (valid x = Some False) \<and>
     classes x PENDING_CLASS = (valid x = None)"

lemma recorded_as_simps:
  "recorded_as x k d Undefined = entry_holds (is_form x) (pending_of x) k d"
  "recorded_as x k d (Boolean True) = entry_holds (is_form x) (success_keys x) k d"
  "recorded_as x k d (Boolean False) = entry_holds (is_form x) (error_keys x) k d"
  "recorded_as x k d (Other b) = False"
  by (simp_all add: recorded_as_def)

lemma record_state_eq:
  assumes "entries_ok x"
  shows "record_state k s c x = x\<lparr>
    error_keys := (if s = Boolean False then set_entry (is_form x) else unset_entry (is_form x)) (error_keys x) k c,
    success_keys := (if s = Boolean True then set_entry (is_form x) else unset_entry (is_form x)) (success_keys x) k c,
    pending_keys := (let es = (if s = Undefined then set_entry (is_form x) else unset_entry (is_form x)) (pending_of x) k c
                     in if es = [] then None else Some es)\<rparr>"
proof -
  have set: "set_entry (is_form x) (pending_of x) k c \<noteq> []"
  proof -
    have "entry_fit (is_form x) (pending_of x)" using assms by (simp add: entries_ok_def)
    then have "entry_holds (is_form x) (set_entry (is_form x) (pending_of x) k c) k c"
      by (simp add: store.holds_ins same_ctrl_def)
    then show ?thesis by auto
  qed
  have unset: "unset_entry form [] k c = []" for form
    by (simp add: unset_entry_def form_unset_def model_unset_def key_delete_def)
  show ?thesis
  proof (cases "s = Undefined")
    case True
    with set show ?thesis
      by (simp add: record_state_def createAndSet_def pending_of_def)
  next
    case False
    then show ?thesis using unset
      by (cases s rule: vstate.exhaust; cases "pending_keys x")
        (auto simp: record_state_def unsetAndCleanup_def isObjectEmpty_def pending_of_def Let_def split: bool.splits)
  qed
qed

lemma record_state_recorded:
  assumes x: "entries_ok x" and x': "x' = record_state k s c x"
  shows "entries_ok x'"
    "recorded_as x' j d t \<longleftrightarrow> (if j = k \<and> same_ctrl (is_form x) c d then t = s \<and> (\<forall>b. t \<noteq> Other b) else recorded_as x j d t)"
proof -
  have fit: "entry_fit (is_form x) (error_keys x)" "entry_fit (is_form x) (success_keys x)" "entry_fit (is_form x) (pending_of x)"
    using x by (auto simp: entries_ok_def)
  note eq = x' [unfolded record_state_eq [OF x]]
  have fields: "is_form x' = is_form x"
    "error_keys x' = (if s = Boolean False then set_entry (is_form x) else unset_entry (is_form x)) (error_keys x) k c"
    "success_keys x' = (if s = Boolean True then set_entry (is_form x) else unset_entry (is_form x)) (success_keys x) k c"
    "pending_of x' = (if s = Undefined then set_entry (is_form x) else unset_entry (is_form x)) (pending_of x) k c"
    "pending_keys x' \<noteq> Some []"
    unfolding eq by (simp_all add: pending_of_def Let_def)
  show "entries_ok x'"
    using fit fields(5) by (simp add: entries_ok_def fields(1-4) store.ins_fit store.del_fit)
  show "recorded_as x' j d t \<longleftrightarrow> (if j = k \<and> same_ctrl (is_form x) c d then t = s \<and> (\<forall>b. t \<noteq> Other b) else recorded_as x j d t)"
  proof (cases t)
    case (Boolean b)
    then show ?thesis using fit by (cases b) (auto simp: recorded_as_simps fields(1-4) store.holds_ins store.holds_del)
  qed (use fit in \<open>auto simp: recorded_as_simps fields(1-4) store.holds_ins store.holds_del\<close>)
qed

lemma combined_iff:
  assumes "entries_ok x"
  shows "combinedState k x =
    (if \<exists>d. recorded_as x k d Undefined then Undefined
     else if \<exists>d. recorded_as x k d (Boolean False) then Boolean False
     else if \<exists>d. recorded_as x k d (Boolean True) then Boolean True else Other False)"
proof -
  have fit: "entry_fit (is_form x) (error_keys x)" "entry_fit (is_form x) (success_keys x)" "entry_fit (is_form x) (pending_of x)"
    using assms by (auto simp: entries_ok_def)
  have "(case pending_keys x of None \<Rightarrow> False | Some es \<Rightarrow> map_of es k \<noteq> None) = (map_of (pending_of x) k \<noteq> None)"
    by (simp add: pending_of_def split: option.splits)
  then show ?thesis
    unfolding combinedState_def recorded_as_simps store.holds_present [OF fit(1), symmetric]
      store.holds_present [OF fit(2), symmetric] store.holds_present [OF fit(3), symmetric]
    by simp
qed

lemma empty_keys_iff:
  assumes "entries_ok x"
  shows "pending_keys x \<noteq> None \<longleftrightarrow> (\<exists>k d. recorded_as x k d Undefined)"
    "error_keys x \<noteq> [] \<longleftrightarrow> (\<exists>k d. recorded_as x k d (Boolean False))"
proof -
  have fit: "entry_fit (is_form x) (error_keys x)" "entry_fit (is_form x) (pending_of x)" "pending_keys x \<noteq> Some []"
    using assms by (auto simp: entries_ok_def)
  have "pending_keys x \<noteq> None \<longleftrightarrow> pending_of x \<noteq> []" using fit(3) by (auto simp: pending_of_def split: option.splits)
  then show "pending_keys x \<noteq> None \<longleftrightarrow> (\<exists>k d. recorded_as x k d Undefined)"
    "error_keys x \<noteq> [] \<longleftrightarrow> (\<exists>k d. recorded_as x k d (Boolean False))"
    using store.empty_iff [OF fit(2)] store.empty_iff [OF fit(1)] by (simp_all add: recorded_as_simps)
qed

text \<open>Classes.\<close>

abbreviation shown_classes :: "string set" where
  "shown_classes \<equiv> {VALID_CLASS, INVALID_CLASS, PENDING_CLASS}"

lemmas class_names = VALID_CLASS_def INVALID_CLASS_def PENDING_CLASS_def

lemma toggle_class:
  "classCache x k = classes x k \<Longrightarrow>
   cachedToggleClass k b x = x\<lparr>classes := (classes x)(k := b), classCache := (classCache x)(k := b)\<rparr>"
  by (cases x) (auto simp: cachedToggleClass_def fun_upd_idem)

lemma toggle_frame:
  "\<exists>C D. cachedToggleClass k b x = x\<lparr>classes := C, classCache := D\<rparr> \<and> (\<forall>j. j \<noteq> k \<longrightarrow> C j = classes x j \<and> D j = classCache x j)"
  by (cases x) (auto simp: cachedToggleClass_def)

lemma toggle_key_css:
  assumes "k \<noteq> []"
  shows "\<exists>C D. toggleValidationCss k s x = x\<lparr>classes := C, classCache := D\<rparr> \<and>
    (\<forall>j\<in>shown_classes. C j = classes x j \<and> D j = classCache x j)"
proof -
  let ?v = "VALID_CLASS @ ''-'' @ snake_case k ''-''" and ?i = "INVALID_CLASS @ ''-'' @ snake_case k ''-''"
  obtain C D where 1: "cachedToggleClass ?v (s = Boolean True) x = x\<lparr>classes := C, classCache := D\<rparr>"
      "\<forall>j. j \<noteq> ?v \<longrightarrow> C j = classes x j \<and> D j = classCache x j"
    using toggle_frame [of ?v "s = Boolean True" x] by auto
  obtain C' D' where 2: "cachedToggleClass ?i (s = Boolean False) (x\<lparr>classes := C, classCache := D\<rparr>) =
        (x\<lparr>classes := C, classCache := D\<rparr>)\<lparr>classes := C', classCache := D'\<rparr>"
      "\<forall>j. j \<noteq> ?i \<longrightarrow> C' j = C j \<and> D' j = D j"
    using toggle_frame [of ?i "s = Boolean False" "x\<lparr>classes := C, classCache := D\<rparr>"] by auto
  have "j \<noteq> ?v \<and> j \<noteq> ?i" if "j \<in> shown_classes" for j using that by (auto simp: class_names)
  with 1(2) 2(2) have "\<forall>j\<in>shown_classes. C' j = classes x j \<and> D' j = classCache x j" by metis
  moreover have "toggleValidationCss k s x = x\<lparr>classes := C', classCache := D'\<rparr>"
    using assms 1(1) 2(1) by (simp add: toggleValidationCss_def)
  ultimately show ?thesis by blast
qed

lemma show_state_shown:
  assumes "shown_ok x0" "classes x = classes x0" "classCache x = classCache x0"
  shows "shown_ok (show_state x)"
    "\<exists>v i C D. show_state x = x\<lparr>valid := v, invalid := i, classes := C, classCache := D\<rparr>"
proof -
  have c: "\<forall>k\<in>shown_classes. classCache x k = classes x k" using assms by (auto simp: shown_ok_def)
  have d: "VALID_CLASS \<noteq> INVALID_CLASS" "VALID_CLASS \<noteq> PENDING_CLASS" "INVALID_CLASS \<noteq> PENDING_CLASS"
    by (simp_all add: class_names)
  have eq: "show_state x = x\<lparr>valid := v, invalid := map_option Not v,
      classes := (classes x)(PENDING_CLASS := (v = None), VALID_CLASS := (v = Some True), INVALID_CLASS := (v = Some False)),
      classCache := (classCache x)(PENDING_CLASS := (v = None), VALID_CLASS := (v = Some True), INVALID_CLASS := (v = Some False))\<rparr>"
    if "v = (if pending_keys x \<noteq> None then None else Some (error_keys x = []))" for v
    using c d that by (simp add: show_state_def isObjectEmpty_def toggleValidationCss_def toggle_class Let_def)
  show "\<exists>v i C D. show_state x = x\<lparr>valid := v, invalid := i, classes := C, classCache := D\<rparr>"
    using eq by blast
  show "shown_ok (show_state x)"
    unfolding eq [OF refl] shown_ok_def using c d by auto
qed

text \<open>What \<open>$setValidity\<close> leaves alone.\<close>

definition same_rest :: "control \<Rightarrow> control \<Rightarrow> bool" where
  "same_rest x y \<longleftrightarrow> is_form y = is_form x \<and> ctrl_name y = ctrl_name x \<and> dirty y = dirty x \<and> pristine y = pristine x \<and>
     submitted y = submitted x \<and> touched y = touched x \<and> untouched y = untouched x \<and> parentForm y = parentForm x \<and>
     controls y = controls x \<and> published y = published x"

definition named_keys :: "control \<Rightarrow> bool" where
  "named_keys x \<longleftrightarrow> (\<forall>d s. \<not> recorded_as x [] d s)"

definition control_ok :: "control \<Rightarrow> bool" where
  "control_ok x \<longleftrightarrow> entries_ok x \<and> shown_ok x \<and> named_keys x \<and> pristine x = (\<not> dirty x)"

lemma recorded_as_cong:
  "is_form y = is_form x \<Longrightarrow> error_keys y = error_keys x \<Longrightarrow> success_keys y = success_keys x \<Longrightarrow>
   pending_keys y = pending_keys x \<Longrightarrow> recorded_as y k d s = recorded_as x k d s"
  by (cases s) (simp_all add: recorded_as_def pending_of_def)

lemma validate_here_eq:
  assumes e: "entries_ok x" and k: "k \<noteq> []" and sh: "shown_ok x"
  obtains r v i C D where "r = record_state k s c x" "shown_ok (show_state r)" "same_rest x r"
    "validate_here k s c x = r\<lparr>valid := v, invalid := i, classes := C, classCache := D\<rparr>"
    "valid (show_state r) = v" "invalid (show_state r) = i"
    "\<forall>j\<in>shown_classes. C j = classes (show_state r) j \<and> D j = classCache (show_state r) j"
    "pending_keys (show_state r) = pending_keys r" "error_keys (show_state r) = error_keys r"
proof -
  define r where "r = record_state k s c x"
  obtain E S P where r: "r = x\<lparr>error_keys := E, success_keys := S, pending_keys := P\<rparr>"
    unfolding r_def record_state_eq [OF e] by blast
  have keep: "classes r = classes x" "classCache r = classCache x" "same_rest x r"
    unfolding r same_rest_def by simp_all
  note shown = show_state_shown [OF sh keep(1,2)]
  from shown(2) obtain v i C D where v: "show_state r = r\<lparr>valid := v, invalid := i, classes := C, classCache := D\<rparr>" by blast
  obtain z where z: "z = show_state r" by simp
  obtain C' D' where t: "toggleValidationCss k (combinedState k z) z = z\<lparr>classes := C', classCache := D'\<rparr>"
      "\<forall>j\<in>shown_classes. C' j = classes z j \<and> D' j = classCache z j"
    using toggle_key_css [OF k, of "combinedState k z" z] by blast
  have "validate_here k s c x = z\<lparr>classes := C', classCache := D'\<rparr>"
    using t(1) unfolding validate_here_def r_def [symmetric] z [symmetric] Let_def .
  also have "\<dots> = r\<lparr>valid := v, invalid := i, classes := C', classCache := D'\<rparr>" unfolding z v by simp
  finally have "validate_here k s c x = r\<lparr>valid := v, invalid := i, classes := C', classCache := D'\<rparr>" .
  then show ?thesis
  proof (rule that [OF r_def shown(1) keep(3)])
    show "valid (show_state r) = v" "invalid (show_state r) = i" "pending_keys (show_state r) = pending_keys r"
      "error_keys (show_state r) = error_keys r"
      unfolding v by simp_all
    show "\<forall>j\<in>shown_classes. C' j = classes (show_state r) j \<and> D' j = classCache (show_state r) j" using t(2) unfolding z .
  qed
qed

lemma validate_here_ok:
  assumes x: "control_ok x" and k: "k \<noteq> []" and y: "y = validate_here k s c x"
  shows "control_ok y" "same_rest x y"
    "recorded_as y j d t \<longleftrightarrow> (if j = k \<and> same_ctrl (is_form x) c d then t = s \<and> (\<forall>b. t \<noteq> Other b) else recorded_as x j d t)"
proof -
  have e: "entries_ok x" and sh: "shown_ok x" using x by (simp_all add: control_ok_def)
  obtain r v i C D where r: "r = record_state k s c x" "shown_ok (show_state r)" "same_rest x r"
    and y': "y = r\<lparr>valid := v, invalid := i, classes := C, classCache := D\<rparr>"
    and sr: "valid (show_state r) = v" "invalid (show_state r) = i"
      "\<forall>j\<in>shown_classes. C j = classes (show_state r) j \<and> D j = classCache (show_state r) j"
      "pending_keys (show_state r) = pending_keys r" "error_keys (show_state r) = error_keys r"
    by (rule validate_here_eq [OF e k sh, of s c, folded y])
  note rec = record_state_recorded [OF e r(1)]
  have cong: "recorded_as y j d t = recorded_as r j d t" for j d t
    unfolding y' by (rule recorded_as_cong) simp_all
  show rec': "recorded_as y j d t \<longleftrightarrow> (if j = k \<and> same_ctrl (is_form x) c d then t = s \<and> (\<forall>b. t \<noteq> Other b) else recorded_as x j d t)" for j d t
    unfolding cong by (rule rec(2))
  have "named_keys y" using x k unfolding control_ok_def named_keys_def rec' by simp
  moreover have "entries_ok y" using rec(1) unfolding y' entries_ok_def pending_of_def by simp
  moreover have "shown_ok y" using r(2) sr unfolding y' shown_ok_def by simp
  moreover have "pristine y = (\<not> dirty y)" using x r(3) unfolding y' control_ok_def same_rest_def by simp
  ultimately show "control_ok y" by (simp add: control_ok_def)
  show "same_rest x y" using r(3) unfolding same_rest_def y' by simp
qed

section \<open>Forms and what is in them\<close>

definition child_of :: "forms \<Rightarrow> nat \<Rightarrow> nat \<Rightarrow> bool" where
  "child_of st F c \<longleftrightarrow> c < made st \<and> parentForm (ctrl st c) = Some F"

definition tree_ok :: "forms \<Rightarrow> bool" where
  "tree_ok st \<longleftrightarrow> (\<forall>c<made st. control_ok (ctrl st c)) \<and>
     (\<forall>F c. child_of st F c \<longrightarrow> F < c \<and> is_form (ctrl st F) \<and> c \<in> set (controls (ctrl st F))) \<and>
     (\<forall>F<made st. distinct (controls (ctrl st F)) \<and> (\<forall>c\<in>set (controls (ctrl st F)). child_of st F c))"

text \<open>
  A form records a control in it as the control's combined state, and no other control; \<open>R\<close> are the
  entries that are taken out already, while a control is removed.
\<close>

definition linked :: "forms \<Rightarrow> (nat \<times> string \<times> nat) set \<Rightarrow> nat \<Rightarrow> string \<Rightarrow> nat \<Rightarrow> bool" where
  "linked st R F k c \<longleftrightarrow> (\<forall>s. (\<forall>b. s \<noteq> Other b) \<longrightarrow>
     (recorded_as (ctrl st F) k c s \<longleftrightarrow> child_of st F c \<and> (F, k, c) \<notin> R \<and> combinedState k (ctrl st c) = s))"

definition links_ok :: "forms \<Rightarrow> (nat \<times> string \<times> nat) set \<Rightarrow> bool" where
  "links_ok st R \<longleftrightarrow> (\<forall>F<made st. is_form (ctrl st F) \<longrightarrow> (\<forall>k c. linked st R F k c))"

text \<open>All entries but one are right, and the call that is to come puts that one right.\<close>

definition links_but :: "forms \<Rightarrow> (nat \<times> string \<times> nat) set \<Rightarrow> nat \<times> string \<times> nat \<Rightarrow> bool" where
  "links_but st R e \<longleftrightarrow> (\<forall>F<made st. is_form (ctrl st F) \<longrightarrow> (\<forall>j d. (F, j, d) \<noteq> e \<longrightarrow> linked st R F j d))"

definition tells :: "forms \<Rightarrow> (nat \<times> string \<times> nat) set \<Rightarrow> nat \<Rightarrow> string \<Rightarrow> vstate \<Rightarrow> nat \<Rightarrow> bool" where
  "tells st R c k s w \<longleftrightarrow> (is_form (ctrl st c) \<longrightarrow>
     child_of st c w \<and> s = (if (c, k, w) \<in> R then Other False else combinedState k (ctrl st w)))"

text \<open>A call of \<open>$setValidity\<close>: the controls keep their places.\<close>

definition moves_nothing :: "forms \<Rightarrow> forms \<Rightarrow> bool" where
  "moves_nothing st st' \<longleftrightarrow> made st' = made st \<and> (\<forall>c. same_rest (ctrl st c) (ctrl st' c))"

lemma moves_nothing_refl [simp]: "moves_nothing st st"
  by (simp add: moves_nothing_def same_rest_def)

lemma moves_nothing_trans: "moves_nothing st st1 \<Longrightarrow> moves_nothing st1 st2 \<Longrightarrow> moves_nothing st st2"
  by (simp add: moves_nothing_def same_rest_def)

lemma moves_nothing_child: "moves_nothing st st' \<Longrightarrow> child_of st' F c = child_of st F c"
  by (simp add: moves_nothing_def same_rest_def child_of_def)

lemma moves_nothing_fields:
  assumes "moves_nothing st st'"
  shows "made st' = made st" "is_form (ctrl st' c) = is_form (ctrl st c)" "controls (ctrl st' c) = controls (ctrl st c)"
    "parentForm (ctrl st' c) = parentForm (ctrl st c)" "dirty (ctrl st' c) = dirty (ctrl st c)"
    "submitted (ctrl st' c) = submitted (ctrl st c)"
  using assms by (simp_all add: moves_nothing_def same_rest_def)

lemma moves_nothing_tree:
  assumes "moves_nothing st st'" "tree_ok st" "\<forall>c<made st'. control_ok (ctrl st' c)"
  shows "tree_ok st'"
  using assms(2,3) unfolding tree_ok_def moves_nothing_child [OF assms(1)]
  by (simp add: moves_nothing_fields [OF assms(1)])

lemma put_ctrl_simps [simp]:
  "ctrl (put_ctrl c x st) d = (if d = c then x else ctrl st d)" "made (put_ctrl c x st) = made st"
  by (simp_all add: put_ctrl_def)

lemma put_ctrl_moves_nothing: "same_rest (ctrl st c) x \<Longrightarrow> moves_nothing st (put_ctrl c x st)"
  by (simp add: moves_nothing_def same_rest_def)

lemma combined_cong:
  assumes "control_ok x" "control_ok y" "\<And>d t. recorded_as y k d t = recorded_as x k d t"
  shows "combinedState k y = combinedState k x"
  using assms by (simp add: combined_iff control_ok_def)

lemma tree_okD:
  assumes "tree_ok st"
  shows "c < made st \<Longrightarrow> control_ok (ctrl st c)" "child_of st F c \<Longrightarrow> F < c" "child_of st F c \<Longrightarrow> is_form (ctrl st F)"
    "child_of st F c \<Longrightarrow> c \<in> set (controls (ctrl st F))" "F < made st \<Longrightarrow> distinct (controls (ctrl st F))"
    "F < made st \<Longrightarrow> c \<in> set (controls (ctrl st F)) \<Longrightarrow> child_of st F c"
  using assms unfolding tree_ok_def by blast+

text \<open>One step of \<open>$setValidity\<close>: only what the control's own form records about it gets out of date.\<close>

lemma validate_step:
  assumes t: "tree_ok st" and k: "k \<noteq> []" and c: "c < made st"
    and others: "links_but st R (c, k, w)" and own: "tells st R c k s w"
    and st1: "st1 = put_ctrl c (validate_here k s w (ctrl st c)) st"
  shows "tree_ok st1" "moves_nothing st st1"
    "\<lbrakk>F < made st; is_form (ctrl st F); child_of st F d \<Longrightarrow> \<not> (j = k \<and> d = c)\<rbrakk> \<Longrightarrow> linked st1 R F j d"
proof -
  obtain y where y: "y = validate_here k s w (ctrl st c)" by simp
  note st1 = st1 [folded y]
  have x: "control_ok (ctrl st c)" using tree_okD(1) [OF t c] .
  note here = validate_here_ok [OF x k y]
  show m1: "moves_nothing st st1" unfolding st1 by (rule put_ctrl_moves_nothing [OF here(2)])
  have "\<forall>d<made st1. control_ok (ctrl st1 d)" using tree_okD(1) [OF t] here(1) by (simp add: st1)
  then show "tree_ok st1" by (rule moves_nothing_tree [OF m1 t])
  note ch = moves_nothing_child [OF m1]
  have comb: "combinedState j (ctrl st1 d) = combinedState j (ctrl st d)" if "(j, d) \<noteq> (k, c)" for j d
  proof (cases "d = c")
    case True
    with that have "j \<noteq> k" by simp
    then have "combinedState j y = combinedState j (ctrl st c)"
      by (intro combined_cong [OF x here(1)]) (simp add: here(3))
    with True show ?thesis by (simp add: st1)
  qed (simp add: st1)
  show "linked st1 R F j d" if F: "F < made st" "is_form (ctrl st F)" and d: "child_of st F d \<Longrightarrow> \<not> (j = k \<and> d = c)"
  proof (cases "(F, j, d) = (c, k, w)")
    case True
    then have f: "is_form (ctrl st c)" using F by simp
    with own have w: "child_of st c w" "s = (if (c, k, w) \<in> R then Other False else combinedState k (ctrl st w))"
      by (simp_all add: tells_def)
    have "c < w" by (rule tree_okD(2) [OF t w(1)])
    then have "ctrl st1 w = ctrl st w" by (simp add: st1)
    moreover have "recorded_as (ctrl st1 c) k w t \<longleftrightarrow> t = s \<and> (\<forall>b. t \<noteq> Other b)" for t
      using here(3) [of k w t] by (simp add: st1 same_ctrl_def)
    ultimately show ?thesis using True w by (auto simp: linked_def ch)
  next
    case False
    have old: "linked st R F j d" using others F False by (simp add: links_but_def)
    have "recorded_as (ctrl st1 F) j d t = recorded_as (ctrl st F) j d t" for t
    proof (cases "F = c")
      case True
      with False F(2) have "\<not> (j = k \<and> same_ctrl (is_form (ctrl st c)) w d)" by (auto simp: same_ctrl_def)
      then have "recorded_as y j d t = recorded_as (ctrl st c) j d t" unfolding here(3) by (rule if_not_P)
      with True show ?thesis by (simp add: st1)
    qed (simp add: st1)
    moreover have "child_of st F d \<Longrightarrow> combinedState j (ctrl st1 d) = combinedState j (ctrl st d)" using comb [of j d] d by auto
    ultimately show ?thesis using old unfolding linked_def ch by auto
  qed
qed

lemma setValidity_ok:
  assumes "tree_ok st" "k \<noteq> []" "c < made st" "c < n"
    and "links_but st R (c, k, w)" "tells st R c k s w" "\<forall>(F, j, d)\<in>R. c \<le> F"
  shows "\<exists>st'. setValidity n c k s w st = Inr st' \<and> tree_ok st' \<and> links_ok st' R \<and> moves_nothing st st' \<and>
    (\<forall>d>c. ctrl st' d = ctrl st d)"
  using assms
proof (induction n arbitrary: c s w st)
  case (Suc n)
  note pre = Suc.prems
  obtain y where y: "y = validate_here k s w (ctrl st c)" by simp
  obtain st1 where st1: "st1 = put_ctrl c y st" by simp
  note step = validate_step [OF pre(1,2,3,5,6) st1 [unfolded y]]
  note same = moves_nothing_fields [OF step(2)]
  have unfold: "setValidity (Suc n) c k s w st =
      (case parentForm y of None \<Rightarrow> Inr st1 | Some p \<Rightarrow> setValidity n p k (combinedState k y) c st1)"
    by (simp add: y [symmetric] st1 [symmetric])
  have yp: "parentForm y = parentForm (ctrl st c)" "ctrl st1 c = y" using same(4) [of c] by (simp_all add: st1)
  have other: "\<forall>d>c. ctrl st1 d = ctrl st d" by (simp add: st1)
  show ?case
  proof (cases "parentForm (ctrl st c)")
    case None
    then have alone: "\<not> child_of st F c" for F by (simp add: child_of_def)
    have "linked st1 R F j d" if "F < made st" "is_form (ctrl st F)" for F j d
      by (rule step(3) [OF that]) (use alone in blast)
    then have "links_ok st1 R" unfolding links_ok_def same(1,2) by blast
    with step(1,2) other show ?thesis unfolding unfold yp(1) None by simp
  next
    case (Some p)
    have p: "child_of st p c" using Some pre(3) by (simp add: child_of_def)
    note pc = tree_okD(2,3) [OF pre(1) p]
    have "\<exists>st'. setValidity n p k (combinedState k y) c st1 = Inr st' \<and> tree_ok st' \<and> links_ok st' R \<and> moves_nothing st1 st' \<and>
      (\<forall>d>p. ctrl st' d = ctrl st1 d)"
    proof (rule Suc.IH [OF step(1) pre(2)])
      show "p < made st1" "p < n" using pc(1) pre(3,4) same(1) by simp_all
      have "linked st1 R F j d" if "F < made st" "is_form (ctrl st F)" "(F, j, d) \<noteq> (p, k, c)" for F j d
        by (rule step(3) [OF that(1,2)]) (use that(3) Some in \<open>auto simp: child_of_def\<close>)
      then show "links_but st1 R (p, k, c)" unfolding links_but_def same(1,2) by blast
      show "tells st1 R p k (combinedState k y) c"
        using p pc(1) pre(7) yp(2) moves_nothing_child [OF step(2)] by (auto simp: tells_def)
      show "\<forall>(F, j, d)\<in>R. p \<le> F" using pre(7) pc(1) by auto
    qed
    then obtain st' where st': "setValidity n p k (combinedState k y) c st1 = Inr st'" "tree_ok st'" "links_ok st' R"
      "moves_nothing st1 st'" "\<forall>d>p. ctrl st' d = ctrl st1 d" by blast
    have "\<forall>d>c. ctrl st' d = ctrl st d" using st'(5) pc(1) other by simp
    then show ?thesis
      unfolding unfold yp(1) Some using st'(1-3) moves_nothing_trans [OF step(2) st'(4)] by simp
  qed
qed simp

text \<open>Removing a control takes it out of the form's entries key by key.\<close>

lemma clear_keys_ok:
  assumes "tree_ok st" "links_ok st R" "child_of st F c" "F < n" "is_form (ctrl st F)" "F < made st"
    and "\<forall>k\<in>set ks. k \<noteq> []" "\<forall>(G, j, d)\<in>R. G = F \<and> d = c"
  shows "\<exists>st'. clear_keys n F ks c st = Inr st' \<and> tree_ok st' \<and> links_ok st' (R \<union> {(F, k, c) |k. k \<in> set ks}) \<and>
    moves_nothing st st' \<and> ctrl st' c = ctrl st c"
  using assms
proof (induction ks arbitrary: st R)
  case (Cons k ks)
  let ?R = "insert (F, k, c) R"
  have "\<exists>st1. setValidity n F k (Other False) c st = Inr st1 \<and> tree_ok st1 \<and> links_ok st1 ?R \<and> moves_nothing st st1 \<and>
    (\<forall>d>F. ctrl st1 d = ctrl st d)"
  proof (rule setValidity_ok)
    show "links_but st ?R (F, k, c)"
      using Cons.prems(2) unfolding links_ok_def links_but_def linked_def by simp
    show "tells st ?R F k (Other False) c" using Cons.prems(3) by (simp add: tells_def)
    show "\<forall>(G, j, d)\<in>?R. F \<le> G" using Cons.prems(8) by auto
  qed (use Cons.prems in auto)
  then obtain st1 where st1: "setValidity n F k (Other False) c st = Inr st1" "tree_ok st1" "links_ok st1 ?R"
      "moves_nothing st st1" "\<forall>d>F. ctrl st1 d = ctrl st d" by blast
  have "child_of st1 F c" using Cons.prems(3) moves_nothing_child [OF st1(4)] by simp
  then have "\<exists>st2. clear_keys n F ks c st1 = Inr st2 \<and> tree_ok st2 \<and> links_ok st2 (?R \<union> {(F, k, c) |k. k \<in> set ks}) \<and>
    moves_nothing st1 st2 \<and> ctrl st2 c = ctrl st1 c"
    using Cons.prems(4-8) moves_nothing_fields(1,2) [OF st1(4)] by (intro Cons.IH [OF st1(2,3)]) simp_all
  then obtain st2 where
    st2: "clear_keys n F ks c st1 = Inr st2" "tree_ok st2" "links_ok st2 (?R \<union> {(F, k, c) |k. k \<in> set ks})"
      "moves_nothing st1 st2" "ctrl st2 c = ctrl st1 c" by blast
  have "?R \<union> {(F, k, c) |k. k \<in> set ks} = R \<union> {(F, j, c) |j. j \<in> set (k # ks)}" by auto
  moreover have "ctrl st2 c = ctrl st c" using st2(5) st1(5) tree_okD(2) [OF Cons.prems(1,3)] by simp
  ultimately show ?case using st1(1) st2 moves_nothing_trans [OF st1(4) st2(4)] by simp
qed simp

section \<open>Operations that keep the entries\<close>

definition same_shape :: "control \<Rightarrow> control \<Rightarrow> bool" where
  "same_shape x y \<longleftrightarrow> is_form y = is_form x \<and> error_keys y = error_keys x \<and> success_keys y = success_keys x \<and>
     pending_keys y = pending_keys x \<and> valid y = valid x \<and> invalid y = invalid x \<and> parentForm y = parentForm x \<and>
     controls y = controls x \<and> pristine y = (\<not> dirty y) \<and>
     (\<forall>j\<in>shown_classes. classes y j = classes x j \<and> classCache y j = classCache x j)"

definition same_shapes :: "forms \<Rightarrow> forms \<Rightarrow> bool" where
  "same_shapes st st' \<longleftrightarrow> made st' = made st \<and> (\<forall>c<made st. same_shape (ctrl st c) (ctrl st' c))"

lemma same_keys:
  assumes "is_form y = is_form x" "error_keys y = error_keys x" "success_keys y = success_keys x" "pending_keys y = pending_keys x"
  shows "recorded_as y k d s = recorded_as x k d s" "combinedState k y = combinedState k x" "entries_ok y = entries_ok x"
    "named_keys y = named_keys x"
proof -
  show r: "recorded_as y k d s = recorded_as x k d s" for k d s by (rule recorded_as_cong [OF assms])
  show "combinedState k y = combinedState k x" by (simp add: combinedState_def assms)
  show "entries_ok y = entries_ok x" by (simp add: entries_ok_def pending_of_def assms)
  show "named_keys y = named_keys x" by (simp add: named_keys_def r)
qed

lemma same_shapeD:
  assumes "same_shape x y"
  shows "is_form y = is_form x" "error_keys y = error_keys x" "success_keys y = success_keys x" "pending_keys y = pending_keys x"
    "valid y = valid x" "invalid y = invalid x" "parentForm y = parentForm x" "controls y = controls x" "pristine y = (\<not> dirty y)"
    "\<forall>j\<in>shown_classes. classes y j = classes x j \<and> classCache y j = classCache x j"
  using assms unfolding same_shape_def by blast+

lemma same_shape_keys:
  assumes "same_shape x y"
  shows "recorded_as y k d s = recorded_as x k d s" "combinedState k y = combinedState k x"
  by (rule same_keys(1,2) [OF same_shapeD(1-4) [OF assms]])+

lemma same_shape_ok:
  assumes "same_shape x y" "control_ok x"
  shows "control_ok y"
proof -
  note d = same_shapeD [OF assms(1)]
  note k = same_keys(3,4) [OF d(1-4)]
  have "shown_ok y = shown_ok x" using d(10) unfolding shown_ok_def d(2,4-6) by simp
  then show ?thesis using assms(2) unfolding control_ok_def k by (simp add: d(9))
qed

lemma same_shapesD:
  assumes "same_shapes st st'"
  shows "made st' = made st" "c < made st \<Longrightarrow> same_shape (ctrl st c) (ctrl st' c)"
  using assms unfolding same_shapes_def by blast+

lemma same_shapes_child: "same_shapes st st' \<Longrightarrow> child_of st' F c = child_of st F c"
  unfolding child_of_def by (metis same_shapesD same_shapeD(7))

lemma tree_okI:
  assumes "\<And>c. c < made st \<Longrightarrow> control_ok (ctrl st c)"
    and "\<And>F c. child_of st F c \<Longrightarrow> F < c \<and> is_form (ctrl st F) \<and> c \<in> set (controls (ctrl st F))"
    and "\<And>F. F < made st \<Longrightarrow> distinct (controls (ctrl st F))"
    and "\<And>F c. F < made st \<Longrightarrow> c \<in> set (controls (ctrl st F)) \<Longrightarrow> child_of st F c"
  shows "tree_ok st"
  using assms unfolding tree_ok_def by blast

lemma child_made:
  assumes "tree_ok st" "child_of st F c"
  shows "F < made st" "c < made st"
  using tree_okD(2) [OF assms] assms(2) by (simp_all add: child_of_def)

lemma links_okD: "links_ok st R \<Longrightarrow> F < made st \<Longrightarrow> is_form (ctrl st F) \<Longrightarrow> linked st R F k c"
  by (simp add: links_ok_def)

lemma same_shapes_ok:
  assumes "same_shapes st st'" "tree_ok st"
  shows "tree_ok st'" "links_ok st R \<Longrightarrow> links_ok st' R"
proof -
  note ch = same_shapes_child [OF assms(1)] and m = same_shapesD(1) [OF assms(1)] and sh = same_shapesD(2) [OF assms(1)]
  note lt = child_made [OF assms(2)] and t = tree_okD [OF assms(2)]
  show "tree_ok st'"
  proof (rule tree_okI)
    show "control_ok (ctrl st' c)" if "c < made st'" for c
      using same_shape_ok [OF sh t(1)] that by (simp add: m)
    show "F < c \<and> is_form (ctrl st' F) \<and> c \<in> set (controls (ctrl st' F))" if "child_of st' F c" for F c
    proof -
      from that have c: "child_of st F c" by (simp add: ch)
      note d = same_shapeD(1,8) [OF sh [OF lt(1) [OF c]]]
      show ?thesis unfolding d using t(2-4) [OF c] by blast
    qed
    show "distinct (controls (ctrl st' F))" if "F < made st'" for F
      using same_shapeD(8) [OF sh, of F] t(5) [of F] that by (simp add: m)
    show "child_of st' F c" if "F < made st'" "c \<in> set (controls (ctrl st' F))" for F c
      unfolding ch by (rule t(6)) (use same_shapeD(8) [OF sh, of F] that m in simp_all)
  qed
  show "links_ok st' R" if "links_ok st R"
    unfolding links_ok_def m
  proof (intro allI impI)
    fix F k c
    assume F: "F < made st" "is_form (ctrl st' F)"
    then have "linked st R F k c" using links_okD [OF that F(1)] same_shapeD(1) [OF sh [OF F(1)]] by simp
    moreover have "combinedState k (ctrl st' c) = combinedState k (ctrl st c)" if "child_of st F c"
      using same_shape_keys(2) [OF sh [OF lt(2) [OF that]]] .
    ultimately show "linked st' R F k c"
      unfolding linked_def ch same_shape_keys(1) [OF sh [OF F(1)]] by auto
  qed
qed

lemma same_shape_refl: "control_ok x \<Longrightarrow> same_shape x x"
  by (simp add: same_shape_def control_ok_def)

lemma same_shape_trans:
  assumes "same_shape x y" "same_shape y z"
  shows "same_shape x z"
  using same_shapeD(9,10) [OF assms(2)] same_shapeD(10) [OF assms(1)]
  unfolding same_shape_def same_shapeD(1-8) [OF assms(2)] same_shapeD(1-8) [OF assms(1)] by simp

lemma same_shapes_refl: "tree_ok st \<Longrightarrow> same_shapes st st"
  by (simp add: same_shapes_def same_shape_refl tree_okD(1))

lemma same_shapes_trans:
  assumes "same_shapes st st1" "same_shapes st1 st2"
  shows "same_shapes st st2"
  using assms same_shape_trans unfolding same_shapes_def by metis

lemma put_ctrl_same_shapes:
  assumes "tree_ok st" "same_shape (ctrl st c) x"
  shows "same_shapes st (put_ctrl c x st)"
  using assms(2) tree_okD(1) [OF assms(1)] by (simp add: same_shapes_def same_shape_refl)

text \<open>Dirtiness and submission spread to the forms around a control.\<close>

definition flags_ok :: "forms \<Rightarrow> bool" where
  "flags_ok st \<longleftrightarrow> (\<forall>F c. child_of st F c \<longrightarrow> (dirty (ctrl st c) \<longrightarrow> dirty (ctrl st F)) \<and> (submitted (ctrl st c) \<longrightarrow> submitted (ctrl st F))) \<and>
     (\<forall>c<made st. submitted (ctrl st c) \<longrightarrow> is_form (ctrl st c))"

definition forms_ok :: "forms \<Rightarrow> bool" where
  "forms_ok st \<longleftrightarrow> tree_ok st \<and> links_ok st {} \<and> flags_ok st"

lemma forms_ok_shapes:
  "forms_ok st \<Longrightarrow> same_shapes st st' \<Longrightarrow> flags_ok st' \<Longrightarrow> forms_ok st'"
  using same_shapes_ok by (auto simp: forms_ok_def)

lemma flags_same:
  assumes "same_shapes st st'" "flags_ok st" "\<And>c. dirty (ctrl st' c) = dirty (ctrl st c)" "\<And>c. submitted (ctrl st' c) = submitted (ctrl st c)"
  shows "flags_ok st'"
proof -
  have "made st' = made st" "\<And>c. c < made st \<Longrightarrow> is_form (ctrl st' c) = is_form (ctrl st c)"
    using same_shapesD [OF assms(1)] same_shapeD(1) by blast+
  with assms(2) show ?thesis unfolding flags_ok_def same_shapes_child [OF assms(1)] assms(3,4) by simp
qed

section \<open>Adding and removing controls\<close>

lemma place_simps [simp]:
  "recorded_as (x\<lparr>controls := l\<rparr>) k d s = recorded_as x k d s" "recorded_as (x\<lparr>parentForm := p\<rparr>) k d s = recorded_as x k d s"
  "recorded_as (x\<lparr>published := q\<rparr>) k d s = recorded_as x k d s"
  "combinedState k (x\<lparr>controls := l\<rparr>) = combinedState k x" "combinedState k (x\<lparr>parentForm := p\<rparr>) = combinedState k x"
  "combinedState k (x\<lparr>published := q\<rparr>) = combinedState k x"
  by (rule same_keys; simp)+

lemma place_ok [simp]:
  "control_ok (x\<lparr>controls := l\<rparr>) = control_ok x" "control_ok (x\<lparr>parentForm := p\<rparr>) = control_ok x"
  "control_ok (x\<lparr>published := q\<rparr>) = control_ok x" "control_ok (x\<lparr>ctrl_name := nm\<rparr>) = control_ok x"
proof -
  have cong: "control_ok y = control_ok x" if "is_form y = is_form x" "error_keys y = error_keys x" "success_keys y = success_keys x"
    "pending_keys y = pending_keys x" "valid y = valid x" "invalid y = invalid x" "classes y = classes x"
    "classCache y = classCache x" "dirty y = dirty x" "pristine y = pristine x" for y
    unfolding control_ok_def shown_ok_def same_keys(3,4) [OF that(1-4)] that(2,4-) ..
  show "control_ok (x\<lparr>controls := l\<rparr>) = control_ok x" "control_ok (x\<lparr>parentForm := p\<rparr>) = control_ok x"
    "control_ok (x\<lparr>published := q\<rparr>) = control_ok x" "control_ok (x\<lparr>ctrl_name := nm\<rparr>) = control_ok x"
    by (rule cong; simp)+
qed

lemma no_keys_combined:
  "error_keys x = [] \<Longrightarrow> success_keys x = [] \<Longrightarrow> pending_keys x = None \<Longrightarrow> combinedState k x = Other False"
  by (simp add: combinedState_def)

lemma unpublish_shape: "control_ok x \<Longrightarrow> same_shape x (unpublish nm c x)"
  by (simp add: unpublish_def same_shape_def control_ok_def)

text \<open>The effect of \<open>$addControl\<close> on the places of the controls.\<close>

lemma addControl_ok:
  assumes ok: "forms_ok st" and F: "is_form (ctrl st F)" "F < c" "c < made st" "parentForm (ctrl st c) = None"
    and c: "error_keys (ctrl st c) = []" "success_keys (ctrl st c) = []" "pending_keys (ctrl st c) = None"
      "\<not> dirty (ctrl st c)" "\<not> submitted (ctrl st c)"
    and add: "addControl F c st = Inr st'"
  shows "forms_ok st'"
proof -
  have t: "tree_ok st" and l: "links_ok st {}" and fl: "flags_ok st" using ok by (simp_all add: forms_ok_def)
  obtain q where st': "ctrl st' = (ctrl st)(F := (ctrl st F)\<lparr>controls := controls (ctrl st F) @ [c], published := q\<rparr>,
      c := (ctrl st c)\<lparr>parentForm := Some F\<rparr>)" "made st' = made st"
  proof -
    let ?q = "if ctrl_name (ctrl st c) \<noteq> [] then key_put (ctrl_name (ctrl st c)) c (published (ctrl st F)) else published (ctrl st F)"
    have "ctrl st' = (ctrl st)(F := (ctrl st F)\<lparr>controls := controls (ctrl st F) @ [c], published := ?q\<rparr>,
        c := (ctrl st c)\<lparr>parentForm := Some F\<rparr>) \<and> made st' = made st"
      using add F(2) by (auto simp: addControl_def Let_def put_ctrl_def split: if_splits)
    then show ?thesis using that [of ?q] by blast
  qed
  have ch: "child_of st' G d \<longleftrightarrow> child_of st G d \<or> G = F \<and> d = c" for G d
    using F(2-4) by (auto simp: child_of_def st')
  have none: "\<not> child_of st G c" for G using F(4) by (simp add: child_of_def)
  have at: "is_form (ctrl st' d) = is_form (ctrl st d)" "dirty (ctrl st' d) = dirty (ctrl st d)" "submitted (ctrl st' d) = submitted (ctrl st d)"
    "recorded_as (ctrl st' d) k e s = recorded_as (ctrl st d) k e s" "combinedState k (ctrl st' d) = combinedState k (ctrl st d)"
    "control_ok (ctrl st' d) = control_ok (ctrl st d)"
    "controls (ctrl st' d) = (if d = F then controls (ctrl st F) @ [c] else controls (ctrl st d))" for d k e s
    using F(2) by (auto simp: st'(1))
  have out: "c \<notin> set (controls (ctrl st G))" if "G < made st" for G using tree_okD(6) [OF t that] none by blast
  have "tree_ok st'"
  proof (rule tree_okI)
    show "control_ok (ctrl st' d)" if "d < made st'" for d using tree_okD(1) [OF t] that by (simp add: at st'(2))
    show "G < d \<and> is_form (ctrl st' G) \<and> d \<in> set (controls (ctrl st' G))" if "child_of st' G d" for G d
      using that tree_okD(2-4) [OF t, of G d] F(1,2) by (auto simp: ch at)
    show "distinct (controls (ctrl st' G))" if "G < made st'" for G
      using tree_okD(5) [OF t, of G] that out [of G] by (auto simp: at st'(2))
    show "child_of st' G d" if "G < made st'" "d \<in> set (controls (ctrl st' G))" for G d
      using tree_okD(6) [OF t, of G d] that by (auto simp: ch at st'(2) split: if_splits)
  qed
  moreover have "links_ok st' {}"
  proof -
    have "linked st' {} G k d" if "G < made st" "is_form (ctrl st G)" for G k d
      using links_okD [OF l that, of k d] none no_keys_combined [OF c(1-3), of k] by (auto simp: linked_def ch at)
    then show ?thesis by (simp add: links_ok_def at st'(2))
  qed
  moreover have "flags_ok st'" using fl c(4,5) unfolding flags_ok_def ch at st'(2) by auto
  ultimately show ?thesis by (simp add: forms_ok_def)
qed

lemma detach_ok:
  assumes t: "tree_ok st" and l: "links_ok st R" and fl: "flags_ok st" and c: "child_of st F c"
    and R: "\<forall>(G, j, d)\<in>R. G = F \<and> d = c" and gone: "\<And>k s. \<not> recorded_as (ctrl st F) k c s"
  shows "forms_ok (detach F c st)"
proof -
  note F = tree_okD(2,3) [OF t c] and m = child_made [OF t c]
  let ?st = "detach F c st"
  have st': "ctrl ?st = (ctrl st)(F := (ctrl st F)\<lparr>controls := remove1 c (controls (ctrl st F))\<rparr>,
      c := (ctrl st c)\<lparr>parentForm := None\<rparr>)" "made ?st = made st"
    using F(1) by (simp_all add: detach_def Let_def put_ctrl_def)
  have ch: "child_of ?st G d \<longleftrightarrow> child_of st G d \<and> d \<noteq> c" for G d
    using F(1) by (auto simp: child_of_def st')
  have one: "G = F" if "child_of st G c" for G using that c by (simp add: child_of_def)
  have at: "is_form (ctrl ?st d) = is_form (ctrl st d)" "dirty (ctrl ?st d) = dirty (ctrl st d)" "submitted (ctrl ?st d) = submitted (ctrl st d)"
    "recorded_as (ctrl ?st d) k e s = recorded_as (ctrl st d) k e s" "combinedState k (ctrl ?st d) = combinedState k (ctrl st d)"
    "control_ok (ctrl ?st d) = control_ok (ctrl st d)"
    "controls (ctrl ?st d) = (if d = F then remove1 c (controls (ctrl st F)) else controls (ctrl st d))" for d k e s
    using F(1) by (auto simp: st'(1))
  have rem: "set (remove1 c (controls (ctrl st F))) = set (controls (ctrl st F)) - {c}" "distinct (remove1 c (controls (ctrl st F)))"
    using tree_okD(5) [OF t m(1)] by simp_all
  have "tree_ok ?st"
  proof (rule tree_okI)
    show "control_ok (ctrl ?st d)" if "d < made ?st" for d using tree_okD(1) [OF t] that by (simp add: at st'(2))
    show "G < d \<and> is_form (ctrl ?st G) \<and> d \<in> set (controls (ctrl ?st G))" if "child_of ?st G d" for G d
      using that tree_okD(2-4) [OF t, of G d] rem(1) by (auto simp: ch at)
    show "distinct (controls (ctrl ?st G))" if "G < made ?st" for G
      using tree_okD(5) [OF t, of G] that rem(2) by (auto simp: at st'(2))
    show "child_of ?st G d" if "G < made ?st" "d \<in> set (controls (ctrl ?st G))" for G d
      using tree_okD(6) [OF t, of G d] that rem(1) one by (auto simp: ch at st'(2) split: if_splits)
  qed
  moreover have "linked ?st {} G k d" if "G < made st" "is_form (ctrl st G)" for G k d
  proof (cases "d = c")
    case True
    have "\<not> recorded_as (ctrl st G) k c s" for s
    proof (cases "G = F")
      case False
      with one have "\<not> child_of st G c" by blast
      with links_okD [OF l that, of k c] show ?thesis by (cases s) (auto simp: linked_def recorded_as_simps(4))
    qed (simp add: gone)
    with True show ?thesis by (simp add: linked_def ch at)
  next
    case False
    then have "(G, k, d) \<notin> R" using R by auto
    with False links_okD [OF l that, of k d] show ?thesis by (simp add: linked_def ch at)
  qed
  then have "links_ok ?st {}" by (simp add: links_ok_def at st'(2))
  moreover have "flags_ok ?st" using fl unfolding flags_ok_def ch at st'(2) by auto
  ultimately show ?thesis by (simp add: forms_ok_def)
qed

lemma keys_of_recorded:
  assumes "entries_ok x"
  shows "k \<in> set (keys_of (pending_keys x)) \<longleftrightarrow> (\<exists>d. recorded_as x k d Undefined)"
    "k \<in> set (keys_of (Some (error_keys x))) \<longleftrightarrow> (\<exists>d. recorded_as x k d (Boolean False))"
    "k \<in> set (keys_of (Some (success_keys x))) \<longleftrightarrow> (\<exists>d. recorded_as x k d (Boolean True))"
proof -
  have fit: "entry_fit (is_form x) (error_keys x)" "entry_fit (is_form x) (success_keys x)" "entry_fit (is_form x) (pending_of x)"
    using assms by (auto simp: entries_ok_def)
  have keys: "j \<in> fst ` set es \<longleftrightarrow> map_of es j \<noteq> None" for j and es :: entries
    by (simp add: map_of_eq_None_iff)
  have "k \<in> set (keys_of (pending_keys x)) \<longleftrightarrow> map_of (pending_of x) k \<noteq> None"
    using keys [of k "pending_of x"] by (simp add: keys_of_def pending_of_def split: option.splits)
  then show "k \<in> set (keys_of (pending_keys x)) \<longleftrightarrow> (\<exists>d. recorded_as x k d Undefined)"
    unfolding recorded_as_simps store.holds_present [OF fit(3)] .
  show "k \<in> set (keys_of (Some (error_keys x))) \<longleftrightarrow> (\<exists>d. recorded_as x k d (Boolean False))"
    unfolding recorded_as_simps store.holds_present [OF fit(1), symmetric] using keys [of k] by (simp add: keys_of_def)
  show "k \<in> set (keys_of (Some (success_keys x))) \<longleftrightarrow> (\<exists>d. recorded_as x k d (Boolean True))"
    unfolding recorded_as_simps store.holds_present [OF fit(2), symmetric] using keys [of k] by (simp add: keys_of_def)
qed

lemma keys_of_named:
  assumes "control_ok x"
  shows "\<forall>k\<in>set (keys_of (pending_keys x)). k \<noteq> []" "\<forall>k\<in>set (keys_of (Some (error_keys x))). k \<noteq> []"
    "\<forall>k\<in>set (keys_of (Some (success_keys x))). k \<noteq> []"
proof -
  have e: "entries_ok x" and n: "\<not> recorded_as x [] d s" for d s using assms by (simp_all add: control_ok_def named_keys_def)
  show "\<forall>k\<in>set (keys_of (pending_keys x)). k \<noteq> []" using keys_of_recorded(1) [OF e] n by metis
  show "\<forall>k\<in>set (keys_of (Some (error_keys x))). k \<noteq> []" using keys_of_recorded(2) [OF e] n by metis
  show "\<forall>k\<in>set (keys_of (Some (success_keys x))). k \<noteq> []" using keys_of_recorded(3) [OF e] n by metis
qed

lemma removeControl_ok:
  assumes ok: "forms_ok st" and c: "child_of st F c"
  shows "\<exists>st'. removeControl (made st) F c st = Inr st' \<and> forms_ok st'"
proof -
  define st0 where "st0 = (if ctrl_name (ctrl st c) \<noteq> [] then put_ctrl F (unpublish (ctrl_name (ctrl st c)) c (ctrl st F)) st else st)"
  have t: "tree_ok st" and l: "links_ok st {}" and fl: "flags_ok st" using ok by (simp_all add: forms_ok_def)
  have F: "F < made st" "is_form (ctrl st F)" using child_made [OF t c] tree_okD(3) [OF t c] by blast+
  have sh0: "same_shapes st st0"
    unfolding st0_def using put_ctrl_same_shapes [OF t unpublish_shape [OF tree_okD(1) [OF t F(1)]]] same_shapes_refl [OF t] by simp
  note ok0 = same_shapes_ok [OF sh0 t] and m0 = same_shapesD(1) [OF sh0]
  have F0: "F < made st0" "is_form (ctrl st0 F)" "F < made st" using F same_shapeD(1) [OF same_shapesD(2) [OF sh0 F(1)]] m0 by simp_all
  have c0: "child_of st0 F c" using c same_shapes_child [OF sh0] by simp
  have fl0: "flags_ok st0"
    by (rule flags_same [OF sh0 fl]) (simp_all add: st0_def unpublish_def)
  let ?R = "\<lambda>ks. {(F, k, c) |k. k \<in> set ks}"
  define ks1 where "ks1 = keys_of (pending_keys (ctrl st0 F))"
  obtain st1 where st1: "clear_keys (made st) F ks1 c st0 = Inr st1" "tree_ok st1" "links_ok st1 (?R ks1)" "moves_nothing st0 st1"
      "ctrl st1 c = ctrl st0 c"
    using clear_keys_ok [OF ok0(1) ok0(2) [OF l] c0 F0(3,2,1), of ks1] keys_of_named(1) [OF tree_okD(1) [OF ok0(1) F0(1)]]
    by (auto simp: ks1_def)
  note m1 = moves_nothing_fields [OF st1(4)] and c1 = c0 [folded moves_nothing_child [OF st1(4)]]
  have F1: "F < made st1" "is_form (ctrl st1 F)" using F0 m1(1,2) by simp_all
  define ks2 where "ks2 = keys_of (Some (error_keys (ctrl st1 F)))"
  obtain st2 where st2: "clear_keys (made st) F ks2 c st1 = Inr st2" "tree_ok st2" "links_ok st2 (?R ks1 \<union> ?R ks2)" "moves_nothing st1 st2"
      "ctrl st2 c = ctrl st1 c"
    using clear_keys_ok [OF st1(2,3) c1 F0(3) F1(2,1), of ks2] keys_of_named(2) [OF tree_okD(1) [OF st1(2) F1(1)]]
    by (auto simp: ks2_def)
  note m2 = moves_nothing_fields [OF st2(4)] and c2 = c1 [folded moves_nothing_child [OF st2(4)]]
  have F2: "F < made st2" "is_form (ctrl st2 F)" using F1 m2(1,2) by simp_all
  define ks3 where "ks3 = keys_of (Some (success_keys (ctrl st2 F)))"
  obtain st3 where st3: "clear_keys (made st) F ks3 c st2 = Inr st3" "tree_ok st3" "links_ok st3 (?R ks1 \<union> ?R ks2 \<union> ?R ks3)" "moves_nothing st2 st3"
      "ctrl st3 c = ctrl st2 c"
    using clear_keys_ok [OF st2(2,3) c2 F0(3) F2(2,1), of ks3] keys_of_named(3) [OF tree_okD(1) [OF st2(2) F2(1)]]
    by (auto simp: ks3_def)
  note m3 = moves_nothing_fields [OF st3(4)] and c3 = c2 [folded moves_nothing_child [OF st3(4)]]
  have F3: "F < made st3" "is_form (ctrl st3 F)" using F2 m3(1,2) by simp_all
  have e: "entries_ok (ctrl st0 F)" "entries_ok (ctrl st1 F)" "entries_ok (ctrl st2 F)"
    using tree_okD(1) [OF ok0(1) F0(1)] tree_okD(1) [OF st1(2) F1(1)] tree_okD(1) [OF st2(2) F2(1)] by (simp_all add: control_ok_def)
  have gone: "\<not> recorded_as (ctrl st3 F) k c s" for k s
  proof
    assume r: "recorded_as (ctrl st3 F) k c s"
    then have s: "\<forall>b. s \<noteq> Other b" by (auto simp: recorded_as_simps(4))
    then have k: "k \<notin> set ks1" "k \<notin> set ks2" "k \<notin> set ks3" and cs: "combinedState k (ctrl st0 c) = s"
      using r links_okD [OF st3(3) F3, of k c] st1(5) st2(5) st3(5) by (auto simp: linked_def)
    have r0: "recorded_as (ctrl st0 F) k c s"
      using links_okD [OF ok0(2) [OF l] F0(1,2), of k c] s cs c0 by (simp add: linked_def)
    have r1: "recorded_as (ctrl st1 F) k c s"
      using links_okD [OF st1(3) F1, of k c] s cs c1 k st1(5) by (simp add: linked_def)
    have r2: "recorded_as (ctrl st2 F) k c s"
      using links_okD [OF st2(3) F2, of k c] s cs c2 k st1(5) st2(5) by (simp add: linked_def)
    have "s \<noteq> Undefined" using r0 k(1) keys_of_recorded(1) [OF e(1)] unfolding ks1_def by blast
    moreover have "s \<noteq> Boolean False" using r1 k(2) keys_of_recorded(2) [OF e(2)] unfolding ks2_def by blast
    moreover have "s \<noteq> Boolean True" using r2 k(3) keys_of_recorded(3) [OF e(3)] unfolding ks3_def by blast
    ultimately show False using s by (cases s) auto
  qed
  have "flags_ok st3"
    using fl0 unfolding flags_ok_def moves_nothing_child [OF st3(4)] moves_nothing_child [OF st2(4)] moves_nothing_child [OF st1(4)]
      m3(1,2,5,6) m2(1,2,5,6) m1(1,2,5,6) .
  then have "forms_ok (detach F c st3)" by (intro detach_ok [OF st3(2,3) _ c3 _ gone]) auto
  moreover have "removeControl (made st) F c st = Inr (detach F c st3)"
    using st1(1) st2(1) st3(1)
    by (simp add: removeControl_def st0_def [symmetric] bind_sum_def ks1_def [symmetric] ks2_def [symmetric] ks3_def [symmetric])
  ultimately show ?thesis by blast
qed

section \<open>Flags\<close>

lemmas flag_classes = PRISTINE_CLASS_def DIRTY_CLASS_def TOUCHED_CLASS_def UNTOUCHED_CLASS_def SUBMITTED_CLASS_def EMPTY_CLASS_def NOT_EMPTY_CLASS_def class_names

lemma flag_shapes:
  assumes "control_ok x"
  shows "same_shape x ((switch_classes [DIRTY_CLASS] [PRISTINE_CLASS] x)\<lparr>dirty := True, pristine := False\<rparr>)"
    "same_shape x ((switch_classes [SUBMITTED_CLASS] [] x)\<lparr>submitted := True\<rparr>)"
    "same_shape x ((switch_classes [PRISTINE_CLASS] [DIRTY_CLASS, SUBMITTED_CLASS] x)\<lparr>dirty := False, pristine := True, submitted := False\<rparr>)"
    "same_shape x ((switch_classes [PRISTINE_CLASS] [DIRTY_CLASS] x)\<lparr>dirty := False, pristine := True\<rparr>)"
    "same_shape x ((switch_classes [UNTOUCHED_CLASS] [TOUCHED_CLASS] x)\<lparr>touched := False, untouched := True\<rparr>)"
    "same_shape x ((switch_classes [TOUCHED_CLASS] [UNTOUCHED_CLASS] x)\<lparr>touched := True, untouched := False\<rparr>)"
    "same_shape x (switch_classes [EMPTY_CLASS] [NOT_EMPTY_CLASS] x)"
    "same_shape x (switch_classes [NOT_EMPTY_CLASS] [EMPTY_CLASS] x)"
proof -
  have p: "pristine x = (\<not> dirty x)" using assms by (simp add: control_ok_def)
  then show "same_shape x ((switch_classes [DIRTY_CLASS] [PRISTINE_CLASS] x)\<lparr>dirty := True, pristine := False\<rparr>)"
    "same_shape x ((switch_classes [SUBMITTED_CLASS] [] x)\<lparr>submitted := True\<rparr>)"
    "same_shape x ((switch_classes [PRISTINE_CLASS] [DIRTY_CLASS, SUBMITTED_CLASS] x)\<lparr>dirty := False, pristine := True, submitted := False\<rparr>)"
    "same_shape x ((switch_classes [PRISTINE_CLASS] [DIRTY_CLASS] x)\<lparr>dirty := False, pristine := True\<rparr>)"
    "same_shape x ((switch_classes [UNTOUCHED_CLASS] [TOUCHED_CLASS] x)\<lparr>touched := False, untouched := True\<rparr>)"
    "same_shape x ((switch_classes [TOUCHED_CLASS] [UNTOUCHED_CLASS] x)\<lparr>touched := True, untouched := False\<rparr>)"
    "same_shape x (switch_classes [EMPTY_CLASS] [NOT_EMPTY_CLASS] x)"
    "same_shape x (switch_classes [NOT_EMPTY_CLASS] [EMPTY_CLASS] x)"
    by (simp_all add: same_shape_def switch_classes_def flag_classes)
qed

text \<open>A flag that is raised on a control is raised on the forms around it.\<close>

lemma setDirty_ok:
  assumes "tree_ok st" "c < made st" "c < n" "\<forall>F d. child_of st F d \<longrightarrow> F \<noteq> c \<longrightarrow> dirty (ctrl st d) \<longrightarrow> dirty (ctrl st F)"
  shows "\<exists>st'. setDirty n c st = Inr st' \<and> same_shapes st st' \<and> (\<forall>d. submitted (ctrl st' d) = submitted (ctrl st d)) \<and>
    (\<forall>F d. child_of st F d \<longrightarrow> dirty (ctrl st' d) \<longrightarrow> dirty (ctrl st' F))"
  using assms
proof (induction n arbitrary: c st)
  case (Suc n)
  note pre = Suc.prems
  define x where "x = (switch_classes [DIRTY_CLASS] [PRISTINE_CLASS] (ctrl st c))\<lparr>dirty := True, pristine := False\<rparr>"
  define st1 where "st1 = put_ctrl c x st"
  have sh: "same_shape (ctrl st c) x" unfolding x_def by (rule flag_shapes(1) [OF tree_okD(1) [OF pre(1,2)]])
  have s1: "same_shapes st st1" unfolding st1_def by (rule put_ctrl_same_shapes [OF pre(1) sh])
  note t1 = same_shapes_ok(1) [OF s1 pre(1)] and ch = same_shapes_child [OF s1]
  have sub: "submitted (ctrl st1 d) = submitted (ctrl st d)" for d by (simp add: st1_def x_def switch_classes_def)
  have d1: "dirty (ctrl st1 d) \<longleftrightarrow> d = c \<or> dirty (ctrl st d)" for d by (simp add: st1_def x_def)
  have unfold: "setDirty (Suc n) c st = (case parentForm (ctrl st c) of None \<Rightarrow> Inr st1 | Some p \<Rightarrow> setDirty n p st1)"
    using same_shapeD(7) [OF sh] by (simp add: x_def [symmetric] st1_def [symmetric])
  show ?case
  proof (cases "parentForm (ctrl st c)")
    case None
    then have "\<forall>F d. child_of st F d \<longrightarrow> dirty (ctrl st1 d) \<longrightarrow> dirty (ctrl st1 F)"
      using pre(4) by (auto simp: d1 child_of_def)
    with s1 sub None show ?thesis unfolding unfold by auto
  next
    case (Some p)
    have p: "child_of st p c" using Some pre(2) by (simp add: child_of_def)
    note pc = tree_okD(2) [OF pre(1) p]
    have "\<forall>F d. child_of st1 F d \<longrightarrow> F \<noteq> p \<longrightarrow> dirty (ctrl st1 d) \<longrightarrow> dirty (ctrl st1 F)"
      unfolding ch using pre(4) Some by (auto simp: d1 child_of_def)
    with Suc.IH [OF t1, of p] pc pre(2,3) same_shapesD(1) [OF s1] obtain st' where
      st': "setDirty n p st1 = Inr st'" "same_shapes st1 st'" "\<forall>d. submitted (ctrl st' d) = submitted (ctrl st1 d)"
        "\<forall>F d. child_of st1 F d \<longrightarrow> dirty (ctrl st' d) \<longrightarrow> dirty (ctrl st' F)" by auto
    with Some sub same_shapes_trans [OF s1 st'(2)] show ?thesis unfolding unfold ch by auto
  qed
qed simp

lemma setSubmitted_ok:
  assumes "tree_ok st" "c < made st" "c < n" "is_form (ctrl st c)"
    "\<forall>F d. child_of st F d \<longrightarrow> F \<noteq> c \<longrightarrow> submitted (ctrl st d) \<longrightarrow> submitted (ctrl st F)"
    "\<forall>d<made st. submitted (ctrl st d) \<longrightarrow> is_form (ctrl st d)"
  shows "\<exists>st'. setSubmitted n c st = Inr st' \<and> same_shapes st st' \<and> (\<forall>d. dirty (ctrl st' d) = dirty (ctrl st d)) \<and>
    (\<forall>F d. child_of st F d \<longrightarrow> submitted (ctrl st' d) \<longrightarrow> submitted (ctrl st' F)) \<and>
    (\<forall>d<made st. submitted (ctrl st' d) \<longrightarrow> is_form (ctrl st d))"
  using assms
proof (induction n arbitrary: c st)
  case (Suc n)
  note pre = Suc.prems
  define x where "x = (switch_classes [SUBMITTED_CLASS] [] (ctrl st c))\<lparr>submitted := True\<rparr>"
  define st1 where "st1 = put_ctrl c x st"
  have sh: "same_shape (ctrl st c) x" unfolding x_def by (rule flag_shapes(2) [OF tree_okD(1) [OF pre(1,2)]])
  have s1: "same_shapes st st1" unfolding st1_def by (rule put_ctrl_same_shapes [OF pre(1) sh])
  note t1 = same_shapes_ok(1) [OF s1 pre(1)] and ch = same_shapes_child [OF s1]
  have dir: "dirty (ctrl st1 d) = dirty (ctrl st d)" "is_form (ctrl st1 d) = is_form (ctrl st d)" for d
    by (simp_all add: st1_def x_def switch_classes_def)
  have d1: "submitted (ctrl st1 d) \<longleftrightarrow> d = c \<or> submitted (ctrl st d)" for d by (simp add: st1_def x_def)
  have unfold: "setSubmitted (Suc n) c st = (case parentForm (ctrl st c) of None \<Rightarrow> Inr st1 | Some p \<Rightarrow> setSubmitted n p st1)"
    using same_shapeD(7) [OF sh] by (simp add: x_def [symmetric] st1_def [symmetric])
  have kind: "\<forall>d<made st. submitted (ctrl st1 d) \<longrightarrow> is_form (ctrl st1 d)" using pre(4,6) by (auto simp: d1 dir)
  show ?case
  proof (cases "parentForm (ctrl st c)")
    case None
    then have "\<forall>F d. child_of st F d \<longrightarrow> submitted (ctrl st1 d) \<longrightarrow> submitted (ctrl st1 F)"
      using pre(5) by (auto simp: d1 child_of_def)
    with s1 dir kind None show ?thesis unfolding unfold by auto
  next
    case (Some p)
    have p: "child_of st p c" using Some pre(2) by (simp add: child_of_def)
    note pc = tree_okD(2,3) [OF pre(1) p]
    have "\<forall>F d. child_of st1 F d \<longrightarrow> F \<noteq> p \<longrightarrow> submitted (ctrl st1 d) \<longrightarrow> submitted (ctrl st1 F)"
      unfolding ch using pre(5) Some by (auto simp: d1 child_of_def)
    with Suc.IH [OF t1, of p] pc pre(2,3) kind dir same_shapesD(1) [OF s1] obtain st' where
      st': "setSubmitted n p st1 = Inr st'" "same_shapes st1 st'" "\<forall>d. dirty (ctrl st' d) = dirty (ctrl st1 d)"
        "\<forall>F d. child_of st1 F d \<longrightarrow> submitted (ctrl st' d) \<longrightarrow> submitted (ctrl st' F)"
        "\<forall>d<made st1. submitted (ctrl st' d) \<longrightarrow> is_form (ctrl st1 d)" by auto
    with Some dir same_shapes_trans [OF s1 st'(2)] same_shapesD(1) [OF s1] show ?thesis unfolding unfold ch by auto
  qed
qed simp

text \<open>The controls in a form, at any depth, and the form itself.\<close>

inductive below :: "forms \<Rightarrow> nat \<Rightarrow> nat \<Rightarrow> bool" for st where
  here: "below st c c"
| deeper: "below st c e \<Longrightarrow> child_of st e d \<Longrightarrow> below st c d"

inductive_cases below_child: "below st c d"

lemma below_cong: "(\<And>F c. child_of st' F c = child_of st F c) \<Longrightarrow> below st' c d = below st c d"
proof -
  have "below st2 c d" if "below st1 c d" "\<And>F c. child_of st1 F c = child_of st2 F c" for st1 st2
    using that by (induction rule: below.induct) (auto intro: below.intros)
  then show "(\<And>F c. child_of st' F c = child_of st F c) \<Longrightarrow> below st' c d = below st c d" by metis
qed

lemma below_trans: "below st e d \<Longrightarrow> below st c e \<Longrightarrow> below st c d"
  by (induction rule: below.induct) (auto intro: below.intros)

lemma below_first: "below st c d \<longleftrightarrow> d = c \<or> (\<exists>e. child_of st c e \<and> below st e d)"
proof
  show "below st c d \<Longrightarrow> d = c \<or> (\<exists>e. child_of st c e \<and> below st e d)"
    by (induction rule: below.induct) (auto intro: below.intros)
  show "d = c \<or> (\<exists>e. child_of st c e \<and> below st e d) \<Longrightarrow> below st c d"
    using below_trans [of st _ d c] deeper [OF here] by (auto intro: here)
qed

lemma below_made: "below st c d \<Longrightarrow> c < made st \<Longrightarrow> d < made st"
  by (induction rule: below.induct) (auto simp: child_of_def)

text \<open>\<open>$setPristine\<close> and \<open>$setUntouched\<close> do the same to every control below.\<close>

definition cleaned :: "control \<Rightarrow> control" where
  "cleaned x = (if is_form x
     then (switch_classes [PRISTINE_CLASS] [DIRTY_CLASS, SUBMITTED_CLASS] x)\<lparr>dirty := False, pristine := True, submitted := False\<rparr>
     else (switch_classes [PRISTINE_CLASS] [DIRTY_CLASS] x)\<lparr>dirty := False, pristine := True\<rparr>)"

definition untouched_again :: "control \<Rightarrow> control" where
  "untouched_again x = (if is_form x then x
     else (switch_classes [UNTOUCHED_CLASS] [TOUCHED_CLASS] x)\<lparr>touched := False, untouched := True\<rparr>)"

lemma switch_twice [simp]: "switch_classes add rem (switch_classes add rem x) = switch_classes add rem x"
  unfolding switch_classes_def by simp meson

lemma switch_fields [simp]:
  "is_form (switch_classes add rem x) = is_form x" "dirty (switch_classes add rem x) = dirty x"
  "submitted (switch_classes add rem x) = submitted x"
  by (simp_all add: switch_classes_def)

lemma cleaned_shape: "control_ok x \<Longrightarrow> same_shape x (cleaned x)"
  unfolding cleaned_def by (cases "is_form x") (simp_all add: flag_shapes)

lemma cleaned_twice: "cleaned (cleaned x) = cleaned x"
  by (cases "is_form x") (simp_all add: cleaned_def switch_classes_def, meson+)

lemma cleaned_fields: "\<not> dirty (cleaned x)" "submitted (cleaned x) \<longleftrightarrow> submitted x \<and> \<not> is_form x" "is_form (cleaned x) = is_form x"
  by (simp_all add: cleaned_def)

lemma untouched_shape: "control_ok x \<Longrightarrow> same_shape x (untouched_again x)"
  unfolding untouched_again_def by (cases "is_form x") (simp_all add: flag_shapes same_shape_refl)

lemma untouched_twice: "untouched_again (untouched_again x) = untouched_again x"
  by (cases "is_form x") (simp_all add: untouched_again_def switch_classes_def, meson)

lemma untouched_fields: "dirty (untouched_again x) = dirty x" "submitted (untouched_again x) = submitted x"
  by (simp_all add: untouched_again_def)

definition on_all :: "(control \<Rightarrow> control) \<Rightarrow> (nat \<Rightarrow> bool) \<Rightarrow> forms \<Rightarrow> forms" where
  "on_all f P st = st\<lparr>ctrl := (\<lambda>d. if P d then f (ctrl st d) else ctrl st d)\<rparr>"

lemma on_all_simps [simp]:
  "ctrl (on_all f P st) d = (if P d then f (ctrl st d) else ctrl st d)" "made (on_all f P st) = made st"
  by (simp_all add: on_all_def)

lemma forms_eqI: "(\<And>d. ctrl s d = ctrl t d) \<Longrightarrow> made s = made t \<Longrightarrow> (s :: forms) = t"
  by (cases s, cases t) auto

lemma on_all_shapes:
  assumes "tree_ok st" "\<And>x. control_ok x \<Longrightarrow> same_shape x (f x)"
  shows "same_shapes st (on_all f P st)"
  using assms(2) tree_okD(1) [OF assms(1)] by (simp add: same_shapes_def same_shape_refl)

lemma each_control_on_all:
  assumes step: "\<And>st c. tree_ok st \<Longrightarrow> c \<in> set cs \<Longrightarrow> c < made st \<Longrightarrow> made st = m \<Longrightarrow> g c st = Inr (on_all f (below st c) st)"
    and f: "\<And>x. control_ok x \<Longrightarrow> same_shape x (f x)" "\<And>x. f (f x) = f x"
    and t: "tree_ok st" "\<forall>c\<in>set cs. c < made st" "made st = m"
  shows "each_control g cs st = Inr (on_all f (\<lambda>d. \<exists>c\<in>set cs. below st c d) st)"
  using step t
proof (induction cs arbitrary: st)
  case Nil
  then show ?case by (simp add: on_all_def)
next
  case (Cons c cs)
  let ?st = "on_all f (below st c) st"
  have sh: "same_shapes st ?st" by (rule on_all_shapes [OF Cons.prems(2) f(1)])
  have b: "below ?st e d = below st e d" for e d by (rule below_cong) (rule same_shapes_child [OF sh])
  have "g c st = Inr ?st" by (rule Cons.prems(1)) (use Cons.prems(2-4) in simp_all)
  moreover have "each_control g cs ?st = Inr (on_all f (\<lambda>d. \<exists>c\<in>set cs. below ?st c d) ?st)"
  proof (rule Cons.IH)
    show "g c st' = Inr (on_all f (below st' c) st')" if "tree_ok st'" "c \<in> set cs" "c < made st'" "made st' = m" for st' c
      by (rule Cons.prems(1)) (use that in simp_all)
    show "tree_ok ?st" "\<forall>c\<in>set cs. c < made ?st" "made ?st = m"
      using same_shapes_ok(1) [OF sh Cons.prems(2)] same_shapesD(1) [OF sh] Cons.prems(3,4) by simp_all
  qed
  moreover have "on_all f (\<lambda>d. \<exists>c\<in>set cs. below ?st c d) ?st = on_all f (\<lambda>d. \<exists>c\<in>set (c # cs). below st c d) st"
    using f(2) by (intro forms_eqI) (simp_all add: b)
  ultimately show ?case by (simp add: bind_sum_def)
qed

lemma descend_on_all:
  assumes g: "\<And>n c st. g (Suc n) c st =
      (if is_form (ctrl st c) then each_control (g n) (controls (ctrl st c)) (put_ctrl c (f (ctrl st c)) st)
       else Inr (put_ctrl c (f (ctrl st c)) st))"
    and f: "\<And>x. control_ok x \<Longrightarrow> same_shape x (f x)" "\<And>x. f (f x) = f x"
    and "tree_ok st" "c < made st" "made st \<le> c + n"
  shows "g n c st = Inr (on_all f (below st c) st)"
  using assms(4-)
proof (induction n arbitrary: c st)
  case (Suc n)
  note t = Suc.prems(1)
  show ?case
  proof (cases "is_form (ctrl st c)")
    case True
    let ?st = "put_ctrl c (f (ctrl st c)) st"
    have sh: "same_shapes st ?st"
      by (rule put_ctrl_same_shapes [OF t f(1) [OF tree_okD(1) [OF t Suc.prems(2)]]])
    note m = same_shapesD(1) [OF sh] and t1 = same_shapes_ok(1) [OF sh t]
    have b: "below ?st e d = below st e d" for e d by (rule below_cong) (rule same_shapes_child [OF sh])
    have cs: "e \<in> set (controls (ctrl st c)) \<longleftrightarrow> child_of st c e" for e
      using tree_okD(4,6) [OF t] Suc.prems(2) by blast
    have "each_control (g n) (controls (ctrl st c)) ?st = Inr (on_all f (\<lambda>d. \<exists>e\<in>set (controls (ctrl st c)). below ?st e d) ?st)"
    proof (rule each_control_on_all [where m = "made st"])
      show "g n e st' = Inr (on_all f (below st' e) st')"
        if "tree_ok st'" "e \<in> set (controls (ctrl st c))" "e < made st'" "made st' = made st" for st' e
        using that tree_okD(2) [OF t, of c e] cs [of e] Suc.prems(3) by (intro Suc.IH) auto
      show "\<forall>e\<in>set (controls (ctrl st c)). e < made ?st" using cs m by (auto simp: child_of_def)
    qed (use t1 m f in auto)
    moreover have "on_all f (\<lambda>d. \<exists>e\<in>set (controls (ctrl st c)). below ?st e d) ?st = on_all f (below st c) st"
      using f(2) below_first [of st c] cs by (intro forms_eqI) (auto simp: b)
    ultimately show ?thesis using True unfolding g by simp
  next
    case False
    have "below st c d \<longleftrightarrow> d = c" for d using below_first [of st c d] tree_okD(3) [OF t] False by blast
    then have "put_ctrl c (f (ctrl st c)) st = on_all f (below st c) st" by (intro forms_eqI) simp_all
    with False show ?thesis unfolding g by simp
  qed
qed simp

lemma setPristine_ok:
  "tree_ok st \<Longrightarrow> c < made st \<Longrightarrow> setPristine (made st) c st = Inr (on_all cleaned (below st c) st)"
  by (rule descend_on_all [where g = setPristine]) (simp_all add: cleaned_shape cleaned_twice, simp add: cleaned_def Let_def)

lemma setUntouched_ok:
  "tree_ok st \<Longrightarrow> c < made st \<Longrightarrow> setUntouched (made st) c st = Inr (on_all untouched_again (below st c) st)"
proof (rule descend_on_all [where g = setUntouched])
  have "put_ctrl c (ctrl st c) st = st" for c st by (rule forms_eqI) simp_all
  then show "setUntouched (Suc n) c st =
      (if is_form (ctrl st c) then each_control (setUntouched n) (controls (ctrl st c)) (put_ctrl c (untouched_again (ctrl st c)) st)
       else Inr (put_ctrl c (untouched_again (ctrl st c)) st))" for n c st
    by (simp add: untouched_again_def Let_def)
qed (simp_all add: untouched_shape untouched_twice)

section \<open>Runs\<close>

text \<open>
  What the directives and the page do: controls are made, a form before the controls in it, and added
  while they are fresh, as their directives do when they are linked; they are renamed and removed; models
  get the results of their validators; flags are set.
\<close>

definition fresh_control :: "control \<Rightarrow> bool" where
  "fresh_control x \<longleftrightarrow> parentForm x = None \<and> error_keys x = [] \<and> success_keys x = [] \<and> pending_keys x = None \<and> \<not> dirty x \<and> \<not> submitted x"

datatype form_event =
  Make bool string
| Add nat nat
| Rename nat string
| Remove nat
| Validity nat string vstate
| Dirty nat
| Pristine nat
| Untouched nat
| Touched nat
| Emptied nat bool
| Submit nat

text \<open>Which events the directives and the page bring about.\<close>

fun may_happen :: "forms \<Rightarrow> form_event \<Rightarrow> bool" where
  "may_happen st (Make form nm) = True"
| "may_happen st (Add F c) = (is_form (ctrl st F) \<and> F < c \<and> c < made st \<and> fresh_control (ctrl st c))"
| "may_happen st (Rename c nm) = (c < made st)"
| "may_happen st (Remove c) = (c < made st)"
| "may_happen st (Validity c k s) = (c < made st \<and> \<not> is_form (ctrl st c) \<and> k \<noteq> [])"
| "may_happen st (Dirty c) = (c < made st)"
| "may_happen st (Pristine c) = (c < made st)"
| "may_happen st (Untouched c) = (c < made st)"
| "may_happen st (Touched c) = (c < made st \<and> \<not> is_form (ctrl st c))"
| "may_happen st (Emptied c b) = (c < made st \<and> \<not> is_form (ctrl st c))"
| "may_happen st (Submit c) = (c < made st \<and> is_form (ctrl st c))"

fun happen :: "form_event \<Rightarrow> forms \<Rightarrow> form_error + forms" where
  "happen (Make form nm) st = Inr (make_control form nm st)"
| "happen (Add F c) st = addControl F c st"
| "happen (Rename c nm) st = Inr (renameControl (parentForm (ctrl st c)) c nm st)"
| "happen (Remove c) st = (case parentForm (ctrl st c) of None \<Rightarrow> Inr st | Some F \<Rightarrow> removeControl (made st) F c st)"
| "happen (Validity c k s) st = setValidity (made st) c k s c st"
| "happen (Dirty c) st = setDirty (made st) c st"
| "happen (Pristine c) st = setPristine (made st) c st"
| "happen (Untouched c) st = setUntouched (made st) c st"
| "happen (Touched c) st = Inr (setTouched c st)"
| "happen (Emptied c b) st = Inr (updateEmptyClasses c b st)"
| "happen (Submit c) st = setSubmitted (made st) c st"

inductive form_run :: "forms \<Rightarrow> bool" where
  start: "form_run no_forms"
| event: "form_run st \<Longrightarrow> may_happen st e \<Longrightarrow> happen e st = Inr st' \<Longrightarrow> form_run st'"

text \<open>
  \<open>form[control.$name] = control\<close> puts a control among the members of the form's controller, whose names all
  begin with a dollar sign, and the objects of validation keys inherit names from \<open>Object.prototype\<close>. The runs
  in which controls and keys have no such names are the plain ones.
\<close>

definition no_member_name :: "string \<Rightarrow> bool" where
  "no_member_name nm \<longleftrightarrow> take 1 nm \<noteq> ''$''"

definition object_members :: "string list" where
  "object_members = [''constructor'', ''hasOwnProperty'', ''isPrototypeOf'', ''propertyIsEnumerable'', ''toLocaleString'',
     ''toString'', ''valueOf'', ''__proto__'', ''__defineGetter__'', ''__defineSetter__'', ''__lookupGetter__'', ''__lookupSetter__'']"

definition plain_key :: "string \<Rightarrow> bool" where
  "plain_key k \<longleftrightarrow> k \<notin> set object_members"

fun plain_event :: "form_event \<Rightarrow> bool" where
  "plain_event (Make form nm) = no_member_name nm"
| "plain_event (Rename c nm) = no_member_name nm"
| "plain_event (Validity c k s) = plain_key k"
| "plain_event _ = True"

inductive plain_run :: "forms \<Rightarrow> bool" where
  start: "plain_run no_forms"
| event: "plain_run st \<Longrightarrow> may_happen st e \<Longrightarrow> plain_event e \<Longrightarrow> happen e st = Inr st' \<Longrightarrow> plain_run st'"

lemma plain_form_run: "plain_run st \<Longrightarrow> form_run st"
  by (induction rule: plain_run.induct) (blast intro: form_run.intros)+

lemma new_control_ok: "control_ok (new_control form nm)"
proof -
  have e: "error_keys (new_control form nm) = []" "success_keys (new_control form nm) = []" "pending_keys (new_control form nm) = None"
    by (simp_all add: new_control_def Let_def)
  have "entries_ok (new_control form nm)" by (simp add: entries_ok_def e pending_of_def store.fit_empty)
  moreover have "named_keys (new_control form nm)"
    by (simp add: named_keys_def recorded_as_def e pending_of_def split: vstate.splits)
  moreover have "shown_ok (new_control form nm)" unfolding shown_ok_def e by (simp add: new_control_def Let_def flag_classes)
  ultimately show ?thesis by (simp add: control_ok_def new_control_def Let_def)
qed

lemma new_control_fields [simp]:
  "\<not> recorded_as (new_control form nm) k d s" "controls (new_control form nm) = []" "parentForm (new_control form nm) = None"
  "\<not> submitted (new_control form nm)"
  by (simp_all add: new_control_def Let_def recorded_as_def pending_of_def split: vstate.splits)

lemma make_ok:
  assumes "forms_ok st"
  shows "forms_ok (make_control form nm st)"
proof -
  let ?st = "make_control form nm st"
  have t: "tree_ok st" and l: "links_ok st {}" and fl: "flags_ok st" using assms by (simp_all add: forms_ok_def)
  have at: "ctrl ?st d = (if d = made st then new_control form nm else ctrl st d)" "made ?st = Suc (made st)" for d
    by (simp_all add: make_control_def put_ctrl_def)
  have ch: "child_of ?st F c \<longleftrightarrow> child_of st F c" for F c by (auto simp: child_of_def at)
  have old: "F < made st \<and> c < made st" if "child_of st F c" for F c using child_made [OF t that] by blast
  have "tree_ok ?st"
  proof (rule tree_okI)
    show "control_ok (ctrl ?st d)" if "d < made ?st" for d using tree_okD(1) [OF t, of d] that new_control_ok by (auto simp: at less_Suc_eq)
    show "F < d \<and> is_form (ctrl ?st F) \<and> d \<in> set (controls (ctrl ?st F))" if "child_of ?st F d" for F d
      using that tree_okD(2-4) [OF t, of F d] old [of F d] by (auto simp: ch at)
    show "distinct (controls (ctrl ?st F))" if "F < made ?st" for F
      using tree_okD(5) [OF t, of F] that by (auto simp: at less_Suc_eq)
    show "child_of ?st F d" if "F < made ?st" "d \<in> set (controls (ctrl ?st F))" for F d
      using tree_okD(6) [OF t, of F d] that by (auto simp: ch at less_Suc_eq split: if_splits)
  qed
  moreover have "linked ?st {} F k d" if "F < Suc (made st)" "is_form (ctrl ?st F)" for F k d
  proof (cases "F = made st")
    case True
    then show ?thesis using old [of F d] by (auto simp: linked_def ch at)
  next
    case False
    then show ?thesis using that links_okD [OF l, of F k d] old [of F d] by (auto simp: linked_def ch at)
  qed
  then have "links_ok ?st {}" by (simp add: links_ok_def at(2))
  moreover have "flags_ok ?st" using fl old unfolding flags_ok_def ch by (auto simp: at less_Suc_eq)
  ultimately show ?thesis by (simp add: forms_ok_def)
qed

lemma published_shape: "control_ok x \<Longrightarrow> same_shape x (x\<lparr>published := q\<rparr>)" "control_ok x \<Longrightarrow> same_shape x (x\<lparr>ctrl_name := nm\<rparr>)"
  by (simp_all add: same_shape_def control_ok_def)

lemma rename_ok:
  assumes "forms_ok st" "c < made st"
  shows "forms_ok (renameControl (parentForm (ctrl st c)) c nm st)"
proof -
  have t: "tree_ok st" and fl: "flags_ok st" using assms by (simp_all add: forms_ok_def)
  have flags: "flags_ok st'" if "same_shapes st st'" "\<And>d. dirty (ctrl st' d) = dirty (ctrl st d)" "\<And>d. submitted (ctrl st' d) = submitted (ctrl st d)" for st'
    by (rule flags_same [OF that(1) fl that(2,3)])
  show ?thesis
  proof (cases "parentForm (ctrl st c)")
    case None
    have sh: "same_shapes st (put_ctrl c ((ctrl st c)\<lparr>ctrl_name := nm\<rparr>) st)"
      by (rule put_ctrl_same_shapes [OF t published_shape(2) [OF tree_okD(1) [OF t assms(2)]]])
    with None show ?thesis
      using forms_ok_shapes [OF assms(1) sh flags [OF sh]] by (simp add: renameControl_def)
  next
    case (Some F)
    then have "child_of st F c" using assms(2) by (simp add: child_of_def)
    note F = child_made(1) [OF t this]
    obtain x where x: "x = unpublish (ctrl_name (ctrl st c)) c (ctrl st F)" by simp
    obtain st1 where st1: "st1 = put_ctrl F (x\<lparr>published := key_put nm c (published x)\<rparr>) st" by simp
    have xs: "same_shape (ctrl st F) x" unfolding x by (rule unpublish_shape [OF tree_okD(1) [OF t F]])
    have ok: "control_ok x" by (rule same_shape_ok [OF xs tree_okD(1) [OF t F]])
    have sh1: "same_shapes st st1"
      unfolding st1 by (rule put_ctrl_same_shapes [OF t same_shape_trans [OF xs published_shape(1) [OF ok]]])
    note t1 = same_shapes_ok(1) [OF sh1 t]
    have sh2: "same_shapes st1 (put_ctrl c ((ctrl st1 c)\<lparr>ctrl_name := nm\<rparr>) st1)"
      using same_shapesD(1) [OF sh1] assms(2)
      by (intro put_ctrl_same_shapes [OF t1] published_shape(2) [OF tree_okD(1) [OF t1]]) simp
    note sh = same_shapes_trans [OF sh1 sh2]
    have fields: "dirty x = dirty (ctrl st F)" "submitted x = submitted (ctrl st F)" by (simp_all add: x unpublish_def)
    have "forms_ok (put_ctrl c ((ctrl st1 c)\<lparr>ctrl_name := nm\<rparr>) st1)"
      by (rule forms_ok_shapes [OF assms(1) sh flags [OF sh]]) (simp_all add: st1 fields)
    moreover have "ctrl st1 c = ctrl st c" using tree_okD(2) [OF t \<open>child_of st F c\<close>] by (simp add: st1)
    moreover have "renameControl (parentForm (ctrl st c)) c nm st = put_ctrl c ((ctrl st1 c)\<lparr>ctrl_name := nm\<rparr>) st1"
      unfolding Some renameControl_def option.case Let_def x [symmetric] st1 [symmetric] ..
    ultimately show ?thesis by simp
  qed
qed

lemma on_all_flags:
  assumes ok: "forms_ok st" and f: "\<And>x. control_ok x \<Longrightarrow> same_shape x (f x)"
    and flags: "(\<forall>x. \<not> dirty (f x)) \<and> (\<forall>x. submitted (f x) = (submitted x \<and> \<not> is_form x)) \<or>
      (\<forall>x. dirty (f x) = dirty x) \<and> (\<forall>x. submitted (f x) = submitted x)"
  shows "forms_ok (on_all f (below st c) st)"
proof -
  have t: "tree_ok st" and fl: "flags_ok st" using ok by (simp_all add: forms_ok_def)
  let ?st = "on_all f (below st c) st"
  have sh: "same_shapes st ?st" by (rule on_all_shapes [OF t]) (rule f)
  have form: "is_form (ctrl ?st d) = is_form (ctrl st d)" if "d < made st" for d
    by (rule same_shapeD(1) [OF same_shapesD(2) [OF sh that]])
  from flags have "flags_ok ?st"
  proof
    assume "(\<forall>x. dirty (f x) = dirty x) \<and> (\<forall>x. submitted (f x) = submitted x)"
    then show ?thesis by (intro flags_same [OF sh fl]) simp_all
  next
    assume clean: "(\<forall>x. \<not> dirty (f x)) \<and> (\<forall>x. submitted (f x) = (submitted x \<and> \<not> is_form x))"
    have "(dirty (ctrl ?st d) \<longrightarrow> dirty (ctrl ?st F)) \<and> (submitted (ctrl ?st d) \<longrightarrow> submitted (ctrl ?st F))" if c: "child_of st F d" for F d
    proof -
      have "below st c F \<Longrightarrow> below st c d" using below.deeper [OF _ c] by blast
      moreover have "submitted (ctrl st d) \<longrightarrow> is_form (ctrl st d)" using fl child_made(2) [OF t c] by (simp add: flags_ok_def)
      ultimately show ?thesis using fl c clean unfolding flags_ok_def by auto
    qed
    moreover have "submitted (ctrl ?st d) \<longrightarrow> is_form (ctrl ?st d)" if "d < made st" for d
      using fl clean that form [OF that] unfolding flags_ok_def by auto
    ultimately show ?thesis unfolding flags_ok_def on_all_simps(2) using same_shapes_child [OF sh] by blast
  qed
  then show ?thesis by (rule forms_ok_shapes [OF ok sh])
qed

text \<open>Every event goes through, or is an addition under the name that is refused, and keeps the forms right.\<close>

lemma happen_ok:
  assumes ok: "forms_ok st" and may: "may_happen st e"
  shows "(\<exists>st'. happen e st = Inr st' \<and> forms_ok st') \<or> happen e st = Inl BadName"
proof -
  have t: "tree_ok st" and l: "links_ok st {}" and fl: "flags_ok st" using ok by (simp_all add: forms_ok_def)
  have flags: "\<forall>F d. child_of st F d \<longrightarrow> dirty (ctrl st d) \<longrightarrow> dirty (ctrl st F)"
    "\<forall>F d. child_of st F d \<longrightarrow> submitted (ctrl st d) \<longrightarrow> submitted (ctrl st F)"
    "\<forall>d<made st. submitted (ctrl st d) \<longrightarrow> is_form (ctrl st d)"
    using fl by (auto simp: flags_ok_def)
  show ?thesis
  proof (cases e)
    case (Add F c)
    then show ?thesis using addControl_ok [OF ok, of F c] may
      by (cases "addControl F c st") (auto simp: fresh_control_def addControl_def Let_def split: if_splits)
  next
    case (Remove c)
    then show ?thesis using removeControl_ok [OF ok, of _ c] may ok
      by (cases "parentForm (ctrl st c)") (auto simp: child_of_def)
  next
    case (Validity c k s)
    have "links_but st {} (c, k, c)" using l by (simp add: links_but_def links_ok_def)
    moreover have "tells st {} c k s c" using Validity may by (simp add: tells_def)
    ultimately obtain st' where st': "setValidity (made st) c k s c st = Inr st'" "tree_ok st'" "links_ok st' {}" "moves_nothing st st'"
      using setValidity_ok [OF t, where k = k and c = c and n = "made st" and w = c and R = "{}" and s = s] Validity may by auto
    have "flags_ok st'"
      using fl unfolding flags_ok_def moves_nothing_child [OF st'(4)] moves_nothing_fields(1,2,5,6) [OF st'(4)] .
    with st' Validity show ?thesis by (simp add: forms_ok_def)
  next
    case (Dirty c)
    then obtain st' where st': "setDirty (made st) c st = Inr st'" "same_shapes st st'" "\<forall>d. submitted (ctrl st' d) = submitted (ctrl st d)"
        "\<forall>F d. child_of st F d \<longrightarrow> dirty (ctrl st' d) \<longrightarrow> dirty (ctrl st' F)"
      using setDirty_ok [OF t, of c "made st"] may flags(1) by auto
    have "flags_ok st'"
      using st'(3,4) flags(2,3) same_shapeD(1) [OF same_shapesD(2) [OF st'(2)]]
      unfolding flags_ok_def same_shapes_child [OF st'(2)] same_shapesD(1) [OF st'(2)] by simp
    with forms_ok_shapes [OF ok st'(2)] st'(1) Dirty show ?thesis by simp
  next
    case (Submit c)
    then obtain st' where st': "setSubmitted (made st) c st = Inr st'" "same_shapes st st'" "\<forall>d. dirty (ctrl st' d) = dirty (ctrl st d)"
        "\<forall>F d. child_of st F d \<longrightarrow> submitted (ctrl st' d) \<longrightarrow> submitted (ctrl st' F)"
        "\<forall>d<made st. submitted (ctrl st' d) \<longrightarrow> is_form (ctrl st d)"
      using setSubmitted_ok [OF t, of c "made st"] may flags(2,3) by auto
    have "flags_ok st'"
      using st'(3-5) flags(1) same_shapeD(1) [OF same_shapesD(2) [OF st'(2)]]
      unfolding flags_ok_def same_shapes_child [OF st'(2)] same_shapesD(1) [OF st'(2)] by simp
    with forms_ok_shapes [OF ok st'(2)] st'(1) Submit show ?thesis by simp
  next
    case (Pristine c)
    then show ?thesis using setPristine_ok [OF t, of c] may
      by (simp add: on_all_flags [OF ok cleaned_shape] cleaned_fields)
  next
    case (Untouched c)
    then show ?thesis using setUntouched_ok [OF t, of c] may
      by (simp add: on_all_flags [OF ok untouched_shape] untouched_fields)
  next
    case (Touched c)
    then have c: "c < made st" using may by simp
    have sh: "same_shapes st (setTouched c st)"
      unfolding setTouched_def by (rule put_ctrl_same_shapes [OF t flag_shapes(6) [OF tree_okD(1) [OF t c]]])
    have "flags_ok (setTouched c st)" by (rule flags_same [OF sh fl]) (simp_all add: setTouched_def)
    with forms_ok_shapes [OF ok sh] Touched show ?thesis by simp
  next
    case (Emptied c b)
    then have c: "c < made st" using may by simp
    have sh: "same_shapes st (updateEmptyClasses c b st)"
      unfolding updateEmptyClasses_def
      using flag_shapes(7,8) [OF tree_okD(1) [OF t c]] by (intro put_ctrl_same_shapes [OF t]) simp
    have "flags_ok (updateEmptyClasses c b st)"
      by (rule flags_same [OF sh fl]) (simp_all add: updateEmptyClasses_def switch_classes_def)
    with forms_ok_shapes [OF ok sh] Emptied show ?thesis by simp
  qed (use may make_ok [OF ok] rename_ok [OF ok] in auto)
qed

lemma no_forms_ok: "forms_ok no_forms"
  by (simp add: forms_ok_def tree_ok_def links_ok_def flags_ok_def child_of_def no_forms_def)

lemma form_run_ok: "form_run st \<Longrightarrow> forms_ok st"
  by (induction rule: form_run.induct) (use no_forms_ok happen_ok in fastforce)+

section \<open>What a form shows\<close>

lemma combined_some:
  assumes "entries_ok x"
  shows "(\<exists>k. combinedState k x = Undefined) \<longleftrightarrow> pending_keys x \<noteq> None"
    "pending_keys x = None \<Longrightarrow> (\<exists>k. combinedState k x = Boolean False) \<longleftrightarrow> error_keys x \<noteq> []"
  using empty_keys_iff [OF assms] by (auto simp: combined_iff [OF assms])

lemma form_entries:
  assumes ok: "forms_ok st" and F: "F < made st" "is_form (ctrl st F)"
  shows "pending_keys (ctrl st F) \<noteq> None \<longleftrightarrow> (\<exists>c. child_of st F c \<and> pending_keys (ctrl st c) \<noteq> None)"
    "pending_keys (ctrl st F) = None \<Longrightarrow> error_keys (ctrl st F) \<noteq> [] \<longleftrightarrow> (\<exists>c. child_of st F c \<and> error_keys (ctrl st c) \<noteq> [])"
proof -
  have t: "tree_ok st" and l: "links_ok st {}" using ok by (simp_all add: forms_ok_def)
  have e: "entries_ok (ctrl st c)" if "c < made st" for c using tree_okD(1) [OF t that] by (simp add: control_ok_def)
  have rec: "recorded_as (ctrl st F) k c s \<longleftrightarrow> child_of st F c \<and> combinedState k (ctrl st c) = s" if "\<forall>b. s \<noteq> Other b" for k c s
    using links_okD [OF l F, of k c] that by (simp add: linked_def)
  have recU: "recorded_as (ctrl st F) k c Undefined \<longleftrightarrow> child_of st F c \<and> combinedState k (ctrl st c) = Undefined"
    and recF: "recorded_as (ctrl st F) k c (Boolean False) \<longleftrightarrow> child_of st F c \<and> combinedState k (ctrl st c) = Boolean False" for k c
    by (simp_all add: rec)
  show p: "pending_keys (ctrl st F) \<noteq> None \<longleftrightarrow> (\<exists>c. child_of st F c \<and> pending_keys (ctrl st c) \<noteq> None)"
    unfolding empty_keys_iff(1) [OF e [OF F(1)]] recU using combined_some(1) [OF e [OF child_made(2) [OF t]]] by blast
  show "error_keys (ctrl st F) \<noteq> [] \<longleftrightarrow> (\<exists>c. child_of st F c \<and> error_keys (ctrl st c) \<noteq> [])" if "pending_keys (ctrl st F) = None"
  proof -
    have "pending_keys (ctrl st c) = None" if "child_of st F c" for c using p \<open>pending_keys (ctrl st F) = None\<close> that by auto
    then show ?thesis
      unfolding empty_keys_iff(2) [OF e [OF F(1)]] recF using combined_some(2) [OF e [OF child_made(2) [OF t]]] by blast
  qed
qed

text \<open>A form is pending or has errors exactly when a control below it is, or has.\<close>

lemma child_below: "child_of st F c \<Longrightarrow> below st c d \<Longrightarrow> below st F d"
  using below_first by blast

lemma below_other: "below st F d \<Longrightarrow> d \<noteq> F \<Longrightarrow> \<exists>c. child_of st F c \<and> below st c d"
  using below_first by blast

lemma pending_below:
  assumes ok: "forms_ok st" and F: "F < made st"
  shows "pending_keys (ctrl st F) \<noteq> None \<longleftrightarrow>
    (\<exists>d. below st F d \<and> \<not> is_form (ctrl st d) \<and> pending_keys (ctrl st d) \<noteq> None)"
  using F
proof (induction "made st - F" arbitrary: F rule: less_induct)
  case less
  have t: "tree_ok st" using ok by (simp add: forms_ok_def)
  show ?case
  proof (cases "is_form (ctrl st F)")
    case False
    then have "\<not> child_of st F c" for c using tree_okD(3) [OF t] by blast
    then have "below st F d \<longleftrightarrow> d = F" for d using below_first by blast
    with False show ?thesis by simp
  next
    case True
    have IH: "pending_keys (ctrl st c) \<noteq> None \<longleftrightarrow>
        (\<exists>d. below st c d \<and> \<not> is_form (ctrl st d) \<and> pending_keys (ctrl st d) \<noteq> None)" if "child_of st F c" for c
      using child_made [OF t that] tree_okD(2) [OF t that] by (intro less(1)) linarith+
    show ?thesis
      unfolding form_entries(1) [OF ok less(2) True] using IH True below_other child_below by metis
  qed
qed

lemma errors_below:
  assumes ok: "forms_ok st" and F: "F < made st" and p: "pending_keys (ctrl st F) = None"
  shows "error_keys (ctrl st F) \<noteq> [] \<longleftrightarrow> (\<exists>d. below st F d \<and> \<not> is_form (ctrl st d) \<and> error_keys (ctrl st d) \<noteq> [])"
  using F p
proof (induction "made st - F" arbitrary: F rule: less_induct)
  case less
  have t: "tree_ok st" using ok by (simp add: forms_ok_def)
  show ?case
  proof (cases "is_form (ctrl st F)")
    case False
    then have "\<not> child_of st F c" for c using tree_okD(3) [OF t] by blast
    then have "below st F d \<longleftrightarrow> d = F" for d using below_first by blast
    with False show ?thesis by simp
  next
    case True
    have "pending_keys (ctrl st c) = None" if "child_of st F c" for c
      using form_entries(1) [OF ok less(2) True] less(3) that by auto
    then have IH: "error_keys (ctrl st c) \<noteq> [] \<longleftrightarrow>
        (\<exists>d. below st c d \<and> \<not> is_form (ctrl st d) \<and> error_keys (ctrl st d) \<noteq> [])" if "child_of st F c" for c
      using child_made [OF t that] tree_okD(2) [OF t that] that by (intro less(1)) (linarith | blast)+
    show ?thesis
      unfolding form_entries(2) [OF ok less(2) True less(3)] using IH True below_other child_below by metis
  qed
qed

lemma flags_below:
  assumes "forms_ok st" "below st F d"
  shows "dirty (ctrl st d) \<Longrightarrow> dirty (ctrl st F)" "submitted (ctrl st d) \<Longrightarrow> submitted (ctrl st F)"
  using assms(2,1) by (induction rule: below.induct) (auto simp: forms_ok_def flags_ok_def)

lemma forms_okD:
  assumes "forms_ok st" "c < made st"
  shows "shown_ok (ctrl st c)" "pristine (ctrl st c) = (\<not> dirty (ctrl st c))"
  using tree_okD(1) [OF _ assms(2)] assms(1) by (simp_all add: forms_ok_def control_ok_def)

section \<open>Sequences of events\<close>

fun happenings :: "form_event list \<Rightarrow> forms \<Rightarrow> form_error + forms" where
  "happenings [] st = Inr st"
| "happenings (e # es) st = (if may_happen st e then bind_sum (happen e st) (happenings es) else Inr st)"

definition form_after :: "form_event list \<Rightarrow> forms" where
  "form_after es = (case happenings es no_forms of Inl _ \<Rightarrow> no_forms | Inr st \<Rightarrow> st)"

lemma happenings_run: "form_run st \<Longrightarrow> happenings es st = Inr st' \<Longrightarrow> form_run st'"
  by (induction es arbitrary: st) (auto simp: bind_sum_def split: if_splits sum.splits intro: form_run.event)

lemma form_after_run: "form_run (form_after es)"
  using happenings_run [OF form_run.start] form_run.start by (auto simp: form_after_def split: sum.splits)

lemma happenings_plain: "plain_run st \<Longrightarrow> list_all plain_event es \<Longrightarrow> happenings es st = Inr st' \<Longrightarrow> plain_run st'"
  by (induction es arbitrary: st) (auto simp: bind_sum_def split: if_splits sum.splits intro: plain_run.event)

lemma form_after_plain: "list_all plain_event es \<Longrightarrow> plain_run (form_after es)"
  using happenings_plain [OF plain_run.start] plain_run.start by (auto simp: form_after_def split: sum.splits)

section \<open>Properties\<close>

text \<open>
  C31. After any run of events on forms that start out empty, a form of any depth is \<open>$pending\<close>, valid or invalid
  exactly as the models below it are: pending when one of them waits for an asynchronous validator, else valid when
  none of them has an error; and the classes of its element say the same.
\<close>

theorem form_shows_models_below:
  assumes "form_run st" "F < made st"
  shows "valid (ctrl st F) =
      (if \<exists>m. below st F m \<and> \<not> is_form (ctrl st m) \<and> pending_keys (ctrl st m) \<noteq> None then None
       else Some (\<forall>m. below st F m \<and> \<not> is_form (ctrl st m) \<longrightarrow> error_keys (ctrl st m) = [])) \<and>
    invalid (ctrl st F) = map_option Not (valid (ctrl st F)) \<and>
    classes (ctrl st F) VALID_CLASS = (valid (ctrl st F) = Some True) \<and>
    classes (ctrl st F) INVALID_CLASS = (valid (ctrl st F) = Some False) \<and>
    classes (ctrl st F) PENDING_CLASS = (valid (ctrl st F) = None)"
proof -
  note ok = form_run_ok [OF assms(1)]
  note sh = forms_okD(1) [OF ok assms(2)] and p = pending_below [OF ok assms(2)] and e = errors_below [OF ok assms(2)]
  have "valid (ctrl st F) = (if pending_keys (ctrl st F) \<noteq> None then None else Some (error_keys (ctrl st F) = []))"
    using sh by (simp add: shown_ok_def)
  then show ?thesis using sh p e unfolding shown_ok_def by (cases "pending_keys (ctrl st F)") auto
qed

theorem form_shows_models_below_witness:
  defines "st \<equiv> form_after [Make True ''outer'', Make True ''inner'', Make False ''email'', Add 0 1, Add 1 2,
      Validity 2 ''taken'' Undefined, Validity 2 ''taken'' (Boolean False)]"
  shows "form_run st \<and> 0 < made st \<and> valid (ctrl st 0) = Some False \<and>
    classes (ctrl st 0) INVALID_CLASS = (valid (ctrl st 0) = Some False)"
proof -
  have "made st = 3" "valid (ctrl st 0) = Some False" unfolding st_def by code_simp+
  then show ?thesis using form_shows_models_below [of st 0] form_after_run unfolding st_def by simp
qed

text \<open>Only \<open>$addControl\<close> refuses a name.\<close>

lemma setValidity_refuses_nothing: "setValidity n c k s b st \<noteq> Inl BadName"
  by (induction n c k s b st rule: setValidity.induct) (simp_all add: Let_def split: option.splits)

lemma setDirty_refuses_nothing: "setDirty n c st \<noteq> Inl BadName"
  by (induction n c st rule: setDirty.induct) (simp_all add: Let_def split: option.splits)

lemma setSubmitted_refuses_nothing: "setSubmitted n c st \<noteq> Inl BadName"
  by (induction n c st rule: setSubmitted.induct) (simp_all add: Let_def split: option.splits)

lemmas calls_refuse_nothing = setValidity_refuses_nothing setDirty_refuses_nothing setSubmitted_refuses_nothing

lemma each_refuses_nothing: "(\<And>c st. f c st \<noteq> Inl BadName) \<Longrightarrow> each_control f cs st \<noteq> Inl BadName"
  by (induction cs arbitrary: st) (auto simp: bind_sum_def split: sum.splits)

lemma descents_refuse_nothing: "setPristine n c st \<noteq> Inl BadName" "setUntouched n c st \<noteq> Inl BadName"
  by (induction n arbitrary: c st) (simp_all add: Let_def each_refuses_nothing)

lemma clear_keys_refuses_nothing: "clear_keys n F ks c st \<noteq> Inl BadName"
  by (induction ks arbitrary: st) (auto simp: calls_refuse_nothing split: sum.splits)

lemma removeControl_refuses_nothing: "removeControl n F c st \<noteq> Inl BadName"
proof -
  have "bind_sum m f \<noteq> Inl BadName" if "m \<noteq> Inl BadName" "\<And>x. f x \<noteq> Inl BadName" for m :: "form_error + forms" and f :: "forms \<Rightarrow> form_error + forms"
    using that by (cases m) (simp_all add: bind_sum_def)
  then show ?thesis by (simp add: removeControl_def Let_def clear_keys_refuses_nothing)
qed

lemma bad_name: "happen e st = Inl BadName \<Longrightarrow> \<exists>F c. e = Add F c \<and> ctrl_name (ctrl st c) = ''hasOwnProperty''"
  by (cases e) (auto simp: calls_refuse_nothing descents_refuse_nothing removeControl_refuses_nothing addControl_def Let_def
    split: option.splits if_splits)



text \<open>
  C33. A form that is \<open>$pristine\<close> has no dirty control below it, at any depth, and a form that is not
  \<open>$submitted\<close> has no submitted form below it.
\<close>

theorem pristine_form_has_no_dirty_control:
  assumes "form_run st" "F < made st" "below st F d"
  shows "(pristine (ctrl st F) \<longrightarrow> pristine (ctrl st d) \<and> \<not> dirty (ctrl st d)) \<and>
    (\<not> submitted (ctrl st F) \<longrightarrow> \<not> submitted (ctrl st d))"
proof -
  note ok = form_run_ok [OF assms(1)]
  have "d < made st" by (rule below_made [OF assms(3,2)])
  then show ?thesis using forms_okD(2) [OF ok] assms(2) flags_below [OF ok assms(3)] by auto
qed

theorem pristine_form_has_no_dirty_control_witness:
  defines "st \<equiv> form_after [Make True ''outer'', Make True ''inner'', Make False ''email'', Add 0 1, Add 1 2, Dirty 2, Pristine 0]"
  shows "form_run st \<and> below st 0 2 \<and> pristine (ctrl st 0) \<and> pristine (ctrl st 2)"
proof -
  have "made st = 3" "parentForm (ctrl st 2) = Some 1" "parentForm (ctrl st 1) = Some 0" "pristine (ctrl st 0)"
    unfolding st_def by code_simp+
  moreover from this have "below st 0 2" by (auto simp: child_of_def intro!: below.deeper [of st 0 1 2] below.deeper [of st 0 0 1] below.here)
  ultimately show ?thesis using pristine_form_has_no_dirty_control [of st 0 2] form_after_run unfolding st_def by simp
qed

end
