(* ===== verification/NgModel.thy ===== *)
theory NgModel
  imports NgFormsInv
begin

text \<open>
  The pipeline between an input and its model: \<open>NgModelController\<close> in
  \<open>assets/public/components/angular/angular.js\<close>. The controller's state is a record with the forms around
  it; parsers, formatters and validators are functions of the values they get. Asynchronous validators
  answer in any order, as events. A call gives the new state and the exception it ended with, if any.
\<close>

section \<open>Values and configuration\<close>

text \<open>Values are told apart by \<open>===\<close>; \<open>OtherValue\<close> stands for the values the code never looks at.\<close>

datatype mvalue = NoValue | NullValue | NaNValue | TextValue string | OtherValue nat

definition identical :: "mvalue \<Rightarrow> mvalue \<Rightarrow> bool" where
  "identical a b \<longleftrightarrow> a = b \<and> a \<noteq> NaNValue"

definition isEmpty :: "mvalue \<Rightarrow> bool" where
  "isEmpty v \<longleftrightarrow> v = NoValue \<or> v = TextValue [] \<or> v = NullValue \<or> v = NaNValue"

datatype debounce = Delay nat | Delays "string \<Rightarrow> nat option"

record model_options =
  updateOnDefault :: bool
  allow_invalid :: bool
  debounce_option :: "debounce option"

text \<open>What the directives of an element set up: an asynchronous validator tells whether it returns a promise.\<close>

record model_setup =
  parsers :: "(mvalue \<Rightarrow> mvalue) list"
  formatters :: "(mvalue \<Rightarrow> mvalue) list"
  validators :: "(string \<times> (mvalue \<Rightarrow> mvalue \<Rightarrow> vstate)) list"
  asyncValidators :: "(string \<times> (mvalue \<Rightarrow> mvalue \<Rightarrow> bool)) list"
  parserName :: string
  hasNativeValidators :: bool
  model_opts :: "model_options option"

definition allowInvalid :: "model_setup \<Rightarrow> bool" where
  "allowInvalid cfg \<longleftrightarrow> (case model_opts cfg of None \<Rightarrow> False | Some os \<Rightarrow> allow_invalid os)"

section \<open>State\<close>

text \<open>The callbacks that are passed to \<open>$$runValidators\<close>, with the variables they close over.\<close>

datatype done_callback =
  CommitDone mvalue mvalue
| ValidateDone mvalue "bool option" mvalue
| NoopDone

text \<open>
  \<open>waiting\<close> has the promises whose callbacks are still to run, by their run and their validator, \<open>failed\<close>
  the runs whose \<open>allValid\<close> is false, \<open>ending\<close> the runs that wait for \<open>$q.all\<close>. \<open>scopeValue\<close> is what the
  scope holds, \<open>written\<close> what was written to it, \<open>shown\<close> what the element shows.
\<close>

record model_state =
  page :: forms
  self :: nat
  viewValue :: mvalue
  modelValue :: mvalue
  rawModelValue :: mvalue
  lastCommitted :: mvalue
  parserValid :: "bool option"
  runId :: nat
  waiting :: "(nat \<times> string) list"
  failed :: "nat list"
  ending :: "(nat \<times> done_callback) list"
  pendingDebounce :: "nat option"
  scopeValue :: mvalue
  written :: "mvalue list"
  shown :: mvalue

datatype model_error = NoPromise string | FormError form_error

type_synonym model_outcome = "model_error option \<times> model_state"

definition new_model :: "forms \<Rightarrow> nat \<Rightarrow> mvalue \<Rightarrow> model_state" where
  "new_model fs c v =
     \<lparr>page = fs, self = c, viewValue = NaNValue, modelValue = NaNValue, rawModelValue = NoValue, lastCommitted = NoValue,
      parserValid = None, runId = 0, waiting = [], failed = [], ending = [], pendingDebounce = None,
      scopeValue = v, written = [], shown = TextValue []\<rparr>"

text \<open>The next statement, unless there is an exception.\<close>

definition and_then :: "model_outcome \<Rightarrow> (model_state \<Rightarrow> model_outcome) \<Rightarrow> model_outcome" where
  "and_then r f = (case r of (None, st) \<Rightarrow> f st | (Some e, st) \<Rightarrow> (Some e, st))"

definition on_page :: "(forms \<Rightarrow> form_error + forms) \<Rightarrow> model_state \<Rightarrow> model_outcome" where
  "on_page f st = (case f (page st) of Inl e \<Rightarrow> (Some (FormError e), st) | Inr fs \<Rightarrow> (None, st\<lparr>page := fs\<rparr>))"

section \<open>Validation\<close>

definition isTrue :: "vstate \<Rightarrow> bool" where
  "isTrue s \<longleftrightarrow> (case s of Undefined \<Rightarrow> False | Boolean b \<Rightarrow> b | Other b \<Rightarrow> b)"

definition errorKey :: "model_setup \<Rightarrow> string" where
  "errorKey cfg = (if parserName cfg = [] then ''parse'' else parserName cfg)"

text \<open>The local \<open>setValidity\<close> of a run.\<close>

definition run_setValidity :: "nat \<Rightarrow> string \<Rightarrow> vstate \<Rightarrow> model_state \<Rightarrow> model_outcome" where
  "run_setValidity localId nm isValid st =
     (if localId = runId st
      then on_page (\<lambda>fs. setValidity (made fs) (self st) nm isValid (self st) fs) st
      else (None, st))"

fun unset_all :: "nat \<Rightarrow> string list \<Rightarrow> model_state \<Rightarrow> model_outcome" where
  "unset_all localId [] st = (None, st)"
| "unset_all localId (nm # nms) st = and_then (run_setValidity localId nm (Other False) st) (unset_all localId nms)"

definition processParseErrors :: "model_setup \<Rightarrow> nat \<Rightarrow> model_state \<Rightarrow> model_outcome" where
  "processParseErrors cfg localId st =
     (case parserValid st of
        None \<Rightarrow> run_setValidity localId (errorKey cfg) (Other False) st
      | Some b \<Rightarrow>
          and_then
            (if b then (None, st)
             else and_then (unset_all localId (map fst (validators cfg)) st) (unset_all localId (map fst (asyncValidators cfg))))
            (run_setValidity localId (errorKey cfg) (Boolean b)))"

fun run_validators :: "nat \<Rightarrow> (string \<times> (mvalue \<Rightarrow> mvalue \<Rightarrow> vstate)) list \<Rightarrow> mvalue \<Rightarrow> mvalue \<Rightarrow> model_state \<Rightarrow> model_outcome" where
  "run_validators localId [] mv vv st = (None, st)"
| "run_validators localId ((nm, v) # vs) mv vv st =
     and_then (run_setValidity localId nm (v mv vv) st) (run_validators localId vs mv vv)"

definition syncValid :: "model_setup \<Rightarrow> mvalue \<Rightarrow> mvalue \<Rightarrow> bool" where
  "syncValid cfg mv vv \<longleftrightarrow> (\<forall>(nm, v)\<in>set (validators cfg). isTrue (v mv vv))"

definition writeModelToScope :: "model_state \<Rightarrow> model_state" where
  "writeModelToScope st = st\<lparr>scopeValue := modelValue st, written := written st @ [modelValue st]\<rparr>"

definition writeToModelIfNeeded :: "mvalue \<Rightarrow> model_state \<Rightarrow> model_state" where
  "writeToModelIfNeeded prevModelValue st = (if identical (modelValue st) prevModelValue then st else writeModelToScope st)"

fun doneCallback :: "model_setup \<Rightarrow> done_callback \<Rightarrow> bool \<Rightarrow> model_state \<Rightarrow> model_state" where
  "doneCallback cfg (CommitDone mv prev) allValid st =
     (if allowInvalid cfg then st
      else writeToModelIfNeeded prev (st\<lparr>modelValue := (if allValid then mv else NoValue)\<rparr>))"
| "doneCallback cfg (ValidateDone mv prevValid prev) allValid st =
     (if \<not> allowInvalid cfg \<and> prevValid \<noteq> Some allValid
      then writeToModelIfNeeded prev (st\<lparr>modelValue := (if allValid then mv else NoValue)\<rparr>)
      else st)"
| "doneCallback cfg NoopDone allValid st = st"

definition validationDone :: "model_setup \<Rightarrow> nat \<Rightarrow> done_callback \<Rightarrow> bool \<Rightarrow> model_state \<Rightarrow> model_state" where
  "validationDone cfg localId fin allValid st = (if localId = runId st then doneCallback cfg fin allValid st else st)"

text \<open>Asks the asynchronous validators; a promise's callbacks are there as soon as the promise is.\<close>

fun ask_async :: "nat \<Rightarrow> (string \<times> (mvalue \<Rightarrow> mvalue \<Rightarrow> bool)) list \<Rightarrow> mvalue \<Rightarrow> mvalue \<Rightarrow> model_state \<Rightarrow> model_outcome" where
  "ask_async localId [] mv vv st = (None, st)"
| "ask_async localId ((nm, v) # vs) mv vv st =
     (if \<not> v mv vv then (Some (NoPromise nm), st)
      else and_then (run_setValidity localId nm Undefined st)
        (\<lambda>st. ask_async localId vs mv vv (st\<lparr>waiting := waiting st @ [(localId, nm)]\<rparr>)))"

definition processAsyncValidators :: "model_setup \<Rightarrow> nat \<Rightarrow> mvalue \<Rightarrow> mvalue \<Rightarrow> done_callback \<Rightarrow> model_state \<Rightarrow> model_outcome" where
  "processAsyncValidators cfg localId mv vv fin st =
     and_then (ask_async localId (asyncValidators cfg) mv vv st)
       (\<lambda>st. if asyncValidators cfg = [] then (None, validationDone cfg localId fin True st)
             else (None, st\<lparr>ending := ending st @ [(localId, fin)]\<rparr>))"

definition runValidators :: "model_setup \<Rightarrow> mvalue \<Rightarrow> mvalue \<Rightarrow> done_callback \<Rightarrow> model_state \<Rightarrow> model_outcome" where
  "runValidators cfg mv vv fin st =
     (let localId = runId st + 1; st = st\<lparr>runId := localId\<rparr> in
      and_then (processParseErrors cfg localId st)
        (\<lambda>st. if parserValid st = Some False then (None, validationDone cfg localId fin False st)
              else and_then (run_validators localId (validators cfg) mv vv st)
                (\<lambda>st. if \<not> syncValid cfg mv vv
                      then and_then (unset_all localId (map fst (asyncValidators cfg)) st)
                        (\<lambda>st. (None, validationDone cfg localId fin False st))
                      else processAsyncValidators cfg localId mv vv fin st)))"

text \<open>The callbacks of a validator's promise, and that of \<open>$q.all\<close>.\<close>

definition validator_answered :: "nat \<Rightarrow> string \<Rightarrow> bool \<Rightarrow> model_state \<Rightarrow> model_outcome" where
  "validator_answered localId nm ok st =
     run_setValidity localId nm (Boolean ok)
       (st\<lparr>waiting := remove1 (localId, nm) (waiting st), failed := (if ok then failed st else localId # failed st)\<rparr>)"

definition all_answered :: "model_setup \<Rightarrow> nat \<Rightarrow> done_callback \<Rightarrow> model_state \<Rightarrow> model_state" where
  "all_answered cfg localId fin st =
     validationDone cfg localId fin (localId \<notin> set (failed st)) (st\<lparr>ending := remove1 (localId, fin) (ending st)\<rparr>)"

section \<open>Committing, validating, rendering\<close>

fun run_parsers :: "(mvalue \<Rightarrow> mvalue) list \<Rightarrow> mvalue \<Rightarrow> mvalue \<times> bool" where
  "run_parsers [] mv = (mv, True)"
| "run_parsers (p # ps) mv = (if p mv = NoValue then (NoValue, False) else run_parsers ps (p mv))"

text \<open>What the parsers make of a view value, and \<open>parserValid\<close>.\<close>

definition parse_view :: "model_setup \<Rightarrow> mvalue \<Rightarrow> mvalue \<times> bool option" where
  "parse_view cfg vv =
     (if vv = NoValue then (vv, None) else (fst (run_parsers (parsers cfg) vv), Some (snd (run_parsers (parsers cfg) vv))))"

definition parseAndValidate :: "model_setup \<Rightarrow> model_state \<Rightarrow> model_outcome" where
  "parseAndValidate cfg st =
     (let mv = fst (parse_view cfg (lastCommitted st));
          pv = snd (parse_view cfg (lastCommitted st));
          st = st\<lparr>parserValid := pv\<rparr>;
          st = (if modelValue st = NaNValue then st\<lparr>modelValue := scopeValue st\<rparr> else st);
          prev = modelValue st;
          st = st\<lparr>rawModelValue := mv\<rparr>;
          st = (if allowInvalid cfg then writeToModelIfNeeded prev (st\<lparr>modelValue := mv\<rparr>) else st)
      in runValidators cfg mv (lastCommitted st) (CommitDone mv prev) st)"

definition show_emptiness :: "mvalue \<Rightarrow> model_state \<Rightarrow> model_state" where
  "show_emptiness v st = st\<lparr>page := updateEmptyClasses (self st) (isEmpty v) (page st)\<rparr>"

definition commitViewValue :: "model_setup \<Rightarrow> model_state \<Rightarrow> model_outcome" where
  "commitViewValue cfg st =
     (let vv = viewValue st; st = st\<lparr>pendingDebounce := None\<rparr> in
      if identical (lastCommitted st) vv \<and> (\<not> identical vv (TextValue []) \<or> \<not> hasNativeValidators cfg) then (None, st)
      else let st = (show_emptiness vv st)\<lparr>lastCommitted := vv\<rparr> in
           and_then (if pristine (ctrl (page st) (self st)) then on_page (\<lambda>fs. setDirty (made fs) (self st) fs) st else (None, st))
             (parseAndValidate cfg))"

definition debounceDelay :: "model_setup \<Rightarrow> string \<Rightarrow> nat" where
  "debounceDelay cfg trigger =
     (case model_opts cfg of None \<Rightarrow> 0
      | Some os \<Rightarrow>
          (case debounce_option os of None \<Rightarrow> 0
           | Some (Delay n) \<Rightarrow> n
           | Some (Delays d) \<Rightarrow>
               (case d trigger of Some n \<Rightarrow> n | None \<Rightarrow> (case d ''default'' of Some n \<Rightarrow> n | None \<Rightarrow> 0))))"

definition debounceViewValueCommit :: "model_setup \<Rightarrow> string \<Rightarrow> model_state \<Rightarrow> model_outcome" where
  "debounceViewValueCommit cfg trigger st =
     (let st = st\<lparr>pendingDebounce := None\<rparr> in
      if debounceDelay cfg trigger \<noteq> 0 then (None, st\<lparr>pendingDebounce := Some (debounceDelay cfg trigger)\<rparr>)
      else commitViewValue cfg st)"

definition setViewValue_model :: "model_setup \<Rightarrow> mvalue \<Rightarrow> string \<Rightarrow> model_state \<Rightarrow> model_outcome" where
  "setViewValue_model cfg v trigger st =
     (let st = st\<lparr>viewValue := v\<rparr> in
      if (case model_opts cfg of None \<Rightarrow> True | Some os \<Rightarrow> updateOnDefault os)
      then debounceViewValueCommit cfg trigger st else (None, st))"

definition render_view :: "model_state \<Rightarrow> model_state" where
  "render_view st = st\<lparr>shown := viewValue st\<rparr>"

definition rollbackViewValue :: "model_state \<Rightarrow> model_state" where
  "rollbackViewValue st = render_view (st\<lparr>pendingDebounce := None, viewValue := lastCommitted st\<rparr>)"

definition validate :: "model_setup \<Rightarrow> model_state \<Rightarrow> model_outcome" where
  "validate cfg st =
     (if modelValue st = NaNValue then (None, st)
      else runValidators cfg (rawModelValue st) (lastCommitted st)
        (ValidateDone (rawModelValue st) (valid (ctrl (page st) (self st))) (modelValue st)) st)"

definition run_formatters :: "(mvalue \<Rightarrow> mvalue) list \<Rightarrow> mvalue \<Rightarrow> mvalue" where
  "run_formatters fs v = foldr (\<lambda>f v. f v) fs v"

definition ngModelWatch :: "model_setup \<Rightarrow> model_state \<Rightarrow> model_outcome" where
  "ngModelWatch cfg st =
     (let mv = scopeValue st in
      if \<not> identical mv (modelValue st) \<and> (identical (modelValue st) (modelValue st) \<or> identical mv mv)
      then let st = st\<lparr>modelValue := mv, rawModelValue := mv, parserValid := None\<rparr>;
               vv = run_formatters (formatters cfg) mv
           in if identical (viewValue st) vv then (None, st)
              else let st = render_view ((show_emptiness vv st)\<lparr>viewValue := vv, lastCommitted := vv\<rparr>)
                   in runValidators cfg mv vv NoopDone st
      else (None, st))"

section \<open>Events\<close>

datatype model_event =
  Input mvalue string
| Commit
| Timer
| Rollback
| Revalidate
| Digest
| ScopeSet mvalue
| Answer nat string bool
| AllAnswered nat done_callback
| Elsewhere form_event

definition pipeline_keys :: "model_setup \<Rightarrow> string list" where
  "pipeline_keys cfg = errorKey cfg # map fst (validators cfg) @ map fst (asyncValidators cfg)"

text \<open>Other code may set validity under keys of its own; names and keys are plain.\<close>

fun may_occur :: "model_setup \<Rightarrow> model_state \<Rightarrow> model_event \<Rightarrow> bool" where
  "may_occur cfg st Timer = (pendingDebounce st \<noteq> None)"
| "may_occur cfg st (Answer r nm ok) = ((r, nm) \<in> set (waiting st))"
| "may_occur cfg st (AllAnswered r fin) = ((r, fin) \<in> set (ending st) \<and> (\<forall>(q, nm)\<in>set (waiting st). q \<noteq> r))"
| "may_occur cfg st (Elsewhere e) =
     (may_happen (page st) e \<and> plain_event e \<and> (case e of Validity c k s \<Rightarrow> c = self st \<longrightarrow> k \<notin> set (pipeline_keys cfg) | _ \<Rightarrow> True))"
| "may_occur cfg st _ = True"

fun occur :: "model_setup \<Rightarrow> model_event \<Rightarrow> model_state \<Rightarrow> model_outcome" where
  "occur cfg (Input v trigger) st = setViewValue_model cfg v trigger st"
| "occur cfg Commit st = commitViewValue cfg st"
| "occur cfg Timer st = commitViewValue cfg st"
| "occur cfg Rollback st = (None, rollbackViewValue st)"
| "occur cfg Revalidate st = validate cfg st"
| "occur cfg Digest st = ngModelWatch cfg st"
| "occur cfg (ScopeSet v) st = (None, st\<lparr>scopeValue := v\<rparr>)"
| "occur cfg (Answer r nm ok) st = validator_answered r nm ok st"
| "occur cfg (AllAnswered r fin) st = (None, all_answered cfg r fin st)"
| "occur cfg (Elsewhere e) st = on_page (happen e) st"

text \<open>The runs of the page: a model that has just been made, and any events; an exception ends an event only.\<close>

inductive model_run :: "model_setup \<Rightarrow> model_state \<Rightarrow> bool" for cfg where
  start: "plain_run fs \<Longrightarrow> c < made fs \<Longrightarrow> \<not> is_form (ctrl fs c) \<Longrightarrow> fresh_control (ctrl fs c) \<Longrightarrow> model_run cfg (new_model fs c v)"
| event: "model_run cfg st \<Longrightarrow> may_occur cfg st e \<Longrightarrow> occur cfg e st = (x, st') \<Longrightarrow> model_run cfg st'"

text \<open>The state after events of a model on a page, up to the first that cannot occur.\<close>

fun occurrences :: "model_setup \<Rightarrow> model_event list \<Rightarrow> model_state \<Rightarrow> model_state" where
  "occurrences cfg [] st = st"
| "occurrences cfg (e # es) st = (if may_occur cfg st e then occurrences cfg es (snd (occur cfg e st)) else st)"

end
