(* ===== verification/NgModelInv.thy ===== *)
theory NgModelInv
  imports NgModel
begin

text \<open>
  The runs of validators: the keys of a model show its latest run only, whatever order the answers of
  asynchronous validators come in, and the events of a model act on the forms as events of forms.
\<close>

section \<open>What an event does to the keys of a model\<close>

definition keeps_keys :: "nat \<Rightarrow> forms \<Rightarrow> forms \<Rightarrow> bool" where
  "keeps_keys c st st' \<longleftrightarrow> made st \<le> made st' \<and> is_form (ctrl st' c) = is_form (ctrl st c) \<and> error_keys (ctrl st' c) = error_keys (ctrl st c) \<and>
     success_keys (ctrl st' c) = success_keys (ctrl st c) \<and> pending_keys (ctrl st' c) = pending_keys (ctrl st c)"

lemma keeps_keys_refl [simp]: "keeps_keys c st st"
  by (simp add: keeps_keys_def)

lemma keeps_keys_trans: "keeps_keys c st st1 \<Longrightarrow> keeps_keys c st1 st2 \<Longrightarrow> keeps_keys c st st2"
  by (simp add: keeps_keys_def)

lemma keeps_keys_combined: "keeps_keys c st st' \<Longrightarrow> combinedState k (ctrl st' c) = combinedState k (ctrl st c)"
  by (simp add: keeps_keys_def combinedState_def)

lemma keeps_keys_other: "d \<noteq> c \<Longrightarrow> keeps_keys c st (put_ctrl d x st)"
  by (simp add: keeps_keys_def)

lemma validate_here_rest:
  "parentForm (validate_here k s b x) = parentForm x" "is_form (validate_here k s b x) = is_form x" "dirty (validate_here k s b x) = dirty x"
proof -
  have t: "parentForm (cachedToggleClass j b y) = parentForm y" "is_form (cachedToggleClass j b y) = is_form y"
    "dirty (cachedToggleClass j b y) = dirty y" for j b y
    by (simp_all add: cachedToggleClass_def)
  have v: "parentForm (toggleValidationCss j s y) = parentForm y" "is_form (toggleValidationCss j s y) = is_form y"
    "dirty (toggleValidationCss j s y) = dirty y" for j s y
    by (simp_all add: toggleValidationCss_def Let_def t)
  have r: "parentForm (record_state k s b x) = parentForm x" "is_form (record_state k s b x) = is_form x" "dirty (record_state k s b x) = dirty x"
    by (simp_all add: record_state_def createAndSet_def unsetAndCleanup_def Let_def split: vstate.splits bool.splits)
  show "parentForm (validate_here k s b x) = parentForm x" "is_form (validate_here k s b x) = is_form x" "dirty (validate_here k s b x) = dirty x"
    by (simp_all add: validate_here_def show_state_def Let_def v t r)
qed

text \<open>Above a control there are forms only.\<close>

definition forms_above :: "forms \<Rightarrow> bool" where
  "forms_above st \<longleftrightarrow> (\<forall>d<made st. \<forall>p. parentForm (ctrl st d) = Some p \<longrightarrow> p < made st \<and> is_form (ctrl st p))"

lemma tree_forms_above: "tree_ok st \<Longrightarrow> forms_above st"
  unfolding forms_above_def
proof (intro allI impI)
  fix d p
  assume t: "tree_ok st" and "d < made st" "parentForm (ctrl st d) = Some p"
  then have "child_of st p d" by (simp add: child_of_def)
  then show "p < made st \<and> is_form (ctrl st p)" using child_made(1) [OF t] tree_okD(3) [OF t] by blast
qed

lemma setValidity_above:
  assumes "setValidity n d k s w st = Inr st'" "forms_above st" "d < made st" "is_form (ctrl st d)" "\<not> is_form (ctrl st c)"
  shows "ctrl st' c = ctrl st c"
  using assms
proof (induction n d k s w st rule: setValidity.induct)
  case (2 n d k s w st)
  let ?x = "validate_here k s w (ctrl st d)"
  let ?st = "put_ctrl d ?x st"
  have "c \<noteq> d" using 2(5,6) by auto
  then have c: "ctrl ?st c = ctrl st c" by simp
  have above: "forms_above ?st" using 2(3) by (simp add: forms_above_def validate_here_rest)
  show ?case
  proof (cases "parentForm ?x")
    case None
    then show ?thesis using 2(2) c by (simp add: Let_def)
  next
    case (Some p)
    then have p: "p < made st" "is_form (ctrl st p)" using 2(3,4) by (auto simp: forms_above_def validate_here_rest)
    have *: "setValidity n p k (combinedState k ?x) d ?st = Inr st'" using 2(2) Some by (simp add: Let_def)
    have "is_form (ctrl ?st p)" using p by (simp add: validate_here_rest 2(5))
    moreover have "\<not> is_form (ctrl ?st c)" using 2(6) c by simp
    ultimately have "ctrl st' c = ctrl ?st c" using p by (intro 2(1) [OF refl refl Some * above]) simp_all
    with c show ?thesis by simp
  qed
qed simp

lemma setValidity_self:
  assumes "setValidity n c k s w st = Inr st'" "forms_above st" "c < made st" "\<not> is_form (ctrl st c)"
  shows "ctrl st' c = validate_here k s w (ctrl st c)"
proof (cases n)
  case (Suc m)
  let ?x = "validate_here k s w (ctrl st c)"
  let ?st = "put_ctrl c ?x st"
  have above: "forms_above ?st" using assms(2) by (simp add: forms_above_def validate_here_rest)
  show ?thesis
  proof (cases "parentForm ?x")
    case None
    then have "st' = ?st" using assms(1) Suc by (simp add: Let_def)
    then show ?thesis by simp
  next
    case (Some p)
    then have p: "p < made st" "is_form (ctrl st p)" using assms(2,3) by (auto simp: forms_above_def validate_here_rest)
    have "setValidity m p k (combinedState k ?x) c ?st = Inr st'" using assms(1) Suc Some by (simp add: Let_def)
    then have "ctrl st' c = ctrl ?st c"
    proof (rule setValidity_above [OF _ above])
      show "p < made ?st" using p by simp
      have "p \<noteq> c" using p assms(4) by blast
      with p show "is_form (ctrl ?st p)" by simp
      show "\<not> is_form (ctrl ?st c)" using assms(4) by (simp add: validate_here_rest)
    qed
    then show ?thesis by simp
  qed
qed (use assms(1) in simp)

text \<open>A model that records a state has it as its combined state.\<close>

definition plain :: "vstate \<Rightarrow> vstate" where
  "plain s = (case s of Other b \<Rightarrow> Other False | _ \<Rightarrow> s)"

lemma validate_here_keys:
  assumes "control_ok x" "\<not> is_form x" "k \<noteq> []"
  shows "combinedState j (validate_here k s c x) = (if j = k then plain s else combinedState j x)"
proof -
  obtain y where y: "y = validate_here k s c x" by simp
  note ok = validate_here_ok [OF assms(1,3) y]
  have e: "entries_ok x" "entries_ok y" using assms(1) ok(1) by (simp_all add: control_ok_def)
  show ?thesis
    unfolding y [symmetric] combined_iff [OF e(1)] combined_iff [OF e(2)] ok(3)
    using assms(2) by (cases s) (auto simp: plain_def same_ctrl_def)
qed

text \<open>\<open>$setValidity\<close> leaves the tree as it is, and the flags.\<close>

lemma setValidity_tree:
  "setValidity n d k s w st = Inr st' \<Longrightarrow>
   made st' = made st \<and> (\<forall>e. parentForm (ctrl st' e) = parentForm (ctrl st e) \<and> is_form (ctrl st' e) = is_form (ctrl st e) \<and>
     dirty (ctrl st' e) = dirty (ctrl st e))"
proof (induction n d k s w st rule: setValidity.induct)
  case (2 n d k s w st)
  let ?x = "validate_here k s w (ctrl st d)"
  have here: "parentForm (ctrl (put_ctrl d ?x st) e) = parentForm (ctrl st e) \<and> is_form (ctrl (put_ctrl d ?x st) e) = is_form (ctrl st e) \<and>
      dirty (ctrl (put_ctrl d ?x st) e) = dirty (ctrl st e)" for e
    by (simp add: validate_here_rest)
  show ?case
  proof (cases "parentForm ?x")
    case None
    then have "st' = put_ctrl d ?x st" using 2(2) by (simp add: Let_def)
    with here show ?thesis by (simp add: validate_here_rest)
  next
    case (Some p)
    have "setValidity n p k (combinedState k ?x) d (put_ctrl d ?x st) = Inr st'" using 2(2) Some by (simp add: Let_def)
    from 2(1) [OF refl refl Some this] here show ?thesis by (simp del: put_ctrl_simps(1))
  qed
qed simp

section \<open>Other events keep the keys\<close>

lemma validate_others_keep:
  assumes "setValidity n d k s w st = Inr st'" "forms_above st" "d < made st" "\<not> is_form (ctrl st c)" "d \<noteq> c"
  shows "keeps_keys c st st'"
proof -
  note tree = setValidity_tree [OF assms(1)]
  show ?thesis
proof (cases "is_form (ctrl st d)")
  case True
  with setValidity_above [OF assms(1-3) _ assms(4)] tree show ?thesis by (simp add: keeps_keys_def)
next
  case False
  show ?thesis
  proof (cases n)
    case (Suc m)
    let ?x = "validate_here k s w (ctrl st d)"
    let ?st = "put_ctrl d ?x st"
    have above: "forms_above ?st" using assms(2) by (simp add: forms_above_def validate_here_rest)
    have same: "ctrl ?st c = ctrl st c" using assms(5) by simp
    show ?thesis
    proof (cases "parentForm ?x")
      case None
      then have "st' = ?st" using assms(1) Suc by (simp add: Let_def)
      with same tree show ?thesis by (simp add: keeps_keys_def)
    next
      case (Some p)
      then have p: "p < made st" "is_form (ctrl st p)" using assms(2,3) by (auto simp: forms_above_def validate_here_rest)
      have "setValidity m p k (combinedState k ?x) d ?st = Inr st'" using assms(1) Suc Some by (simp add: Let_def)
      then have "ctrl st' c = ctrl ?st c"
      proof (rule setValidity_above [OF _ above])
        show "p < made ?st" using p by simp
        have "p \<noteq> d" using p False by blast
        with p show "is_form (ctrl ?st p)" by simp
        show "\<not> is_form (ctrl ?st c)" using assms(4) same by simp
      qed
      with same tree show ?thesis by (simp add: keeps_keys_def)
    qed
  qed (use assms(1) in simp)
qed
qed

lemma keeps_keys_put:
  "is_form x = is_form (ctrl st d) \<Longrightarrow> error_keys x = error_keys (ctrl st d) \<Longrightarrow>
   success_keys x = success_keys (ctrl st d) \<Longrightarrow> pending_keys x = pending_keys (ctrl st d) \<Longrightarrow> keeps_keys c st (put_ctrl d x st)"
  by (simp add: keeps_keys_def)

lemma setDirty_keeps: "setDirty n d st = Inr st' \<Longrightarrow> keeps_keys c st st'"
proof (induction n d st rule: setDirty.induct)
  case (2 n d st)
  let ?x = "(switch_classes [DIRTY_CLASS] [PRISTINE_CLASS] (ctrl st d))\<lparr>dirty := True, pristine := False\<rparr>"
  have here: "keeps_keys c st (put_ctrl d ?x st)" by (rule keeps_keys_put) (simp_all add: switch_classes_def)
  show ?case
    using 2(2) here 2(1) [OF refl refl] by (auto simp: Let_def split: option.splits intro: keeps_keys_trans)
qed simp

lemma setSubmitted_keeps: "setSubmitted n d st = Inr st' \<Longrightarrow> keeps_keys c st st'"
proof (induction n d st rule: setSubmitted.induct)
  case (2 n d st)
  let ?x = "(switch_classes [SUBMITTED_CLASS] [] (ctrl st d))\<lparr>submitted := True\<rparr>"
  have here: "keeps_keys c st (put_ctrl d ?x st)" by (rule keeps_keys_put) (simp_all add: switch_classes_def)
  show ?case
    using 2(2) here 2(1) [OF refl refl] by (auto simp: Let_def split: option.splits intro: keeps_keys_trans)
qed simp

lemma each_keeps:
  assumes "\<And>d st st'. f d st = Inr st' \<Longrightarrow> keeps_keys c st st'" "each_control f ds st = Inr st'"
  shows "keeps_keys c st st'"
  using assms(2)
  by (induction ds arbitrary: st) (auto simp: bind_sum_def split: sum.splits intro: keeps_keys_trans [OF assms(1)])

lemma setPristine_keeps: "setPristine n d st = Inr st' \<Longrightarrow> keeps_keys c st st'"
proof (induction n arbitrary: d st st')
  case (Suc n)
  have put: "keeps_keys c st (put_ctrl d ((switch_classes cs ds (ctrl st d))\<lparr>dirty := False, pristine := True, submitted := False\<rparr>) st)"
    "keeps_keys c st (put_ctrl d ((switch_classes cs ds (ctrl st d))\<lparr>dirty := False, pristine := True\<rparr>) st)" for cs ds
    by (rule keeps_keys_put; simp add: switch_classes_def)+
  show ?case
  proof (cases "is_form (ctrl st d)")
    case True
    then have "each_control (setPristine n) (controls (ctrl st d))
        (put_ctrl d ((switch_classes [PRISTINE_CLASS] [DIRTY_CLASS, SUBMITTED_CLASS] (ctrl st d))\<lparr>dirty := False, pristine := True, submitted := False\<rparr>) st) =
        Inr st'"
      using Suc.prems by (simp add: Let_def)
    from each_keeps [where f = "setPristine n", OF Suc.IH this]
    show ?thesis by (rule keeps_keys_trans [OF put(1)])
  next
    case False
    then show ?thesis using Suc.prems put(2) by (auto simp: Let_def)
  qed
qed simp

lemma setUntouched_keeps: "setUntouched n d st = Inr st' \<Longrightarrow> keeps_keys c st st'"
proof (induction n arbitrary: d st st')
  case (Suc n)
  have put: "keeps_keys c st (put_ctrl d ((switch_classes cs ds (ctrl st d))\<lparr>touched := False, untouched := True\<rparr>) st)" for cs ds
    by (rule keeps_keys_put; simp add: switch_classes_def)
  show ?case
    using Suc.prems put by (auto simp: Let_def split: if_splits intro: each_keeps [OF Suc.IH])
qed simp

lemma clear_keys_keep:
  assumes "clear_keys n F ks w st = Inr st'" "forms_above st" "F < made st" "is_form (ctrl st F)" "\<not> is_form (ctrl st c)"
  shows "keeps_keys c st st' \<and> (\<forall>e. is_form (ctrl st' e) = is_form (ctrl st e)) \<and> forms_above st' \<and> made st' = made st"
  using assms
proof (induction ks arbitrary: st)
  case (Cons k ks)
  then obtain st1 where st1: "setValidity n F k (Other False) w st = Inr st1" "clear_keys n F ks w st1 = Inr st'"
    by (auto split: sum.splits)
  note tree = setValidity_tree [OF st1(1)]
  have "keeps_keys c st st1" using setValidity_above [OF st1(1) Cons.prems(2-5)] tree by (simp add: keeps_keys_def)
  moreover have "forms_above st1" using Cons.prems(2) tree by (simp add: forms_above_def)
  moreover from this have "keeps_keys c st1 st' \<and> (\<forall>e. is_form (ctrl st' e) = is_form (ctrl st1 e)) \<and> forms_above st' \<and> made st' = made st1"
    using Cons.prems(3-5) tree by (intro Cons.IH [OF st1(2)]) simp_all
  ultimately show ?case using tree keeps_keys_trans [of c st st1 st'] by simp
qed simp

lemma unpublish_fields:
  "is_form (unpublish nm w x) = is_form x" "parentForm (unpublish nm w x) = parentForm x" "error_keys (unpublish nm w x) = error_keys x"
  "success_keys (unpublish nm w x) = success_keys x" "pending_keys (unpublish nm w x) = pending_keys x"
  by (simp_all add: unpublish_def)

lemma removeControl_keeps:
  assumes "removeControl n F w st = Inr st'" "forms_above st" "F < made st" "is_form (ctrl st F)" "\<not> is_form (ctrl st c)"
  shows "keeps_keys c st st'"
proof -
  obtain st0 where st0: "st0 = (if ctrl_name (ctrl st w) \<noteq> [] then put_ctrl F (unpublish (ctrl_name (ctrl st w)) w (ctrl st F)) st else st)"
    by simp
  have "F \<noteq> c" using assms(4,5) by blast
  then have pre: "keeps_keys c st st0" "forms_above st0" "F < made st0" "is_form (ctrl st0 F)" "\<not> is_form (ctrl st0 c)"
    using assms(2-5) unfolding st0 by (auto simp: keeps_keys_def forms_above_def unpublish_fields)
  from assms(1) obtain st1 st2 st3 ks1 ks2 ks3 where st:
      "clear_keys n F ks1 w st0 = Inr st1" "clear_keys n F ks2 w st1 = Inr st2" "clear_keys n F ks3 w st2 = Inr st3" "st' = detach F w st3"
    unfolding removeControl_def Let_def st0 [symmetric] bind_sum_def by (auto split: sum.splits)
  note k1 = clear_keys_keep [OF st(1) pre(2-5)]
  have k2: "keeps_keys c st1 st2 \<and> (\<forall>e. is_form (ctrl st2 e) = is_form (ctrl st1 e)) \<and> forms_above st2 \<and> made st2 = made st1"
    using k1 pre(3-5) by (intro clear_keys_keep [OF st(2)]) simp_all
  have k3: "keeps_keys c st2 st3" using k1 k2 pre(3-5) by (intro clear_keys_keep [OF st(3), THEN conjunct1]) simp_all
  have "keeps_keys c st3 st'" unfolding st(4) by (simp add: detach_def Let_def keeps_keys_def)
  with pre(1) k1 k2 k3 show ?thesis by (meson keeps_keys_trans)
qed

lemma happen_keeps:
  assumes ok: "forms_ok st" and may: "may_happen st e" and h: "happen e st = Inr st'"
    and c: "c < made st" "\<not> is_form (ctrl st c)" and other: "\<forall>k s. e \<noteq> Validity c k s"
  shows "keeps_keys c st st'"
proof -
  have t: "tree_ok st" using ok by (simp add: forms_ok_def)
  note above = tree_forms_above [OF t]
  show ?thesis
  proof (cases e)
    case (Make form nm)
    then show ?thesis using h c by (auto simp: make_control_def keeps_keys_def)
  next
    case (Add F d)
    then show ?thesis using h by (auto simp: addControl_def Let_def keeps_keys_def split: if_splits)
  next
    case (Rename d nm)
    then have "st' = renameControl (parentForm (ctrl st d)) d nm st" using h by simp
    then show ?thesis
      by (cases "parentForm (ctrl st d)") (simp_all add: renameControl_def Let_def keeps_keys_def unpublish_fields)
  next
    case (Remove d)
    then show ?thesis
    proof (cases "parentForm (ctrl st d)")
      case (Some F)
      then have "F < made st" "is_form (ctrl st F)" using above may Remove by (auto simp: forms_above_def)
      then show ?thesis using removeControl_keeps [OF _ above _ _ c(2)] h Some Remove by simp
    qed (use h in simp)
  next
    case (Validity d k s)
    then show ?thesis using h may other by (intro validate_others_keep [OF _ above _ c(2)]) auto
  next
    case (Dirty d)
    then show ?thesis using h setDirty_keeps by simp
  next
    case (Pristine d)
    then show ?thesis using h setPristine_keeps by simp
  next
    case (Untouched d)
    then show ?thesis using h setUntouched_keeps by simp
  next
    case (Touched d)
    then have "st' = setTouched d st" using h by simp
    then show ?thesis by (simp add: setTouched_def keeps_keys_put switch_classes_def)
  next
    case (Emptied d b)
    then have "st' = updateEmptyClasses d b st" using h by simp
    then show ?thesis by (simp add: updateEmptyClasses_def keeps_keys_put switch_classes_def)
  next
    case (Submit d)
    then show ?thesis using h setSubmitted_keeps by simp
  qed
qed

section \<open>What a step of a run does\<close>

definition model_ok :: "model_state \<Rightarrow> bool" where
  "model_ok st \<longleftrightarrow> form_run (page st) \<and> self st < made (page st) \<and> \<not> is_form (ctrl (page st) (self st))"

definition key_state :: "model_state \<Rightarrow> string \<Rightarrow> vstate" where
  "key_state st k = combinedState k (ctrl (page st) (self st))"

definition same_dirty :: "forms \<Rightarrow> forms \<Rightarrow> bool" where
  "same_dirty fs gs \<longleftrightarrow> (\<forall>c. dirty (ctrl gs c) = dirty (ctrl fs c))"

lemma same_dirty_refl [simp]: "same_dirty fs fs"
  by (simp add: same_dirty_def)

lemma same_dirty_trans: "same_dirty fs gs \<Longrightarrow> same_dirty gs hs \<Longrightarrow> same_dirty fs hs"
  by (simp add: same_dirty_def)

text \<open>A call that goes through, changes what the forms say of validity only, and leaves the model's keys in the states \<open>ks\<close>.\<close>

definition goes :: "model_outcome \<Rightarrow> model_state \<Rightarrow> (string \<Rightarrow> vstate) \<Rightarrow> bool" where
  "goes r st ks \<longleftrightarrow> (\<exists>fs. r = (None, st\<lparr>page := fs\<rparr>) \<and> model_ok (st\<lparr>page := fs\<rparr>) \<and> key_state (st\<lparr>page := fs\<rparr>) = ks \<and>
     same_dirty (page st) fs)"

lemma goes_stay: "model_ok st \<Longrightarrow> goes (None, st) st (key_state st)"
  unfolding goes_def by (rule exI [of _ "page st"]) simp

lemma goes_then:
  assumes "goes r st ks" "\<And>st1. model_ok st1 \<Longrightarrow> key_state st1 = ks \<Longrightarrow> runId st1 = runId st \<Longrightarrow> goes (f st1) st1 ks'"
  shows "goes (and_then r f) st ks'"
proof -
  obtain fs where fs: "r = (None, st\<lparr>page := fs\<rparr>)" "model_ok (st\<lparr>page := fs\<rparr>)" "key_state (st\<lparr>page := fs\<rparr>) = ks"
      "same_dirty (page st) fs"
    using assms(1) by (auto simp: goes_def)
  from assms(2) [OF fs(2,3)] obtain gs where "f (st\<lparr>page := fs\<rparr>) = (None, st\<lparr>page := gs\<rparr>)" "model_ok (st\<lparr>page := gs\<rparr>)"
      "key_state (st\<lparr>page := gs\<rparr>) = ks'" "same_dirty fs gs"
    by (auto simp: goes_def)
  with fs(1) same_dirty_trans [OF fs(4)] show ?thesis by (auto simp: goes_def and_then_def)
qed

lemma page_event_keeps:
  assumes m: "model_ok st" and may: "may_happen (page st) e" and fs: "happen e (page st) = Inr fs"
  shows "model_ok (st\<lparr>page := fs\<rparr>)" "\<forall>k s. e \<noteq> Validity (self st) k s \<Longrightarrow> key_state (st\<lparr>page := fs\<rparr>) = key_state st"
proof -
  have run: "form_run (page st)" and c: "self st < made (page st)" "\<not> is_form (ctrl (page st) (self st))"
    using m by (auto simp: model_ok_def)
  note ok = form_run_ok [OF run]
  have r: "form_run fs" by (rule form_run.event [OF run may fs])
  have k: "keeps_keys (self st) (page st) fs" if "\<forall>k s. e \<noteq> Validity (self st) k s"
    by (rule happen_keeps [OF ok may fs c that])
  show "model_ok (st\<lparr>page := fs\<rparr>)"
  proof (cases "\<exists>k s. e = Validity (self st) k s")
    case True
    then obtain k s where e: "e = Validity (self st) k s" by blast
    then have "setValidity (made (page st)) (self st) k s (self st) (page st) = Inr fs" using fs by simp
    from setValidity_tree [OF this] show ?thesis using r c by (simp add: model_ok_def)
  next
    case False
    with k have "keeps_keys (self st) (page st) fs" by blast
    then show ?thesis using r c by (simp add: model_ok_def keeps_keys_def)
  qed
  show "key_state (st\<lparr>page := fs\<rparr>) = key_state st" if "\<forall>k s. e \<noteq> Validity (self st) k s"
    by (rule ext) (simp add: key_state_def keeps_keys_combined [OF k [OF that]])
qed

lemma page_event_goes:
  assumes m: "model_ok st" and may: "may_happen (page st) e" and no: "\<forall>F c. e \<noteq> Add F c"
  obtains fs where "happen e (page st) = Inr fs"
proof -
  have "forms_ok (page st)" using m form_run_ok by (simp add: model_ok_def)
  then show ?thesis using that happen_ok [OF _ may] bad_name [of e "page st"] no by auto
qed

lemma setValidity_goes:
  assumes m: "model_ok st" and k: "nm \<noteq> []" and id: "localId = runId st"
  shows "goes (run_setValidity localId nm s st) st ((key_state st)(nm := plain s))"
proof -
  have ok: "forms_ok (page st)" and c: "self st < made (page st)" "\<not> is_form (ctrl (page st) (self st))"
    using m form_run_ok by (auto simp: model_ok_def)
  have t: "tree_ok (page st)" using ok by (simp add: forms_ok_def)
  have may: "may_happen (page st) (Validity (self st) nm s)" using c k by simp
  obtain fs where fs: "happen (Validity (self st) nm s) (page st) = Inr fs" by (rule page_event_goes [OF m may]) auto
  note ok' = page_event_keeps(1) [OF m may fs]
  have "ctrl fs (self st) = validate_here nm s (self st) (ctrl (page st) (self st))"
    using fs setValidity_self [OF _ tree_forms_above [OF t] c] by simp
  then have "key_state (st\<lparr>page := fs\<rparr>) = (key_state st)(nm := plain s)"
    using validate_here_keys [OF tree_okD(1) [OF t c(1)] c(2) k] by (auto simp: key_state_def)
  moreover have "same_dirty (page st) fs" using setValidity_tree [of "made (page st)" "self st" nm s] fs by (simp add: same_dirty_def)
  ultimately show ?thesis using fs ok' id by (auto simp: goes_def run_setValidity_def on_page_def)
qed

lemma unset_all_goes:
  assumes "model_ok st" "[] \<notin> set nms" "localId = runId st"
  shows "goes (unset_all localId nms st) st (\<lambda>k. if k \<in> set nms then Other False else key_state st k)"
  using assms
proof (induction nms arbitrary: st)
  case (Cons nm nms)
  have "goes (unset_all localId nms st1) st1 (\<lambda>k. if k \<in> set (nm # nms) then Other False else key_state st k)"
    if "model_ok st1" "key_state st1 = (key_state st)(nm := plain (Other False))" "runId st1 = runId st" for st1
  proof -
    have "(\<lambda>k. if k \<in> set nms then Other False else key_state st1 k) = (\<lambda>k. if k \<in> set (nm # nms) then Other False else key_state st k)"
      using that(2) by (auto simp: plain_def)
    with Cons.IH [OF that(1)] Cons.prems(2,3) that(3) show ?thesis by simp
  qed
  then show ?case using Cons.prems by (simp, intro goes_then [OF setValidity_goes]) auto
qed (simp add: goes_stay)

lemma run_validators_goes:
  assumes "model_ok st" "[] \<notin> fst ` set vs" "distinct (map fst vs)" "localId = runId st"
  shows "goes (run_validators localId vs mv vv st) st (\<lambda>k. case map_of vs k of Some v \<Rightarrow> plain (v mv vv) | None \<Rightarrow> key_state st k)"
  using assms
proof (induction vs arbitrary: st)
  case (Cons x vs)
  obtain nm v where x: "x = (nm, v)" by (cases x)
  let ?goal = "\<lambda>k. case map_of (x # vs) k of Some v \<Rightarrow> plain (v mv vv) | None \<Rightarrow> key_state st k"
  have "goes (run_validators localId vs mv vv st1) st1 ?goal"
    if "model_ok st1" "key_state st1 = (key_state st)(nm := plain (v mv vv))" "runId st1 = runId st" for st1
  proof -
    have "map_of vs nm = None" using Cons.prems(3) by (auto simp: x map_of_eq_None_iff)
    then have "(\<lambda>k. case map_of vs k of Some v \<Rightarrow> plain (v mv vv) | None \<Rightarrow> key_state st1 k) = ?goal"
      using that(2) by (auto simp: x split: option.splits)
    with Cons.IH [OF that(1)] Cons.prems(2-4) that(3) show ?thesis by (auto simp: x)
  qed
  then show ?case using Cons.prems by (simp add: x, intro goes_then [OF setValidity_goes]) auto
qed (simp add: goes_stay)

section \<open>A run of the validators\<close>

text \<open>
  How the directives set a model up: no two validators have one key, none has that of the parser, the keys are
  plain, and an asynchronous validator returns a promise.
\<close>

definition well_set_up :: "model_setup \<Rightarrow> bool" where
  "well_set_up cfg \<longleftrightarrow> distinct (pipeline_keys cfg) \<and> [] \<notin> set (pipeline_keys cfg) \<and> (\<forall>k\<in>set (pipeline_keys cfg). plain_key k) \<and>
     (\<forall>(nm, v)\<in>set (asyncValidators cfg). \<forall>mv vv. v mv vv)"

text \<open>
  The state of a key after a run for the values \<open>mv\<close> and \<open>vv\<close>, when the parsers said \<open>pv\<close> and the asynchronous
  validators have answered \<open>ans\<close> so far.
\<close>

definition run_asks :: "model_setup \<Rightarrow> bool option \<Rightarrow> mvalue \<Rightarrow> mvalue \<Rightarrow> bool" where
  "run_asks cfg pv mv vv \<longleftrightarrow> pv \<noteq> Some False \<and> syncValid cfg mv vv"

definition outcome :: "model_setup \<Rightarrow> bool option \<Rightarrow> mvalue \<Rightarrow> mvalue \<Rightarrow> (string \<Rightarrow> bool option) \<Rightarrow> string \<Rightarrow> vstate" where
  "outcome cfg pv mv vv ans k =
     (if k = errorKey cfg then (case pv of None \<Rightarrow> Other False | Some b \<Rightarrow> Boolean b)
      else if pv = Some False then Other False
      else case map_of (validators cfg) k of Some v \<Rightarrow> plain (v mv vv)
      | None \<Rightarrow> if \<not> syncValid cfg mv vv then Other False
                else (case ans k of None \<Rightarrow> Undefined | Some b \<Rightarrow> Boolean b))"

lemma parse_goes:
  assumes "model_ok st" "well_set_up cfg" "localId = runId st"
  shows "goes (processParseErrors cfg localId st) st
    (\<lambda>k. if k = errorKey cfg then (case parserValid st of None \<Rightarrow> Other False | Some b \<Rightarrow> Boolean b)
         else if parserValid st = Some False \<and> k \<in> set (pipeline_keys cfg) then Other False else key_state st k)" (is "goes _ _ ?ks")
proof -
  have w: "errorKey cfg \<noteq> []" "[] \<notin> set (map fst (validators cfg))" "[] \<notin> set (map fst (asyncValidators cfg))"
    using assms(2) by (auto simp: well_set_up_def pipeline_keys_def)
  have fin: "goes (run_setValidity localId (errorKey cfg) s st1) st1 ((key_state st1)(errorKey cfg := plain s))"
    if "model_ok st1" "runId st1 = runId st" for st1 s
    using setValidity_goes [OF that(1) w(1)] that(2) assms(3) by simp
  consider "parserValid st = None" | "parserValid st = Some True" | "parserValid st = Some False"
    by (metis (full_types) option.exhaust)
  then show ?thesis
  proof cases
    case 1
    then have "?ks = (key_state st)(errorKey cfg := plain (Other False))" by (auto simp: plain_def)
    with 1 fin [OF assms(1)] show ?thesis by (simp add: processParseErrors_def)
  next
    case 2
    then have "?ks = (key_state st)(errorKey cfg := plain (Boolean True))" by (auto simp: plain_def)
    with 2 fin [OF assms(1)] show ?thesis by (simp add: processParseErrors_def and_then_def)
  next
    case 3
    let ?k1 = "\<lambda>k. if k \<in> set (map fst (validators cfg)) then Other False else key_state st k"
    let ?k2 = "\<lambda>k. if k \<in> set (map fst (asyncValidators cfg)) then Other False else ?k1 k"
    have "goes (unset_all localId (map fst (asyncValidators cfg)) st1) st1 ?k2"
      if "model_ok st1" "key_state st1 = ?k1" "runId st1 = runId st" for st1
      by (rule unset_all_goes [OF that(1) w(3), of localId, unfolded that(2)]) (simp add: assms(3) that(3))
    then have un: "goes (and_then (unset_all localId (map fst (validators cfg)) st) (unset_all localId (map fst (asyncValidators cfg)))) st ?k2"
      by (intro goes_then [OF unset_all_goes [OF assms(1) w(2) assms(3)]])
    have "?k2(errorKey cfg := plain (Boolean False)) = ?ks" using 3 by (auto simp: plain_def pipeline_keys_def)
    then have "goes (run_setValidity localId (errorKey cfg) (Boolean False) st1) st1 ?ks"
      if "model_ok st1" "key_state st1 = ?k2" "runId st1 = runId st" for st1
      using fin [OF that(1,3), of "Boolean False"] that(2) by simp
    with 3 show ?thesis by (simp add: processParseErrors_def, intro goes_then [OF un])
  qed
qed

lemma ask_async_goes:
  assumes "model_ok st" "[] \<notin> fst ` set vs" "\<forall>(nm, v)\<in>set vs. v mv vv" "localId = runId st"
  shows "\<exists>fs. ask_async localId vs mv vv st = (None, st\<lparr>page := fs, waiting := waiting st @ map (\<lambda>(nm, v). (localId, nm)) vs\<rparr>) \<and>
    model_ok (st\<lparr>page := fs\<rparr>) \<and> key_state (st\<lparr>page := fs\<rparr>) = (\<lambda>k. if k \<in> fst ` set vs then Undefined else key_state st k) \<and>
    same_dirty (page st) fs"
  using assms
proof (induction vs arbitrary: st)
  case (Cons x vs)
  obtain nm v where x: "x = (nm, v)" by (cases x)
  have "goes (run_setValidity localId nm Undefined st) st ((key_state st)(nm := plain Undefined))"
    using Cons.prems by (intro setValidity_goes) (auto simp: x)
  then obtain fs where fs: "run_setValidity localId nm Undefined st = (None, st\<lparr>page := fs\<rparr>)" "model_ok (st\<lparr>page := fs\<rparr>)"
      "key_state (st\<lparr>page := fs\<rparr>) = (key_state st)(nm := Undefined)" "same_dirty (page st) fs"
    by (auto simp: goes_def plain_def)
  let ?st = "st\<lparr>page := fs, waiting := waiting st @ [(localId, nm)]\<rparr>"
  have m: "model_ok ?st" "key_state ?st = (key_state st)(nm := Undefined)"
    using fs(2,3) by (simp_all add: model_ok_def key_state_def fun_eq_iff)
  obtain gs where gs: "ask_async localId vs mv vv ?st = (None, ?st\<lparr>page := gs, waiting := waiting ?st @ map (\<lambda>(nm, v). (localId, nm)) vs\<rparr>)"
      "model_ok (?st\<lparr>page := gs\<rparr>)" "key_state (?st\<lparr>page := gs\<rparr>) = (\<lambda>k. if k \<in> fst ` set vs then Undefined else key_state ?st k)"
      "same_dirty fs gs"
    using Cons.IH [OF m(1)] Cons.prems(2-4) by auto
  have "ask_async localId (x # vs) mv vv st = (None, st\<lparr>page := gs, waiting := waiting st @ map (\<lambda>(nm, v). (localId, nm)) (x # vs)\<rparr>)"
    using Cons.prems(3) fs(1) gs(1) by (simp add: x and_then_def)
  moreover have "model_ok (st\<lparr>page := gs\<rparr>)" using gs(2) by (simp add: model_ok_def)
  moreover have "key_state (st\<lparr>page := gs\<rparr>) = (\<lambda>k. if k \<in> fst ` set (x # vs) then Undefined else key_state st k)"
    using gs(3) m(2) by (auto simp: key_state_def x fun_eq_iff)
  moreover have "same_dirty (page st) gs" by (rule same_dirty_trans [OF fs(4) gs(4)])
  ultimately show ?case by blast
next
  case Nil
  then show ?case by (intro exI [of _ "page st"]) simp
qed

lemma done_fields [simp]:
  "page (doneCallback cfg fin b st) = page st" "self (doneCallback cfg fin b st) = self st" "runId (doneCallback cfg fin b st) = runId st"
  "waiting (doneCallback cfg fin b st) = waiting st" "failed (doneCallback cfg fin b st) = failed st" "ending (doneCallback cfg fin b st) = ending st"
  "lastCommitted (doneCallback cfg fin b st) = lastCommitted st" "parserValid (doneCallback cfg fin b st) = parserValid st"
  "rawModelValue (doneCallback cfg fin b st) = rawModelValue st"
  by (cases fin; simp add: writeToModelIfNeeded_def writeModelToScope_def)+

lemma runValidators_result:
  assumes "model_ok st" "well_set_up cfg"
  obtains fs st1 where "st1 = st\<lparr>runId := runId st + 1, page := fs\<rparr>" "model_ok st1" "same_dirty (page st) fs"
    "\<forall>k\<in>set (pipeline_keys cfg). key_state st1 k = outcome cfg (parserValid st) mv vv (\<lambda>_. None) k"
    "runValidators cfg mv vv fin st = (None,
       if \<not> run_asks cfg (parserValid st) mv vv then doneCallback cfg fin False st1
       else if asyncValidators cfg = [] then doneCallback cfg fin True st1
       else st1\<lparr>waiting := waiting st @ map (\<lambda>(nm, v). (runId st + 1, nm)) (asyncValidators cfg), ending := ending st @ [(runId st + 1, fin)]\<rparr>)"
proof -
  obtain r where r [simp]: "Suc (runId st) = r" by simp
  let ?st = "st\<lparr>runId := r\<rparr>"
  have m: "model_ok ?st" "key_state ?st = key_state st" "parserValid ?st = parserValid st"
    using assms(1) by (simp_all add: model_ok_def key_state_def fun_eq_iff)
  have id: "r = runId ?st" by simp
  have w: "distinct (map fst (validators cfg))" "[] \<notin> fst ` set (validators cfg)" "[] \<notin> set (map fst (asyncValidators cfg))"
    and apart: "errorKey cfg \<notin> set (map fst (validators cfg))" "errorKey cfg \<notin> set (map fst (asyncValidators cfg))"
      "set (map fst (validators cfg)) \<inter> set (map fst (asyncValidators cfg)) = {}"
    and prom: "\<forall>(nm, v)\<in>set (asyncValidators cfg). v mv vv"
    using assms(2) by (auto simp: well_set_up_def pipeline_keys_def)
  obtain fs0 where fs0: "processParseErrors cfg r ?st = (None, ?st\<lparr>page := fs0\<rparr>)" "model_ok (?st\<lparr>page := fs0\<rparr>)"
      "key_state (?st\<lparr>page := fs0\<rparr>) = (\<lambda>k. if k = errorKey cfg then (case parserValid st of None \<Rightarrow> Other False | Some b \<Rightarrow> Boolean b)
         else if parserValid st = Some False \<and> k \<in> set (pipeline_keys cfg) then Other False else key_state st k)"
      "same_dirty (page st) fs0"
    using parse_goes [OF m(1) assms(2) id, unfolded m(2,3)] unfolding goes_def by auto
  show ?thesis
  proof (cases "parserValid st = Some False")
    case True
    have "\<forall>k\<in>set (pipeline_keys cfg). key_state (?st\<lparr>page := fs0\<rparr>) k = outcome cfg (parserValid st) mv vv (\<lambda>_. None) k"
      unfolding fs0(3) by (simp add: outcome_def True)
    then show ?thesis
      using fs0(1,2,4) True by (intro that [of "?st\<lparr>page := fs0\<rparr>" fs0]) (auto simp: runValidators_def validationDone_def run_asks_def and_then_def)
  next
    case False
    let ?vk = "\<lambda>ks k. case map_of (validators cfg) k of Some v \<Rightarrow> plain (v mv vv) | None \<Rightarrow> ks k"
    obtain fs1 where fs1: "run_validators r (validators cfg) mv vv (?st\<lparr>page := fs0\<rparr>) = (None, ?st\<lparr>page := fs1\<rparr>)" "model_ok (?st\<lparr>page := fs1\<rparr>)"
        "key_state (?st\<lparr>page := fs1\<rparr>) = ?vk (key_state (?st\<lparr>page := fs0\<rparr>))" "same_dirty fs0 fs1"
      using run_validators_goes [OF fs0(2) w(2,1), of r mv vv] by (auto simp: goes_def)
    have start: "runValidators cfg mv vv fin st =
        (if \<not> syncValid cfg mv vv then and_then (unset_all r (map fst (asyncValidators cfg)) (?st\<lparr>page := fs1\<rparr>)) (\<lambda>st. (None, validationDone cfg r fin False st))
         else processAsyncValidators cfg r mv vv fin (?st\<lparr>page := fs1\<rparr>))"
      using False by (simp add: runValidators_def fs0(1) fs1(1) and_then_def)
    have vk: "key_state (?st\<lparr>page := fs1\<rparr>) k = outcome cfg (parserValid st) mv vv (\<lambda>_. None) k"
      if "k = errorKey cfg \<or> k \<in> set (map fst (validators cfg))" for k
    proof -
      have "map_of (validators cfg) k = None" if "k = errorKey cfg" using that apart(1) by (simp add: map_of_eq_None_iff)
      moreover have "map_of (validators cfg) k \<noteq> None" if "k \<in> set (map fst (validators cfg))" using that by (simp add: map_of_eq_None_iff)
      ultimately show ?thesis
        using that False apart(1) unfolding fs1(3) fs0(3) outcome_def by (cases "k = errorKey cfg") (auto split: option.splits)
    qed
    have async: "outcome cfg (parserValid st) mv vv (\<lambda>_. None) k = (if \<not> syncValid cfg mv vv then Other False else Undefined)"
      if "k \<in> set (map fst (asyncValidators cfg))" for k
    proof -
      have "k \<noteq> errorKey cfg" using that apart(2) by blast
      moreover have "k \<notin> set (map fst (validators cfg))" using that apart(3) by blast
      then have "map_of (validators cfg) k = None" by (simp add: map_of_eq_None_iff)
      ultimately show ?thesis using False by (simp add: outcome_def)
    qed
    have all: "\<forall>k\<in>set (pipeline_keys cfg). ks k = outcome cfg (parserValid st) mv vv (\<lambda>_. None) k"
      if "ks = (\<lambda>k. if k \<in> set (map fst (asyncValidators cfg)) then (if \<not> syncValid cfg mv vv then Other False else Undefined)
         else key_state (?st\<lparr>page := fs1\<rparr>) k)" for ks
      using vk async apart(2,3) unfolding that pipeline_keys_def by auto
    show ?thesis
    proof (cases "syncValid cfg mv vv")
      case bad: False
      obtain fs2 where fs2: "unset_all r (map fst (asyncValidators cfg)) (?st\<lparr>page := fs1\<rparr>) = (None, ?st\<lparr>page := fs2\<rparr>)" "model_ok (?st\<lparr>page := fs2\<rparr>)"
          "key_state (?st\<lparr>page := fs2\<rparr>) = (\<lambda>k. if k \<in> set (map fst (asyncValidators cfg)) then Other False else key_state (?st\<lparr>page := fs1\<rparr>) k)"
          "same_dirty fs1 fs2"
        using unset_all_goes [OF fs1(2) w(3), of r] by (auto simp: goes_def)
      have "\<forall>k\<in>set (pipeline_keys cfg). key_state (?st\<lparr>page := fs2\<rparr>) k = outcome cfg (parserValid st) mv vv (\<lambda>_. None) k"
        by (rule all) (simp add: fs2(3) bad)
      then show ?thesis
        using fs2(1,2) same_dirty_trans [OF same_dirty_trans [OF fs0(4) fs1(4)] fs2(4)] bad by (intro that [of "?st\<lparr>page := fs2\<rparr>" fs2]) (auto simp: start validationDone_def run_asks_def and_then_def)
    next
      case good: True
      obtain fs2 where fs2: "ask_async r (asyncValidators cfg) mv vv (?st\<lparr>page := fs1\<rparr>) =
            (None, ?st\<lparr>page := fs2, waiting := waiting st @ map (\<lambda>(nm, v). (r, nm)) (asyncValidators cfg)\<rparr>)" "model_ok (?st\<lparr>page := fs2\<rparr>)"
          "key_state (?st\<lparr>page := fs2\<rparr>) = (\<lambda>k. if k \<in> set (map fst (asyncValidators cfg)) then Undefined else key_state (?st\<lparr>page := fs1\<rparr>) k)"
          "same_dirty fs1 fs2"
        using ask_async_goes [OF fs1(2) _ prom, of r] w(3) by auto
      have "\<forall>k\<in>set (pipeline_keys cfg). key_state (?st\<lparr>page := fs2\<rparr>) k = outcome cfg (parserValid st) mv vv (\<lambda>_. None) k"
        by (rule all) (simp add: fs2(3) good)
      then show ?thesis
        using fs2(1,2) same_dirty_trans [OF same_dirty_trans [OF fs0(4) fs1(4)] fs2(4)] good False
        by (intro that [of "?st\<lparr>page := fs2\<rparr>" fs2])
          (auto simp: start processAsyncValidators_def validationDone_def run_asks_def and_then_def)
    qed
  qed
qed

section \<open>What a run is for\<close>

text \<open>
  What the parsers make of a view value, one after the other until one of them gives \<open>undefined\<close>; a view value
  that is \<open>undefined\<close> is not parsed.
\<close>

definition parsed :: "model_setup \<Rightarrow> mvalue \<Rightarrow> mvalue option" where
  "parsed cfg vv = foldl (\<lambda>r p. case r of None \<Rightarrow> None | Some v \<Rightarrow> if p v = NoValue then None else Some (p v)) (Some vv) (parsers cfg)"

definition parse_verdict :: "model_setup \<Rightarrow> mvalue \<Rightarrow> bool option" where
  "parse_verdict cfg vv = (if vv = NoValue then None else Some (parsed cfg vv \<noteq> None))"

definition parsed_model :: "model_setup \<Rightarrow> mvalue \<Rightarrow> mvalue" where
  "parsed_model cfg vv = (if vv = NoValue then NoValue else case parsed cfg vv of None \<Rightarrow> NoValue | Some v \<Rightarrow> v)"

lemma foldl_parsers:
  "foldl (\<lambda>r p. case r of None \<Rightarrow> None | Some v \<Rightarrow> if p v = NoValue then None else Some (p v)) (Some vv) ps =
   (if snd (run_parsers ps vv) then Some (fst (run_parsers ps vv)) else None)"
proof (induction ps arbitrary: vv)
  case (Cons p ps)
  have "foldl (\<lambda>r p. case r of None \<Rightarrow> None | Some v \<Rightarrow> if p v = NoValue then None else Some (p v)) None qs = None" for qs
    by (induction qs) simp_all
  with Cons show ?case by simp
qed simp

lemma run_parsers_refused: "\<not> snd (run_parsers ps vv) \<Longrightarrow> fst (run_parsers ps vv) = NoValue"
  by (induction ps vv rule: run_parsers.induct) (auto split: if_splits)

lemma parse_view_eq: "parse_view cfg vv = (parsed_model cfg vv, parse_verdict cfg vv)"
  using run_parsers_refused [of "parsers cfg" vv]
  by (auto simp: parse_view_def parsed_model_def parse_verdict_def parsed_def foldl_parsers)

text \<open>The view value that an event commits, if it gets as far as that.\<close>

fun committed :: "model_event \<Rightarrow> model_state \<Rightarrow> mvalue option" where
  "committed (Input v trigger) st = Some v"
| "committed Commit st = Some (viewValue st)"
| "committed Timer st = Some (viewValue st)"
| "committed e st = None"

text \<open>
  The values of the run that an event starts: a commit validates the view value that it commits and what the
  parsers make of it, \<open>$validate\<close> the values that were validated last, and the watch the scope's value and what
  the formatters make of it, from the last one to the first.
\<close>

definition run_view :: "model_setup \<Rightarrow> model_event \<Rightarrow> model_state \<Rightarrow> mvalue" where
  "run_view cfg e st = (case committed e st of Some v \<Rightarrow> v
     | None \<Rightarrow> if e = Revalidate then lastCommitted st else fold (\<lambda>f v. f v) (rev (formatters cfg)) (scopeValue st))"

definition run_model :: "model_setup \<Rightarrow> model_event \<Rightarrow> model_state \<Rightarrow> mvalue" where
  "run_model cfg e st = (case committed e st of Some v \<Rightarrow> parsed_model cfg v
     | None \<Rightarrow> if e = Revalidate then rawModelValue st else scopeValue st)"

definition run_verdict :: "model_setup \<Rightarrow> model_event \<Rightarrow> model_state \<Rightarrow> bool option" where
  "run_verdict cfg e st = (case committed e st of Some v \<Rightarrow> parse_verdict cfg v
     | None \<Rightarrow> if e = Revalidate then parserValid st else None)"

text \<open>The value that the model had, or that the scope has if it had none yet.\<close>

definition model_before :: "model_state \<Rightarrow> mvalue" where
  "model_before st = (if modelValue st = NaNValue then scopeValue st else modelValue st)"

definition run_end :: "model_setup \<Rightarrow> model_event \<Rightarrow> model_state \<Rightarrow> done_callback" where
  "run_end cfg e st = (case committed e st of Some v \<Rightarrow> CommitDone (parsed_model cfg v) (model_before st)
     | None \<Rightarrow> if e = Revalidate
               then ValidateDone (rawModelValue st) (valid (ctrl (page st) (self st))) (modelValue st) else NoopDone)"

text \<open>What the validators of the run \<open>r\<close> answer in an event, and in a list of events.\<close>

fun answered :: "nat \<Rightarrow> model_event \<Rightarrow> string \<Rightarrow> bool option" where
  "answered r (Answer q nm ok) = (if q = r then [nm \<mapsto> ok] else Map.empty)"
| "answered r e = Map.empty"

definition answers :: "nat \<Rightarrow> model_event list \<Rightarrow> string \<Rightarrow> bool option" where
  "answers r es = foldl (\<lambda>ans e. ans ++ answered r e) Map.empty es"

text \<open>All the events of a list can occur, one after the other.\<close>

fun all_occur :: "model_setup \<Rightarrow> model_event list \<Rightarrow> model_state \<Rightarrow> bool" where
  "all_occur cfg [] st = True"
| "all_occur cfg (e # es) st = (may_occur cfg st e \<and> all_occur cfg es (snd (occur cfg e st)))"

section \<open>The invariant of the runs\<close>

text \<open>
  The keys are those of the run with the values \<open>mv\<close> and \<open>vv\<close>; its validators that have not answered are
  waited for, its \<open>allValid\<close> says whether one of the others refused, and \<open>fin\<close> is to be called in the end.
\<close>

definition current ::
    "model_setup \<Rightarrow> bool option \<Rightarrow> mvalue \<Rightarrow> mvalue \<Rightarrow> done_callback \<Rightarrow> (string \<Rightarrow> bool option) \<Rightarrow> model_state \<Rightarrow> bool" where
  "current cfg pv mv vv fin ans st \<longleftrightarrow> vv = lastCommitted st \<and>
     (\<forall>k\<in>set (pipeline_keys cfg). key_state st k = outcome cfg pv mv vv ans k) \<and>
     (\<forall>nm. (runId st, nm) \<in> set (waiting st) \<longleftrightarrow> run_asks cfg pv mv vv \<and> nm \<in> set (map fst (asyncValidators cfg)) \<and> ans nm = None) \<and>
     (run_asks cfg pv mv vv \<longrightarrow> (runId st \<in> set (failed st) \<longleftrightarrow> (\<exists>nm\<in>set (map fst (asyncValidators cfg)). ans nm = Some False))) \<and>
     (\<forall>f. (runId st, f) \<in> set (ending st) \<longrightarrow> run_asks cfg pv mv vv \<and> f = fin)"

definition base_inv :: "model_state \<Rightarrow> bool" where
  "base_inv st \<longleftrightarrow> model_ok st \<and> distinct (waiting st) \<and>
     (\<forall>(r, nm)\<in>set (waiting st). 0 < r \<and> r \<le> runId st \<and> nm \<noteq> []) \<and> (\<forall>(r, fin)\<in>set (ending st). 0 < r \<and> r \<le> runId st) \<and>
     (\<forall>r\<in>set (failed st). r \<le> runId st)"

text \<open>The parsers' verdict, when there is one, and the raw value are those of the view value that was committed last.\<close>

definition stored :: "model_setup \<Rightarrow> model_state \<Rightarrow> bool" where
  "stored cfg st \<longleftrightarrow> (parserValid st \<noteq> None \<longrightarrow>
     parserValid st = parse_verdict cfg (lastCommitted st) \<and> rawModelValue st = parsed_model cfg (lastCommitted st))"

definition run_inv :: "model_setup \<Rightarrow> model_state \<Rightarrow> bool" where
  "run_inv cfg st \<longleftrightarrow> base_inv st \<and> stored cfg st"

text \<open>An event goes on with the run, and some validators answer, or it starts a run.\<close>

definition keeps_run :: "model_setup \<Rightarrow> (string \<Rightarrow> bool option) \<Rightarrow> model_state \<Rightarrow> model_state \<Rightarrow> bool" where
  "keeps_run cfg new st st' \<longleftrightarrow> run_inv cfg st' \<and> runId st' = runId st \<and>
     (\<forall>pv mv vv fin ans. current cfg pv mv vv fin ans st \<longrightarrow> current cfg pv mv vv fin (ans ++ new) st')"

definition starts_run :: "model_setup \<Rightarrow> bool option \<Rightarrow> mvalue \<Rightarrow> mvalue \<Rightarrow> done_callback \<Rightarrow> nat \<Rightarrow> model_state \<Rightarrow> bool" where
  "starts_run cfg pv mv vv fin r st' \<longleftrightarrow> run_inv cfg st' \<and> runId st' = r + 1 \<and> current cfg pv mv vv fin Map.empty st'"

lemma run_base: "run_inv cfg st \<Longrightarrow> base_inv st"
  by (simp add: run_inv_def)

lemma keeps_cong:
  assumes "run_inv cfg st" "model_ok st'" "\<forall>k\<in>set (pipeline_keys cfg). key_state st' k = key_state st k"
    "runId st' = runId st" "waiting st' = waiting st" "failed st' = failed st" "ending st' = ending st" "lastCommitted st' = lastCommitted st"
    "stored cfg st'"
  shows "keeps_run cfg Map.empty st st'"
proof -
  have "current cfg pv mv vv fin ans st' = current cfg pv mv vv fin ans st" for pv mv vv fin ans
    using assms(3) unfolding current_def assms(4-8) by simp
  then show ?thesis using assms(1,2,9) unfolding keeps_run_def run_inv_def base_inv_def assms(4-8) by simp
qed

lemma keeps_fields:
  assumes "run_inv cfg st" "page st' = page st" "self st' = self st"
    "runId st' = runId st" "waiting st' = waiting st" "failed st' = failed st" "ending st' = ending st" "lastCommitted st' = lastCommitted st"
    "parserValid st' = parserValid st \<and> rawModelValue st' = rawModelValue st \<or> parserValid st' = None"
  shows "keeps_run cfg Map.empty st st'"
proof (rule keeps_cong [OF assms(1) _ _ assms(4-8)])
  show "stored cfg st'" using assms(1,8,9) by (auto simp: run_inv_def stored_def)
qed (use assms(1-3) in \<open>simp_all add: run_inv_def base_inv_def model_ok_def key_state_def\<close>)

lemma keeps_then_done: "starts_run cfg pv mv vv fin r st \<Longrightarrow> starts_run cfg pv mv vv fin r (doneCallback cfg f b st)"
proof -
  assume s: "starts_run cfg pv mv vv fin r st"
  have "keeps_run cfg Map.empty st (doneCallback cfg f b st)"
    using s by (intro keeps_fields) (simp_all add: starts_run_def)
  with s show ?thesis by (simp add: starts_run_def keeps_run_def)
qed

lemma runValidators_starts:
  assumes inv: "run_inv cfg st" and w: "well_set_up cfg" and vv: "vv = lastCommitted st"
  obtains st' where "runValidators cfg mv vv fin st = (None, st')" "starts_run cfg (parserValid st) mv vv fin (runId st) st'"
proof -
  let ?pv = "parserValid st"
  let ?names = "map fst (asyncValidators cfg)"
  note base = run_base [OF inv]
  have m: "model_ok st" using base by (simp add: base_inv_def)
  obtain fs st1 where st1: "st1 = st\<lparr>runId := runId st + 1, page := fs\<rparr>" "model_ok st1"
      "\<forall>k\<in>set (pipeline_keys cfg). key_state st1 k = outcome cfg ?pv mv vv Map.empty k"
      "runValidators cfg mv vv fin st = (None,
         if \<not> run_asks cfg ?pv mv vv then doneCallback cfg fin False st1
         else if asyncValidators cfg = [] then doneCallback cfg fin True st1
         else st1\<lparr>waiting := waiting st @ map (\<lambda>(nm, v). (runId st + 1, nm)) (asyncValidators cfg), ending := ending st @ [(runId st + 1, fin)]\<rparr>)"
    by (rule runValidators_result [OF m w])
  have old: "\<forall>(r, nm)\<in>set (waiting st). 0 < r \<and> r < runId st1 \<and> nm \<noteq> []" "\<forall>(r, fin)\<in>set (ending st). 0 < r \<and> r < runId st1" "\<forall>r\<in>set (failed st). r < runId st1"
    "distinct (waiting st)"
    using base by (auto simp: base_inv_def st1(1))
  have fields: "waiting st1 = waiting st" "ending st1 = ending st" "failed st1 = failed st" "runId st1 = runId st + 1" "lastCommitted st1 = vv"
    by (simp_all add: st1(1) vv)
  have pos: "0 < runId st1" by (simp add: fields)
  have none: "(runId st1, nm) \<notin> set (waiting st)" "(runId st1, f) \<notin> set (ending st)" "runId st1 \<notin> set (failed st)" for nm f
    using old by auto
  have stored: "stored cfg st1" using inv by (simp add: run_inv_def stored_def st1(1))
  have quiet: "starts_run cfg ?pv mv vv fin (runId st) st1" if "\<not> run_asks cfg ?pv mv vv \<or> asyncValidators cfg = []"
  proof -
    have "current cfg ?pv mv vv fin Map.empty st1"
      using st1(3) none that unfolding current_def fields(1-3,5) by auto
    then show ?thesis
      using old st1(2) stored unfolding starts_run_def run_inv_def base_inv_def fields(1-3) by (auto simp: fields(4) intro: less_imp_le)
  qed
  show ?thesis
  proof (cases "\<not> run_asks cfg ?pv mv vv \<or> asyncValidators cfg = []")
    case True
    then show ?thesis using st1(4) keeps_then_done [OF quiet [OF True]] that by (cases "run_asks cfg ?pv mv vv") auto
  next
    case False
    let ?st = "st1\<lparr>waiting := waiting st @ map (\<lambda>(nm, v). (runId st1, nm)) (asyncValidators cfg), ending := ending st @ [(runId st1, fin)]\<rparr>"
    have k: "key_state ?st = key_state st1" by (simp add: key_state_def fun_eq_iff)
    have new: "set (map (\<lambda>(nm, v). (runId st1, nm)) (asyncValidators cfg)) = Pair (runId st1) ` set ?names" by force
    have "distinct ?names" and ne: "[] \<notin> set ?names" using w by (auto simp: well_set_up_def pipeline_keys_def)
    then have "distinct (map (\<lambda>(nm, v). (runId st1, nm)) (asyncValidators cfg))"
      by (simp add: distinct_map inj_on_def case_prod_beta)
    then have d: "distinct (waiting ?st)" using old(4) none(1) by (auto simp: new)
    have "current cfg ?pv mv vv fin Map.empty ?st"
      unfolding current_def k using st1(3) none False by (auto simp: new fields intro: rev_image_eqI)
    moreover have "model_ok ?st" using st1(2) by (simp add: model_ok_def)
    moreover have "stored cfg ?st" using stored by (simp add: stored_def)
    moreover have "\<forall>(r, nm)\<in>set (waiting ?st). 0 < r \<and> r \<le> runId ?st \<and> nm \<noteq> []"
    proof -
      obtain N where N: "N = set ?names" by simp
      have "set (waiting ?st) = set (waiting st) \<union> Pair (runId st1) ` N" unfolding N by (simp add: new del: set_map)
      moreover have "[] \<notin> N" using ne by (simp only: N not_False_eq_True)
      moreover have "runId ?st = runId st1" by simp
      ultimately show ?thesis using old(1) pos by (auto intro: less_imp_le)
    qed
    ultimately have "starts_run cfg ?pv mv vv fin (runId st) ?st"
      unfolding starts_run_def run_inv_def base_inv_def using old(2,3) d pos by (auto simp: fields(3,4) intro: less_imp_le)
    with False st1(4) that show ?thesis by (simp add: fields(4))
  qed
qed

lemma page_keeps:
  assumes inv: "run_inv cfg st" and may: "may_happen (page st) e" and fs: "happen e (page st) = Inr fs"
    and keys: "\<forall>k s. e = Validity (self st) k s \<longrightarrow> k \<notin> set (pipeline_keys cfg)"
  shows "keeps_run cfg Map.empty st (st\<lparr>page := fs\<rparr>)"
proof -
  have m: "model_ok st" using inv by (simp add: run_inv_def base_inv_def)
  note m' = page_event_keeps [OF m may fs]
  have "key_state (st\<lparr>page := fs\<rparr>) k = key_state st k" if k: "k \<in> set (pipeline_keys cfg)" for k
  proof (cases "\<exists>j s. e = Validity (self st) j s")
    case True
    then obtain j s where e: "e = Validity (self st) j s" by blast
    with k keys have "j \<noteq> k" by blast
    have "goes (run_setValidity (runId st) j s st) st ((key_state st)(j := plain s))"
      using may e by (intro setValidity_goes [OF m]) auto
    then have "key_state (st\<lparr>page := fs\<rparr>) = (key_state st)(j := plain s)"
      using fs e by (auto simp: goes_def run_setValidity_def on_page_def)
    with \<open>j \<noteq> k\<close> show ?thesis by simp
  next
    case False
    with m'(2) show ?thesis by auto
  qed
  moreover have "stored cfg (st\<lparr>page := fs\<rparr>)" using inv by (simp add: run_inv_def stored_def)
  ultimately show ?thesis using inv m'(1) by (intro keeps_cong [OF inv]) simp_all
qed

lemma fields_base:
  assumes "base_inv st" "page st' = page st" "self st' = self st"
    "runId st' = runId st" "waiting st' = waiting st" "failed st' = failed st" "ending st' = ending st"
  shows "base_inv st'"
  using assms(1) unfolding base_inv_def model_ok_def assms(2-7) .

lemma page_base: "base_inv st \<Longrightarrow> may_happen (page st) e \<Longrightarrow> happen e (page st) = Inr fs \<Longrightarrow> base_inv (st\<lparr>page := fs\<rparr>)"
  using page_event_keeps(1) [of st e fs] by (simp add: base_inv_def)

lemma emptiness_base: "base_inv st \<Longrightarrow> base_inv (show_emptiness v st)"
  unfolding show_emptiness_def
  by (rule page_base [where e = "Emptied (self st) (isEmpty v)"]) (simp_all add: base_inv_def model_ok_def)

lemma write_fields [simp]:
  "page (writeToModelIfNeeded prev st) = page st" "self (writeToModelIfNeeded prev st) = self st" "runId (writeToModelIfNeeded prev st) = runId st"
  "waiting (writeToModelIfNeeded prev st) = waiting st" "failed (writeToModelIfNeeded prev st) = failed st"
  "ending (writeToModelIfNeeded prev st) = ending st" "lastCommitted (writeToModelIfNeeded prev st) = lastCommitted st"
  "parserValid (writeToModelIfNeeded prev st) = parserValid st" "rawModelValue (writeToModelIfNeeded prev st) = rawModelValue st"
  "modelValue (writeToModelIfNeeded prev st) = modelValue st"
  "scopeValue (writeToModelIfNeeded prev st) = (if identical (modelValue st) prev then scopeValue st else modelValue st)"
  by (simp_all add: writeToModelIfNeeded_def writeModelToScope_def)

section \<open>Commits\<close>

lemma setDirty_dirty: "setDirty n c st = Inr st' \<Longrightarrow> d = c \<or> dirty (ctrl st d) \<Longrightarrow> dirty (ctrl st' d)"
proof (induction n c st rule: setDirty.induct)
  case (2 n c st)
  let ?x = "(switch_classes [DIRTY_CLASS] [PRISTINE_CLASS] (ctrl st c))\<lparr>dirty := True, pristine := False\<rparr>"
  have "d = c \<or> dirty (ctrl st d) \<Longrightarrow> dirty (ctrl (put_ctrl c ?x st) d)" by (auto simp: put_ctrl_def)
  then show ?case
    using 2(2,3) 2(1) [OF refl refl] by (auto simp: Let_def split: option.splits)
qed simp

text \<open>Where a commit of a new value starts the validators: the control is dirty and the value is parsed.\<close>

lemma parse_start:
  assumes "base_inv st"
  obtains st1 where "parseAndValidate cfg st = runValidators cfg (parsed_model cfg (lastCommitted st)) (lastCommitted st)
      (CommitDone (parsed_model cfg (lastCommitted st)) (model_before st)) st1"
    "run_inv cfg st1" "page st1 = page st" "self st1 = self st" "runId st1 = runId st" "lastCommitted st1 = lastCommitted st"
    "parserValid st1 = parse_verdict cfg (lastCommitted st)"
    "\<not> allowInvalid cfg \<Longrightarrow> modelValue st1 = model_before st \<and> scopeValue st1 = scopeValue st"
proof -
  let ?mv = "parsed_model cfg (lastCommitted st)"
  define st0 where "st0 = (if modelValue (st\<lparr>parserValid := parse_verdict cfg (lastCommitted st)\<rparr>) = NaNValue
      then st\<lparr>parserValid := parse_verdict cfg (lastCommitted st)\<rparr>\<lparr>modelValue := scopeValue (st\<lparr>parserValid := parse_verdict cfg (lastCommitted st)\<rparr>)\<rparr>
      else st\<lparr>parserValid := parse_verdict cfg (lastCommitted st)\<rparr>)"
  define st1 where "st1 = (if allowInvalid cfg then writeToModelIfNeeded (modelValue st0) (st0\<lparr>rawModelValue := ?mv\<rparr>\<lparr>modelValue := ?mv\<rparr>)
      else st0\<lparr>rawModelValue := ?mv\<rparr>)"
  have before: "modelValue st0 = model_before st" by (simp add: st0_def model_before_def)
  have start: "parseAndValidate cfg st = runValidators cfg ?mv (lastCommitted st) (CommitDone ?mv (modelValue st0)) st1"
    unfolding parseAndValidate_def Let_def st1_def st0_def parse_view_eq by simp
  have fields: "page st1 = page st" "self st1 = self st" "runId st1 = runId st" "waiting st1 = waiting st" "failed st1 = failed st"
    "ending st1 = ending st" "lastCommitted st1 = lastCommitted st" "parserValid st1 = parse_verdict cfg (lastCommitted st)"
    "rawModelValue st1 = ?mv"
    by (simp_all add: st1_def st0_def)
  have "run_inv cfg st1" using fields_base [OF assms fields(1-6)] by (simp add: run_inv_def stored_def fields)
  moreover have "modelValue st1 = model_before st \<and> scopeValue st1 = scopeValue st" if "\<not> allowInvalid cfg"
    using that before by (simp add: st1_def) (simp add: st0_def)
  ultimately show ?thesis using start fields that unfolding before by blast
qed

definition new_view :: "model_setup \<Rightarrow> model_state \<Rightarrow> bool" where
  "new_view cfg st \<longleftrightarrow> \<not> (identical (lastCommitted st) (viewValue st) \<and> (\<not> identical (viewValue st) (TextValue []) \<or> \<not> hasNativeValidators cfg))"

lemma commit_start:
  assumes inv: "run_inv cfg st" and new: "new_view cfg st"
  obtains st1 where "commitViewValue cfg st = runValidators cfg (parsed_model cfg (viewValue st)) (viewValue st)
      (CommitDone (parsed_model cfg (viewValue st)) (model_before st)) st1"
    "run_inv cfg st1" "self st1 = self st" "runId st1 = runId st" "lastCommitted st1 = viewValue st"
    "parserValid st1 = parse_verdict cfg (viewValue st)" "dirty (ctrl (page st1) (self st1))"
    "\<not> allowInvalid cfg \<Longrightarrow> modelValue st1 = model_before st \<and> scopeValue st1 = scopeValue st"
proof -
  let ?st = "(show_emptiness (viewValue st) (st\<lparr>pendingDebounce := None\<rparr>))\<lparr>lastCommitted := viewValue st\<rparr>"
  have "base_inv (st\<lparr>pendingDebounce := None\<rparr>)" by (rule fields_base [OF run_base [OF inv]]) simp_all
  from fields_base [OF emptiness_base [OF this]] have 1: "base_inv ?st" by simp
  have fields: "lastCommitted ?st = viewValue st" "self ?st = self st" "runId ?st = runId st" "modelValue ?st = modelValue st"
    "scopeValue ?st = scopeValue st"
    by (simp_all add: show_emptiness_def)
  obtain st2 where st2: "(if pristine (ctrl (page ?st) (self ?st)) then on_page (\<lambda>fs. setDirty (made fs) (self ?st) fs) ?st else (None, ?st)) = (None, st2)"
      "base_inv st2" "dirty (ctrl (page st2) (self st2))" "lastCommitted st2 = viewValue st" "self st2 = self st" "runId st2 = runId st"
      "modelValue st2 = modelValue st" "scopeValue st2 = scopeValue st"
  proof (cases "pristine (ctrl (page ?st) (self ?st))")
    case True
    have m: "model_ok ?st" using 1 by (simp add: base_inv_def)
    have may: "may_happen (page ?st) (Dirty (self ?st))" using m by (simp add: model_ok_def)
    obtain fs where fs: "happen (Dirty (self ?st)) (page ?st) = Inr fs" by (rule page_event_goes [OF m may]) simp
    have "dirty (ctrl fs (self ?st))" using fs by (auto intro: setDirty_dirty)
    then show ?thesis
      using True fs page_base [OF 1 may fs] fields by (intro that [of "?st\<lparr>page := fs\<rparr>"]) (simp_all add: on_page_def)
  next
    case False
    have "dirty (ctrl (page ?st) (self ?st))"
      using False 1 form_run_ok forms_okD(2) [of "page ?st" "self ?st"] by (simp add: base_inv_def model_ok_def)
    then show ?thesis using False 1 fields by (intro that [of ?st]) simp_all
  qed
  have "commitViewValue cfg st = and_then (None, st2) (parseAndValidate cfg)"
    unfolding commitViewValue_def Let_def st2(1) [symmetric] by (rule trans [OF if_not_P]) (use new in \<open>simp_all add: new_view_def\<close>)
  then have "commitViewValue cfg st = parseAndValidate cfg st2" by (simp add: and_then_def)
  moreover have "model_before st2 = model_before st" using st2(7,8) by (simp add: model_before_def)
  ultimately show ?thesis using parse_start [OF st2(2), of cfg] st2(3-8) that by metis
qed

section \<open>Every event\<close>

lemma commit_step:
  assumes inv: "run_inv cfg st" and w: "well_set_up cfg"
  obtains st' where "commitViewValue cfg st = (None, st')"
    "keeps_run cfg Map.empty st st' \<or> starts_run cfg (parse_verdict cfg (viewValue st)) (parsed_model cfg (viewValue st)) (viewValue st)
       (CommitDone (parsed_model cfg (viewValue st)) (model_before st)) (runId st) st'"
proof (cases "new_view cfg st")
  case False
  have "keeps_run cfg Map.empty st (st\<lparr>pendingDebounce := None\<rparr>)" by (rule keeps_fields [OF inv]) simp_all
  moreover have "commitViewValue cfg st = (None, st\<lparr>pendingDebounce := None\<rparr>)"
    using False by (simp add: commitViewValue_def Let_def new_view_def)
  ultimately show ?thesis using that by blast
next
  case True
  obtain st1 where st1: "commitViewValue cfg st = runValidators cfg (parsed_model cfg (viewValue st)) (viewValue st)
      (CommitDone (parsed_model cfg (viewValue st)) (model_before st)) st1"
    "run_inv cfg st1" "runId st1 = runId st" "lastCommitted st1 = viewValue st" "parserValid st1 = parse_verdict cfg (viewValue st)"
    by (rule commit_start [OF inv True])
  show ?thesis
    by (rule runValidators_starts [OF st1(2) w st1(4) [symmetric]]) (use that st1 in auto)
qed

text \<open>Whether the model takes a value when it comes in, for the event \<open>trigger\<close>.\<close>

definition immediate :: "model_setup \<Rightarrow> string \<Rightarrow> bool" where
  "immediate cfg trigger \<longleftrightarrow> (case model_opts cfg of None \<Rightarrow> True | Some os \<Rightarrow> updateOnDefault os) \<and> debounceDelay cfg trigger = 0"

lemma immediate_input: "immediate cfg trigger \<Longrightarrow> setViewValue_model cfg v trigger st = commitViewValue cfg (st\<lparr>viewValue := v, pendingDebounce := None\<rparr>)"
  by (simp add: immediate_def setViewValue_model_def debounceViewValueCommit_def)

lemma input_step:
  assumes inv: "run_inv cfg st" and w: "well_set_up cfg"
  obtains st' where "setViewValue_model cfg v trigger st = (None, st')"
    "keeps_run cfg Map.empty st st' \<or> starts_run cfg (parse_verdict cfg v) (parsed_model cfg v) v
       (CommitDone (parsed_model cfg v) (model_before st)) (runId st) st'"
proof -
  have same: "keeps_run cfg Map.empty st (st\<lparr>viewValue := v\<rparr>)" "keeps_run cfg Map.empty st (st\<lparr>viewValue := v, pendingDebounce := p\<rparr>)" for p
    by (rule keeps_fields [OF inv]; simp)+
  show ?thesis
  proof (cases "immediate cfg trigger")
    case False
    then have "setViewValue_model cfg v trigger st = (None, st\<lparr>viewValue := v\<rparr>) \<or>
        setViewValue_model cfg v trigger st = (None, st\<lparr>viewValue := v, pendingDebounce := Some (debounceDelay cfg trigger)\<rparr>)"
      by (auto simp: immediate_def setViewValue_model_def debounceViewValueCommit_def Let_def)
    with same that show ?thesis by metis
  next
    case True
    let ?st = "st\<lparr>viewValue := v, pendingDebounce := None\<rparr>"
    have inv': "run_inv cfg ?st" using same(2) by (simp add: keeps_run_def)
    have "model_before ?st = model_before st" by (simp add: model_before_def)
    with commit_step [OF inv' w] obtain st' where st': "commitViewValue cfg ?st = (None, st')"
      "keeps_run cfg Map.empty ?st st' \<or> starts_run cfg (parse_verdict cfg v) (parsed_model cfg v) v
         (CommitDone (parsed_model cfg v) (model_before st)) (runId st) st'" by auto
    have "keeps_run cfg Map.empty st st'" if "keeps_run cfg Map.empty ?st st'"
      using that same(2) [of None] by (auto simp: keeps_run_def)
    with st' that show ?thesis by (auto simp: immediate_input [OF True])
  qed
qed

lemma revalidate_step:
  assumes inv: "run_inv cfg st" and w: "well_set_up cfg"
  obtains st' where "validate cfg st = (None, st')"
    "keeps_run cfg Map.empty st st' \<or> starts_run cfg (parserValid st) (rawModelValue st) (lastCommitted st)
       (ValidateDone (rawModelValue st) (valid (ctrl (page st) (self st))) (modelValue st)) (runId st) st'"
proof (cases "modelValue st = NaNValue")
  case True
  have "keeps_run cfg Map.empty st st" by (rule keeps_fields [OF inv]) simp_all
  then show ?thesis using that True by (simp add: validate_def)
next
  case False
  let ?fin = "ValidateDone (rawModelValue st) (valid (ctrl (page st) (self st))) (modelValue st)"
  obtain st' where "runValidators cfg (rawModelValue st) (lastCommitted st) ?fin st = (None, st')"
      "starts_run cfg (parserValid st) (rawModelValue st) (lastCommitted st) ?fin (runId st) st'"
    by (rule runValidators_starts [OF inv w refl])
  with False that show ?thesis by (simp add: validate_def)
qed

lemma watch_step:
  assumes inv: "run_inv cfg st" and w: "well_set_up cfg"
  defines "vv \<equiv> fold (\<lambda>f v. f v) (rev (formatters cfg)) (scopeValue st)"
  obtains st' where "ngModelWatch cfg st = (None, st')"
    "keeps_run cfg Map.empty st st' \<or> starts_run cfg None (scopeValue st) vv NoopDone (runId st) st'"
proof -
  let ?mv = "scopeValue st"
  have vv: "run_formatters (formatters cfg) ?mv = vv" by (simp add: run_formatters_def vv_def foldr_conv_fold)
  let ?st = "st\<lparr>modelValue := ?mv, rawModelValue := ?mv, parserValid := None\<rparr>"
  let ?st1 = "render_view ((show_emptiness vv ?st)\<lparr>viewValue := vv, lastCommitted := vv\<rparr>)"
  have stay: "keeps_run cfg Map.empty st st" "keeps_run cfg Map.empty st ?st" by (rule keeps_fields [OF inv]; simp)+
  then have 0: "base_inv ?st" by (simp add: keeps_run_def run_inv_def)
  have "base_inv ?st1" by (rule fields_base [OF emptiness_base [OF 0]]) (simp_all add: render_view_def)
  then have 1: "run_inv cfg ?st1" by (simp add: run_inv_def stored_def render_view_def show_emptiness_def)
  obtain st2 where "runValidators cfg ?mv vv NoopDone ?st1 = (None, st2)" "starts_run cfg (parserValid ?st1) ?mv vv NoopDone (runId ?st1) st2"
    by (rule runValidators_starts [OF 1 w, of vv ?mv NoopDone]) (simp_all add: render_view_def)
  moreover have "parserValid ?st1 = None" "runId ?st1 = runId st" by (simp_all add: render_view_def show_emptiness_def)
  ultimately have run: "runValidators cfg ?mv vv NoopDone ?st1 = (None, st2)" "starts_run cfg None ?mv vv NoopDone (runId st) st2" by simp_all
  consider (same) "\<not> (\<not> identical ?mv (modelValue st) \<and> (identical (modelValue st) (modelValue st) \<or> identical ?mv ?mv))"
    | (view) "\<not> identical ?mv (modelValue st) \<and> (identical (modelValue st) (modelValue st) \<or> identical ?mv ?mv)" "identical (viewValue st) vv"
    | (run) "\<not> identical ?mv (modelValue st) \<and> (identical (modelValue st) (modelValue st) \<or> identical ?mv ?mv)" "\<not> identical (viewValue st) vv"
    by blast
  then show ?thesis
  proof cases
    case same
    then have "ngModelWatch cfg st = (None, st)" unfolding ngModelWatch_def Let_def by (rule if_not_P)
    then show ?thesis using that stay(1) by blast
  next
    case view
    then have "ngModelWatch cfg st = (None, ?st)" by (simp add: ngModelWatch_def Let_def vv)
    then show ?thesis using that stay(2) by blast
  next
    case run
    then have "ngModelWatch cfg st = runValidators cfg ?mv vv NoopDone ?st1" by (simp add: ngModelWatch_def Let_def vv)
    then show ?thesis using that \<open>runValidators cfg ?mv vv NoopDone ?st1 = (None, st2)\<close> \<open>starts_run cfg None ?mv vv NoopDone (runId st) st2\<close> by simp
  qed
qed

lemma async_key:
  assumes "well_set_up cfg" "nm \<in> set (map fst (asyncValidators cfg))" "run_asks cfg pv mv vv"
  shows "nm \<in> set (pipeline_keys cfg)" "nm \<noteq> []"
    "outcome cfg pv mv vv ans nm = (case ans nm of None \<Rightarrow> Undefined | Some b \<Rightarrow> Boolean b)"
proof -
  have d: "distinct (pipeline_keys cfg)" and e: "[] \<notin> set (pipeline_keys cfg)" using assms(1) by (simp_all add: well_set_up_def)
  show k: "nm \<in> set (pipeline_keys cfg)" using assms(2) by (simp add: pipeline_keys_def)
  with e show "nm \<noteq> []" by blast
  have "errorKey cfg \<notin> set (map fst (asyncValidators cfg))"
    "set (map fst (validators cfg)) \<inter> set (map fst (asyncValidators cfg)) = {}" using d by (simp_all add: pipeline_keys_def)
  then have "nm \<noteq> errorKey cfg" "nm \<notin> set (map fst (validators cfg))" using assms(2) by blast+
  then have "nm \<noteq> errorKey cfg" "map_of (validators cfg) nm = None" by (simp_all add: map_of_eq_None_iff)
  with assms(3) show "outcome cfg pv mv vv ans nm = (case ans nm of None \<Rightarrow> Undefined | Some b \<Rightarrow> Boolean b)"
    by (simp add: outcome_def run_asks_def)
qed

lemma answer_current:
  assumes w: "well_set_up cfg" and cur: "current cfg pv mv vv fin ans st" and here: "(runId st, nm) \<in> set (waiting st)"
    and d: "distinct (waiting st)"
    and st': "key_state st' = (key_state st)(nm := Boolean ok)" "runId st' = runId st" "waiting st' = remove1 (runId st, nm) (waiting st)"
      "failed st' = (if ok then failed st else runId st # failed st)" "ending st' = ending st" "lastCommitted st' = lastCommitted st"
  shows "current cfg pv mv vv fin (ans(nm \<mapsto> ok)) st'"
proof -
  let ?ans = "ans(nm \<mapsto> ok)"
  have asks: "run_asks cfg pv mv vv" and n: "nm \<in> set (map fst (asyncValidators cfg))" and none: "ans nm = None"
    using cur here unfolding current_def by blast+
  note key = async_key [OF w n asks]
  have out: "outcome cfg pv mv vv ?ans k = (if k = nm then Boolean ok else outcome cfg pv mv vv ans k)" for k
  proof (cases "k = nm")
    case True
    then show ?thesis using key(3) [of ?ans] by simp
  next
    case False
    then show ?thesis unfolding outcome_def fun_upd_other [OF False] by simp
  qed
  obtain N where N: "N = set (map fst (asyncValidators cfg))" by simp
  have "(\<exists>j\<in>N. ?ans j = Some False) \<longleftrightarrow> \<not> ok \<or> (\<exists>j\<in>N. ans j = Some False)"
  proof (cases ok)
    case True
    have "?ans j = Some False \<longleftrightarrow> ans j = Some False" for j using True none by (cases "j = nm") simp_all
    with True show ?thesis by simp
  next
    case False
    then have "?ans nm = Some False" by simp
    with False n show ?thesis unfolding N [symmetric] by blast
  qed
  moreover have "key_state st' k = outcome cfg pv mv vv ?ans k" if "k \<in> set (pipeline_keys cfg)" for k
    using cur that unfolding current_def st'(1) out by auto
  ultimately show ?thesis
    using cur n none asks d unfolding current_def N [symmetric] st'(2-6) by auto
qed

lemma answer_step:
  assumes inv: "run_inv cfg st" and w: "well_set_up cfg" and here: "(r, nm) \<in> set (waiting st)"
  obtains st' where "validator_answered r nm ok st = (None, st')" "keeps_run cfg (answered (runId st) (Answer r nm ok)) st st'"
proof -
  let ?st = "st\<lparr>waiting := remove1 (r, nm) (waiting st), failed := (if ok then failed st else r # failed st)\<rparr>"
  have m: "model_ok st" and d: "distinct (waiting st)" using inv by (simp_all add: run_inv_def base_inv_def)
  have m': "model_ok ?st" "key_state ?st = key_state st" using m by (simp_all add: model_ok_def key_state_def fun_eq_iff)
  have wait: "set (waiting ?st) = set (waiting st) - {(r, nm)}" using d by simp
  have base: "base_inv ?st"
    using inv here m'(1) unfolding run_inv_def base_inv_def wait by auto
  have stored: "stored cfg ?st" using inv by (simp add: run_inv_def stored_def)
  show ?thesis
  proof (cases "r = runId st")
    case False
    have "current cfg pv mv vv fin ans ?st = current cfg pv mv vv fin ans st" for pv mv vv fin ans
      using False unfolding current_def m'(2) wait by auto
    then have "keeps_run cfg Map.empty st ?st" using base stored by (simp add: keeps_run_def run_inv_def)
    then show ?thesis using False by (intro that [of ?st]) (simp_all add: validator_answered_def run_setValidity_def)
  next
    case True
    have "nm \<noteq> []" using inv here by (auto simp: run_inv_def base_inv_def)
    then have "goes (run_setValidity r nm (Boolean ok) ?st) ?st ((key_state ?st)(nm := plain (Boolean ok)))"
      using True by (intro setValidity_goes [OF m'(1)]) simp_all
    then obtain fs where fs: "run_setValidity r nm (Boolean ok) ?st = (None, ?st\<lparr>page := fs\<rparr>)" "model_ok (?st\<lparr>page := fs\<rparr>)"
        "key_state (?st\<lparr>page := fs\<rparr>) = (key_state st)(nm := Boolean ok)"
      unfolding goes_def m'(2) by (auto simp: plain_def)
    have "current cfg pv mv vv fin (ans(nm \<mapsto> ok)) (?st\<lparr>page := fs\<rparr>)" if cur: "current cfg pv mv vv fin ans st" for pv mv vv fin ans
    proof (rule answer_current [OF w cur here [unfolded True] d])
      show "key_state (?st\<lparr>page := fs\<rparr>) = (key_state st)(nm := Boolean ok)" by (rule fs(3))
    qed (simp_all add: True)
    moreover have "base_inv (?st\<lparr>page := fs\<rparr>)" using base fs(2) by (simp add: base_inv_def)
    moreover have "stored cfg (?st\<lparr>page := fs\<rparr>)" using stored by (simp add: stored_def)
    ultimately have "keeps_run cfg [nm \<mapsto> ok] st (?st\<lparr>page := fs\<rparr>)" by (simp add: keeps_run_def run_inv_def)
    moreover have "validator_answered r nm ok st = (None, ?st\<lparr>page := fs\<rparr>)" unfolding validator_answered_def by (rule fs(1))
    ultimately show ?thesis using True by (intro that) simp_all
  qed
qed

lemma all_answered_step:
  assumes inv: "run_inv cfg st"
  shows "keeps_run cfg Map.empty st (all_answered cfg r fin st)"
proof -
  obtain es where es: "es = remove1 (r, fin) (ending st)" by simp
  have sub: "x \<in> set (ending st)" if "x \<in> set es" for x using that unfolding es by (rule subsetD [OF set_remove1_subset])
  let ?st = "st\<lparr>ending := es\<rparr>"
  have k: "key_state ?st = key_state st" by (simp add: key_state_def fun_eq_iff)
  have cur: "current cfg pv mv vv fin' ans ?st" if "current cfg pv mv vv fin' ans st" for pv mv vv fin' ans
  proof -
    have "\<forall>f. (runId st, f) \<in> set es \<longrightarrow> run_asks cfg pv mv vv \<and> f = fin'" using that sub unfolding current_def by blast
    with that show ?thesis unfolding current_def k by simp
  qed
  have "model_ok ?st" "stored cfg ?st" using inv by (simp_all add: run_inv_def base_inv_def model_ok_def stored_def)
  moreover have "\<forall>x\<in>set es. case x of (q, f) \<Rightarrow> 0 < q \<and> q \<le> runId st" using inv sub unfolding run_inv_def base_inv_def by blast
  ultimately have "run_inv cfg ?st" using inv unfolding run_inv_def base_inv_def by simp
  then have "keeps_run cfg Map.empty st ?st" using cur by (simp add: keeps_run_def)
  moreover have "keeps_run cfg Map.empty ?st (doneCallback cfg fin b ?st)" for b
    by (rule keeps_fields [OF \<open>run_inv cfg ?st\<close>]) simp_all
  ultimately show ?thesis
    unfolding all_answered_def validationDone_def es [symmetric] by (auto simp: keeps_run_def)
qed

lemma occur_step:
  assumes inv: "run_inv cfg st" and w: "well_set_up cfg" and may: "may_occur cfg st e"
  obtains x st' where "occur cfg e st = (x, st')" "x = None \<or> x = Some (FormError BadName) \<and> (\<exists>F c. e = Elsewhere (Add F c))"
    "keeps_run cfg (answered (runId st) e) st st' \<or>
     starts_run cfg (run_verdict cfg e st) (run_model cfg e st) (run_view cfg e st) (run_end cfg e st) (runId st) st'"
proof (cases e)
  case (Input v trigger)
  show ?thesis
    by (rule input_step [OF inv w, of v trigger]) (use that [of None] Input in \<open>auto simp: run_verdict_def run_model_def run_view_def run_end_def\<close>)
next
  case Commit
  show ?thesis
    by (rule commit_step [OF inv w]) (use that [of None] Commit in \<open>auto simp: run_verdict_def run_model_def run_view_def run_end_def\<close>)
next
  case Timer
  show ?thesis
    by (rule commit_step [OF inv w]) (use that [of None] Timer in \<open>auto simp: run_verdict_def run_model_def run_view_def run_end_def\<close>)
next
  case Rollback
  have "keeps_run cfg Map.empty st (rollbackViewValue st)" by (rule keeps_fields [OF inv]) (simp_all add: rollbackViewValue_def render_view_def)
  with Rollback that [of None] show ?thesis by simp
next
  case Revalidate
  show ?thesis
    by (rule revalidate_step [OF inv w]) (use that [of None] Revalidate in \<open>auto simp: run_verdict_def run_model_def run_view_def run_end_def\<close>)
next
  case Digest
  show ?thesis
    by (rule watch_step [OF inv w]) (use that [of None] Digest in \<open>auto simp: run_verdict_def run_model_def run_view_def run_end_def\<close>)
next
  case (ScopeSet v)
  have "keeps_run cfg Map.empty st (st\<lparr>scopeValue := v\<rparr>)" by (rule keeps_fields [OF inv]) simp_all
  with ScopeSet that [of None] show ?thesis by simp
next
  case (Answer r nm ok)
  have "(r, nm) \<in> set (waiting st)" using may Answer by simp
  then obtain st' where "validator_answered r nm ok st = (None, st')" "keeps_run cfg (answered (runId st) e) st st'"
    unfolding Answer by (rule answer_step [OF inv w])
  with Answer that [of None] show ?thesis by simp
next
  case (AllAnswered r fin)
  then show ?thesis using all_answered_step [OF inv] that [of None] by simp
next
  case (Elsewhere f)
  have may': "may_happen (page st) f" using may Elsewhere by simp
  show ?thesis
  proof (cases "happen f (page st)")
    case (Inl x)
    have "forms_ok (page st)" using inv form_run_ok by (simp add: run_inv_def base_inv_def model_ok_def)
    then have x: "x = BadName" using happen_ok [OF _ may'] Inl by auto
    have "keeps_run cfg Map.empty st st" by (rule keeps_fields [OF inv]) simp_all
    then show ?thesis using Elsewhere Inl x bad_name [of f "page st"] that by (auto simp: on_page_def)
  next
    case (Inr fs)
    have "keeps_run cfg Map.empty st (st\<lparr>page := fs\<rparr>)" using may Elsewhere by (intro page_keeps [OF inv may' Inr]) auto
    with Elsewhere Inr that [of None] show ?thesis by (simp add: on_page_def)
  qed
qed

lemma model_run_inv:
  assumes "model_run cfg st" "well_set_up cfg"
  shows "run_inv cfg st"
  using assms
proof (induction rule: model_run.induct)
  case (start fs c v)
  then show ?case by (simp add: run_inv_def base_inv_def model_ok_def new_model_def stored_def plain_form_run)
next
  case (event st e x st')
  have inv: "run_inv cfg st" by (rule event.IH [OF event.prems])
  show ?case
    by (rule occur_step [OF inv event.prems event.hyps(2)]) (use event.hyps(3) in \<open>auto simp: keeps_run_def starts_run_def\<close>)
qed

text \<open>A list of events that starts no run.\<close>

lemma occurrences_keep:
  assumes "run_inv cfg st" "well_set_up cfg" "all_occur cfg es st"
  shows "runId st \<le> runId (occurrences cfg es st) \<and>
    (runId (occurrences cfg es st) = runId st \<longrightarrow>
      keeps_run cfg (foldl (\<lambda>ans e. ans ++ answered (runId st) e) new es) st0 (occurrences cfg es st) \<or> \<not> keeps_run cfg new st0 st)"
  using assms
proof (induction es arbitrary: st new)
  case (Cons e es)
  obtain x st1 where st1: "occur cfg e st = (x, st1)" "keeps_run cfg (answered (runId st) e) st st1 \<or>
     starts_run cfg (run_verdict cfg e st) (run_model cfg e st) (run_view cfg e st) (run_end cfg e st) (runId st) st1"
    by (rule occur_step [OF Cons.prems(1,2)]) (use Cons.prems(3) in auto)
  have inv: "run_inv cfg st1" using st1(2) by (auto simp: keeps_run_def starts_run_def)
  have o: "occurrences cfg (e # es) st = occurrences cfg es st1" and all: "all_occur cfg es st1"
    using Cons.prems(3) st1(1) by simp_all
  note IH = Cons.IH [OF inv Cons.prems(2) all]
  show ?case
  proof (cases "runId st1 = runId st")
    case True
    then have 1: "keeps_run cfg (answered (runId st) e) st st1" using st1(2) by (auto simp: starts_run_def)
    have "keeps_run cfg (new ++ answered (runId st) e) st0 st1" if "keeps_run cfg new st0 st"
      using that 1 by (simp add: keeps_run_def)
    then show ?thesis using IH [of "new ++ answered (runId st) e"] unfolding o True by auto
  next
    case False
    then have "runId st1 = runId st + 1" using st1(2) by (auto simp: keeps_run_def starts_run_def)
    with IH [of new] have "runId st < runId (occurrences cfg es st1)" by simp
    then show ?thesis unfolding o by simp
  qed
qed simp

text \<open>The latest run: the event that started it, and the events since.\<close>

lemma latest_run:
  assumes w: "well_set_up cfg" and run: "model_run cfg st0" and may: "may_occur cfg st0 e"
    and st1: "st1 = snd (occur cfg e st0)" "runId st1 \<noteq> runId st0"
    and es: "all_occur cfg es st1" "st = occurrences cfg es st1" "runId st = runId st1"
  shows "run_inv cfg st" "0 < runId st"
    "current cfg (run_verdict cfg e st0) (run_model cfg e st0) (run_view cfg e st0) (run_end cfg e st0) (answers (runId st) es) st"
proof -
  have inv: "run_inv cfg st0" by (rule model_run_inv [OF run w])
  have s: "starts_run cfg (run_verdict cfg e st0) (run_model cfg e st0) (run_view cfg e st0) (run_end cfg e st0) (runId st0) st1"
    by (rule occur_step [OF inv w may]) (use st1 in \<open>auto simp: keeps_run_def\<close>)
  then have inv1: "run_inv cfg st1" by (simp add: starts_run_def)
  have "keeps_run cfg Map.empty st1 st1" by (rule keeps_fields [OF inv1]) simp_all
  then have k: "keeps_run cfg (answers (runId st) es) st1 st"
    using occurrences_keep [OF inv1 w es(1), of Map.empty st1] es(2,3) by (simp add: answers_def)
  show "run_inv cfg st" "0 < runId st" using k s es(3) by (auto simp: keeps_run_def starts_run_def)
  have "Map.empty ++ answers (runId st) es = answers (runId st) es" by simp
  then show "current cfg (run_verdict cfg e st0) (run_model cfg e st0) (run_view cfg e st0) (run_end cfg e st0) (answers (runId st) es) st"
    using k s unfolding keeps_run_def starts_run_def by metis
qed

lemma occurrences_run: "model_run cfg st \<Longrightarrow> model_run cfg (occurrences cfg es st)"
proof (induction es arbitrary: st)
  case (Cons e es)
  then show ?case using model_run.event [of cfg st e "fst (occur cfg e st)" "snd (occur cfg e st)"] by simp
qed simp

text \<open>A form with a text input that must not be empty and that asks the server whether a name is taken.\<close>

definition name_setup :: model_setup where
  "name_setup = \<lparr>parsers = [], formatters = [], validators = [(''required'', \<lambda>mv vv. Boolean (\<not> isEmpty vv))],
     asyncValidators = [(''free'', \<lambda>mv vv. True)], parserName = [], hasNativeValidators = False, model_opts = None\<rparr>"

definition name_input :: model_state where
  "name_input = new_model (form_after [Make True ''user'', Make False ''name'']) 1 NoValue"

lemma name_setup_ok: "well_set_up name_setup"
  by (simp add: well_set_up_def pipeline_keys_def name_setup_def errorKey_def plain_key_def object_members_def)

lemma name_input_run: "model_run name_setup (occurrences name_setup es name_input)"
proof (rule occurrences_run)
  have "made (form_after [Make True ''user'', Make False ''name'']) = 2" "\<not> is_form (ctrl (form_after [Make True ''user'', Make False ''name'']) 1)"
    "fresh_control (ctrl (form_after [Make True ''user'', Make False ''name'']) 1)"
    unfolding fresh_control_def by code_simp+
  then show "model_run name_setup name_input"
    unfolding name_input_def by (intro model_run.start form_after_plain) (simp_all add: no_member_name_def)
qed

text \<open>The form with a number of one digit instead, which must be five at most.\<close>

definition number_setup :: model_setup where
  "number_setup = \<lparr>parsers = [\<lambda>v. case v of TextValue [] \<Rightarrow> NullValue | TextValue [c] \<Rightarrow> (if c \<in> set ''0123456789'' then OtherValue (of_char c - 48) else NoValue) | _ \<Rightarrow> NoValue],
     formatters = [], validators = [(''max'', \<lambda>mv vv. Boolean (case mv of OtherValue n \<Rightarrow> n \<le> 5 | _ \<Rightarrow> True))],
     asyncValidators = [], parserName = ''number'', hasNativeValidators = True, model_opts = None\<rparr>"

lemma number_setup_ok: "well_set_up number_setup"
  by (simp add: well_set_up_def pipeline_keys_def number_setup_def errorKey_def plain_key_def object_members_def)

lemma number_input_run: "model_run number_setup (occurrences number_setup es name_input)"
proof (rule occurrences_run)
  have "made (form_after [Make True ''user'', Make False ''name'']) = 2" "\<not> is_form (ctrl (form_after [Make True ''user'', Make False ''name'']) 1)"
    "fresh_control (ctrl (form_after [Make True ''user'', Make False ''name'']) 1)"
    unfolding fresh_control_def by code_simp+
  then show "model_run number_setup name_input"
    unfolding name_input_def by (intro model_run.start form_after_plain) (simp_all add: no_member_name_def)
qed

text \<open>A commit of a new view value that no asynchronous validator is asked about.\<close>

lemma commit_result:
  assumes inv: "run_inv cfg st" and w: "well_set_up cfg" and new: "new_view cfg st" and allow: "\<not> allowInvalid cfg"
    and v: "v = viewValue st" and pv: "pv = parse_verdict cfg v" and mv: "mv = parsed_model cfg v"
    and sync: "asyncValidators cfg = [] \<or> \<not> run_asks cfg pv mv v"
  obtains st' where "commitViewValue cfg st = (None, st')" "model_ok st'" "self st' = self st" "runId st' = runId st + 1" "lastCommitted st' = v"
    "\<forall>k\<in>set (pipeline_keys cfg). key_state st' k = outcome cfg pv mv v Map.empty k" "dirty (ctrl (page st') (self st'))"
    "modelValue st' = (if run_asks cfg pv mv v then mv else NoValue)"
    "scopeValue st' = (if identical (modelValue st') (model_before st) then scopeValue st else modelValue st')"
proof -
  let ?fin = "CommitDone mv (model_before st)"
  obtain st1 where st1: "commitViewValue cfg st = runValidators cfg mv v ?fin st1" "run_inv cfg st1" "self st1 = self st" "runId st1 = runId st"
    "lastCommitted st1 = v" "parserValid st1 = pv" "dirty (ctrl (page st1) (self st1))"
    "modelValue st1 = model_before st" "scopeValue st1 = scopeValue st"
    unfolding v pv mv by (rule commit_start [OF inv new]) (use that allow in blast)
  have m: "model_ok st1" using st1(2) by (simp add: run_inv_def base_inv_def)
  obtain fs st2 where st2: "st2 = st1\<lparr>runId := runId st1 + 1, page := fs\<rparr>" "model_ok st2" "same_dirty (page st1) fs"
      "\<forall>k\<in>set (pipeline_keys cfg). key_state st2 k = outcome cfg (parserValid st1) mv v Map.empty k"
      "runValidators cfg mv v ?fin st1 = (None,
         if \<not> run_asks cfg (parserValid st1) mv v then doneCallback cfg ?fin False st2
         else if asyncValidators cfg = [] then doneCallback cfg ?fin True st2
         else st2\<lparr>waiting := waiting st1 @ map (\<lambda>(nm, v). (runId st1 + 1, nm)) (asyncValidators cfg), ending := ending st1 @ [(runId st1 + 1, ?fin)]\<rparr>)"
    by (rule runValidators_result [OF m w])
  let ?st' = "doneCallback cfg ?fin (run_asks cfg pv mv v) st2"
  have run: "commitViewValue cfg st = (None, ?st')" using st1(1,6) st2(5) sync by auto
  have page: "page ?st' = page st2" "self ?st' = self st2" "self st2 = self st1" "page st2 = fs" by (simp_all add: st2(1))
  have "model_ok ?st'" "key_state ?st' = key_state st2" using st2(2) by (simp_all add: model_ok_def key_state_def page(1,2) fun_eq_iff)
  moreover have "dirty (ctrl (page ?st') (self ?st'))" unfolding page using st2(3) st1(7) by (simp add: same_dirty_def)
  moreover have "modelValue ?st' = (if run_asks cfg pv mv v then mv else NoValue)"
    "scopeValue ?st' = (if identical (modelValue ?st') (model_before st) then scopeValue st else modelValue ?st')"
    using allow st1(8,9) by (simp_all add: st2(1))
  moreover have "self ?st' = self st" "runId ?st' = runId st + 1" "lastCommitted ?st' = v"
    using st1(3-5) by (simp_all add: st2(1))
  ultimately show ?thesis using run st2(4) that [of ?st'] unfolding st1(6) by simp
qed

lemma all_accepted: "\<forall>x\<in>N. f x \<noteq> None \<Longrightarrow> (\<not> (\<exists>x\<in>N. f x = Some False)) = (\<forall>x\<in>N. f x = Some True)"
proof -
  assume *: "\<forall>x\<in>N. f x \<noteq> None"
  have "f x = Some True \<longleftrightarrow> f x \<noteq> Some False" if "x \<in> N" for x using * that by (cases "f x") auto
  then show ?thesis by simp
qed

lemma error_shown_above:
  assumes m: "model_ok st" and F: "F < made (page st)" "below (page st) F (self st)"
  shows "dirty (ctrl (page st) (self st)) \<Longrightarrow> dirty (ctrl (page st) F)"
    "key_state st k = Boolean False \<Longrightarrow> valid (ctrl (page st) F) \<noteq> Some True"
proof -
  have ok: "forms_ok (page st)" using m form_run_ok by (simp add: model_ok_def)
  show "dirty (ctrl (page st) (self st)) \<Longrightarrow> dirty (ctrl (page st) F)" by (rule flags_below(1) [OF ok F(2)])
  assume "key_state st k = Boolean False"
  then have "error_keys (ctrl (page st) (self st)) \<noteq> []" by (auto simp: key_state_def combinedState_def split: if_splits)
  then have "\<exists>d. below (page st) F d \<and> \<not> is_form (ctrl (page st) d) \<and> error_keys (ctrl (page st) d) \<noteq> []"
    using m F(2) by (auto simp: model_ok_def)
  then have "pending_keys (ctrl (page st) F) = None \<Longrightarrow> error_keys (ctrl (page st) F) \<noteq> []" using errors_below [OF ok F(1)] by simp
  then show "valid (ctrl (page st) F) \<noteq> Some True"
    using forms_okD(1) [OF ok F(1)] by (cases "pending_keys (ctrl (page st) F)") (auto simp: shown_ok_def)
qed

section \<open>Properties\<close>

text \<open>
  C34. Whatever happens on the page after a run of the validators has started and in whatever order they answer,
  until the next run the keys of the model's pipeline are those of this run alone. For a commit they are about the
  view value that was committed and what the parsers made of it, one after the other: the parser's key says whether
  they all gave a value, a synchronous validator's key is what it returned for the two values, an asynchronous
  validator's key what its promise has answered to this run (true when it was fulfilled, false when it was
  rejected), and it is pending exactly as long as the answer is awaited; after a failure of an earlier stage the
  keys of the later ones are unset. For \<open>$validate\<close> they are about the stored values, for the watch of the model
  about the scope's value and what the formatters make of it. The parser's verdict that is stored is that on the
  value that was committed last. The keys are plain ones and an asynchronous validator returns a promise.
\<close>

theorem keys_show_latest_run:
  assumes "well_set_up cfg" "model_run cfg st0" "may_occur cfg st0 e"
    and "st1 = snd (occur cfg e st0)" "runId st1 \<noteq> runId st0"
    and "all_occur cfg es st1" "st = occurrences cfg es st1" "runId st = runId st1"
  shows "(\<forall>k\<in>set (pipeline_keys cfg). key_state st k =
      outcome cfg (run_verdict cfg e st0) (run_model cfg e st0) (run_view cfg e st0) (answers (runId st) es) k) \<and>
    (\<forall>nm. (runId st, nm) \<in> set (waiting st) \<longleftrightarrow>
       run_verdict cfg e st0 \<noteq> Some False \<and> syncValid cfg (run_model cfg e st0) (run_view cfg e st0) \<and>
       nm \<in> set (map fst (asyncValidators cfg)) \<and> answers (runId st) es nm = None) \<and>
    lastCommitted st = run_view cfg e st0 \<and>
    (parserValid st \<noteq> None \<longrightarrow>
       parserValid st = parse_verdict cfg (lastCommitted st) \<and> rawModelValue st = parsed_model cfg (lastCommitted st))"
  using latest_run(1,3) [OF assms] unfolding run_inv_def stored_def current_def run_asks_def by simp

theorem keys_show_latest_run_witness:
  defines "e \<equiv> Input (TextValue ''anna'') ''input''"
    and "es \<equiv> [Answer 1 ''free'' False, Elsewhere (Touched 1), Answer 2 ''free'' True]"
    and "st0 \<equiv> occurrences name_setup [Elsewhere (Add 0 1), Input (TextValue ''ann'') ''input''] name_input"
  defines "st1 \<equiv> snd (occur name_setup e st0)"
  defines "st \<equiv> occurrences name_setup es st1"
  shows "key_state st ''free'' = Boolean True \<and> lastCommitted st = TextValue ''anna''"
proof -
  have 1: "runId st1 \<noteq> runId st0" "all_occur name_setup es st1" "runId st = runId st1" "runId st = 2" "may_occur name_setup st0 e"
    unfolding st_def st1_def st0_def es_def e_def by code_simp+
  have 2: "model_run name_setup st0" unfolding st0_def by (rule name_input_run)
  have 3: "answers 2 es ''free'' = Some True" unfolding es_def by code_simp
  have 4: "run_verdict name_setup e st0 = Some True" "run_model name_setup e st0 = TextValue ''anna''" "run_view name_setup e st0 = TextValue ''anna''"
    by (simp_all add: e_def run_verdict_def run_model_def run_view_def parse_verdict_def parsed_def parsed_model_def name_setup_def)
  have "''free'' \<in> set (pipeline_keys name_setup)" by (simp add: pipeline_keys_def name_setup_def)
  with keys_show_latest_run [OF name_setup_ok 2 1(5) st1_def [THEN meta_eq_to_obj_eq] 1(1,2) st_def [THEN meta_eq_to_obj_eq] 1(3)]
  have "key_state st ''free'' = outcome name_setup (Some True) (TextValue ''anna'') (TextValue ''anna'') (answers 2 es) ''free''"
    "lastCommitted st = TextValue ''anna''"
    unfolding 1(4) 4 by blast+
  moreover have "outcome name_setup (Some True) (TextValue ''anna'') (TextValue ''anna'') (answers 2 es) ''free'' = Boolean True"
    by (simp add: outcome_def 3 syncValid_def isTrue_def isEmpty_def name_setup_def errorKey_def)
  ultimately show ?thesis by simp
qed

text \<open>
  C35. A view value is committed and no \<open>allowInvalid\<close> option is set. When all the asynchronous validators that were
  asked about it have answered and no later run has started, whatever happened in between, the model becomes what
  the parsers made of the committed value if every one of them accepted it, and undefined otherwise; the scope gets
  the model's value unless that is the one that the model had before the commit; validity stays as it is.
\<close>

theorem end_of_run_sets_model:
  assumes "well_set_up cfg" "model_run cfg st0" "may_occur cfg st0 e"
    and "st1 = snd (occur cfg e st0)" "runId st1 \<noteq> runId st0"
    and "all_occur cfg es st1" "st = occurrences cfg es st1" "runId st = runId st1"
    and "committed e st0 = Some v" "\<not> allowInvalid cfg" "may_occur cfg st (AllAnswered (runId st) fin)"
    and "st' = snd (occur cfg (AllAnswered (runId st) fin) st)"
  shows "modelValue st' = (if \<forall>nm\<in>set (map fst (asyncValidators cfg)). answers (runId st) es nm = Some True
       then parsed_model cfg v else NoValue) \<and>
    scopeValue st' = (if identical (modelValue st') (model_before st0) then scopeValue st else modelValue st') \<and>
    page st' = page st"
proof -
  note cur = latest_run(3) [OF assms(1-8)]
  let ?ans = "answers (runId st) es"
  obtain N where N: "N = set (map fst (asyncValidators cfg))" by simp
  have e: "(runId st, fin) \<in> set (ending st)" and quiet: "\<forall>nm. (runId st, nm) \<notin> set (waiting st)"
    using assms(11) by auto
  have "run_end cfg e st0 = CommitDone (parsed_model cfg v) (model_before st0)" using assms(9) by (simp add: run_end_def)
  then have fin: "fin = CommitDone (parsed_model cfg v) (model_before st0)" using cur e unfolding current_def by metis
  have asks: "run_asks cfg (run_verdict cfg e st0) (run_model cfg e st0) (run_view cfg e st0)" using cur e unfolding current_def by metis
  have all: "\<forall>nm\<in>N. ?ans nm \<noteq> None" using cur asks quiet unfolding current_def N by metis
  have "runId st \<in> set (failed st) \<longleftrightarrow> (\<exists>nm\<in>N. ?ans nm = Some False)" using cur asks unfolding current_def N by metis
  then have *: "runId st \<notin> set (failed st) \<longleftrightarrow> (\<forall>nm\<in>N. ?ans nm = Some True)" using all_accepted [OF all] by simp
  obtain ok where ok: "ok \<longleftrightarrow> (\<forall>nm\<in>N. ?ans nm = Some True)" by simp
  have "st' = doneCallback cfg fin ok (st\<lparr>ending := remove1 (runId st, fin) (ending st)\<rparr>)"
    using assms(12) by (simp add: all_answered_def validationDone_def * ok)
  then have "modelValue st' = (if ok then parsed_model cfg v else NoValue) \<and>
      scopeValue st' = (if identical (modelValue st') (model_before st0) then scopeValue st else modelValue st') \<and> page st' = page st"
    using assms(10) by (simp add: fin)
  then show ?thesis unfolding N [symmetric] ok .
qed

theorem end_of_run_sets_model_witness:
  defines "e \<equiv> Input (TextValue ''anna'') ''input''"
    and "es \<equiv> [Answer 2 ''free'' True, ScopeSet NullValue, Answer 1 ''free'' False]"
    and "st0 \<equiv> occurrences name_setup [Elsewhere (Add 0 1), Input (TextValue ''ann'') ''input''] name_input"
    and "fin \<equiv> CommitDone (TextValue ''anna'') NoValue"
  defines "st1 \<equiv> snd (occur name_setup e st0)"
  defines "st \<equiv> occurrences name_setup es st1"
  defines "st' \<equiv> snd (occur name_setup (AllAnswered (runId st) fin) st)"
  shows "modelValue st' = TextValue ''anna'' \<and> scopeValue st' = TextValue ''anna''"
proof -
  have 0: "runId st0 = 1" "runId st1 = 2" "runId st = 2"
    unfolding st_def st1_def st0_def es_def e_def by code_simp+
  have all: "all_occur name_setup es st1" "may_occur name_setup st0 e" unfolding st1_def st0_def es_def e_def by code_simp+
  have wait: "ending st = [(1, CommitDone (TextValue ''ann'') NoValue), (2, fin)]" "waiting st = []"
    unfolding st_def st1_def st0_def es_def e_def fin_def by code_simp+
  have before: "model_before st0 = NoValue" unfolding st0_def by code_simp
  have 1: "runId st1 \<noteq> runId st0" "runId st = runId st1" by (simp_all add: 0)
  have 4: "may_occur name_setup st (AllAnswered (runId st) fin)" by (simp add: 0(3) wait)
  have 5: "\<forall>nm\<in>set (map fst (asyncValidators name_setup)). answers (runId st) es nm = Some True"
    by (simp add: 0(3) es_def answers_def name_setup_def)
  have 2: "model_run name_setup st0" unfolding st0_def by (rule name_input_run)
  have 3: "committed e st0 = Some (TextValue ''anna'')" "\<not> allowInvalid name_setup" "parsed_model name_setup (TextValue ''anna'') = TextValue ''anna''"
    by (simp_all add: e_def allowInvalid_def name_setup_def parsed_model_def parsed_def)
  note res = end_of_run_sets_model [OF name_setup_ok 2 all(2) st1_def [THEN meta_eq_to_obj_eq] 1(1) all(1) st_def [THEN meta_eq_to_obj_eq] 1(2)
      3(1,2) 4 st'_def [THEN meta_eq_to_obj_eq]]
  have "modelValue st' = TextValue ''anna''" by (rule trans [OF res [THEN conjunct1]]) (simp only: if_P [OF 5] 3(3))
  moreover from this have s: "scopeValue st' = TextValue ''anna''"
    using res [THEN conjunct2, THEN conjunct1] by (simp add: before identical_def)
  ultimately show ?thesis by simp
qed

text \<open>
  C36. A view value that is committed at once (an input without a debounce, or the end of one), that differs from
  the one before, and that no asynchronous validator has to be asked about, with no \<open>allowInvalid\<close> option: there is
  no exception, the value is the committed one, every key says what the parsers and the synchronous validators say
  of it, the model is what the parsers made of it if they and all the validators accept it and undefined otherwise,
  the scope gets the model's value if it is new, and the control and all the forms around it are dirty, and none of
  them is valid if one of the keys has an error.
\<close>

theorem commit_updates_model_and_forms:
  assumes "well_set_up cfg" "model_run cfg st" "may_occur cfg st e"
    and "committed e st = Some v" "case e of Input u trigger \<Rightarrow> immediate cfg trigger | _ \<Rightarrow> True"
    and "\<not> (identical (lastCommitted st) v \<and> (v \<noteq> TextValue [] \<or> \<not> hasNativeValidators cfg))" "\<not> allowInvalid cfg"
    and "pv = parse_verdict cfg v" "mv = parsed_model cfg v" "accepted \<longleftrightarrow> pv \<noteq> Some False \<and> syncValid cfg mv v"
    and "asyncValidators cfg = [] \<or> \<not> accepted"
    and "occur cfg e st = (x, st')"
  shows "x = None \<and> lastCommitted st' = v \<and>
    (\<forall>k\<in>set (pipeline_keys cfg). key_state st' k = outcome cfg pv mv v Map.empty k) \<and>
    modelValue st' = (if accepted then mv else NoValue) \<and>
    scopeValue st' = (if identical (modelValue st') (model_before st) then scopeValue st else modelValue st') \<and>
    (\<forall>F<made (page st'). below (page st') F (self st) \<longrightarrow> dirty (ctrl (page st') F) \<and>
       ((\<exists>k\<in>set (pipeline_keys cfg). key_state st' k = Boolean False) \<longrightarrow> valid (ctrl (page st') F) \<noteq> Some True))"
proof -
  have inv: "run_inv cfg st" by (rule model_run_inv [OF assms(2,1)])
  let ?st = "st\<lparr>viewValue := v, pendingDebounce := None\<rparr>"
  have k: "keeps_run cfg Map.empty st ?st" by (rule keeps_fields [OF inv]) simp_all
  have same: "commitViewValue cfg ?st = commitViewValue cfg st" if "v = viewValue st"
    using that by (simp add: commitViewValue_def)
  have occ: "occur cfg e st = commitViewValue cfg ?st"
    using assms(4,5) same by (cases e) (simp_all add: immediate_input)
  have new: "new_view cfg ?st" using assms(6) by (auto simp: new_view_def identical_def)
  have asks: "accepted = run_asks cfg pv mv v" using assms(10) by (simp add: run_asks_def)
  have before: "model_before ?st = model_before st" "scopeValue ?st = scopeValue st" by (simp_all add: model_before_def)
  have inv': "run_inv cfg ?st" using k by (simp add: keeps_run_def)
  have sync: "asyncValidators cfg = [] \<or> \<not> run_asks cfg pv mv v" using assms(11) asks by simp
  have view: "v = viewValue ?st" by simp
  obtain st2 where st2: "commitViewValue cfg ?st = (None, st2)" "model_ok st2" "self st2 = self ?st" "runId st2 = runId ?st + 1" "lastCommitted st2 = v"
    "\<forall>k\<in>set (pipeline_keys cfg). key_state st2 k = outcome cfg pv mv v Map.empty k" "dirty (ctrl (page st2) (self st2))"
    "modelValue st2 = (if accepted then mv else NoValue)"
    "scopeValue st2 = (if identical (modelValue st2) (model_before ?st) then scopeValue ?st else modelValue st2)"
    unfolding asks by (rule commit_result [OF inv' assms(1) new assms(7) view assms(8,9) sync])
  have "x = None" "st' = st2" using assms(12) st2(1) unfolding occ by simp_all
  moreover have "self st2 = self st" using st2(3) by simp
  ultimately show ?thesis
    using st2(5-9) error_shown_above [OF st2(2)] unfolding before by auto
qed

theorem commit_updates_model_and_forms_witness:
  defines "e \<equiv> Input (TextValue ''7'') ''input''"
    and "st \<equiv> occurrences number_setup [Elsewhere (Add 0 1), Input (TextValue ''4'') ''input''] name_input"
  defines "st' \<equiv> snd (occur number_setup e st)"
  shows "scopeValue st = OtherValue 4 \<and> scopeValue st' = NoValue \<and> key_state st' ''max'' = Boolean False \<and>
    valid (ctrl (page st') 0) \<noteq> Some True"
proof -
  have 1: "scopeValue st = OtherValue 4" "may_occur number_setup st e" "lastCommitted st = TextValue ''4''" "model_before st = OtherValue 4"
    "self st = 1" "0 < made (page st')" "parentForm (ctrl (page st') 1) = Some 0" "1 < made (page st')"
    unfolding st'_def st_def e_def by code_simp+
  have 2: "model_run number_setup st" unfolding st_def by (rule number_input_run)
  have 3: "committed e st = Some (TextValue ''7'')" "case e of Input u trigger \<Rightarrow> immediate number_setup trigger | _ \<Rightarrow> True"
      "\<not> (identical (lastCommitted st) (TextValue ''7'') \<and> (TextValue ''7'' \<noteq> TextValue [] \<or> \<not> hasNativeValidators number_setup))"
      "\<not> allowInvalid number_setup" "asyncValidators number_setup = [] \<or> \<not> False"
    by (simp_all add: e_def 1(3) immediate_def debounceDelay_def allowInvalid_def identical_def number_setup_def)
  have 4: "Some True = parse_verdict number_setup (TextValue ''7'')" "OtherValue 7 = parsed_model number_setup (TextValue ''7'')"
    by code_simp+
  have 5: "False \<longleftrightarrow> Some True \<noteq> Some False \<and> syncValid number_setup (OtherValue 7) (TextValue ''7'')" by code_simp
  have "occur number_setup e st = (fst (occur number_setup e st), st')" by (simp add: st'_def)
  note res = commit_updates_model_and_forms [OF number_setup_ok 2 1(2) 3(1-4) 4 5 3(5) this]
  have "''max'' \<in> set (pipeline_keys number_setup)" by (simp add: pipeline_keys_def number_setup_def)
  moreover have "outcome number_setup (Some True) (OtherValue 7) (TextValue ''7'') Map.empty ''max'' = Boolean False" by code_simp
  ultimately have k: "key_state st' ''max'' = Boolean False" and in_keys: "\<exists>k\<in>set (pipeline_keys number_setup). key_state st' k = Boolean False"
    using res by metis+
  have "modelValue st' = NoValue" using res by simp
  then have s: "scopeValue st' = NoValue" using res by (simp add: 1(4) identical_def)
  have "below (page st') 0 1" using 1(7,8) below.here [of "page st'" 0] by (intro below.deeper [of _ 0 0 1]) (simp_all add: child_of_def)
  with res 1(5,6) in_keys have "valid (ctrl (page st') 0) \<noteq> Some True" by simp
  with 1(1) s k show ?thesis by blast
qed

end
