(* ===== verification/NgInjector.thy ===== *)
theory NgInjector
  imports Prelude
begin

text \<open>
  The injector: \<open>createInjector\<close> in \<open>assets/public/components/angular/angular.js\<close>. Services are made on
  demand from their providers; a marker in the cache finds circular dependencies, and the path of services
  that are being made is what the error messages show. A function comes with the names it is annotated with
  and is a function of the services it gets, \<open>None\<close> being \<open>undefined\<close>.
\<close>

section \<open>State\<close>

datatype 'a reply = Gives "'a option" | Throws nat

type_synonym 'a body = "'a option list \<Rightarrow> 'a reply"

text \<open>
  The function \<open>$get\<close> of a provider: one that was passed to \<open>provider\<close>, and those that \<open>factory\<close>,
  \<open>service\<close> and \<open>decorator\<close> make.
\<close>

datatype 'a getfn =
  Plain "string list" "'a body"
| Enforced string "string list" "'a body"
| Service string "string list" "'a body"
| Decorated "'a getfn" "string list" "'a body"

datatype 'a slot = Instantiating | Ready "'a option"

record 'a injector =
  providerCache :: "(string \<times> 'a getfn) list"
  instanceCache :: "string \<Rightarrow> 'a slot option"
  path :: "string list"

datatype inj_error =
  Unpr "string list"
| Cdep "string list"
| Undef string
| ThrownBy nat
| BadServiceName string
| NoModule string
| ModuleErr string inj_error
| OutOfFuel

type_synonym ('a, 'b) injecting = "'a injector \<Rightarrow> (inj_error + 'b) \<times> 'a injector"

text \<open>The next step, unless there is an exception.\<close>

definition next_step :: "(inj_error + 'b) \<times> 'a injector \<Rightarrow> ('b \<Rightarrow> ('a, 'c) injecting) \<Rightarrow> (inj_error + 'c) \<times> 'a injector" where
  "next_step r f = (case r of (Inl e, st) \<Rightarrow> (Inl e, st) | (Inr x, st) \<Rightarrow> f x st)"

section \<open>Getting services\<close>

text \<open>\<open>injectionArgs\<close>, with the function that gets a service for a caller.\<close>

fun injectionArgs :: "(string \<Rightarrow> string option \<Rightarrow> ('a, 'a option) injecting) \<Rightarrow> (string \<rightharpoonup> 'a option) \<Rightarrow> string list \<Rightarrow>
    string option \<Rightarrow> ('a, 'a option list) injecting" where
  "injectionArgs get locals [] serviceName st = (Inr [], st)"
| "injectionArgs get locals (key # keys) serviceName st =
     next_step (case locals key of Some v \<Rightarrow> (Inr v, st) | None \<Rightarrow> get key serviceName st)
       (\<lambda>v st. next_step (injectionArgs get locals keys serviceName st) (\<lambda>vs st. (Inr (v # vs), st)))"

definition invoke :: "(string \<Rightarrow> string option \<Rightarrow> ('a, 'a option) injecting) \<Rightarrow> string list \<Rightarrow> 'a body \<Rightarrow> (string \<rightharpoonup> 'a option) \<Rightarrow>
    string option \<Rightarrow> ('a, 'a option) injecting" where
  "invoke get inject body locals serviceName st =
     next_step (injectionArgs get locals inject serviceName st)
       (\<lambda>args st. (case body args of Gives v \<Rightarrow> Inr v | Throws e \<Rightarrow> Inl (ThrownBy e), st))"

definition enforceReturnValue :: "string \<Rightarrow> (inj_error + 'a option) \<times> 'a injector \<Rightarrow> (inj_error + 'a option) \<times> 'a injector" where
  "enforceReturnValue nm r = next_step r (\<lambda>v st. (if v = None then Inl (Undef nm) else Inr v, st))"

fun call_get :: "(string \<Rightarrow> string option \<Rightarrow> ('a, 'a option) injecting) \<Rightarrow> 'a getfn \<Rightarrow> string option \<Rightarrow> ('a, 'a option) injecting" where
  "call_get get (Plain inject body) serviceName st = invoke get inject body Map.empty serviceName st"
| "call_get get (Enforced nm inject body) serviceName st = enforceReturnValue nm (invoke get inject body Map.empty None st)"
| "call_get get (Service nm inject body) serviceName st =
     enforceReturnValue nm (next_step (get ''$injector'' None st) (\<lambda>_. invoke get inject body Map.empty None))"
| "call_get get (Decorated orig inject body) serviceName st =
     next_step (call_get get orig None st) (\<lambda>inst. invoke get inject body [''$delegate'' \<mapsto> inst] None)"

text \<open>The provider injector's \<open>get\<close> of a provider, with the path and the caller in the error.\<close>

definition getProvider :: "string \<Rightarrow> string option \<Rightarrow> ('a, 'a getfn) injecting" where
  "getProvider nm caller st =
     (case map_of (providerCache st) nm of
        Some g \<Rightarrow> (Inr g, st)
      | None \<Rightarrow>
          let st = st\<lparr>path := (nm @ ''Provider'') # path st\<rparr>;
              st = (case caller of None \<Rightarrow> st | Some c \<Rightarrow> st\<lparr>path := path st @ [c]\<rparr>)
          in (Inl (Unpr (path st)), st\<lparr>path := tl (path st)\<rparr>))"

text \<open>The instance injector's \<open>getService\<close>; the fuel bounds how deep services are made for services.\<close>

definition set_slot :: "string \<Rightarrow> 'a slot option \<Rightarrow> 'a injector \<Rightarrow> 'a injector" where
  "set_slot nm s st = st\<lparr>instanceCache := (instanceCache st)(nm := s)\<rparr>"

fun getService :: "nat \<Rightarrow> string \<Rightarrow> string option \<Rightarrow> ('a, 'a option) injecting" where
  "getService 0 nm caller st = (Inl OutOfFuel, st)"
| "getService (Suc n) nm caller st =
     (case instanceCache st nm of
        Some Instantiating \<Rightarrow> (Inl (Cdep (nm # path st)), st)
      | Some (Ready v) \<Rightarrow> (Inr v, st)
      | None \<Rightarrow>
          let st = set_slot nm (Some Instantiating) (st\<lparr>path := nm # path st\<rparr>) in
          (case next_step (getProvider nm caller st) (\<lambda>g. call_get (getService n) g (Some nm)) of
             (Inr v, st) \<Rightarrow> (let st = set_slot nm (Some (Ready v)) st in (Inr v, st\<lparr>path := tl (path st)\<rparr>))
           | (Inl e, st) \<Rightarrow>
               (let st = (if instanceCache st nm = Some Instantiating then set_slot nm None st else st)
                in (Inl e, st\<lparr>path := tl (path st)\<rparr>))))"

definition enough_fuel :: "'a injector \<Rightarrow> nat" where
  "enough_fuel st = length (providerCache st) + 2"

section \<open>Registering\<close>

text \<open>What the functions of \<open>$provide\<close> are called with, as the queues of a module have it.\<close>

datatype 'a registration =
  Provider string "'a getfn"
| Factory string "string list" "'a body"
| MakeService string "string list" "'a body"
| Value string "'a option"
| Constant string "'a option"
| Decorator string "string list" "'a body"

definition provider :: "string \<Rightarrow> 'a getfn \<Rightarrow> ('a, unit) injecting" where
  "provider nm g st =
     (if nm = ''hasOwnProperty'' then (Inl (BadServiceName nm), st)
      else (Inr (), st\<lparr>providerCache := (nm, g) # filter (\<lambda>(k, _). k \<noteq> nm) (providerCache st)\<rparr>))"

definition constantFn :: "string \<Rightarrow> 'a option \<Rightarrow> ('a, unit) injecting" where
  "constantFn nm v st =
     (if nm = ''hasOwnProperty'' then (Inl (BadServiceName nm), st) else (Inr (), set_slot nm (Some (Ready v)) st))"

definition decorator :: "string \<Rightarrow> string list \<Rightarrow> 'a body \<Rightarrow> ('a, unit) injecting" where
  "decorator nm inject body st =
     next_step (getProvider nm None st)
       (\<lambda>orig st. (Inr (), st\<lparr>providerCache := (nm, Decorated orig inject body) # filter (\<lambda>(k, _). k \<noteq> nm) (providerCache st)\<rparr>))"

fun register :: "'a registration \<Rightarrow> ('a, unit) injecting" where
  "register (Provider nm g) st = provider nm g st"
| "register (Factory nm inject body) st = provider nm (Enforced nm inject body) st"
| "register (MakeService nm inject body) st = provider nm (Service nm inject body) st"
| "register (Value nm v) st = provider nm (Plain [] (\<lambda>_. Gives v)) st"
| "register (Constant nm v) st = constantFn nm v st"
| "register (Decorator nm inject body) st = decorator nm inject body st"

fun runInvokeQueue :: "'a registration list \<Rightarrow> ('a, unit) injecting" where
  "runInvokeQueue [] st = (Inr (), st)"
| "runInvokeQueue (q # qs) st = next_step (register q st) (\<lambda>_. runInvokeQueue qs)"

section \<open>Loading modules\<close>

record 'a module_def =
  requires :: "string list"
  invokeQueue :: "'a registration list"
  configBlocks :: "'a registration list"
  runBlocks :: "(string list \<times> 'a body) list"

text \<open>\<open>loadedModules\<close> has the modules in the order they were reached, \<open>configured\<close> in the order their queues were run.\<close>

record 'a loading =
  inj :: "'a injector"
  loadedModules :: "string list"
  configured :: "string list"
  collected :: "(string list \<times> 'a body) list"

definition run_queues :: "string \<Rightarrow> 'a module_def \<Rightarrow> 'a loading \<Rightarrow> inj_error + 'a loading" where
  "run_queues nm m ld =
     (case next_step (runInvokeQueue (invokeQueue m) (inj ld)) (\<lambda>_. runInvokeQueue (configBlocks m)) of
        (Inl e, _) \<Rightarrow> Inl (ModuleErr nm e)
      | (Inr _, st) \<Rightarrow> Inr (ld\<lparr>inj := st, configured := configured ld @ [nm], collected := collected ld @ runBlocks m\<rparr>))"

fun each_module :: "(string \<Rightarrow> 'a loading \<Rightarrow> inj_error + 'a loading) \<Rightarrow> string list \<Rightarrow> 'a loading \<Rightarrow> inj_error + 'a loading" where
  "each_module load [] ld = Inr ld"
| "each_module load (nm # nms) ld = (case load nm ld of Inl e \<Rightarrow> Inl e | Inr ld \<Rightarrow> each_module load nms ld)"

fun loadModule :: "nat \<Rightarrow> (string \<times> 'a module_def) list \<Rightarrow> string \<Rightarrow> 'a loading \<Rightarrow> inj_error + 'a loading" where
  "loadModule 0 ms nm ld = Inl OutOfFuel"
| "loadModule (Suc n) ms nm ld =
     (if nm \<in> set (loadedModules ld) then Inr ld
      else let ld = ld\<lparr>loadedModules := loadedModules ld @ [nm]\<rparr> in
        (case map_of ms nm of
           None \<Rightarrow> Inl (ModuleErr nm (NoModule nm))
         | Some m \<Rightarrow>
             (case each_module (loadModule n ms) (requires m) ld of
                Inl e \<Rightarrow> Inl (ModuleErr nm e)
              | Inr ld \<Rightarrow> run_queues nm m ld)))"

definition loadModules :: "(string \<times> 'a module_def) list \<Rightarrow> string list \<Rightarrow> 'a injector \<Rightarrow> inj_error + 'a loading" where
  "loadModules ms nms st =
     each_module (loadModule (length ms + 2) ms) nms \<lparr>inj = st, loadedModules = [], configured = [], collected = []\<rparr>"

fun run_blocks :: "(string list \<times> 'a body) list \<Rightarrow> ('a, unit) injecting" where
  "run_blocks [] st = (Inr (), st)"
| "run_blocks ((inject, body) # bs) st =
     next_step (invoke (getService (enough_fuel st)) inject body Map.empty None st) (\<lambda>_. run_blocks bs)"

text \<open>The injector of some modules; \<open>injector_value\<close> is the injector as the service \<open>$injector\<close>.\<close>

definition createInjector :: "'a \<Rightarrow> (string \<times> 'a module_def) list \<Rightarrow> string list \<Rightarrow> (inj_error + unit) \<times> 'a injector" where
  "createInjector injector_value ms nms =
     (let st = \<lparr>providerCache = [(''$injector'', Plain [] (\<lambda>_. Gives (Some injector_value)))], instanceCache = Map.empty, path = []\<rparr> in
      case loadModules ms nms st of
        Inl e \<Rightarrow> (Inl e, st)
      | Inr ld \<Rightarrow> next_step (getService (enough_fuel (inj ld)) ''$injector'' None (inj ld)) (\<lambda>_. run_blocks (collected ld)))"

end
