(* ===== verification/NgInjectorInv.thy ===== *)
theory NgInjectorInv
  imports NgInjector
begin

text \<open>
  What the injector makes: a service is returned exactly when it can be made from its providers, and an
  error leaves no service half made. Modules are configured once each, after the modules they require.
\<close>

section \<open>What can be made\<close>

text \<open>What a decorator gets: the service it decorates as \<open>$delegate\<close>, and services.\<close>

definition or_delegate :: "'a option \<Rightarrow> (string \<Rightarrow> 'a option \<Rightarrow> bool) \<Rightarrow> string \<Rightarrow> 'a option \<Rightarrow> bool" where
  "or_delegate d M k w \<longleftrightarrow> (if k = ''$delegate'' then w = d else M k w)"

text \<open>The values a \<open>$get\<close> function can return when the services it asks for have values as \<open>M\<close> says.\<close>

fun gives :: "(string \<Rightarrow> 'a option \<Rightarrow> bool) \<Rightarrow> 'a getfn \<Rightarrow> 'a option \<Rightarrow> bool" where
  "gives M (Plain inject body) v \<longleftrightarrow> (\<exists>vs. list_all2 M inject vs \<and> body vs = Gives v)"
| "gives M (Enforced nm inject body) v \<longleftrightarrow> v \<noteq> None \<and> (\<exists>vs. list_all2 M inject vs \<and> body vs = Gives v)"
| "gives M (Service nm inject body) v \<longleftrightarrow> v \<noteq> None \<and> (\<exists>i. M ''$injector'' i) \<and> (\<exists>vs. list_all2 M inject vs \<and> body vs = Gives v)"
| "gives M (Decorated orig inject body) v \<longleftrightarrow>
     (\<exists>d vs. gives M orig d \<and> list_all2 (or_delegate d M) inject vs \<and> body vs = Gives v)"

text \<open>What can be made with at most \<open>h\<close> services for one another, from the providers \<open>P\<close> and the services \<open>C\<close>.\<close>

fun makes_in :: "(string \<rightharpoonup> 'a getfn) \<Rightarrow> (string \<rightharpoonup> 'a slot) \<Rightarrow> nat \<Rightarrow> string \<Rightarrow> 'a option \<Rightarrow> bool" where
  "makes_in P C 0 nm v \<longleftrightarrow> False"
| "makes_in P C (Suc h) nm v \<longleftrightarrow>
     (case C nm of Some s \<Rightarrow> s = Ready v | None \<Rightarrow> (case P nm of None \<Rightarrow> False | Some g \<Rightarrow> gives (makes_in P C h) g v))"

definition makes :: "(string \<rightharpoonup> 'a getfn) \<Rightarrow> (string \<rightharpoonup> 'a slot) \<Rightarrow> string \<Rightarrow> 'a option \<Rightarrow> bool" where
  "makes P C nm v \<longleftrightarrow> (\<exists>h. makes_in P C h nm v)"

fun wants :: "'a getfn \<Rightarrow> string \<Rightarrow> bool" where
  "wants (Plain inject body) k \<longleftrightarrow> k \<in> set inject"
| "wants (Enforced nm inject body) k \<longleftrightarrow> k \<in> set inject"
| "wants (Service nm inject body) k \<longleftrightarrow> k = ''$injector'' \<or> k \<in> set inject"
| "wants (Decorated orig inject body) k \<longleftrightarrow> wants orig k \<or> k \<noteq> ''$delegate'' \<and> k \<in> set inject"

definition depends :: "(string \<rightharpoonup> 'a getfn) \<Rightarrow> string \<Rightarrow> string \<Rightarrow> bool" where
  "depends P x y \<longleftrightarrow> (\<exists>g. P x = Some g \<and> wants g y)"

lemma gives_mono: "gives M g v \<Longrightarrow> (\<And>k w. M k w \<Longrightarrow> M' k w) \<Longrightarrow> gives M' g v"
proof (induction g arbitrary: v)
  case (Decorated orig inject body)
  obtain d vs where d: "gives M orig d" "list_all2 (or_delegate d M) inject vs" "body vs = Gives v"
    using Decorated.prems(1) by auto
  have "list_all2 (or_delegate d M') inject vs"
    by (rule list_all2_mono [OF d(2)]) (simp add: or_delegate_def Decorated.prems(2) split: if_splits)
  moreover have "gives M' orig d" using Decorated.IH [OF d(1) Decorated.prems(2)] .
  ultimately show ?case using d(3) by auto
qed (auto intro: list_all2_mono)

lemma makes_in_mono: "makes_in P C h nm v \<Longrightarrow> h \<le> h' \<Longrightarrow> makes_in P C h' nm v"
proof (induction h arbitrary: h' nm v)
  case (Suc h)
  obtain k where k: "h' = Suc k" "h \<le> k" using Suc.prems(2) by (cases h') auto
  have "gives (makes_in P C h) g v \<Longrightarrow> gives (makes_in P C k) g v" for g
    by (erule gives_mono) (erule Suc.IH [OF _ k(2)])
  with Suc.prems(1) k(1) show ?case by (auto split: option.splits)
qed simp

definition single :: "('k \<Rightarrow> 'v \<Rightarrow> bool) \<Rightarrow> bool" where
  "single M \<longleftrightarrow> (\<forall>k v w. M k v \<longrightarrow> M k w \<longrightarrow> v = w)"

lemma list_all2_unique:
  assumes "list_all2 M ks vs" "list_all2 M ks ws" "single M"
  shows "vs = ws"
proof -
  from assms(1) have "\<forall>ws. list_all2 M ks ws \<longrightarrow> vs = ws"
  proof (induction rule: list_all2_induct)
    case (Cons k ks v vs)
    then show ?case using assms(3) unfolding list_all2_Cons1 single_def by blast
  qed simp
  with assms(2) show ?thesis by blast
qed

lemma or_delegate_single: "single M \<Longrightarrow> single (or_delegate d M)"
  by (simp add: single_def or_delegate_def)

lemma gives_unique: "single M \<Longrightarrow> gives M g v \<Longrightarrow> gives M g w \<Longrightarrow> v = w"
proof (induction g arbitrary: v w)
  case (Decorated orig inject body)
  obtain d vs where d: "gives M orig d" "list_all2 (or_delegate d M) inject vs" "body vs = Gives v"
    using Decorated.prems(2) by auto
  obtain e ws where e: "gives M orig e" "list_all2 (or_delegate e M) inject ws" "body ws = Gives w"
    using Decorated.prems(3) by auto
  have "d = e" by (rule Decorated.IH [OF Decorated.prems(1) d(1) e(1)])
  with d(2) e(2) have "vs = ws" using list_all2_unique or_delegate_single [OF Decorated.prems(1)] by blast
  with d(3) e(3) show ?case by simp
next
  case (Plain inject body)
  then obtain vs ws where b: "list_all2 M inject vs" "body vs = Gives v" "list_all2 M inject ws" "body ws = Gives w" by auto
  have "vs = ws" by (rule list_all2_unique [OF b(1,3) Plain(1)])
  with b show ?case by simp
next
  case (Enforced nm inject body)
  then obtain vs ws where b: "list_all2 M inject vs" "body vs = Gives v" "list_all2 M inject ws" "body ws = Gives w" by auto
  have "vs = ws" by (rule list_all2_unique [OF b(1,3) Enforced(1)])
  with b show ?case by simp
next
  case (Service nm inject body)
  then obtain vs ws where b: "list_all2 M inject vs" "body vs = Gives v" "list_all2 M inject ws" "body ws = Gives w" by auto
  have "vs = ws" by (rule list_all2_unique [OF b(1,3) Service(1)])
  with b show ?case by simp
qed

lemma makes_in_single: "single (makes_in P C h)"
proof (induction h)
  case (Suc h)
  then show ?case unfolding single_def using gives_unique [OF Suc] by (auto split: option.splits)
qed (simp add: single_def)

lemma makes_unique: "makes P C nm v \<Longrightarrow> makes P C nm w \<Longrightarrow> v = w"
proof -
  assume "makes P C nm v" "makes P C nm w"
  then obtain h k where "makes_in P C h nm v" "makes_in P C k nm w" unfolding makes_def by blast
  then have "makes_in P C (max h k) nm v" "makes_in P C (max h k) nm w" by (simp_all add: makes_in_mono)
  then show "v = w" using makes_in_single [of P C "max h k"] unfolding single_def by blast
qed

text \<open>Finitely many services that can be made can be made within one bound.\<close>

lemma list_all2_bounded:
  assumes "list_all2 (\<lambda>k v. \<exists>h. M h k v) ks vs" "\<And>h h' k v. M h k v \<Longrightarrow> h \<le> h' \<Longrightarrow> M h' k v"
  shows "\<exists>h::nat. list_all2 (M h) ks vs"
  using assms(1)
proof (induction rule: list_all2_induct)
  case (Cons k ks v vs)
  then obtain h1 h2 where "M h1 k v" "list_all2 (M h2) ks vs" by blast
  have "M (max h1 h2) k v" by (rule assms(2) [OF \<open>M h1 k v\<close>]) simp
  moreover have "list_all2 (M (max h1 h2)) ks vs" by (rule list_all2_mono [OF \<open>list_all2 (M h2) ks vs\<close>]) (erule assms(2), simp)
  ultimately show ?case by auto
qed simp

lemma args_bounded:
  assumes "list_all2 (makes P C) ks vs"
  obtains h where "list_all2 (makes_in P C h) ks vs"
  using list_all2_bounded [of "makes_in P C" ks vs] assms makes_in_mono [of P C] unfolding makes_def [abs_def] by blast

lemma gives_up: "gives (makes_in P C h) g v \<Longrightarrow> h \<le> h' \<Longrightarrow> gives (makes_in P C h') g v"
  by (erule gives_mono) (erule makes_in_mono)

lemma args_up: "list_all2 (makes_in P C h) ks vs \<Longrightarrow> h \<le> h' \<Longrightarrow> list_all2 (makes_in P C h') ks vs"
  by (erule list_all2_mono) (erule makes_in_mono)

lemma gives_bounded:
  assumes "gives (makes P C) g v"
  shows "\<exists>h. gives (makes_in P C h) g v"
  using assms
proof (induction g arbitrary: v)
  case (Plain inject body)
  then obtain vs where vs: "list_all2 (makes P C) inject vs" "body vs = Gives v" by auto
  from vs(1) obtain h where "list_all2 (makes_in P C h) inject vs" by (rule args_bounded)
  with vs(2) show ?case by auto
next
  case (Enforced nm inject body)
  then obtain vs where vs: "list_all2 (makes P C) inject vs" "body vs = Gives v" "v \<noteq> None" by auto
  from vs(1) obtain h where "list_all2 (makes_in P C h) inject vs" by (rule args_bounded)
  with vs(2,3) show ?case by auto
next
  case (Service nm inject body)
  then obtain i vs where i0: "makes P C ''$injector'' i" and i: "list_all2 (makes P C) inject vs" "body vs = Gives v" "v \<noteq> None" by auto
  from i0 obtain h1 where h1: "makes_in P C h1 ''$injector'' i" by (auto simp: makes_def)
  from i(1) obtain h2 where h2: "list_all2 (makes_in P C h2) inject vs" by (rule args_bounded)
  have "makes_in P C (max h1 h2) ''$injector'' i" by (rule makes_in_mono [OF h1]) simp
  moreover have "list_all2 (makes_in P C (max h1 h2)) inject vs" by (rule args_up [OF h2]) simp
  ultimately show ?case using i(2,3) by (intro exI [of _ "max h1 h2"]) auto
next
  case (Decorated orig inject body)
  then obtain d vs where d: "gives (makes P C) orig d" "list_all2 (or_delegate d (makes P C)) inject vs" "body vs = Gives v" by auto
  let ?M = "\<lambda>h. or_delegate d (makes_in P C h)"
  have up: "?M h k w \<Longrightarrow> h \<le> h' \<Longrightarrow> ?M h' k w" for h h' k w
    by (cases "k = ''$delegate''") (auto simp: or_delegate_def intro: makes_in_mono)
  obtain h1 where h1: "gives (makes_in P C h1) orig d" using Decorated.IH [OF d(1)] by blast
  have "list_all2 (\<lambda>k w. \<exists>h. ?M h k w) inject vs"
    by (rule list_all2_mono [OF d(2)]) (auto simp: or_delegate_def makes_def)
  then obtain h2 where h2: "list_all2 (?M h2) inject vs" using list_all2_bounded [of ?M inject vs] up by blast
  have "gives (makes_in P C (max h1 h2)) orig d" by (rule gives_up [OF h1]) simp
  moreover have "list_all2 (?M (max h1 h2)) inject vs" by (rule list_all2_mono [OF h2]) (erule up, simp)
  ultimately show ?case using d(3) by (intro exI [of _ "max h1 h2"]) auto
qed

lemma makes_iff:
  "makes P C nm v \<longleftrightarrow> (case C nm of Some s \<Rightarrow> s = Ready v | None \<Rightarrow> (case P nm of None \<Rightarrow> False | Some g \<Rightarrow> gives (makes P C) g v))"
proof
  assume "makes P C nm v"
  then obtain h where h: "makes_in P C (Suc h) nm v" unfolding makes_def by (metis makes_in.simps(1) not0_implies_Suc)
  have "gives (makes P C) g v" if "gives (makes_in P C h) g v" for g by (rule gives_mono [OF that]) (auto simp: makes_def)
  with h show "case C nm of Some s \<Rightarrow> s = Ready v | None \<Rightarrow> (case P nm of None \<Rightarrow> False | Some g \<Rightarrow> gives (makes P C) g v)"
    by (auto split: option.splits)
next
  assume r: "case C nm of Some s \<Rightarrow> s = Ready v | None \<Rightarrow> (case P nm of None \<Rightarrow> False | Some g \<Rightarrow> gives (makes P C) g v)"
  show "makes P C nm v"
  proof (cases "C nm")
    case None
    then obtain g where "P nm = Some g" "gives (makes P C) g v" using r by (auto split: option.splits)
    with gives_bounded [of P C g v] None obtain h where "makes_in P C (Suc h) nm v" by auto
    then show ?thesis unfolding makes_def by blast
  next
    case (Some s)
    then have "makes_in P C (Suc 0) nm v" using r by simp
    then show ?thesis unfolding makes_def by blast
  qed
qed

section \<open>The contract of a getter\<close>

text \<open>
  Making services leaves the providers and the services that are there alone and leaves no new one half made;
  only an error about an unknown provider leaves something on the path, at its end.
\<close>

definition extends :: "(inj_error + 'b) \<Rightarrow> 'a injector \<Rightarrow> 'a injector \<Rightarrow> bool" where
  "extends r st st' \<longleftrightarrow> providerCache st' = providerCache st \<and>
     (\<forall>nm. instanceCache st nm \<noteq> None \<longrightarrow> instanceCache st' nm = instanceCache st nm) \<and>
     (\<forall>nm. instanceCache st nm = None \<longrightarrow> instanceCache st' nm \<noteq> Some Instantiating) \<and>
     (\<exists>stale. path st' = path st @ stale \<and> (stale \<noteq> [] \<longrightarrow> (\<exists>p. r = Inl (Unpr p))))"

lemma extends_refl [simp]: "extends r st st"
  by (simp add: extends_def)

lemma extends_step:
  assumes "extends (Inr x) st st1" "extends r st1 st2"
  shows "extends r st st2"
proof -
  have "instanceCache st2 nm \<noteq> Some Instantiating" if "instanceCache st nm = None" for nm
  proof (cases "instanceCache st1 nm")
    case None
    then show ?thesis using assms(2) by (simp add: extends_def)
  next
    case (Some s)
    then show ?thesis using assms that unfolding extends_def by (metis option.distinct(1))
  qed
  moreover have "instanceCache st2 nm = instanceCache st nm" if "instanceCache st nm \<noteq> None" for nm
    using assms that unfolding extends_def by metis
  moreover have "\<exists>stale. path st2 = path st @ stale \<and> (stale \<noteq> [] \<longrightarrow> (\<exists>p. r = Inl (Unpr p)))"
    using assms unfolding extends_def by auto
  moreover have "providerCache st2 = providerCache st" using assms unfolding extends_def by simp
  ultimately show ?thesis unfolding extends_def by blast
qed

lemma extends_inr: "extends (Inr x) st st' \<longleftrightarrow> extends (Inr y) st st'"
  by (simp add: extends_def)

text \<open>
  A getter under a condition \<open>inv\<close> that making services keeps: it gives the names that are wanted values that can
  be \<open>made\<close>, or one of the errors \<open>err\<close>.
\<close>

locale getter =
  fixes get :: "string \<Rightarrow> string option \<Rightarrow> 'a injector \<Rightarrow> (inj_error + 'a option) \<times> 'a injector"
    and inv :: "'a injector \<Rightarrow> bool" and wanted :: "string \<Rightarrow> bool"
    and made :: "string \<Rightarrow> 'a option \<Rightarrow> bool" and err :: "inj_error \<Rightarrow> bool"
  assumes get_ok: "inv st \<Longrightarrow> wanted nm \<Longrightarrow> get nm caller st = (r, st') \<Longrightarrow>
      inv st' \<and> extends r st st' \<and> (case r of Inl e \<Rightarrow> err e | Inr v \<Rightarrow> made nm v)"
    and own_errors: "err (Undef nm)" "err (ThrownBy n)"
begin

lemma args_ok:
  assumes "inv st" "\<forall>k\<in>set keys. locals k = None \<longrightarrow> wanted k" "injectionArgs get locals keys caller st = (r, st')"
  shows "inv st' \<and> extends r st st' \<and>
    (case r of Inl e \<Rightarrow> err e | Inr vs \<Rightarrow> list_all2 (\<lambda>k v. case locals k of Some w \<Rightarrow> v = w | None \<Rightarrow> made k v) keys vs)"
  using assms
proof (induction keys arbitrary: st r st')
  case (Cons k ks)
  obtain r1 st1 where one: "(case locals k of Some v \<Rightarrow> (Inr v, st) | None \<Rightarrow> get k caller st) = (r1, st1)" by (rule prod.exhaust)
  have ok1: "inv st1 \<and> extends r1 st st1 \<and>
      (case r1 of Inl e \<Rightarrow> err e | Inr v \<Rightarrow> (case locals k of Some w \<Rightarrow> v = w | None \<Rightarrow> made k v))"
  proof (cases "locals k")
    case None
    then show ?thesis using get_ok [of st k caller r1 st1] one Cons.prems(1,2) by (simp split: sum.splits)
  next
    case (Some w)
    then show ?thesis using one Cons.prems(1) by auto
  qed
  show ?case
  proof (cases r1)
    case (Inl e)
    then have "r = Inl e" "st' = st1" using Cons.prems(3) by (simp_all add: one next_step_def)
    with ok1 Inl show ?thesis by (simp add: extends_def)
  next
    case (Inr v)
    obtain r2 st2 where two: "injectionArgs get locals ks caller st1 = (r2, st2)" by (rule prod.exhaust)
    have ok2: "inv st2 \<and> extends r2 st1 st2 \<and>
        (case r2 of Inl e \<Rightarrow> err e | Inr vs \<Rightarrow> list_all2 (\<lambda>k v. case locals k of Some w \<Rightarrow> v = w | None \<Rightarrow> made k v) ks vs)"
      using ok1 Cons.prems(2) by (intro Cons.IH [OF _ _ two]) simp_all
    have ext: "extends r2 st st2" by (rule extends_step [OF _ conjunct1 [OF conjunct2 [OF ok2]]]) (use ok1 Inr in blast)
    show ?thesis
    proof (cases r2)
      case Inl': (Inl e)
      then have "r = Inl e" "st' = st2" using Cons.prems(3) by (simp_all add: one two Inr next_step_def)
      with ok2 ext Inl' show ?thesis by (simp add: extends_def)
    next
      case Inr': (Inr vs)
      then have "r = Inr (v # vs)" "st' = st2" using Cons.prems(3) by (simp_all add: one two Inr next_step_def)
      with ok1 ok2 ext Inr Inr' show ?thesis by (simp add: extends_def)
    qed
  qed
qed auto

lemma invoke_ok:
  assumes "inv st" "\<forall>k\<in>set keys. locals k = None \<longrightarrow> wanted k" "invoke get keys body locals caller st = (r, st')"
  shows "inv st' \<and> extends r st st' \<and>
    (case r of Inl e \<Rightarrow> err e
     | Inr v \<Rightarrow> (\<exists>vs. list_all2 (\<lambda>k v. case locals k of Some w \<Rightarrow> v = w | None \<Rightarrow> made k v) keys vs \<and> body vs = Gives v))"
proof -
  obtain r1 st1 where one: "injectionArgs get locals keys caller st = (r1, st1)" by (rule prod.exhaust)
  note ok = args_ok [OF assms(1,2) one]
  show ?thesis
  proof (cases r1)
    case (Inl e)
    then have "r = Inl e" "st' = st1" using assms(3) by (simp_all add: invoke_def one next_step_def)
    with ok Inl show ?thesis by (simp add: extends_def)
  next
    case (Inr vs)
    then have "st' = st1" "r = (case body vs of Gives v \<Rightarrow> Inr v | Throws e \<Rightarrow> Inl (ThrownBy e))"
      using assms(3) by (simp_all add: invoke_def one next_step_def)
    with ok Inr own_errors(2) show ?thesis by (cases "body vs") (auto simp: extends_def)
  qed
qed

lemma enforced_ok:
  assumes "inv st" "\<forall>k\<in>set keys. wanted k"
    "enforceReturnValue nm (invoke get keys body Map.empty caller st) = (r, st')"
  shows "inv st' \<and> extends r st st' \<and> (case r of Inl e \<Rightarrow> err e | Inr v \<Rightarrow> gives made (Enforced nm keys body) v)"
proof -
  obtain r1 st1 where one: "invoke get keys body Map.empty caller st = (r1, st1)" by (rule prod.exhaust)
  have ok: "inv st1 \<and> extends r1 st st1 \<and> (case r1 of Inl e \<Rightarrow> err e | Inr v \<Rightarrow> \<exists>vs. list_all2 made keys vs \<and> body vs = Gives v)"
    using invoke_ok [where locals = Map.empty, OF assms(1) _ one] assms(2) by (simp split: sum.splits)
  show ?thesis
  proof (cases r1)
    case (Inl e)
    then have "r = Inl e" "st' = st1" using assms(3) by (simp_all add: one next_step_def enforceReturnValue_def)
    with ok Inl show ?thesis by (simp add: extends_def)
  next
    case (Inr v)
    then have "st' = st1" "r = (if v = None then Inl (Undef nm) else Inr v)"
      using assms(3) by (simp_all add: one next_step_def enforceReturnValue_def)
    with ok Inr own_errors(1) show ?thesis by (cases "v = None") (auto simp: extends_def)
  qed
qed

lemma call_get_ok:
  assumes "inv st" "\<forall>k. wants g k \<longrightarrow> wanted k" "call_get get g caller st = (r, st')"
  shows "inv st' \<and> extends r st st' \<and> (case r of Inl e \<Rightarrow> err e | Inr v \<Rightarrow> gives made g v)"
  using assms
proof (induction g arbitrary: caller st r st')
  case (Plain keys body)
  have w: "\<forall>k\<in>set keys. wanted k" using Plain.prems(2) by simp
  have "invoke get keys body Map.empty caller st = (r, st')" using Plain.prems(3) by simp
  from invoke_ok [where locals = Map.empty, OF Plain.prems(1) _ this] w show ?case by (simp split: sum.splits)
next
  case (Enforced nm keys body)
  have w: "\<forall>k\<in>set keys. wanted k" using Enforced.prems(2) by simp
  show ?case by (rule enforced_ok [OF Enforced.prems(1) w]) (use Enforced.prems(3) in simp)+
next
  case (Service nm keys body)
  have w: "\<forall>k\<in>set keys. wanted k" "wanted ''$injector''" using Service.prems(2) by simp_all
  obtain r1 st1 where one: "get ''$injector'' None st = (r1, st1)" by (rule prod.exhaust)
  note ok1 = get_ok [OF Service.prems(1) w(2) one]
  show ?case
  proof (cases r1)
    case (Inl e)
    then have "r = Inl e" "st' = st1" using Service.prems(3) by (simp_all add: one next_step_def enforceReturnValue_def)
    with ok1 Inl show ?thesis by (simp add: extends_def)
  next
    case (Inr i)
    then have "enforceReturnValue nm (invoke get keys body Map.empty None st1) = (r, st')"
      using Service.prems(3) by (simp add: one next_step_def)
    from enforced_ok [OF conjunct1 [OF ok1] w(1) this] have two: "inv st' \<and> extends r st1 st' \<and>
        (case r of Inl e \<Rightarrow> err e | Inr v \<Rightarrow> gives made (Enforced nm keys body) v)" .
    have "extends (Inr i) st st1" "made ''$injector'' i" using ok1 Inr by simp_all
    with two extends_step show ?thesis by (auto split: sum.splits)
  qed
next
  case (Decorated orig keys body)
  obtain r1 st1 where one: "call_get get orig None st = (r1, st1)" by (rule prod.exhaust)
  have "\<forall>k. wants orig k \<longrightarrow> wanted k" using Decorated.prems(2) by simp
  note ok1 = Decorated.IH [OF Decorated.prems(1) this one]
  show ?case
  proof (cases r1)
    case (Inl e)
    then have "r = Inl e" "st' = st1" using Decorated.prems(3) by (simp_all add: one next_step_def)
    with ok1 Inl show ?thesis by (simp add: extends_def)
  next
    case (Inr d)
    let ?l = "[''$delegate'' \<mapsto> d]"
    have w: "\<forall>k\<in>set keys. ?l k = None \<longrightarrow> wanted k" using Decorated.prems(2) by simp
    have "invoke get keys body ?l None st1 = (r, st')" using Decorated.prems(3) Inr by (simp add: one next_step_def)
    note two = invoke_ok [OF conjunct1 [OF ok1] w this]
    have "(\<lambda>k v. case ?l k of Some w \<Rightarrow> v = w | None \<Rightarrow> made k v) = or_delegate d made"
      by (auto simp: fun_eq_iff or_delegate_def)
    note two' = two [unfolded this]
    have "extends (Inr d) st st1" "gives made orig d" using ok1 Inr by simp_all
    with two' show ?thesis using extends_step by (auto split: sum.splits)
  qed
qed

end

section \<open>The injector is a getter\<close>

text \<open>The names that have a provider and no service.\<close>

definition to_make :: "'a injector \<Rightarrow> string set" where
  "to_make st = {nm. map_of (providerCache st) nm \<noteq> None \<and> instanceCache st nm = None}"

lemma to_make_finite: "finite (to_make st)"
proof (rule finite_subset)
  show "to_make st \<subseteq> fst ` set (providerCache st)" by (auto simp: to_make_def map_of_eq_None_iff)
qed simp

text \<open>
  The state while services are made for \<open>cur\<close>, if for any: every service is what can be made from the providers
  \<open>P\<close> and the services \<open>C\<close> that were there, those that are half made depend on \<open>cur\<close>, and the fuel is enough.
\<close>

definition making :: "(string \<rightharpoonup> 'a getfn) \<Rightarrow> (string \<rightharpoonup> 'a slot) \<Rightarrow> nat \<Rightarrow> string option \<Rightarrow> 'a injector \<Rightarrow> bool" where
  "making P C n cur st \<longleftrightarrow> map_of (providerCache st) = P \<and> card (to_make st) + 2 \<le> n \<and>
     (\<forall>nm s. C nm = Some s \<longrightarrow> instanceCache st nm = Some s) \<and>
     (\<forall>nm v. instanceCache st nm = Some (Ready v) \<longrightarrow> makes P C nm v) \<and>
     (\<forall>nm. instanceCache st nm = Some Instantiating \<longrightarrow> (case cur of None \<Rightarrow> False | Some c \<Rightarrow> (depends P)\<^sup>*\<^sup>* nm c))"

definition wanted_by :: "(string \<rightharpoonup> 'a getfn) \<Rightarrow> string option \<Rightarrow> string \<Rightarrow> bool" where
  "wanted_by P cur nm \<longleftrightarrow> (case cur of None \<Rightarrow> True | Some c \<Rightarrow> depends P c nm)"

definition expected :: "(string \<rightharpoonup> 'a getfn) \<Rightarrow> inj_error \<Rightarrow> bool" where
  "expected P e \<longleftrightarrow> (case e of OutOfFuel \<Rightarrow> False | Cdep p \<Rightarrow> (\<exists>y. (depends P)\<^sup>+\<^sup>+ y y) | _ \<Rightarrow> True)"

lemma making_extends:
  assumes "making P C n cur st" "extends r st st'" "\<forall>nm v. instanceCache st nm = None \<and> instanceCache st' nm = Some (Ready v) \<longrightarrow> makes P C nm v"
  shows "making P C n cur st'"
proof -
  have sub: "to_make st' \<subseteq> to_make st" using assms(2) unfolding to_make_def extends_def by fastforce
  have "card (to_make st') \<le> card (to_make st)" by (rule card_mono [OF to_make_finite sub])
  moreover have "instanceCache st' nm = Some (Ready v) \<Longrightarrow> makes P C nm v" for nm v
    using assms unfolding making_def extends_def by metis
  moreover have "instanceCache st nm = Some Instantiating" if "instanceCache st' nm = Some Instantiating" for nm
    using assms(2) that unfolding extends_def by metis
  moreover have "instanceCache st' nm = Some s" if "C nm = Some s" for nm s
    using assms(1,2) that unfolding making_def extends_def by (metis option.distinct(1))
  moreover have "map_of (providerCache st') = P" using assms(1,2) unfolding making_def extends_def by simp
  ultimately show ?thesis using assms(1) unfolding making_def by auto
qed

lemma getProvider_ok:
  assumes "getProvider nm caller st = (r, st')"
  shows "(\<exists>g. map_of (providerCache st) nm = Some g \<and> r = Inr g \<and> st' = st) \<or>
    (map_of (providerCache st) nm = None \<and> r = Inl (Unpr ((nm @ ''Provider'') # path st @ (case caller of None \<Rightarrow> [] | Some c \<Rightarrow> [c]))) \<and>
     st' = st\<lparr>path := path st @ (case caller of None \<Rightarrow> [] | Some c \<Rightarrow> [c])\<rparr>)"
  using assms by (auto simp: getProvider_def Let_def split: option.splits)

lemma mark_making:
  assumes inv: "making P C (Suc n) cur st" and none: "instanceCache st nm = None" and g: "P nm = Some g" and want: "wanted_by P cur nm"
  shows "making P C n (Some nm) (set_slot nm (Some Instantiating) (st\<lparr>path := p\<rparr>))" (is "making P C n _ ?st")
proof -
  have "nm \<in> to_make st" using inv none g by (auto simp: to_make_def making_def)
  moreover have "to_make ?st = to_make st - {nm}" by (auto simp: to_make_def set_slot_def)
  ultimately have "card (to_make ?st) + 1 = card (to_make st)" using to_make_finite [of st] by (metis Suc_eq_plus1 card_Suc_Diff1)
  moreover have "C nm = None" using inv none unfolding making_def by (cases "C nm") auto
  moreover have "(depends P)\<^sup>*\<^sup>* x nm" if "instanceCache st x = Some Instantiating" for x
  proof -
    obtain c where "cur = Some c" "(depends P)\<^sup>*\<^sup>* x c" using inv \<open>instanceCache st x = Some Instantiating\<close>
      by (auto simp: making_def split: option.splits)
    then show ?thesis using want by (auto simp: wanted_by_def intro: rtranclp.rtrancl_into_rtrancl)
  qed
  ultimately show ?thesis using inv none unfolding making_def by (auto simp: set_slot_def)
qed

lemma unmark_extends:
  assumes none: "instanceCache st nm = None"
    and ext: "extends (r :: inj_error + 'b) (set_slot nm (Some Instantiating) (st\<lparr>path := nm # path st\<rparr>)) st2"
    and s: "s \<noteq> Some Instantiating"
  shows "extends r st ((set_slot nm s st2)\<lparr>path := tl (path st2)\<rparr>)"
proof -
  obtain stale where stale: "path st2 = nm # path st @ stale" "stale \<noteq> [] \<longrightarrow> (\<exists>p. r = Inl (Unpr p))"
    using ext by (auto simp: extends_def set_slot_def)
  have "instanceCache st2 x = instanceCache st x" if "instanceCache st x \<noteq> None" for x
    using ext that none by (cases "x = nm") (auto simp: extends_def set_slot_def)
  moreover have "instanceCache st2 x \<noteq> Some Instantiating" if "instanceCache st x = None" "x \<noteq> nm" for x
    using ext that by (auto simp: extends_def set_slot_def)
  moreover have "providerCache st2 = providerCache st" using ext by (simp add: extends_def set_slot_def)
  ultimately show ?thesis using none s stale by (auto simp: extends_def set_slot_def)
qed

lemma getService_step:
  assumes inv: "making P C (Suc n) cur st" and want: "wanted_by P cur nm" and none: "instanceCache st nm = None"
    and get: "getService (Suc n) nm caller st = (r, st')"
    and IH: "getter (getService n) (making P C n (Some nm)) (wanted_by P (Some nm)) (makes P C) (expected P)"
  shows "making P C (Suc n) cur st' \<and> extends r st st' \<and> (case r of Inl e \<Rightarrow> expected P e | Inr v \<Rightarrow> makes P C nm v)"
proof -
  let ?st1 = "set_slot nm (Some Instantiating) (st\<lparr>path := nm # path st\<rparr>)"
  have P: "map_of (providerCache ?st1) = P" using inv by (simp add: making_def set_slot_def)
  have C: "C nm = None" using inv none unfolding making_def by (cases "C nm") auto
  obtain r2 st2 where two: "next_step (getProvider nm caller ?st1) (\<lambda>g. call_get (getService n) g (Some nm)) = (r2, st2)" by (rule prod.exhaust)
  have ext: "extends r2 ?st1 st2" and post: "case r2 of Inl e \<Rightarrow> expected P e | Inr v \<Rightarrow> makes P C nm v"
    and new: "\<forall>x v. instanceCache st2 x = Some (Ready v) \<longrightarrow> makes P C x v"
  proof -
    have "extends r2 ?st1 st2 \<and> (case r2 of Inl e \<Rightarrow> expected P e | Inr v \<Rightarrow> makes P C nm v) \<and>
        (\<forall>x v. instanceCache st2 x = Some (Ready v) \<longrightarrow> makes P C x v)"
    proof (cases "P nm")
      case None
      let ?x = "case caller of None \<Rightarrow> [] | Some c \<Rightarrow> [c]"
      have "getProvider nm caller ?st1 = (Inl (Unpr ((nm @ ''Provider'') # path ?st1 @ ?x)), ?st1\<lparr>path := path ?st1 @ ?x\<rparr>)"
        using getProvider_ok [of nm caller ?st1] None P by (metis option.distinct(1) surj_pair)
      then have "r2 = Inl (Unpr ((nm @ ''Provider'') # path ?st1 @ ?x))" "st2 = ?st1\<lparr>path := path ?st1 @ ?x\<rparr>"
        using two by (simp_all add: next_step_def)
      then show ?thesis using inv by (simp add: extends_def expected_def making_def set_slot_def)
    next
      case (Some g)
      have "getProvider nm caller ?st1 = (Inr g, ?st1)" using Some P by (simp add: getProvider_def)
      then have "call_get (getService n) g (Some nm) ?st1 = (r2, st2)" using two by (simp add: next_step_def)
      moreover have "\<forall>k. wants g k \<longrightarrow> wanted_by P (Some nm) k" using Some by (auto simp: wanted_by_def depends_def)
      ultimately have ok: "making P C n (Some nm) st2 \<and> extends r2 ?st1 st2 \<and> (case r2 of Inl e \<Rightarrow> expected P e | Inr v \<Rightarrow> gives (makes P C) g v)"
        using getter.call_get_ok [OF IH mark_making [OF inv none Some want]] by blast
      moreover have "makes P C nm v" if "gives (makes P C) g v" for v using that Some C by (subst makes_iff) simp
      ultimately show ?thesis unfolding making_def by (auto split: sum.splits)
    qed
    then show "extends r2 ?st1 st2" "case r2 of Inl e \<Rightarrow> expected P e | Inr v \<Rightarrow> makes P C nm v"
      "\<forall>x v. instanceCache st2 x = Some (Ready v) \<longrightarrow> makes P C x v" by blast+
  qed
  have mark: "instanceCache st2 nm = Some Instantiating" using ext by (simp add: extends_def set_slot_def)
  have "r = r2 \<and> st' = (set_slot nm (case r2 of Inl e \<Rightarrow> None | Inr v \<Rightarrow> Some (Ready v)) st2)\<lparr>path := tl (path st2)\<rparr>"
    using get none two mark by (cases r2) (auto simp: Let_def set_slot_def)
  then have st': "r = r2" "st' = (set_slot nm (case r2 of Inl e \<Rightarrow> None | Inr v \<Rightarrow> Some (Ready v)) st2)\<lparr>path := tl (path st2)\<rparr>" by simp_all
  have e: "extends r st st'" unfolding st' by (rule unmark_extends [OF none ext]) (simp split: sum.splits)
  have "\<forall>x v. instanceCache st x = None \<and> instanceCache st' x = Some (Ready v) \<longrightarrow> makes P C x v"
    using new post by (auto simp: st'(2) set_slot_def split: sum.splits if_splits)
  with making_extends [OF inv e] e post st'(1) show ?thesis by simp
qed

lemma getService_getter: "getter (getService n) (making P C n cur) (wanted_by P cur) (makes P C) (expected P)"
proof (induction n arbitrary: cur)
  case 0
  show ?case by unfold_locales (auto simp: making_def expected_def)
next
  case (Suc n)
  show ?case
  proof
    fix st nm caller r st'
    assume inv: "making P C (Suc n) cur st" and want: "wanted_by P cur nm" and get: "getService (Suc n) nm caller st = (r, st')"
    show "making P C (Suc n) cur st' \<and> extends r st st' \<and> (case r of Inl e \<Rightarrow> expected P e | Inr v \<Rightarrow> makes P C nm v)"
    proof (cases "instanceCache st nm")
      case (Some s)
      show ?thesis
      proof (cases s)
        case Instantiating
        then obtain c where c: "cur = Some c" "(depends P)\<^sup>*\<^sup>* nm c" "depends P c nm"
          using inv want Some by (auto simp: making_def wanted_by_def split: option.splits)
        from rtranclp_into_tranclp1 [OF c(2,3)] have "expected P (Cdep p)" for p by (auto simp: expected_def)
        then show ?thesis using get Some Instantiating inv by auto
      next
        case (Ready v)
        then show ?thesis using get Some inv by (auto simp: making_def)
      qed
    next
      case None
      show ?thesis by (rule getService_step [OF inv want None get Suc.IH])
    qed
  qed (simp_all add: expected_def)
qed

section \<open>What can be made is found\<close>

text \<open>A getter that gives every wanted service it finds a value for in \<open>M\<close>.\<close>

locale finder = getter +
  fixes M :: "string \<Rightarrow> 'a option \<Rightarrow> bool"
  assumes finds: "inv st \<Longrightarrow> wanted nm \<Longrightarrow> M nm v \<Longrightarrow> get nm caller st = (r, st') \<Longrightarrow> r = Inr v"
begin

lemma args_find:
  assumes "inv st" "\<forall>k\<in>set keys. locals k = None \<longrightarrow> wanted k"
    "list_all2 (\<lambda>k v. case locals k of Some w \<Rightarrow> v = w | None \<Rightarrow> M k v) keys vs"
  shows "fst (injectionArgs get locals keys caller st) = Inr vs"
  using assms
proof (induction keys arbitrary: st vs)
  case (Cons k ks)
  obtain v ws where vs: "vs = v # ws" "case locals k of Some w \<Rightarrow> v = w | None \<Rightarrow> M k v"
      "list_all2 (\<lambda>k v. case locals k of Some w \<Rightarrow> v = w | None \<Rightarrow> M k v) ks ws"
    using Cons.prems(3) by (auto simp: list_all2_Cons1)
  obtain r1 st1 where one: "(case locals k of Some v \<Rightarrow> (Inr v, st) | None \<Rightarrow> get k caller st) = (r1, st1)" by (rule prod.exhaust)
  have "r1 = Inr v \<and> inv st1"
  proof (cases "locals k")
    case None
    then show ?thesis using one vs(2) Cons.prems(1,2) finds [of st k v caller r1 st1] get_ok [of st k caller r1 st1] by simp
  next
    case (Some w)
    then show ?thesis using one vs(2) Cons.prems(1) by simp
  qed
  then have "fst (injectionArgs get locals ks caller st1) = Inr ws" using Cons.prems(2) vs(3) by (intro Cons.IH) simp_all
  then show ?case using \<open>r1 = Inr v \<and> inv st1\<close> by (auto simp: one vs(1) next_step_def split: prod.splits)
qed simp

lemma invoke_find:
  assumes "inv st" "\<forall>k\<in>set keys. locals k = None \<longrightarrow> wanted k"
    "list_all2 (\<lambda>k v. case locals k of Some w \<Rightarrow> v = w | None \<Rightarrow> M k v) keys vs" "body vs = Gives v"
  shows "fst (invoke get keys body locals caller st) = Inr v"
  using args_find [OF assms(1-3), of caller] assms(4) by (auto simp: invoke_def next_step_def split: prod.splits)

lemma enforced_find:
  assumes "inv st" "\<forall>k\<in>set keys. wanted k" "list_all2 M keys vs" "body vs = Gives v" "v \<noteq> None"
  shows "fst (enforceReturnValue nm (invoke get keys body Map.empty caller st)) = Inr v"
  using invoke_find [where locals = Map.empty, OF assms(1), of keys vs body v caller] assms(2-5)
  by (auto simp: enforceReturnValue_def next_step_def split: prod.splits)

lemma call_get_find:
  assumes "inv st" "\<forall>k. wants g k \<longrightarrow> wanted k" "gives M g v"
  shows "fst (call_get get g caller st) = Inr v"
  using assms
proof (induction g arbitrary: caller v)
  case (Plain keys body)
  then show ?case using invoke_find [where locals = Map.empty, OF Plain.prems(1)] by auto
next
  case (Enforced nm keys body)
  then show ?case using enforced_find [OF Enforced.prems(1)] by auto
next
  case (Service nm keys body)
  then obtain i vs where i: "M ''$injector'' i" and vs: "list_all2 M keys vs" "body vs = Gives v" "v \<noteq> None" by auto
  have w: "\<forall>k\<in>set keys. wanted k" "wanted ''$injector''" using Service.prems(2) by simp_all
  obtain r1 st1 where one: "get ''$injector'' None st = (r1, st1)" by (rule prod.exhaust)
  have "r1 = Inr i" by (rule finds [OF Service.prems(1) w(2) i one])
  moreover have "inv st1" using get_ok [OF Service.prems(1) w(2) one] by simp
  then have "fst (enforceReturnValue nm (invoke get keys body Map.empty None st1)) = Inr v"
    by (rule enforced_find [where keys = keys and body = body and vs = vs]) (use w(1) vs in simp_all)
  ultimately show ?case using one by (simp add: next_step_def)
next
  case (Decorated orig keys body)
  then obtain d vs where d: "gives M orig d" "list_all2 (or_delegate d M) keys vs" "body vs = Gives v" by auto
  obtain r1 st1 where one: "call_get get orig None st = (r1, st1)" by (rule prod.exhaust)
  have w: "\<forall>k. wants orig k \<longrightarrow> wanted k" using Decorated.prems(2) by simp
  have "r1 = Inr d" using Decorated.IH [OF Decorated.prems(1) w d(1), of None] one by simp
  have i1: "inv st1" using call_get_ok [OF Decorated.prems(1) w one] by simp
  have "(\<lambda>k v. case [''$delegate'' \<mapsto> d] k of Some w \<Rightarrow> v = w | None \<Rightarrow> M k v) = or_delegate d M"
    by (auto simp: fun_eq_iff or_delegate_def)
  then have l: "list_all2 (\<lambda>k v. case [''$delegate'' \<mapsto> d] k of Some w \<Rightarrow> v = w | None \<Rightarrow> M k v) keys vs" using d(2) by simp
  have w': "\<forall>k\<in>set keys. [''$delegate'' \<mapsto> d] k = None \<longrightarrow> wanted k" using Decorated.prems(2) by simp
  have "fst (invoke get keys body [''$delegate'' \<mapsto> d] None st1) = Inr v"
    by (rule invoke_find [where vs = vs, OF i1 w' l]) (rule d(3))
  with one \<open>r1 = Inr d\<close> show ?case by (simp add: next_step_def)
qed

end

text \<open>Nothing that is half made can be made within \<open>h\<close>.\<close>

definition quiet :: "(string \<rightharpoonup> 'a getfn) \<Rightarrow> (string \<rightharpoonup> 'a slot) \<Rightarrow> nat \<Rightarrow> 'a injector \<Rightarrow> bool" where
  "quiet P C h st \<longleftrightarrow> (\<forall>nm v. instanceCache st nm = Some Instantiating \<longrightarrow> \<not> makes_in P C h nm v)"

lemma quiet_extends: "quiet P C h st \<Longrightarrow> extends r st st' \<Longrightarrow> quiet P C h st'"
  unfolding quiet_def extends_def by metis

lemma quiet_getter:
  "getter (getService n) (\<lambda>st. making P C n cur st \<and> quiet P C h st) (wanted_by P cur) (makes P C) (expected P)"
proof
  fix st nm caller r st'
  assume "making P C n cur st \<and> quiet P C h st" "wanted_by P cur nm" "getService n nm caller st = (r, st')"
  moreover from this have "making P C n cur st' \<and> extends r st st' \<and> (case r of Inl e \<Rightarrow> expected P e | Inr v \<Rightarrow> makes P C nm v)"
    using getter.get_ok [OF getService_getter] by blast
  ultimately show "(making P C n cur st' \<and> quiet P C h st') \<and> extends r st st' \<and> (case r of Inl e \<Rightarrow> expected P e | Inr v \<Rightarrow> makes P C nm v)"
    using quiet_extends by blast
qed (simp_all add: expected_def)

lemma getService_finder:
  "finder (getService n) (\<lambda>st. making P C n cur st \<and> quiet P C h st) (wanted_by P cur) (makes P C) (expected P) (makes_in P C h)"
proof (induction n arbitrary: cur h)
  case 0
  show ?case by (intro finder.intro quiet_getter finder_axioms.intro) (simp add: making_def)
next
  case (Suc n)
  show ?case
  proof (intro finder.intro quiet_getter finder_axioms.intro)
    fix st nm v caller r st'
    assume st: "making P C (Suc n) cur st \<and> quiet P C h st" and want: "wanted_by P cur nm" and v: "makes_in P C h nm v"
      and get: "getService (Suc n) nm caller st = (r, st')"
    note inv = conjunct1 [OF st]
    have v': "makes P C nm v" using v by (auto simp: makes_def)
    show "r = Inr v"
    proof (cases "instanceCache st nm")
      case (Some s)
      show ?thesis
      proof (cases s)
        case Instantiating
        then show ?thesis using st v Some by (auto simp: quiet_def)
      next
        case (Ready w)
        then have "makes P C nm w" using inv Some by (simp add: making_def)
        from makes_unique [OF this v'] show ?thesis using get Some Ready by simp
      qed
    next
      case None
      have C: "C nm = None" using inv None unfolding making_def by (cases "C nm") auto
      define k where "k = (LEAST k. \<exists>w. makes_in P C k nm w)"
      have ex: "\<exists>w. makes_in P C h nm w" using v by blast
      obtain w where w: "makes_in P C k nm w" using LeastI_ex [of "\<lambda>k. \<exists>w. makes_in P C k nm w"] ex k_def by blast
      have "w = v" using makes_unique [OF _ v'] w by (auto simp: makes_def)
      have least: "\<not> makes_in P C j nm u" if "j < k" for j u using not_less_Least [of j "\<lambda>k. \<exists>w. makes_in P C k nm w"] that k_def by blast
      have "k \<le> h" unfolding k_def by (rule Least_le [where P = "\<lambda>k. \<exists>w. makes_in P C k nm w", OF ex])
      obtain j where j: "k = Suc j" using w by (cases k) auto
      obtain g where g: "P nm = Some g" "gives (makes_in P C j) g v" using w C \<open>w = v\<close> j by (auto split: option.splits)
      let ?st1 = "set_slot nm (Some Instantiating) (st\<lparr>path := nm # path st\<rparr>)"
      have q: "quiet P C j ?st1"
      proof -
        have "\<not> makes_in P C j x u" if "instanceCache st x = Some Instantiating" for x u
          using st that makes_in_mono [of P C j x u h] j \<open>k \<le> h\<close> unfolding quiet_def by auto
        then show ?thesis using least [of j] j by (auto simp: quiet_def set_slot_def)
      qed
      have m: "making P C n (Some nm) ?st1" by (rule mark_making [OF inv None g(1) want])
      have "\<forall>k. wants g k \<longrightarrow> wanted_by P (Some nm) k" using g(1) by (auto simp: wanted_by_def depends_def)
      from finder.call_get_find [OF Suc.IH conjI [OF m q] this g(2), of "Some nm"]
      have "fst (call_get (getService n) g (Some nm) ?st1) = Inr v" .
      moreover have "getProvider nm caller ?st1 = (Inr g, ?st1)"
        using inv g(1) by (simp add: getProvider_def making_def set_slot_def)
      ultimately show ?thesis using get None by (auto simp: next_step_def Let_def split: prod.splits)
    qed
  qed
qed

interpretation services: getter "getService n" "making P C n cur" "wanted_by P cur" "makes P C" "expected P" for n P C cur
  by (rule getService_getter)

interpretation found: finder "getService n" "\<lambda>st. making P C n cur st \<and> quiet P C h st" "wanted_by P cur" "makes P C" "expected P" "makes_in P C h"
  for n P C cur h
  by (rule getService_finder)

section \<open>The order of the modules\<close>

definition required :: "(string \<times> 'a module_def) list \<Rightarrow> string \<Rightarrow> string \<Rightarrow> bool" where
  "required ms m k \<longleftrightarrow> (\<exists>d. map_of ms m = Some d \<and> k \<in> set (requires d))"

definition in_progress :: "'a loading \<Rightarrow> string set" where
  "in_progress ld = set (loadedModules ld) - set (configured ld)"

text \<open>A module comes after those it requires, apart from those that require it in turn.\<close>

definition ordered :: "(string \<times> 'a module_def) list \<Rightarrow> string list \<Rightarrow> bool" where
  "ordered ms l \<longleftrightarrow> (\<forall>xs m ys k. l = xs @ m # ys \<longrightarrow> required ms m k \<longrightarrow> k \<in> set xs \<or> (required ms)\<^sup>+\<^sup>+ k m)"

definition loading_ok :: "(string \<times> 'a module_def) list \<Rightarrow> 'a loading \<Rightarrow> bool" where
  "loading_ok ms ld \<longleftrightarrow> distinct (loadedModules ld) \<and> distinct (configured ld) \<and> set (configured ld) \<subseteq> set (loadedModules ld) \<and>
     ordered ms (configured ld) \<and> (\<forall>m\<in>set (configured ld). \<forall>k. required ms m k \<longrightarrow> k \<in> set (loadedModules ld))"

text \<open>What loading modules does to the state, when those in progress lead to them.\<close>

definition loads :: "(string \<times> 'a module_def) list \<Rightarrow> string set \<Rightarrow> 'a loading \<Rightarrow> 'a loading \<Rightarrow> bool" where
  "loads ms nms ld ld' \<longleftrightarrow> loading_ok ms ld' \<and> in_progress ld' = in_progress ld \<and>
     set (loadedModules ld) \<union> nms \<subseteq> set (loadedModules ld') \<and> set (configured ld) \<subseteq> set (configured ld')"

definition to_load :: "(string \<times> 'a module_def) list \<Rightarrow> 'a loading \<Rightarrow> string set" where
  "to_load ms ld = fst ` set ms - set (loadedModules ld)"

fun root_cause :: "inj_error \<Rightarrow> inj_error" where
  "root_cause (ModuleErr m e) = root_cause e"
| "root_cause e = e"

lemma ordered_snoc:
  assumes "ordered ms l" "\<forall>k. required ms m k \<longrightarrow> k \<in> set l \<or> (required ms)\<^sup>+\<^sup>+ k m"
  shows "ordered ms (l @ [m])"
  unfolding ordered_def
proof (intro allI impI)
  fix xs x ys k
  assume split: "l @ [m] = xs @ x # ys" and req: "required ms x k"
  show "k \<in> set xs \<or> (required ms)\<^sup>+\<^sup>+ k x"
  proof (cases ys rule: rev_cases)
    case Nil
    then show ?thesis using split req assms(2) by simp
  next
    case (snoc zs z)
    then have "l = xs @ x # zs" using split by (metis append_Cons append_assoc butlast_snoc)
    with req assms(1) show ?thesis unfolding ordered_def by blast
  qed
qed

lemma queue_errors: "fst (runInvokeQueue qs st) = Inl e \<Longrightarrow> root_cause e \<noteq> OutOfFuel"
proof (induction qs arbitrary: st)
  case (Cons q qs)
  have "fst (register q st) = Inl e \<Longrightarrow> root_cause e \<noteq> OutOfFuel"
    by (cases q) (auto simp: provider_def constantFn_def decorator_def getProvider_def next_step_def Let_def split: if_splits option.splits prod.splits sum.splits)
  with Cons show ?case by (auto simp: next_step_def split: prod.splits sum.splits)
qed simp

lemma run_queues_result:
  assumes "run_queues nm m ld = r"
  shows "(\<exists>st. r = Inr (ld\<lparr>inj := st, configured := configured ld @ [nm], collected := collected ld @ runBlocks m\<rparr>)) \<or>
    (\<exists>e. r = Inl e \<and> root_cause e \<noteq> OutOfFuel)"
proof -
  let ?q = "next_step (runInvokeQueue (invokeQueue m) (inj ld)) (\<lambda>_. runInvokeQueue (configBlocks m))"
  have "fst ?q = Inl e \<Longrightarrow> root_cause e \<noteq> OutOfFuel" for e
    using queue_errors by (auto simp: next_step_def split: prod.splits sum.splits) (metis fst_conv)+
  then show ?thesis using assms by (auto simp: run_queues_def split: prod.splits sum.splits)
qed

definition load_result :: "(string \<times> 'a module_def) list \<Rightarrow> string set \<Rightarrow> 'a loading \<Rightarrow> inj_error + 'a loading \<Rightarrow> bool" where
  "load_result ms nms ld r \<longleftrightarrow> (case r of Inl e \<Rightarrow> root_cause e \<noteq> OutOfFuel | Inr ld' \<Rightarrow> loads ms nms ld ld')"

definition may_load :: "(string \<times> 'a module_def) list \<Rightarrow> nat \<Rightarrow> string \<Rightarrow> 'a loading \<Rightarrow> bool" where
  "may_load ms n nm ld \<longleftrightarrow> loading_ok ms ld \<and> (\<forall>p\<in>in_progress ld. (required ms)\<^sup>+\<^sup>+ p nm) \<and> card (to_load ms ld) + 2 \<le> n"

lemma to_load_less: "set (loadedModules ld) \<subseteq> set (loadedModules ld') \<Longrightarrow> card (to_load ms ld') \<le> card (to_load ms ld)"
  by (rule card_mono) (auto simp: to_load_def)

lemma each_module_loads:
  assumes "\<And>nm ld. nm \<in> set nms \<Longrightarrow> may_load ms n nm ld \<Longrightarrow> load_result ms {nm} ld (load nm ld)" "loading_ok ms ld"
    "\<forall>nm\<in>set nms. may_load ms n nm ld"
  shows "load_result ms (set nms) ld (each_module load nms ld)"
  using assms
proof (induction nms arbitrary: ld)
  case Nil
  then show ?case by (simp add: load_result_def loads_def)
next
  case (Cons nm nms)
  have one: "load_result ms {nm} ld (load nm ld)" using Cons.prems by simp
  show ?case
  proof (cases "load nm ld")
    case (Inl e)
    then show ?thesis using one by (simp add: load_result_def)
  next
    case (Inr ld1)
    then have l1: "loads ms {nm} ld ld1" using one by (simp add: load_result_def)
    have "load_result ms (set nms) ld1 (each_module load nms ld1)"
    proof (rule Cons.IH)
      show "loading_ok ms ld1" using l1 by (simp add: loads_def)
      have "card (to_load ms ld1) \<le> card (to_load ms ld)" using l1 by (intro to_load_less) (simp add: loads_def)
      then show "\<forall>nm\<in>set nms. may_load ms n nm ld1" using Cons.prems(3) l1 by (simp add: may_load_def loads_def)
    qed (use Cons.prems(1) in simp)
    with l1 show ?thesis using Inr by (auto simp: load_result_def loads_def split: sum.splits)
  qed
qed

lemma loadModule_loads: "may_load ms n nm ld \<Longrightarrow> load_result ms {nm} ld (loadModule n ms nm ld)"
proof (induction n arbitrary: nm ld)
  case 0
  then show ?case by (simp add: may_load_def)
next
  case (Suc n)
  note may = Suc.prems
  have ok: "loading_ok ms ld" using may by (simp add: may_load_def)
  show ?case
  proof (cases "nm \<in> set (loadedModules ld)")
    case True
    then show ?thesis using ok by (simp add: load_result_def loads_def)
  next
    case False
    let ?ld = "ld\<lparr>loadedModules := loadedModules ld @ [nm]\<rparr>"
    have ok1: "loading_ok ms ?ld" using ok False by (auto simp: loading_ok_def)
    have new: "nm \<notin> set (configured ld)" using ok False by (auto simp: loading_ok_def)
    then have prog: "in_progress ?ld = insert nm (in_progress ld)" by (auto simp: in_progress_def)
    show ?thesis
    proof (cases "map_of ms nm")
      case None
      then show ?thesis using False by (simp add: Let_def load_result_def)
    next
      case (Some m)
      have req: "required ms nm k" if "k \<in> set (requires m)" for k using that Some by (auto simp: required_def)
      have "nm \<in> to_load ms ld" using False Some by (force simp: to_load_def dest: map_of_SomeD)
      moreover have "to_load ms ?ld = to_load ms ld - {nm}" by (auto simp: to_load_def)
      moreover have "finite (to_load ms ld)" by (simp add: to_load_def)
      ultimately have "card (to_load ms ?ld) + 2 \<le> n"
        using may by (simp add: may_load_def) (metis Suc_pred card_gt_0_iff empty_iff le_SucE not_less_eq_eq)
      then have deps: "\<forall>k\<in>set (requires m). may_load ms n k ?ld"
        using may ok1 req unfolding may_load_def prog by (auto intro: tranclp.trancl_into_trancl)
      have res: "load_result ms (set (requires m)) ?ld (each_module (loadModule n ms) (requires m) ?ld)"
        by (rule each_module_loads [OF Suc.IH ok1 deps])
      show ?thesis
      proof (cases "each_module (loadModule n ms) (requires m) ?ld")
        case (Inl e)
        then show ?thesis using res False Some by (simp add: Let_def load_result_def)
      next
        case (Inr ld1)
        then have l1: "loads ms (set (requires m)) ?ld ld1" using res by (simp add: load_result_def)
        have ok2: "loading_ok ms ld1" and prog1: "in_progress ld1 = insert nm (in_progress ld)" using l1 prog by (simp_all add: loads_def)
        let ?fin = "\<lambda>st. ld1\<lparr>inj := st, configured := configured ld1 @ [nm], collected := collected ld1 @ runBlocks m\<rparr>"
        have nm1: "nm \<in> set (loadedModules ld1)" "nm \<notin> set (configured ld1)" using prog1 by (auto simp: in_progress_def)
        have all: "k \<in> set (loadedModules ld1)" if "required ms nm k" for k using that Some l1 by (auto simp: required_def loads_def)
        have "\<forall>k. required ms nm k \<longrightarrow> k \<in> set (configured ld1) \<or> (required ms)\<^sup>+\<^sup>+ k nm"
        proof (intro allI impI)
          fix k
          assume k: "required ms nm k"
          show "k \<in> set (configured ld1) \<or> (required ms)\<^sup>+\<^sup>+ k nm"
          proof (cases "k \<in> set (configured ld1)")
            case False
            then have "k = nm \<or> k \<in> in_progress ld" using all [OF k] prog1 by (auto simp: in_progress_def)
            then show ?thesis using k may by (auto simp: may_load_def)
          qed simp
        qed
        then have "loading_ok ms (?fin st)" for st
          using ok2 nm1 all by (auto simp: loading_ok_def intro: ordered_snoc)
        moreover have "in_progress (?fin st) = in_progress ld" for st
          using prog1 new False l1 by (auto simp: in_progress_def loads_def)
        ultimately have "loads ms {nm} ld (?fin st)" for st using l1 by (auto simp: loads_def)
        with run_queues_result [of nm m ld1] show ?thesis
          using False Some Inr by (auto simp: Let_def load_result_def split: sum.splits)
      qed
    qed
  qed
qed

section \<open>Properties\<close>

text \<open>When no service is half made, the injector may start from the state.\<close>

lemma making_start:
  assumes "\<forall>x. instanceCache st x \<noteq> Some Instantiating" "enough_fuel st \<le> n"
  shows "making (map_of (providerCache st)) (instanceCache st) n None st"
proof -
  have "to_make st \<subseteq> fst ` set (providerCache st)" by (auto simp: to_make_def map_of_eq_None_iff)
  then have "card (to_make st) \<le> card (fst ` set (providerCache st))" by (intro card_mono) simp_all
  also have "\<dots> \<le> length (providerCache st)" by (metis card_length length_map list.set_map)
  finally have "card (to_make st) + 2 \<le> n" using assms(2) by (simp add: enough_fuel_def)
  moreover have "makes (map_of (providerCache st)) (instanceCache st) x v" if "instanceCache st x = Some (Ready v)" for x v
    using that by (simp add: makes_iff)
  ultimately show ?thesis using assms(1) by (auto simp: making_def)
qed

text \<open>
  C37. The injector returns a service exactly when it can be made: from the services that are there and the
  providers' functions, each called with what its own dependencies make, decorators and enforced values
  included; and getting a service always ends.
\<close>

theorem get_returns_what_can_be_made:
  assumes "\<forall>x. instanceCache st x \<noteq> Some Instantiating" "enough_fuel st \<le> n"
  shows "(fst (getService n nm caller st) = Inr v \<longleftrightarrow> makes (map_of (providerCache st)) (instanceCache st) nm v) \<and>
    fst (getService n nm caller st) \<noteq> Inl OutOfFuel"
proof -
  let ?P = "map_of (providerCache st)" and ?C = "instanceCache st"
  note start = making_start [OF assms]
  obtain r st' where get: "getService n nm caller st = (r, st')" by (rule prod.exhaust)
  have w: "wanted_by ?P None nm" by (simp add: wanted_by_def)
  note ok = services.get_ok [OF start w get]
  have "r = Inr v" if "makes ?P ?C nm v"
  proof -
    from that obtain h where h: "makes_in ?P ?C h nm v" by (auto simp: makes_def)
    have "quiet ?P ?C h st" using assms(1) by (simp add: quiet_def)
    with start show ?thesis using found.finds [OF _ w h get] by blast
  qed
  with ok get show ?thesis by (auto simp: expected_def split: sum.splits)
qed

lemma get_is_cached:
  assumes "fst (getService n nm caller st) = Inr v"
  shows "instanceCache (snd (getService n nm caller st)) nm = Some (Ready v)"
  using assms
  by (cases n) (auto simp: set_slot_def Let_def split: option.splits slot.splits prod.splits sum.splits)

text \<open>A user interface that needs a server and a log, and a log with a decorator.\<close>

definition some_providers :: "nat injector" where
  "some_providers = \<lparr>providerCache =
     [(''ui'', Enforced ''ui'' [''server'', ''log''] (\<lambda>vs. Gives (Some (length vs)))),
      (''log'', Decorated (Enforced ''log'' [] (\<lambda>_. Gives (Some 5))) [''$delegate''] (\<lambda>vs. Gives (map_option Suc (hd vs)))),
      (''loop'', Plain [''ring''] (\<lambda>_. Gives None)), (''ring'', Plain [''loop''] (\<lambda>_. Gives None)),
      (''broken'', Plain [''missing''] (\<lambda>_. Gives None))],
     instanceCache = [''server'' \<mapsto> Ready (Some 1)], path = []\<rparr>"

lemma some_providers_clean: "\<forall>x. instanceCache some_providers x \<noteq> Some Instantiating" "enough_fuel some_providers \<le> 7"
  by (simp_all add: some_providers_def enough_fuel_def)

theorem get_returns_what_can_be_made_witness:
  "makes (map_of (providerCache some_providers)) (instanceCache some_providers) ''ui'' (Some 2) \<and>
   fst (getService 7 ''loop'' None some_providers) \<noteq> Inl OutOfFuel"
proof -
  have "fst (getService 7 ''ui'' None some_providers) = Inr (Some 2)" unfolding some_providers_def by code_simp
  then show ?thesis
    using get_returns_what_can_be_made [OF some_providers_clean, of "''ui''" None "Some 2"]
      get_returns_what_can_be_made [OF some_providers_clean, of "''loop''" None None] by simp
qed

text \<open>
  C38. Getting a service, with or without an error, changes no provider and no service that was there, leaves no
  service half made, and every service it adds is what can be made, so a service is made once and then shared; the
  error about a circular dependency is given only when some service depends on itself.
\<close>

theorem get_leaves_clean_cache:
  assumes "\<forall>x. instanceCache st x \<noteq> Some Instantiating" "enough_fuel st \<le> n" "getService n nm caller st = (r, st')"
  shows "providerCache st' = providerCache st \<and>
    (\<forall>x. case instanceCache st x of
        Some s \<Rightarrow> instanceCache st' x = Some s
      | None \<Rightarrow> (case instanceCache st' x of None \<Rightarrow> True | Some Instantiating \<Rightarrow> False
          | Some (Ready v) \<Rightarrow> makes (map_of (providerCache st)) (instanceCache st) x v)) \<and>
    (\<forall>v. r = Inr v \<longrightarrow> instanceCache st' nm = Some (Ready v)) \<and>
    (\<forall>p. r = Inl (Cdep p) \<longrightarrow> (\<exists>y. (depends (map_of (providerCache st)))\<^sup>+\<^sup>+ y y))"
proof -
  let ?P = "map_of (providerCache st)" and ?C = "instanceCache st"
  note start = making_start [OF assms(1,2)]
  have w: "wanted_by ?P None nm" by (simp add: wanted_by_def)
  note ok = services.get_ok [OF start w assms(3)]
  have ext: "extends r st st'" and made: "\<And>x v. instanceCache st' x = Some (Ready v) \<Longrightarrow> makes ?P ?C x v"
    using ok by (auto simp: making_def)
  have "case ?C x of Some s \<Rightarrow> instanceCache st' x = Some s
      | None \<Rightarrow> (case instanceCache st' x of None \<Rightarrow> True | Some Instantiating \<Rightarrow> False | Some (Ready v) \<Rightarrow> makes ?P ?C x v)" for x
    using ext made [of x] unfolding extends_def by (auto split: option.splits slot.splits)
  moreover have "instanceCache st' nm = Some (Ready v)" if "r = Inr v" for v
    using get_is_cached [of n nm caller st v] assms(3) that by simp
  moreover have "providerCache st' = providerCache st" using ext by (simp add: extends_def)
  ultimately show ?thesis using ok by (auto simp: expected_def)
qed

theorem get_leaves_clean_cache_witness:
  "instanceCache (snd (getService 7 ''ui'' None some_providers)) ''ui'' = Some (Ready (Some 2)) \<and>
   (\<exists>y. (depends (map_of (providerCache some_providers)))\<^sup>+\<^sup>+ y y)"
proof -
  obtain st where ui: "getService 7 ''ui'' None some_providers = (Inr (Some 2), st)" 
  proof -
    have "fst (getService 7 ''ui'' None some_providers) = Inr (Some 2)" unfolding some_providers_def by code_simp
    then show ?thesis using that by (cases "getService 7 ''ui'' None some_providers") simp
  qed
  obtain st2 where loop: "getService 7 ''loop'' None some_providers = (Inl (Cdep [''loop'', ''ring'', ''loop'']), st2)"
  proof -
    have "fst (getService 7 ''loop'' None some_providers) = Inl (Cdep [''loop'', ''ring'', ''loop''])" unfolding some_providers_def by code_simp
    then show ?thesis using that by (cases "getService 7 ''loop'' None some_providers") simp
  qed
  show ?thesis using get_leaves_clean_cache [OF some_providers_clean ui] get_leaves_clean_cache [OF some_providers_clean loop] ui by simp
qed

text \<open>
  The path of the error messages is not restored when a provider is unknown: a service whose own \<open>$get\<close> asks
  for it is pushed to the end of the path, where it is never taken off, so that it shows in every later message.
\<close>

lemma unknown_provider_stays_on_path:
  assumes "map_of (providerCache st) a = Some (Plain [b] body)" "map_of (providerCache st) b = None"
    and "instanceCache st a = None" "instanceCache st b = None" "a \<noteq> b"
  shows "getService (Suc (Suc n)) a None st =
    (Inl (Unpr ((b @ ''Provider'') # b # a # path st @ [a])), st\<lparr>path := path st @ [a]\<rparr>)"
proof -
  have "(\<lambda>x. if x = a then None else if x = b then None else instanceCache st x) = instanceCache st"
    using assms(3,4) by auto
  then show ?thesis
    using assms by (simp add: getProvider_def set_slot_def next_step_def invoke_def Let_def fun_upd_def cong: if_cong)
qed

text \<open>
  C39. Loading modules ends; it configures every module it is asked for and all they require, each once, and a
  module after those it requires, unless they require it in turn.
\<close>

theorem modules_in_order:
  "(case loadModules ms nms st of
      Inl e \<Rightarrow> root_cause e \<noteq> OutOfFuel
    | Inr ld \<Rightarrow>
        distinct (configured ld) \<and> set nms \<subseteq> set (configured ld) \<and>
        (\<forall>xs m ys k. configured ld = xs @ m # ys \<longrightarrow> required ms m k \<longrightarrow>
           k \<in> set (configured ld) \<and> (k \<in> set xs \<or> (required ms)\<^sup>+\<^sup>+ k m)))"
proof -
  let ?ld = "\<lparr>inj = st, loadedModules = [], configured = [], collected = []\<rparr>"
  have ok: "loading_ok ms ?ld" by (simp add: loading_ok_def ordered_def)
  have "card (to_load ms ?ld) \<le> length ms" by (simp add: to_load_def) (metis card_length length_map list.set_map)
  then have "\<forall>nm\<in>set nms. may_load ms (length ms + 2) nm ?ld" using ok by (simp add: may_load_def in_progress_def)
  note may = this
  have "load_result ms (set nms) ?ld (loadModules ms nms st)"
    unfolding loadModules_def by (rule each_module_loads [OF _ ok may]) (rule loadModule_loads)
  note res = this
  show ?thesis
  proof (cases "loadModules ms nms st")
    case (Inl e)
    with res show ?thesis by (simp add: load_result_def)
  next
    case (Inr ld)
    then have l: "loads ms (set nms) ?ld ld" using res by (simp add: load_result_def)
    then have ok': "loading_ok ms ld" and all: "set (configured ld) = set (loadedModules ld)"
      by (auto simp: loads_def in_progress_def loading_ok_def)
    have "k \<in> set (configured ld)" if "configured ld = xs @ m # ys" "required ms m k" for xs m ys k
    proof -
      have "m \<in> set (configured ld)" unfolding that(1) by simp
      with ok' that(2) show ?thesis unfolding loading_ok_def all by blast
    qed
    moreover have "distinct (configured ld)" "set nms \<subseteq> set (configured ld)" "ordered ms (configured ld)"
      using ok' l all by (simp_all add: loading_ok_def loads_def)
    ultimately show ?thesis unfolding Inr sum.case ordered_def by blast
  qed
qed

theorem modules_in_order_witness:
  defines "ms \<equiv> [(''app'', \<lparr>requires = [''ng'', ''ui''], invokeQueue = [Factory ''page'' [] (\<lambda>_. Gives (Some (1::nat)))], configBlocks = [], runBlocks = []\<rparr>),
      (''ui'', \<lparr>requires = [''ng''], invokeQueue = [], configBlocks = [], runBlocks = []\<rparr>),
      (''ng'', \<lparr>requires = [], invokeQueue = [], configBlocks = [], runBlocks = []\<rparr>)]"
  shows "\<exists>ld. loadModules ms [''app''] some_providers = Inr ld \<and> configured ld = [''ng'', ''ui'', ''app''] \<and> set [''app''] \<subseteq> set (configured ld)"
proof -
  have "(case loadModules ms [''app''] some_providers of Inl _ \<Rightarrow> False | Inr ld \<Rightarrow> configured ld = [''ng'', ''ui'', ''app''])"
    unfolding ms_def some_providers_def by code_simp
  then show ?thesis using modules_in_order [where ms = ms and nms = "[''app'']" and st = some_providers] by (auto split: sum.splits)
qed

end
